(* ===== verification/Prelude.thy ===== *)
theory Prelude
  imports Main "HOL-Library.Word" "HOL-Library.Sublist"
begin

text \<open>
  Shared vocabulary of the development: the engine's error model
  (\<^verbatim>\<open>include/agentengine/core/error.hpp\<close>), the width-typed integers, the string comparisons of
  the C++ standard library that the trust code relies on, and the generic lemmas on lists, prefixes
  and little-endian encodings that several components use.

  C++ strings are byte strings, as are Isabelle's \<^typ>\<open>string\<close>s. Human-readable error messages
  are not modelled: an error is its class and its stable code, which the sources themselves name as
  the two things policy and tests may match on.
\<close>

section \<open>Collections of facts\<close>

named_theorems codec_simps \<open>byte-level encoders\<close>

section \<open>Machine integers\<close>

type_synonym u8 = "8 word"
type_synonym u16 = "16 word"
type_synonym u32 = "32 word"
type_synonym u64 = "64 word"

lemma unat_inc: "x \<noteq> - 1 \<Longrightarrow> unat (x + 1) = Suc (unat x)" for x :: "'a::len word"
  by (metis add.commute add_eq_0_iff unatSuc)

lemma less_imp_not_max: "x < y \<Longrightarrow> x \<noteq> - 1" for x y :: "'a::len word"
  by (metis word_order.extremum_strict)

section \<open>The error model (core/error.hpp)\<close>

datatype failure_class = Transient | Policy | Contract | Resource | Fatal | Canceled

datatype error = Error (klass: failure_class) (code: string)

type_synonym 'a result = "error + 'a"

text \<open>\<^verbatim>\<open>failure_class_to_string\<close> and \<^verbatim>\<open>failure_class_from_string\<close>: the loop of the second tries
  the classes in declaration order.\<close>

fun failure_class_to_string :: "failure_class \<Rightarrow> string" where
  "failure_class_to_string Transient = ''transient''"
| "failure_class_to_string Policy = ''policy''"
| "failure_class_to_string Contract = ''contract''"
| "failure_class_to_string Resource = ''resource''"
| "failure_class_to_string Fatal = ''fatal''"
| "failure_class_to_string Canceled = ''canceled''"

definition failure_class_from_string :: "string \<Rightarrow> failure_class option" where
  "failure_class_from_string s =
     List.find (\<lambda>k. s = failure_class_to_string k)
       [Transient, Policy, Contract, Resource, Fatal, Canceled]"

datatype retry_budget = Shared | Fresh

fun is_retryable :: "failure_class \<Rightarrow> retry_budget \<Rightarrow> bool" where
  "is_retryable Transient b = True"
| "is_retryable Resource b = (b = Fresh)"
| "is_retryable Policy b = False"
| "is_retryable Contract b = False"
| "is_retryable Fatal b = False"
| "is_retryable Canceled b = False"

definition is_ok :: "'a result \<Rightarrow> bool" where
  "is_ok r = (case r of Inl e \<Rightarrow> False | Inr a \<Rightarrow> True)"

lemma is_ok_simps [simp]: "\<not> is_ok (Inl e)" "is_ok (Inr a)"
  by (simp_all add: is_ok_def)

lemma is_okE [elim]:
  assumes "is_ok r" obtains a where "r = Inr a"
  using assms by (cases r) auto

section \<open>Strings\<close>

text \<open>
  \<^verbatim>\<open>s.compare(0, p.size(), p) == 0\<close>: the first \<^verbatim>\<open>p.size()\<close> characters of \<^verbatim>\<open>s\<close> (all of
  \<^verbatim>\<open>s\<close> when it is shorter) equal \<^verbatim>\<open>p\<close>.
\<close>

definition starts_with :: "'a list \<Rightarrow> 'a list \<Rightarrow> bool" where
  "starts_with p s = (take (length p) s = p)"

lemma starts_with_prefix: "starts_with p s \<longleftrightarrow> prefix p s"
  by (metis append_eq_conv_conj append_take_drop_id prefixE prefixI starts_with_def)

lemma starts_with_refl [simp]: "starts_with p p"
  by (simp add: starts_with_def)

lemma starts_with_Nil [simp]: "starts_with [] s"
  by (simp add: starts_with_def)

lemma starts_with_trans: "starts_with p q \<Longrightarrow> starts_with q r \<Longrightarrow> starts_with p r"
  by (auto simp: starts_with_prefix)

lemma starts_with_length: "starts_with p s \<Longrightarrow> length p \<le> length s"
  by (auto simp: starts_with_prefix dest: prefix_length_le)

lemma starts_with_nth: "starts_with p s \<Longrightarrow> i < length p \<Longrightarrow> s ! i = p ! i"
  by (metis nth_take starts_with_def)

section \<open>Little-endian, length-prefixed encodings\<close>

text \<open>
  \<^verbatim>\<open>put_u32\<close>, \<^verbatim>\<open>put_u64\<close> and \<^verbatim>\<open>put_str\<close> occur twice in the sources with the same bodies:
  in \<^verbatim>\<open>src/trust/capability_token.cpp\<close> and in
  \<^verbatim>\<open>include/agentengine/core/worktree_types.hpp\<close>. Each appends to a byte vector; the model
  returns the appended bytes. The length of a string is cast to 32 bits before it is written, so
  the framing is unambiguous for strings shorter than \<open>2 ^ 32\<close> bytes only.
\<close>

definition byte_of_char :: "char \<Rightarrow> u8" where
  "byte_of_char c = of_nat (of_char c)"

definition char_of_byte :: "u8 \<Rightarrow> char" where
  "char_of_byte b = char_of (unat b)"

definition put_u32 :: "u32 \<Rightarrow> u8 list" where
  "put_u32 v = map (\<lambda>i. ucast (drop_bit (8 * i) v)) [0, 1, 2, 3]"

definition put_u64 :: "u64 \<Rightarrow> u8 list" where
  "put_u64 v = map (\<lambda>i. ucast (drop_bit (8 * i) v)) [0, 1, 2, 3, 4, 5, 6, 7]"

definition put_str :: "string \<Rightarrow> u8 list" where
  "put_str s = put_u32 (of_nat (length s)) @ map byte_of_char s"

lemma length_put_u32 [simp]: "length (put_u32 v) = 4"
  by (simp add: put_u32_def)

lemma length_put_u64 [simp]: "length (put_u64 v) = 8"
  by (simp add: put_u64_def)

text \<open>The encoders lose nothing: a word is determined by its little-endian bytes, and a
  length-prefixed string is recovered from the front of any longer byte sequence.\<close>

lemma le_bytes_inj:
  fixes v w :: "'a::len word"
  assumes "\<And>i. i < k \<Longrightarrow> (ucast (drop_bit (8 * i) v) :: u8) = ucast (drop_bit (8 * i) w)"
    and "LENGTH('a) \<le> 8 * k"
  shows "v = w"
proof (rule bit_word_eqI)
  fix n assume n: "n < LENGTH('a)"
  have "n div 8 < k" using n assms(2) by (simp add: less_mult_imp_div_less mult.commute)
  then have "bit (ucast (drop_bit (8 * (n div 8)) v) :: u8) (n mod 8)
      = bit (ucast (drop_bit (8 * (n div 8)) w) :: u8) (n mod 8)"
    using assms(1) by simp
  then show "bit v n \<longleftrightarrow> bit w n" by (simp add: bit_simps)
qed

lemma put_u32_inj [codec_simps]: "put_u32 v = put_u32 w \<longleftrightarrow> v = w"
proof
  assume "put_u32 v = put_u32 w"
  then have e: "\<forall>i \<in> {0, 1, 2, 3}. (ucast (drop_bit (8 * i) v) :: u8) = ucast (drop_bit (8 * i) w)"
    by (simp add: put_u32_def)
  have "(ucast (drop_bit (8 * i) v) :: u8) = ucast (drop_bit (8 * i) w)" if "i < 4" for i
  proof -
    from that have "i = 0 \<or> i = 1 \<or> i = 2 \<or> i = 3" by linarith
    with e show ?thesis by auto
  qed
  then show "v = w" using le_bytes_inj [of 4 v w] by simp
qed simp

lemma put_u64_inj [codec_simps]: "put_u64 v = put_u64 w \<longleftrightarrow> v = w"
proof
  assume "put_u64 v = put_u64 w"
  then have e: "\<forall>i \<in> {0, 1, 2, 3, 4, 5, 6, 7}.
      (ucast (drop_bit (8 * i) v) :: u8) = ucast (drop_bit (8 * i) w)"
    by (simp add: put_u64_def)
  have "(ucast (drop_bit (8 * i) v) :: u8) = ucast (drop_bit (8 * i) w)" if "i < 8" for i
  proof -
    from that have "i = 0 \<or> i = 1 \<or> i = 2 \<or> i = 3 \<or> i = 4 \<or> i = 5 \<or> i = 6 \<or> i = 7" by linarith
    with e show ?thesis by auto
  qed
  then show "v = w" using le_bytes_inj [of 8 v w] by simp
qed simp

lemma unat_byte_of_char: "unat (byte_of_char c) = of_char c"
proof -
  have "byte_of_char c = of_nat (of_char c)" by (simp add: byte_of_char_def)
  moreover have "(of_char c :: nat) < 2 ^ 8" using nat_of_char_less_256 [of c] by simp
  ultimately show ?thesis by (simp add: unsigned_of_nat take_bit_nat_eq_self)
qed

lemma char_of_byte_of_char [simp]: "char_of_byte (byte_of_char c) = c"
  by (simp add: char_of_byte_def unat_byte_of_char)

lemma map_char_of_byte [simp]: "map char_of_byte (map byte_of_char s) = s"
  by (simp add: map_idI)

lemma byte_of_char_of_byte [simp]: "byte_of_char (char_of_byte b) = b"
proof -
  have "unat b < 256" using unsigned_less [of b] by simp
  then show ?thesis by (simp add: byte_of_char_def char_of_byte_def)
qed

lemma byte_of_char_inj [codec_simps]: "byte_of_char c = byte_of_char d \<longleftrightarrow> c = d"
  by (metis char_of_char unat_byte_of_char)

lemma map_byte_of_char_inj [codec_simps]: "map byte_of_char s = map byte_of_char t \<longleftrightarrow> s = t"
  by (simp add: inj_map_eq_map inj_def byte_of_char_inj)

lemma length_put_str [simp]: "length (put_str s) = 4 + length s"
  by (simp add: put_str_def)

lemma unat_of_nat_small32: "n < 2 ^ 32 \<Longrightarrow> unat (of_nat n :: u32) = n"
  by (simp add: unsigned_of_nat take_bit_nat_eq_self)

lemma put_str_append_inj:
  assumes "put_str s @ xs = put_str t @ ys" and "length s < 2 ^ 32" and "length t < 2 ^ 32"
  shows "s = t \<and> xs = ys"
proof -
  from assms(1) have h: "put_u32 (of_nat (length s)) @ map byte_of_char s @ xs
      = put_u32 (of_nat (length t)) @ map byte_of_char t @ ys"
    by (simp add: put_str_def)
  then have "(of_nat (length s) :: u32) = of_nat (length t)"
    and r: "map byte_of_char s @ xs = map byte_of_char t @ ys"
    by (simp_all add: append_eq_append_conv codec_simps)
  then have "length s = length t"
    using assms(2,3) by (metis unat_of_nat_small32)
  with r show ?thesis by (simp add: append_eq_append_conv codec_simps)
qed

lemma put_str_inj:
  assumes "put_str s = put_str t" and "length s < 2 ^ 32" and "length t < 2 ^ 32"
  shows "s = t"
  using put_str_append_inj [of s "[]" t "[]"] assms by simp

section \<open>Decimal numbers\<close>

text \<open>What \<^verbatim>\<open>std::to_string\<close> and a stream print for an unsigned number, and the value of a run of
  digits, as \<^verbatim>\<open>std::stoull\<close> and \<^verbatim>\<open>std::from_chars\<close> read it.\<close>

definition digit_char :: "nat \<Rightarrow> char" where
  "digit_char n = char_of (48 + n)"

fun show_nat :: "nat \<Rightarrow> string" where
  "show_nat n = (if n < 10 then [digit_char n] else show_nat (n div 10) @ [digit_char (n mod 10)])"

declare show_nat.simps [simp del]

definition is_digit :: "char \<Rightarrow> bool" where
  "is_digit c = (48 \<le> (of_char c :: nat) \<and> (of_char c :: nat) \<le> 57)"

definition digits_value :: "string \<Rightarrow> nat" where
  "digits_value ds = foldl (\<lambda>a c. a * 10 + (of_char c - 48)) 0 ds"

lemma of_char_digit_char: "n < 10 \<Longrightarrow> of_char (digit_char n) = 48 + n"
  by (simp add: digit_char_def)

lemma show_nat_digits: "c \<in> set (show_nat n) \<Longrightarrow> is_digit c"
proof (induction n rule: show_nat.induct)
  case (1 n)
  then show ?case
    using show_nat.simps [of n]
    by (auto simp: is_digit_def of_char_digit_char split: if_splits)
qed

lemma digits_value_snoc: "digits_value (ds @ [c]) = digits_value ds * 10 + (of_char c - 48)"
  by (simp add: digits_value_def)

lemma digits_value_show_nat: "digits_value (show_nat n) = n"
proof (induction n rule: show_nat.induct)
  case (1 n)
  show ?case
  proof (cases "n < 10")
    case True
    then show ?thesis
      using show_nat.simps [of n] by (simp add: digits_value_def of_char_digit_char)
  next
    case False
    then have "digits_value (show_nat n) = digits_value (show_nat (n div 10)) * 10 + n mod 10"
      using show_nat.simps [of n] by (simp add: digits_value_snoc of_char_digit_char)
    with "1.IH" [OF False] show ?thesis by simp
  qed
qed

lemma show_nat_nonempty: "show_nat n \<noteq> []"
  using show_nat.simps [of n] by simp

lemma last_colon_unique:
  assumes "xs @ '':'' @ ds = ys @ '':'' @ es" and "CHR '':'' \<notin> set ds" and "CHR '':'' \<notin> set es"
  shows "xs = ys \<and> ds = es"
proof -
  from assms(1) have "rev ds @ CHR '':'' # rev xs = rev es @ CHR '':'' # rev ys"
    by (metis (no_types) append.assoc append_Cons append_Nil rev.simps(2) rev_append rev_rev_ident)
  moreover have "takeWhile (\<lambda>c. c \<noteq> CHR '':'') (rev zs @ CHR '':'' # ws) = rev zs"
    if "CHR '':'' \<notin> set zs" for zs ws
    using that by (subst takeWhile_append2) auto
  ultimately have "rev ds = rev es" using assms(2,3) by metis
  then show ?thesis using assms(1) by simp
qed

lemma show_nat_no_colon: "CHR '':'' \<notin> set (show_nat n)"
  using show_nat_digits by (fastforce simp: is_digit_def)

lemma show_nat_inj: "show_nat m = show_nat n \<Longrightarrow> m = n"
  by (metis digits_value_show_nat)

end
