(* ===== verification/Bounds.thy ===== *)
theory Bounds
  imports Prelude
begin

text \<open>
  Budgets and limits: \<^verbatim>\<open>Bound<T>\<close> and its compile-time spelling \<^verbatim>\<open>BoundValue<T>\<close>
  (\<^verbatim>\<open>core/bound.hpp\<close>, \<^verbatim>\<open>core/bound_value.hpp\<close>), and the depth budget of a chain of
  spawned agents, \<^verbatim>\<open>SpawnBudget\<close> (\<^verbatim>\<open>trust/spawn_budget.hpp\<close>).

  The theory also states the interface every notion of authority in the engine implements: a
  narrowing order. The locale \<open>narrowing\<close> holds what follows from reflexivity and transitivity
  alone (in particular that delegating through any number of steps never widens), and
  \<open>narrowing_meet\<close> adds the greatest lower bound that clamping relies on. Each order of the
  engine is an interpretation.
\<close>

section \<open>Narrowing orders\<close>

locale narrowing =
  fixes covers_by :: "'a \<Rightarrow> 'a \<Rightarrow> bool"
  assumes covers_refl: "covers_by x x"
    and covers_trans: "covers_by x y \<Longrightarrow> covers_by y z \<Longrightarrow> covers_by x z"
begin

lemma any_covers_trans:
  "\<exists>g\<in>set gs. covers_by g y \<Longrightarrow> covers_by y z \<Longrightarrow> \<exists>g\<in>set gs. covers_by g z"
  using covers_trans by blast

lemma all_any_refl: "\<forall>r\<in>set rs. \<exists>g\<in>set rs. covers_by g r"
  using covers_refl by blast

lemma all_any_trans:
  assumes "\<forall>y\<in>set ys. \<exists>x\<in>set xs. covers_by x y"
    and "\<forall>z\<in>set zs. \<exists>y\<in>set ys. covers_by y z"
  shows "\<forall>z\<in>set zs. \<exists>x\<in>set xs. covers_by x z"
  using assms covers_trans by meson

text \<open>A chain of narrowings, however long, ends below where it started.\<close>

lemma chain_covers:
  assumes "successively covers_by (x # xs)" and "y \<in> set (x # xs)"
  shows "covers_by x y"
  using assms
proof (induction xs arbitrary: x)
  case Nil
  then show ?case by (simp add: covers_refl)
next
  case (Cons a xs)
  then have a: "covers_by x a" and rest: "successively covers_by (a # xs)" by auto
  show ?case
  proof (cases "y = x")
    case True
    then show ?thesis by (simp add: covers_refl)
  next
    case False
    with Cons.prems(2) have "y \<in> set (a # xs)" by simp
    with rest have "covers_by a y" by (rule Cons.IH)
    with a show ?thesis by (rule covers_trans)
  qed
qed

end

locale narrowing_meet = narrowing covers_by
  for covers_by :: "'a \<Rightarrow> 'a \<Rightarrow> bool" +
  fixes meet :: "'a \<Rightarrow> 'a \<Rightarrow> 'a"
  assumes meet_left: "covers_by a (meet a b)"
    and meet_right: "covers_by b (meet a b)"
    and meet_greatest: "covers_by a c \<Longrightarrow> covers_by b c \<Longrightarrow> covers_by (meet a b) c"
begin

lemma meet_mono:
  assumes "covers_by a a'" and "covers_by b b'"
  shows "covers_by (meet a b) (meet a' b')"
  using assms by (meson covers_trans meet_greatest meet_left meet_right)

lemma covers_meet_iff: "covers_by (meet a b) c \<longleftrightarrow> covers_by a c \<and> covers_by b c"
  by (meson covers_trans meet_greatest meet_left meet_right)

end

section \<open>Bound (core/bound.hpp)\<close>

text \<open>
  \<^verbatim>\<open>Bound\<close> has a private constructor; its two factories build either a value or the unbounded
  marker (whose value field is always 0), so the class is this datatype.
\<close>

datatype 'a bound = At_most 'a | Unbounded

fun limit :: "'a bound \<Rightarrow> 'a option" where
  "limit Unbounded = None"
| "limit (At_most n) = Some n"

fun is_unbounded :: "'a bound \<Rightarrow> bool" where
  "is_unbounded Unbounded = True"
| "is_unbounded (At_most n) = False"

fun covers :: "'a::linorder bound \<Rightarrow> 'a bound \<Rightarrow> bool" where
  "covers Unbounded child = True"
| "covers (At_most n) Unbounded = False"
| "covers (At_most n) (At_most c) = (c \<le> n)"

fun tighter :: "'a::linorder bound \<Rightarrow> 'a bound \<Rightarrow> 'a bound" where
  "tighter Unbounded b = b"
| "tighter a Unbounded = a"
| "tighter (At_most m) (At_most n) = At_most (min m n)"

type_synonym Limit = "u64 bound"

definition check_bound :: "'a::zero bound \<Rightarrow> unit result" where
  "check_bound b = (if limit b = Some 0 then Inl (Error Contract ''choice.zero_bound'') else Inr ())"

interpretation bound: narrowing_meet covers tighter
proof (standard, goal_cases)
  case (1 x)
  show ?case by (cases x) auto
next
  case (2 x y z)
  then show ?case by (cases x; cases y; cases z) auto
next
  case (3 a b)
  show ?case by (cases a; cases b) auto
next
  case (4 b a)
  show ?case by (cases a; cases b) auto
next
  case (5 a c b)
  then show ?case by (cases a; cases b; cases c) auto
qed

lemma tighter_commute: "tighter a b = tighter b a"
  by (cases a; cases b) (auto simp: min.commute)

lemma tighter_assoc: "tighter (tighter a b) c = tighter a (tighter b c)"
  by (cases a; cases b; cases c) (auto simp: min.assoc)

lemma covers_iff_tighter: "covers a b \<longleftrightarrow> tighter a b = b"
  by (cases a; cases b) (auto simp: min_def)

lemma covers_antisym: "covers a b \<Longrightarrow> covers b a \<Longrightarrow> a = b"
  by (cases a; cases b) auto

lemma check_bound_iff: "is_ok (check_bound b) \<longleftrightarrow> b \<noteq> At_most 0"
  by (cases b) (auto simp: check_bound_def)

section \<open>BoundValue (core/bound_value.hpp)\<close>

record bound_value =
  bv_value :: u64
  bv_is_unbounded :: bool

definition to_bound :: "bound_value \<Rightarrow> Limit" where
  "to_bound b = (if bv_is_unbounded b then Unbounded else At_most (bv_value b))"

text \<open>The consteval factories; \<^verbatim>\<open>at_most(0)\<close> does not compile.\<close>

definition at_most_value :: "u64 \<Rightarrow> bound_value option" where
  "at_most_value n = (if n = 0 then None else Some \<lparr>bv_value = n, bv_is_unbounded = False\<rparr>)"

definition unbounded_value :: bound_value where
  "unbounded_value = \<lparr>bv_value = 0, bv_is_unbounded = True\<rparr>"

lemma factories_pass_check_bound:
  "at_most_value n = Some b \<Longrightarrow> is_ok (check_bound (to_bound b))"
  "is_ok (check_bound (to_bound unbounded_value))"
  by (auto simp: at_most_value_def unbounded_value_def to_bound_def check_bound_iff split: if_splits)

section \<open>SpawnBudget (trust/spawn_budget.hpp)\<close>

datatype spawn_budget = SpawnBudget (remaining_depth: u32)

definition mint_root_budget :: "u32 \<Rightarrow> spawn_budget" where
  "mint_root_budget max_depth = SpawnBudget max_depth"

definition attenuate_for_spawn :: "spawn_budget \<Rightarrow> spawn_budget result" where
  "attenuate_for_spawn b =
     (if remaining_depth b = 0 then Inl (Error Policy ''spawn_budget.depth_exhausted'')
      else Inr (SpawnBudget (remaining_depth b - 1)))"

text \<open>A chain of spawns: each level attenuates the budget it was handed.\<close>

fun spawn_chain :: "spawn_budget \<Rightarrow> nat \<Rightarrow> spawn_budget result" where
  "spawn_chain b 0 = Inr b"
| "spawn_chain b (Suc n) =
     (case attenuate_for_spawn b of Inl e \<Rightarrow> Inl e | Inr b' \<Rightarrow> spawn_chain b' n)"

lemma attenuate_for_spawn_unat:
  "attenuate_for_spawn b = Inr b' \<Longrightarrow> unat (remaining_depth b) = Suc (unat (remaining_depth b'))"
  by (auto simp: attenuate_for_spawn_def unat_minus_one split: if_splits)
    (metis Suc_pred unat_gt_0 unat_minus_one)

lemma attenuate_for_spawn_ok_iff: "is_ok (attenuate_for_spawn b) \<longleftrightarrow> 0 < unat (remaining_depth b)"
  by (auto simp: attenuate_for_spawn_def unat_gt_0)

lemma spawn_chain_Inr:
  "spawn_chain b n = Inr b' \<Longrightarrow> unat (remaining_depth b) = n + unat (remaining_depth b')"
proof (induction n arbitrary: b)
  case 0
  then show ?case by simp
next
  case (Suc n)
  then obtain c where c: "attenuate_for_spawn b = Inr c" and "spawn_chain c n = Inr b'"
    by (auto split: sum.splits)
  then have "unat (remaining_depth c) = n + unat (remaining_depth b')" by (blast intro: Suc.IH)
  with attenuate_for_spawn_unat [OF c] show ?case by simp
qed

lemma spawn_chain_ok_iff: "is_ok (spawn_chain b n) \<longleftrightarrow> n \<le> unat (remaining_depth b)"
proof (induction n arbitrary: b)
  case 0
  then show ?case by simp
next
  case (Suc n)
  show ?case
  proof (cases "attenuate_for_spawn b")
    case (Inl e)
    then show ?thesis using attenuate_for_spawn_ok_iff [of b] by simp
  next
    case (Inr c)
    then show ?thesis using Suc.IH [of c] attenuate_for_spawn_unat [OF Inr] by simp
  qed
qed

end
