(* ===== verification/Capabilities.thy ===== *)
theory Capabilities
  imports Bounds
begin

text \<open>
  The capability model of \<^verbatim>\<open>include/agentengine/trust/capability.hpp\<close>: the 23 kinds of
  authority with their parameters, the narrowing order \<^verbatim>\<open>subsumes\<close>, the quantity clamp used to
  bind a grant-enforcing tool, the capability set with its lookups, and the per-invocation handles
  that every copy of shares one revocable ticket.

  Quantities keep their width (\<^typ>\<open>u64\<close>, \<^typ>\<open>u32\<close>, \<^typ>\<open>u16\<close>); \<^verbatim>\<open>std::chrono\<close>
  durations are signed counts and are \<^typ>\<open>int\<close>s here, since the code only compares them. The
  order is shown to be a preorder (\<open>cap\<close>, an interpretation of the locale
  \<open>narrowing\<close>), so sets, attenuation chains and ceilings inherit the locale's lemmas.
\<close>

section \<open>Kinds and payloads\<close>

datatype capability_kind =
    K_fs_read | K_fs_write | K_net_out | K_net_listen | K_secret | K_tool_call | K_runner_call
  | K_exec | K_clock | K_entropy | K_env_read | K_env_write | K_agent_call | K_schedule
  | K_background | K_elicit | K_native_exec | K_sandbox_mount | K_sandbox_net_out | K_task_branch
  | K_task_branch_commit | K_run_command | K_unmediated_shell

record fs_read =
  fr_mount_id :: string
  fr_path_prefix :: string
  fr_size_cap_bytes :: Limit

record fs_write =
  fw_mount_id :: string
  fw_path_prefix :: string
  fw_quota_bytes :: Limit
  fw_file_count_cap :: Limit

record net_out =
  no_host_allowlist :: "string list"
  no_byte_cap :: Limit
  no_method_restrictions :: "string list"

record net_listen =
  nl_port_allowlist :: "u16 list"

record secret =
  se_name :: string
  se_ttl :: int

record tool_call =
  tc_tool_name :: string

record runner_call =
  rc_runner_name :: string

record exec =
  ex_profile_name :: string
  ex_cpu_ms_cap :: Limit
  ex_wall_ms_cap :: Limit
  ex_memory_bytes_cap :: Limit

text \<open>\<^verbatim>\<open>ClockResolution\<close>: \<^verbatim>\<open>finest()\<close> is 0 milliseconds.\<close>

datatype clock_resolution = ClockResolution (ms: int)

definition finest :: clock_resolution where
  "finest = ClockResolution 0"

definition at_resolution :: "int \<Rightarrow> clock_resolution" where
  "at_resolution n = ClockResolution n"

definition is_finest :: "clock_resolution \<Rightarrow> bool" where
  "is_finest r = (ms r = 0)"

record clock =
  cl_resolution :: clock_resolution

record env_read =
  er_key :: string

record env_write =
  ew_key :: string

record agent_call =
  ac_agent_id :: string
  ac_budget :: spawn_budget

record schedule =
  sc_max_horizon :: int
  sc_max_active :: u32

record background =
  bg_max_concurrent :: u32

record unmediated_shell =
  us_surface :: string
  us_network :: bool

record native_exec =
  ne_program_pattern :: string
  ne_worktree_mount_id :: string
  ne_cpu_ms_cap :: Limit
  ne_wall_ms_cap :: Limit
  ne_memory_bytes_cap :: Limit
  ne_live_session :: bool
  ne_session_wall_ms_cap :: Limit
  ne_max_processes :: Limit

record sandbox_mount =
  sm_host_path_prefix :: string
  sm_guest_path_prefix :: string
  sm_read_write :: bool

record sandbox_net_out =
  sn_host_allowlist :: "string list"

text \<open>The variant \<^verbatim>\<open>Capability\<close>, its alternatives in the order of the source.\<close>

datatype capability =
    FsRead fs_read | FsWrite fs_write | NetOut net_out | NetListen net_listen | Secret secret
  | ToolCall tool_call | RunnerCall runner_call | Exec exec | Clock clock | Entropy
  | EnvRead env_read | EnvWrite env_write | AgentCall agent_call | Schedule schedule
  | Background background | Elicit | NativeExec native_exec | SandboxMount sandbox_mount
  | SandboxNetOut sandbox_net_out | TaskBranch | TaskBranchCommit | RunCommand
  | UnmediatedShell unmediated_shell

primrec capability_kind_of :: "capability \<Rightarrow> capability_kind" where
  "capability_kind_of (FsRead c) = K_fs_read"
| "capability_kind_of (FsWrite c) = K_fs_write"
| "capability_kind_of (NetOut c) = K_net_out"
| "capability_kind_of (NetListen c) = K_net_listen"
| "capability_kind_of (Secret c) = K_secret"
| "capability_kind_of (ToolCall c) = K_tool_call"
| "capability_kind_of (RunnerCall c) = K_runner_call"
| "capability_kind_of (Exec c) = K_exec"
| "capability_kind_of (Clock c) = K_clock"
| "capability_kind_of Entropy = K_entropy"
| "capability_kind_of (EnvRead c) = K_env_read"
| "capability_kind_of (EnvWrite c) = K_env_write"
| "capability_kind_of (AgentCall c) = K_agent_call"
| "capability_kind_of (Schedule c) = K_schedule"
| "capability_kind_of (Background c) = K_background"
| "capability_kind_of Elicit = K_elicit"
| "capability_kind_of (NativeExec c) = K_native_exec"
| "capability_kind_of (SandboxMount c) = K_sandbox_mount"
| "capability_kind_of (SandboxNetOut c) = K_sandbox_net_out"
| "capability_kind_of TaskBranch = K_task_branch"
| "capability_kind_of TaskBranchCommit = K_task_branch_commit"
| "capability_kind_of RunCommand = K_run_command"
| "capability_kind_of (UnmediatedShell c) = K_unmediated_shell"

primrec capability_from_kind :: "capability_kind \<Rightarrow> capability" where
  "capability_from_kind K_fs_read =
     FsRead \<lparr>fr_mount_id = [], fr_path_prefix = [], fr_size_cap_bytes = Unbounded\<rparr>"
| "capability_from_kind K_fs_write =
     FsWrite \<lparr>fw_mount_id = [], fw_path_prefix = [], fw_quota_bytes = Unbounded,
              fw_file_count_cap = Unbounded\<rparr>"
| "capability_from_kind K_net_out =
     NetOut \<lparr>no_host_allowlist = [], no_byte_cap = Unbounded, no_method_restrictions = []\<rparr>"
| "capability_from_kind K_net_listen = NetListen \<lparr>nl_port_allowlist = []\<rparr>"
| "capability_from_kind K_secret = Secret \<lparr>se_name = [], se_ttl = 0\<rparr>"
| "capability_from_kind K_tool_call = ToolCall \<lparr>tc_tool_name = []\<rparr>"
| "capability_from_kind K_runner_call = RunnerCall \<lparr>rc_runner_name = []\<rparr>"
| "capability_from_kind K_exec =
     Exec \<lparr>ex_profile_name = [], ex_cpu_ms_cap = Unbounded, ex_wall_ms_cap = Unbounded,
           ex_memory_bytes_cap = Unbounded\<rparr>"
| "capability_from_kind K_clock = Clock \<lparr>cl_resolution = finest\<rparr>"
| "capability_from_kind K_entropy = Entropy"
| "capability_from_kind K_env_read = EnvRead \<lparr>er_key = []\<rparr>"
| "capability_from_kind K_env_write = EnvWrite \<lparr>ew_key = []\<rparr>"
| "capability_from_kind K_agent_call =
     AgentCall \<lparr>ac_agent_id = [], ac_budget = mint_root_budget 0\<rparr>"
| "capability_from_kind K_schedule = Schedule \<lparr>sc_max_horizon = 0, sc_max_active = 0\<rparr>"
| "capability_from_kind K_background = Background \<lparr>bg_max_concurrent = 0\<rparr>"
| "capability_from_kind K_elicit = Elicit"
| "capability_from_kind K_native_exec =
     NativeExec \<lparr>ne_program_pattern = [], ne_worktree_mount_id = [], ne_cpu_ms_cap = Unbounded,
                 ne_wall_ms_cap = Unbounded, ne_memory_bytes_cap = Unbounded,
                 ne_live_session = False, ne_session_wall_ms_cap = Unbounded,
                 ne_max_processes = Unbounded\<rparr>"
| "capability_from_kind K_sandbox_mount =
     SandboxMount \<lparr>sm_host_path_prefix = [], sm_guest_path_prefix = [], sm_read_write = False\<rparr>"
| "capability_from_kind K_sandbox_net_out = SandboxNetOut \<lparr>sn_host_allowlist = []\<rparr>"
| "capability_from_kind K_task_branch = TaskBranch"
| "capability_from_kind K_task_branch_commit = TaskBranchCommit"
| "capability_from_kind K_run_command = RunCommand"
| "capability_from_kind K_unmediated_shell = UnmediatedShell \<lparr>us_surface = [], us_network = True\<rparr>"

lemma capability_kind_of_from_kind [simp]: "capability_kind_of (capability_from_kind k) = k"
  by (cases k) simp_all

primrec is_inert_for_text_derived_declassification :: "capability_kind \<Rightarrow> bool" where
  "is_inert_for_text_derived_declassification K_fs_read = True"
| "is_inert_for_text_derived_declassification K_clock = True"
| "is_inert_for_text_derived_declassification K_entropy = True"
| "is_inert_for_text_derived_declassification K_fs_write = False"
| "is_inert_for_text_derived_declassification K_net_out = False"
| "is_inert_for_text_derived_declassification K_net_listen = False"
| "is_inert_for_text_derived_declassification K_secret = False"
| "is_inert_for_text_derived_declassification K_env_read = False"
| "is_inert_for_text_derived_declassification K_env_write = False"
| "is_inert_for_text_derived_declassification K_exec = False"
| "is_inert_for_text_derived_declassification K_tool_call = False"
| "is_inert_for_text_derived_declassification K_runner_call = False"
| "is_inert_for_text_derived_declassification K_agent_call = False"
| "is_inert_for_text_derived_declassification K_schedule = False"
| "is_inert_for_text_derived_declassification K_background = False"
| "is_inert_for_text_derived_declassification K_elicit = False"
| "is_inert_for_text_derived_declassification K_native_exec = False"
| "is_inert_for_text_derived_declassification K_sandbox_mount = False"
| "is_inert_for_text_derived_declassification K_sandbox_net_out = False"
| "is_inert_for_text_derived_declassification K_task_branch = False"
| "is_inert_for_text_derived_declassification K_task_branch_commit = False"
| "is_inert_for_text_derived_declassification K_run_command = False"
| "is_inert_for_text_derived_declassification K_unmediated_shell = False"

section \<open>Declaration tags (namespace cap::decl)\<close>

text \<open>
  The compile-time tags of \<^verbatim>\<open>Capabilities<...>\<close>, with their template arguments as constructor
  arguments, and the overload set \<^verbatim>\<open>to_capability\<close>.
\<close>

datatype cap_decl =
    D_FsRead string bound_value
  | D_FsWrite string bound_value bound_value
  | D_NetOut string bound_value
  | D_NetListen
  | D_Secret string
  | D_ToolCall string
  | D_RunnerCall string
  | D_Exec string bound_value bound_value bound_value
  | D_Clock u64
  | D_Entropy
  | D_EnvRead string
  | D_EnvWrite string
  | D_AgentCall string u32
  | D_Schedule u64 u32
  | D_Background u32
  | D_Elicit
  | D_TaskBranch
  | D_TaskBranchCommit
  | D_RunCommand
  | D_UnmediatedShell string bool
  | D_NativeExec string string bound_value bound_value bound_value bool bound_value bound_value

text \<open>\<^verbatim>\<open>std::chrono\<close> durations built from a 64-bit template argument: the conversion to the signed
  representation.\<close>

primrec to_capability :: "cap_decl \<Rightarrow> capability" where
  "to_capability (D_FsRead mount size_cap) =
     FsRead \<lparr>fr_mount_id = mount, fr_path_prefix = [], fr_size_cap_bytes = to_bound size_cap\<rparr>"
| "to_capability (D_FsWrite mount quota files) =
     FsWrite \<lparr>fw_mount_id = mount, fw_path_prefix = [], fw_quota_bytes = to_bound quota,
              fw_file_count_cap = to_bound files\<rparr>"
| "to_capability (D_NetOut host bytes) =
     NetOut \<lparr>no_host_allowlist = [host], no_byte_cap = to_bound bytes, no_method_restrictions = []\<rparr>"
| "to_capability D_NetListen = NetListen \<lparr>nl_port_allowlist = []\<rparr>"
| "to_capability (D_Secret n) = Secret \<lparr>se_name = n, se_ttl = 0\<rparr>"
| "to_capability (D_ToolCall n) = ToolCall \<lparr>tc_tool_name = n\<rparr>"
| "to_capability (D_RunnerCall n) = RunnerCall \<lparr>rc_runner_name = n\<rparr>"
| "to_capability (D_Exec profile cpu wall mem) =
     Exec \<lparr>ex_profile_name = profile, ex_cpu_ms_cap = to_bound cpu, ex_wall_ms_cap = to_bound wall,
           ex_memory_bytes_cap = to_bound mem\<rparr>"
| "to_capability (D_Clock r) =
     Clock \<lparr>cl_resolution = (if r = 0 then finest else at_resolution (sint r))\<rparr>"
| "to_capability D_Entropy = Entropy"
| "to_capability (D_EnvRead k) = EnvRead \<lparr>er_key = k\<rparr>"
| "to_capability (D_EnvWrite k) = EnvWrite \<lparr>ew_key = k\<rparr>"
| "to_capability (D_AgentCall a depth) =
     AgentCall \<lparr>ac_agent_id = a, ac_budget = mint_root_budget depth\<rparr>"
| "to_capability (D_Schedule horizon active) =
     Schedule \<lparr>sc_max_horizon = sint horizon, sc_max_active = active\<rparr>"
| "to_capability (D_Background n) = Background \<lparr>bg_max_concurrent = n\<rparr>"
| "to_capability D_Elicit = Elicit"
| "to_capability D_TaskBranch = TaskBranch"
| "to_capability D_TaskBranchCommit = TaskBranchCommit"
| "to_capability D_RunCommand = RunCommand"
| "to_capability (D_UnmediatedShell surface network) =
     UnmediatedShell \<lparr>us_surface = surface, us_network = network\<rparr>"
| "to_capability (D_NativeExec prog mount cpu wall mem live swall procs) =
     NativeExec \<lparr>ne_program_pattern = prog, ne_worktree_mount_id = mount,
                 ne_cpu_ms_cap = to_bound cpu, ne_wall_ms_cap = to_bound wall,
                 ne_memory_bytes_cap = to_bound mem, ne_live_session = live,
                 ne_session_wall_ms_cap = to_bound swall, ne_max_processes = to_bound procs\<rparr>"


section \<open>Coverage of scopes\<close>

definition path_prefix_covers :: "string \<Rightarrow> string \<Rightarrow> bool" where
  "path_prefix_covers parent_prefix requested_prefix =
     (if parent_prefix = [] then True
      else if length requested_prefix < length parent_prefix then False
      else if \<not> starts_with parent_prefix requested_prefix then False
      else length requested_prefix = length parent_prefix \<or> last parent_prefix = CHR ''/''
           \<or> requested_prefix ! length parent_prefix = CHR ''/'')"

definition native_exec_pattern_covers :: "string \<Rightarrow> string \<Rightarrow> bool" where
  "native_exec_pattern_covers parent_pattern requested_pattern =
     (if parent_pattern = requested_pattern then True
      else if parent_pattern \<noteq> [] \<and> last parent_pattern = CHR ''*'' then
        (if CHR ''*'' \<in> set requested_pattern then False
         else starts_with (butlast parent_pattern) requested_pattern)
      else False)"

definition cap_covers :: "Limit \<Rightarrow> Limit \<Rightarrow> bool" where
  "cap_covers parent_cap requested_cap = covers parent_cap requested_cap"

text \<open>The loop over a requested allowlist: every entry must be found in the parent's.\<close>

definition allowlist_covers :: "'a list \<Rightarrow> 'a list \<Rightarrow> bool" where
  "allowlist_covers parent requested =
     (if parent \<noteq> [] \<and> requested = [] then False else list_all (\<lambda>h. h \<in> set parent) requested)"

lemma path_prefix_covers_iff:
  "path_prefix_covers p r \<longleftrightarrow>
     p = [] \<or> starts_with p r \<and> (length r = length p \<or> last p = CHR ''/'' \<or> r ! length p = CHR ''/'')"
  by (auto simp: path_prefix_covers_def dest: starts_with_length)

lemma path_prefix_covers_trans:
  assumes "path_prefix_covers p q" and "path_prefix_covers q r"
  shows "path_prefix_covers p r"
proof (cases "p = [] \<or> p = q \<or> q = []")
  case True
  then show ?thesis using assms by (auto simp: path_prefix_covers_iff starts_with_def)
next
  case False
  then have pq: "starts_with p q" and qr: "starts_with q r"
    using assms by (auto simp: path_prefix_covers_iff)
  have len: "length p < length q"
    using pq False by (metis starts_with_def starts_with_length le_neq_implies_less order_refl take_all)
  have "last p = CHR ''/'' \<or> q ! length p = CHR ''/''"
    using assms(1) False len by (auto simp: path_prefix_covers_iff)
  then show ?thesis
    using starts_with_trans [OF pq qr] starts_with_nth [OF qr len]
    by (auto simp: path_prefix_covers_iff)
qed

lemma path_prefix_covers_refl [simp]: "path_prefix_covers p p"
  by (simp add: path_prefix_covers_iff)

interpretation path: narrowing path_prefix_covers
  by standard (blast intro: path_prefix_covers_refl path_prefix_covers_trans)+

lemma native_exec_pattern_covers_trans:
  assumes "native_exec_pattern_covers p q" and "native_exec_pattern_covers q r"
  shows "native_exec_pattern_covers p r"
proof (cases "p = q \<or> q = r")
  case True
  then show ?thesis using assms by auto
next
  case False
  with assms(1) have "CHR ''*'' \<notin> set q"
    by (auto simp: native_exec_pattern_covers_def split: if_splits)
  with False assms(2) have False
    by (auto simp: native_exec_pattern_covers_def split: if_splits dest: last_in_set)
  then show ?thesis ..
qed

interpretation pattern: narrowing native_exec_pattern_covers
  by standard (simp add: native_exec_pattern_covers_def, blast intro: native_exec_pattern_covers_trans)

interpretation allowlist: narrowing allowlist_covers
  by standard (auto simp: allowlist_covers_def list_all_iff split: if_splits)

lemma cap_covers_refl [simp]: "cap_covers l l"
  by (simp add: cap_covers_def bound.covers_refl)

lemma cap_covers_trans: "cap_covers a b \<Longrightarrow> cap_covers b c \<Longrightarrow> cap_covers a c"
  unfolding cap_covers_def by (rule bound.covers_trans)

section \<open>Subsumption\<close>

text \<open>One \<^verbatim>\<open>subsumes_payload\<close> overload per kind.\<close>

definition subsumes_fs_read :: "fs_read \<Rightarrow> fs_read \<Rightarrow> bool" where
  "subsumes_fs_read parent requested =
     (fr_mount_id parent = fr_mount_id requested
      \<and> path_prefix_covers (fr_path_prefix parent) (fr_path_prefix requested)
      \<and> cap_covers (fr_size_cap_bytes parent) (fr_size_cap_bytes requested))"

definition subsumes_fs_write :: "fs_write \<Rightarrow> fs_write \<Rightarrow> bool" where
  "subsumes_fs_write parent requested =
     (fw_mount_id parent = fw_mount_id requested
      \<and> path_prefix_covers (fw_path_prefix parent) (fw_path_prefix requested)
      \<and> cap_covers (fw_quota_bytes parent) (fw_quota_bytes requested)
      \<and> cap_covers (fw_file_count_cap parent) (fw_file_count_cap requested))"

definition subsumes_net_out :: "net_out \<Rightarrow> net_out \<Rightarrow> bool" where
  "subsumes_net_out parent requested =
     (if no_host_allowlist parent \<noteq> [] \<and> no_host_allowlist requested = [] then False
      else if \<not> list_all (\<lambda>h. h \<in> set (no_host_allowlist parent)) (no_host_allowlist requested) then False
      else if \<not> cap_covers (no_byte_cap parent) (no_byte_cap requested) then False
      else if no_method_restrictions parent \<noteq> [] then
        (if no_method_restrictions requested = [] then False
         else list_all (\<lambda>m. m \<in> set (no_method_restrictions parent)) (no_method_restrictions requested))
      else True)"

definition subsumes_net_listen :: "net_listen \<Rightarrow> net_listen \<Rightarrow> bool" where
  "subsumes_net_listen parent requested =
     allowlist_covers (nl_port_allowlist parent) (nl_port_allowlist requested)"

definition subsumes_secret :: "secret \<Rightarrow> secret \<Rightarrow> bool" where
  "subsumes_secret parent requested =
     (se_name parent = se_name requested \<and> se_ttl requested \<le> se_ttl parent)"

definition subsumes_exec :: "exec \<Rightarrow> exec \<Rightarrow> bool" where
  "subsumes_exec parent requested =
     (ex_profile_name parent = ex_profile_name requested
      \<and> cap_covers (ex_cpu_ms_cap parent) (ex_cpu_ms_cap requested)
      \<and> cap_covers (ex_wall_ms_cap parent) (ex_wall_ms_cap requested)
      \<and> cap_covers (ex_memory_bytes_cap parent) (ex_memory_bytes_cap requested))"

definition subsumes_clock :: "clock \<Rightarrow> clock \<Rightarrow> bool" where
  "subsumes_clock parent requested = (ms (cl_resolution parent) \<le> ms (cl_resolution requested))"

definition subsumes_agent_call :: "agent_call \<Rightarrow> agent_call \<Rightarrow> bool" where
  "subsumes_agent_call parent requested =
     (ac_agent_id parent = ac_agent_id requested
      \<and> remaining_depth (ac_budget requested) \<le> remaining_depth (ac_budget parent))"

definition subsumes_schedule :: "schedule \<Rightarrow> schedule \<Rightarrow> bool" where
  "subsumes_schedule parent requested =
     (sc_max_horizon requested \<le> sc_max_horizon parent
      \<and> sc_max_active requested \<le> sc_max_active parent)"

definition subsumes_background :: "background \<Rightarrow> background \<Rightarrow> bool" where
  "subsumes_background parent requested = (bg_max_concurrent requested \<le> bg_max_concurrent parent)"

definition subsumes_unmediated_shell :: "unmediated_shell \<Rightarrow> unmediated_shell \<Rightarrow> bool" where
  "subsumes_unmediated_shell parent requested =
     (us_surface parent = us_surface requested \<and> (us_network parent \<or> \<not> us_network requested))"

definition subsumes_native_exec :: "native_exec \<Rightarrow> native_exec \<Rightarrow> bool" where
  "subsumes_native_exec parent requested =
     (native_exec_pattern_covers (ne_program_pattern parent) (ne_program_pattern requested)
      \<and> ne_worktree_mount_id parent = ne_worktree_mount_id requested
      \<and> cap_covers (ne_cpu_ms_cap parent) (ne_cpu_ms_cap requested)
      \<and> cap_covers (ne_wall_ms_cap parent) (ne_wall_ms_cap requested)
      \<and> cap_covers (ne_memory_bytes_cap parent) (ne_memory_bytes_cap requested)
      \<and> (ne_live_session parent \<or> \<not> ne_live_session requested)
      \<and> cap_covers (ne_session_wall_ms_cap parent) (ne_session_wall_ms_cap requested)
      \<and> cap_covers (ne_max_processes parent) (ne_max_processes requested))"

definition subsumes_sandbox_mount :: "sandbox_mount \<Rightarrow> sandbox_mount \<Rightarrow> bool" where
  "subsumes_sandbox_mount parent requested =
     (path_prefix_covers (sm_host_path_prefix parent) (sm_host_path_prefix requested)
      \<and> path_prefix_covers (sm_guest_path_prefix parent) (sm_guest_path_prefix requested)
      \<and> (sm_read_write parent \<or> \<not> sm_read_write requested))"

definition subsumes_sandbox_net_out :: "sandbox_net_out \<Rightarrow> sandbox_net_out \<Rightarrow> bool" where
  "subsumes_sandbox_net_out parent requested =
     allowlist_covers (sn_host_allowlist parent) (sn_host_allowlist requested)"

text \<open>\<^verbatim>\<open>subsumes\<close>: same alternative, and the payloads compared by that alternative's overload.\<close>

definition subsumes :: "capability \<Rightarrow> capability \<Rightarrow> bool" where
  "subsumes parent requested =
     (case requested of
        FsRead r \<Rightarrow> (case parent of FsRead p \<Rightarrow> subsumes_fs_read p r | _ \<Rightarrow> False)
      | FsWrite r \<Rightarrow> (case parent of FsWrite p \<Rightarrow> subsumes_fs_write p r | _ \<Rightarrow> False)
      | NetOut r \<Rightarrow> (case parent of NetOut p \<Rightarrow> subsumes_net_out p r | _ \<Rightarrow> False)
      | NetListen r \<Rightarrow> (case parent of NetListen p \<Rightarrow> subsumes_net_listen p r | _ \<Rightarrow> False)
      | Secret r \<Rightarrow> (case parent of Secret p \<Rightarrow> subsumes_secret p r | _ \<Rightarrow> False)
      | ToolCall r \<Rightarrow> (case parent of ToolCall p \<Rightarrow> tc_tool_name p = tc_tool_name r | _ \<Rightarrow> False)
      | RunnerCall r \<Rightarrow> (case parent of RunnerCall p \<Rightarrow> rc_runner_name p = rc_runner_name r | _ \<Rightarrow> False)
      | Exec r \<Rightarrow> (case parent of Exec p \<Rightarrow> subsumes_exec p r | _ \<Rightarrow> False)
      | Clock r \<Rightarrow> (case parent of Clock p \<Rightarrow> subsumes_clock p r | _ \<Rightarrow> False)
      | Entropy \<Rightarrow> parent = Entropy
      | EnvRead r \<Rightarrow> (case parent of EnvRead p \<Rightarrow> er_key p = er_key r | _ \<Rightarrow> False)
      | EnvWrite r \<Rightarrow> (case parent of EnvWrite p \<Rightarrow> ew_key p = ew_key r | _ \<Rightarrow> False)
      | AgentCall r \<Rightarrow> (case parent of AgentCall p \<Rightarrow> subsumes_agent_call p r | _ \<Rightarrow> False)
      | Schedule r \<Rightarrow> (case parent of Schedule p \<Rightarrow> subsumes_schedule p r | _ \<Rightarrow> False)
      | Background r \<Rightarrow> (case parent of Background p \<Rightarrow> subsumes_background p r | _ \<Rightarrow> False)
      | Elicit \<Rightarrow> parent = Elicit
      | NativeExec r \<Rightarrow> (case parent of NativeExec p \<Rightarrow> subsumes_native_exec p r | _ \<Rightarrow> False)
      | SandboxMount r \<Rightarrow> (case parent of SandboxMount p \<Rightarrow> subsumes_sandbox_mount p r | _ \<Rightarrow> False)
      | SandboxNetOut r \<Rightarrow> (case parent of SandboxNetOut p \<Rightarrow> subsumes_sandbox_net_out p r | _ \<Rightarrow> False)
      | TaskBranch \<Rightarrow> parent = TaskBranch
      | TaskBranchCommit \<Rightarrow> parent = TaskBranchCommit
      | RunCommand \<Rightarrow> parent = RunCommand
      | UnmediatedShell r \<Rightarrow>
          (case parent of UnmediatedShell p \<Rightarrow> subsumes_unmediated_shell p r | _ \<Rightarrow> False))"

lemmas subsumes_payload_defs =
  subsumes_fs_read_def subsumes_fs_write_def subsumes_net_listen_def
  subsumes_secret_def subsumes_exec_def subsumes_clock_def subsumes_agent_call_def
  subsumes_schedule_def subsumes_background_def subsumes_unmediated_shell_def
  subsumes_native_exec_def subsumes_sandbox_mount_def subsumes_sandbox_net_out_def

lemma subsumes_net_out_iff:
  "subsumes_net_out p r \<longleftrightarrow>
     allowlist_covers (no_host_allowlist p) (no_host_allowlist r)
     \<and> cap_covers (no_byte_cap p) (no_byte_cap r)
     \<and> (no_method_restrictions p \<noteq> [] \<longrightarrow>
          allowlist_covers (no_method_restrictions p) (no_method_restrictions r))"
  by (auto simp: subsumes_net_out_def allowlist_covers_def)

text \<open>The parent of a subsumed capability is of the same kind: the inversion rules.\<close>

lemma subsumes_requested_simps [simp]:
  "subsumes p (FsRead r) \<longleftrightarrow> (\<exists>q. p = FsRead q \<and> subsumes_fs_read q r)"
  "subsumes p (FsWrite r2) \<longleftrightarrow> (\<exists>q. p = FsWrite q \<and> subsumes_fs_write q r2)"
  "subsumes p (NetOut r3) \<longleftrightarrow> (\<exists>q. p = NetOut q \<and> subsumes_net_out q r3)"
  "subsumes p (NetListen r4) \<longleftrightarrow> (\<exists>q. p = NetListen q \<and> subsumes_net_listen q r4)"
  "subsumes p (Secret r5) \<longleftrightarrow> (\<exists>q. p = Secret q \<and> subsumes_secret q r5)"
  "subsumes p (ToolCall r6) \<longleftrightarrow> (\<exists>q. p = ToolCall q \<and> tc_tool_name q = tc_tool_name r6)"
  "subsumes p (RunnerCall r7) \<longleftrightarrow> (\<exists>q. p = RunnerCall q \<and> rc_runner_name q = rc_runner_name r7)"
  "subsumes p (Exec r8) \<longleftrightarrow> (\<exists>q. p = Exec q \<and> subsumes_exec q r8)"
  "subsumes p (Clock r9) \<longleftrightarrow> (\<exists>q. p = Clock q \<and> subsumes_clock q r9)"
  "subsumes p Entropy \<longleftrightarrow> p = Entropy"
  "subsumes p (EnvRead r10) \<longleftrightarrow> (\<exists>q. p = EnvRead q \<and> er_key q = er_key r10)"
  "subsumes p (EnvWrite r11) \<longleftrightarrow> (\<exists>q. p = EnvWrite q \<and> ew_key q = ew_key r11)"
  by (cases p; simp add: subsumes_def)+

lemma subsumes_requested_simps' [simp]:
  "subsumes p (AgentCall r) \<longleftrightarrow> (\<exists>q. p = AgentCall q \<and> subsumes_agent_call q r)"
  "subsumes p (Schedule r2) \<longleftrightarrow> (\<exists>q. p = Schedule q \<and> subsumes_schedule q r2)"
  "subsumes p (Background r3) \<longleftrightarrow> (\<exists>q. p = Background q \<and> subsumes_background q r3)"
  "subsumes p Elicit \<longleftrightarrow> p = Elicit"
  "subsumes p (NativeExec r4) \<longleftrightarrow> (\<exists>q. p = NativeExec q \<and> subsumes_native_exec q r4)"
  "subsumes p (SandboxMount r5) \<longleftrightarrow> (\<exists>q. p = SandboxMount q \<and> subsumes_sandbox_mount q r5)"
  "subsumes p (SandboxNetOut r6) \<longleftrightarrow> (\<exists>q. p = SandboxNetOut q \<and> subsumes_sandbox_net_out q r6)"
  "subsumes p TaskBranch \<longleftrightarrow> p = TaskBranch"
  "subsumes p TaskBranchCommit \<longleftrightarrow> p = TaskBranchCommit"
  "subsumes p RunCommand \<longleftrightarrow> p = RunCommand"
  "subsumes p (UnmediatedShell r7) \<longleftrightarrow> (\<exists>q. p = UnmediatedShell q \<and> subsumes_unmediated_shell q r7)"
  by (cases p; simp add: subsumes_def)+

lemma subsumes_same_kind: "subsumes p r \<Longrightarrow> capability_kind_of p = capability_kind_of r"
  by (cases r) auto

lemma subsumes_refl: "subsumes c c"
  by (cases c) (simp_all add: subsumes_payload_defs subsumes_net_out_iff path.covers_refl
      pattern.covers_refl allowlist.covers_refl)

lemma subsumes_net_out_trans:
  assumes "subsumes_net_out p q" and "subsumes_net_out q r"
  shows "subsumes_net_out p r"
proof -
  have "no_method_restrictions q \<noteq> []" if "no_method_restrictions p \<noteq> []"
    using that assms(1) by (auto simp: subsumes_net_out_iff allowlist_covers_def)
  then show ?thesis
    using assms allowlist.covers_trans cap_covers_trans unfolding subsumes_net_out_iff by metis
qed

lemma subsumes_trans: "subsumes p q \<Longrightarrow> subsumes q r \<Longrightarrow> subsumes p r"
  by (cases r) (auto simp: subsumes_payload_defs,
    (meson path.covers_trans pattern.covers_trans allowlist.covers_trans cap_covers_trans
      subsumes_net_out_trans order_trans)+)

interpretation cap: narrowing subsumes
  by standard (auto intro: subsumes_refl subsumes_trans)

end
