(* ===== verification/CapabilitySets.thy ===== *)
theory CapabilitySets
  imports Capabilities
begin

text \<open>
  The capability set of \<^verbatim>\<open>trust/capability.hpp\<close>: granting, membership, attenuation, the pure
  lookups, the quantity clamp and the bindings built on it, the ceiling of a per-request authority,
  and the per-invocation handles. A \<^verbatim>\<open>BoundCapability\<close> holds a \<^verbatim>\<open>shared_ptr\<close> to its
  \<^verbatim>\<open>InvocationTicket\<close>; the model keeps the tickets in an explicit store, and a handle names its
  ticket by index, so copying a handle copies the index and all copies share the ticket.
\<close>

section \<open>Clamping quantities\<close>

definition cap_meet :: "Limit \<Rightarrow> Limit \<Rightarrow> Limit" where
  "cap_meet a b = tighter a b"

definition clamp_fs_read :: "fs_read \<Rightarrow> fs_read \<Rightarrow> fs_read" where
  "clamp_fs_read parent requested =
     requested\<lparr>fr_size_cap_bytes := cap_meet (fr_size_cap_bytes parent) (fr_size_cap_bytes requested)\<rparr>"

definition clamp_fs_write :: "fs_write \<Rightarrow> fs_write \<Rightarrow> fs_write" where
  "clamp_fs_write parent requested =
     requested\<lparr>fw_quota_bytes := cap_meet (fw_quota_bytes parent) (fw_quota_bytes requested),
               fw_file_count_cap := cap_meet (fw_file_count_cap parent) (fw_file_count_cap requested)\<rparr>"

definition clamp_net_out :: "net_out \<Rightarrow> net_out \<Rightarrow> net_out" where
  "clamp_net_out parent requested =
     requested\<lparr>no_byte_cap := cap_meet (no_byte_cap parent) (no_byte_cap requested)\<rparr>"

definition clamp_exec :: "exec \<Rightarrow> exec \<Rightarrow> exec" where
  "clamp_exec parent requested =
     requested\<lparr>ex_cpu_ms_cap := cap_meet (ex_cpu_ms_cap parent) (ex_cpu_ms_cap requested),
               ex_wall_ms_cap := cap_meet (ex_wall_ms_cap parent) (ex_wall_ms_cap requested),
               ex_memory_bytes_cap :=
                 cap_meet (ex_memory_bytes_cap parent) (ex_memory_bytes_cap requested)\<rparr>"

definition clamp_native_exec :: "native_exec \<Rightarrow> native_exec \<Rightarrow> native_exec" where
  "clamp_native_exec parent requested =
     requested\<lparr>ne_cpu_ms_cap := cap_meet (ne_cpu_ms_cap parent) (ne_cpu_ms_cap requested),
               ne_wall_ms_cap := cap_meet (ne_wall_ms_cap parent) (ne_wall_ms_cap requested),
               ne_memory_bytes_cap :=
                 cap_meet (ne_memory_bytes_cap parent) (ne_memory_bytes_cap requested)\<rparr>"

text \<open>
  The overload set \<^verbatim>\<open>clamp_quantities\<close>: the kinds without an optional quantity cap use the
  identity template. It is only called on two payloads of one kind.
\<close>

definition clamp_quantities :: "capability \<Rightarrow> capability \<Rightarrow> capability" where
  "clamp_quantities parent requested =
     (case (parent, requested) of
        (FsRead p, FsRead r) \<Rightarrow> FsRead (clamp_fs_read p r)
      | (FsWrite p, FsWrite r) \<Rightarrow> FsWrite (clamp_fs_write p r)
      | (NetOut p, NetOut r) \<Rightarrow> NetOut (clamp_net_out p r)
      | (Exec p, Exec r) \<Rightarrow> Exec (clamp_exec p r)
      | (NativeExec p, NativeExec r) \<Rightarrow> NativeExec (clamp_native_exec p r)
      | _ \<Rightarrow> requested)"

lemmas clamp_defs = clamp_fs_read_def clamp_fs_write_def clamp_net_out_def clamp_exec_def
  clamp_native_exec_def

lemma cap_covers_meet [simp]: "cap_covers b (cap_meet a b)" "cap_covers a (cap_meet a b)"
  by (simp_all add: cap_covers_def cap_meet_def bound.meet_left bound.meet_right)

lemma requested_subsumes_clamped: "subsumes requested (clamp_quantities parent requested)"
  by (cases requested; cases parent)
    (simp_all add: clamp_quantities_def clamp_defs subsumes_payload_defs subsumes_net_out_iff
      path.covers_refl pattern.covers_refl allowlist.covers_refl)

section \<open>The capability set\<close>

record capability_set =
  granted :: "capability list"

definition empty_set :: capability_set where
  "empty_set = \<lparr>granted = []\<rparr>"

definition grant_root :: "capability list \<Rightarrow> capability_set" where
  "grant_root caps = \<lparr>granted = caps\<rparr>"

definition contains :: "capability_set \<Rightarrow> capability \<Rightarrow> bool" where
  "contains s requirement = list_ex (\<lambda>c. subsumes c requirement) (granted s)"

definition contains_kind :: "capability_set \<Rightarrow> capability_kind \<Rightarrow> bool" where
  "contains_kind s kind = list_ex (\<lambda>c. capability_kind_of c = kind) (granted s)"

text \<open>The loop of \<^verbatim>\<open>attenuate\<close>: all or nothing, the first uncovered entry refuses the whole.\<close>

fun attenuate_check :: "capability_set \<Rightarrow> capability list \<Rightarrow> unit result" where
  "attenuate_check s [] = Inr ()"
| "attenuate_check s (r # rs) =
     (if \<not> contains s r then Inl (Error Policy ''capability.attenuation_not_subsumed'')
      else attenuate_check s rs)"

definition attenuate :: "capability_set \<Rightarrow> capability list \<Rightarrow> capability_set result" where
  "attenuate s narrower =
     (case attenuate_check s narrower of Inl e \<Rightarrow> Inl e | Inr _ \<Rightarrow> Inr (grant_root narrower))"

definition set_covers :: "capability_set \<Rightarrow> capability_set \<Rightarrow> bool" where
  "set_covers s other = list_all (\<lambda>c. contains s c) (granted other)"

subsection \<open>Lookups\<close>

text \<open>The \<^verbatim>\<open>find_*\<close> accessors return at the first match of a loop over the grants.\<close>

fun first_some :: "('a \<Rightarrow> 'b option) \<Rightarrow> 'a list \<Rightarrow> 'b option" where
  "first_some f [] = None"
| "first_some f (x # xs) = (case f x of None \<Rightarrow> first_some f xs | Some y \<Rightarrow> Some y)"

text \<open>\<^verbatim>\<open>std::get_if\<close> on the alternatives the lookups ask for.\<close>

definition get_fs_read :: "capability \<Rightarrow> fs_read option" where
  "get_fs_read c = (case c of FsRead x \<Rightarrow> Some x | _ \<Rightarrow> None)"

definition get_fs_write :: "capability \<Rightarrow> fs_write option" where
  "get_fs_write c = (case c of FsWrite x \<Rightarrow> Some x | _ \<Rightarrow> None)"

definition get_net_out :: "capability \<Rightarrow> net_out option" where
  "get_net_out c = (case c of NetOut x \<Rightarrow> Some x | _ \<Rightarrow> None)"

definition get_background :: "capability \<Rightarrow> background option" where
  "get_background c = (case c of Background x \<Rightarrow> Some x | _ \<Rightarrow> None)"

definition get_schedule :: "capability \<Rightarrow> schedule option" where
  "get_schedule c = (case c of Schedule x \<Rightarrow> Some x | _ \<Rightarrow> None)"

definition get_agent_call :: "capability \<Rightarrow> agent_call option" where
  "get_agent_call c = (case c of AgentCall x \<Rightarrow> Some x | _ \<Rightarrow> None)"

definition get_native_exec :: "capability \<Rightarrow> native_exec option" where
  "get_native_exec c = (case c of NativeExec x \<Rightarrow> Some x | _ \<Rightarrow> None)"

definition get_sandbox_mount :: "capability \<Rightarrow> sandbox_mount option" where
  "get_sandbox_mount c = (case c of SandboxMount x \<Rightarrow> Some x | _ \<Rightarrow> None)"

definition get_sandbox_net_out :: "capability \<Rightarrow> sandbox_net_out option" where
  "get_sandbox_net_out c = (case c of SandboxNetOut x \<Rightarrow> Some x | _ \<Rightarrow> None)"

lemma get_if_simps [simp]:
  "get_fs_read c = Some x0 \<longleftrightarrow> c = FsRead x0"
  "get_fs_write c = Some x1 \<longleftrightarrow> c = FsWrite x1"
  "get_net_out c = Some x2 \<longleftrightarrow> c = NetOut x2"
  "get_background c = Some x3 \<longleftrightarrow> c = Background x3"
  "get_schedule c = Some x4 \<longleftrightarrow> c = Schedule x4"
  "get_agent_call c = Some x5 \<longleftrightarrow> c = AgentCall x5"
  "get_native_exec c = Some x6 \<longleftrightarrow> c = NativeExec x6"
  "get_sandbox_mount c = Some x7 \<longleftrightarrow> c = SandboxMount x7"
  "get_sandbox_net_out c = Some x8 \<longleftrightarrow> c = SandboxNetOut x8"
  by (cases c; simp add: get_fs_read_def get_fs_write_def get_net_out_def get_background_def get_schedule_def get_agent_call_def get_native_exec_def get_sandbox_mount_def get_sandbox_net_out_def)+

lemma get_if_constructor [simp]:
  "get_fs_read (FsRead x0) = Some x0"
  "get_fs_write (FsWrite x1) = Some x1"
  "get_net_out (NetOut x2) = Some x2"
  "get_background (Background x3) = Some x3"
  "get_schedule (Schedule x4) = Some x4"
  "get_agent_call (AgentCall x5) = Some x5"
  "get_native_exec (NativeExec x6) = Some x6"
  "get_sandbox_mount (SandboxMount x7) = Some x7"
  "get_sandbox_net_out (SandboxNetOut x8) = Some x8"
  by simp_all

definition find_fs_write :: "capability_set \<Rightarrow> string \<Rightarrow> string \<Rightarrow> fs_write option" where
  "find_fs_write s mount path =
     first_some (\<lambda>c. case get_fs_write c of
         Some fw \<Rightarrow> if fw_mount_id fw = mount \<and> path_prefix_covers (fw_path_prefix fw) path
                    then Some fw else None
       | None \<Rightarrow> None) (granted s)"

definition find_fs_read :: "capability_set \<Rightarrow> string \<Rightarrow> string \<Rightarrow> fs_read option" where
  "find_fs_read s mount path =
     first_some (\<lambda>c. case get_fs_read c of
         Some fr \<Rightarrow> if fr_mount_id fr = mount \<and> path_prefix_covers (fr_path_prefix fr) path
                    then Some fr else None
       | None \<Rightarrow> None) (granted s)"

text \<open>The grant handed out is narrowed to the one host that was asked for.\<close>

definition narrow_net_out :: "string \<Rightarrow> net_out \<Rightarrow> net_out" where
  "narrow_net_out host n = \<lparr>no_host_allowlist = [host], no_byte_cap = no_byte_cap n,
     no_method_restrictions = no_method_restrictions n\<rparr>"

definition find_net_out :: "capability_set \<Rightarrow> string \<Rightarrow> net_out option" where
  "find_net_out s host_port_scheme =
     first_some (\<lambda>c. case get_net_out c of
         Some n \<Rightarrow> if host_port_scheme \<in> set (no_host_allowlist n)
                   then Some (narrow_net_out host_port_scheme n) else None
       | None \<Rightarrow> None) (granted s)"

definition find_background :: "capability_set \<Rightarrow> background option" where
  "find_background s = first_some get_background (granted s)"

definition find_schedule :: "capability_set \<Rightarrow> schedule option" where
  "find_schedule s = first_some get_schedule (granted s)"

definition find_agent_call :: "capability_set \<Rightarrow> string \<Rightarrow> agent_call option" where
  "find_agent_call s agent_id =
     first_some (\<lambda>c. case get_agent_call c of
         Some a \<Rightarrow> if ac_agent_id a = agent_id then Some a else None
       | None \<Rightarrow> None) (granted s)"

definition native_exec_grants :: "capability_set \<Rightarrow> native_exec list" where
  "native_exec_grants s = List.map_filter get_native_exec (granted s)"

definition fs_read_grants :: "capability_set \<Rightarrow> string \<Rightarrow> fs_read list" where
  "fs_read_grants s mount = filter (\<lambda>r. fr_mount_id r = mount) (List.map_filter get_fs_read (granted s))"

definition fs_write_grants :: "capability_set \<Rightarrow> string \<Rightarrow> fs_write list" where
  "fs_write_grants s mount = filter (\<lambda>w. fw_mount_id w = mount) (List.map_filter get_fs_write (granted s))"

definition sandbox_mount_grants :: "capability_set \<Rightarrow> sandbox_mount list" where
  "sandbox_mount_grants s = List.map_filter get_sandbox_mount (granted s)"

definition sandbox_net_out_grants :: "capability_set \<Rightarrow> sandbox_net_out list" where
  "sandbox_net_out_grants s = List.map_filter get_sandbox_net_out (granted s)"

definition set_size :: "capability_set \<Rightarrow> nat" where
  "set_size s = length (granted s)"

subsection \<open>Bindings\<close>

text \<open>One iteration of the loop of \<^verbatim>\<open>clamped_binding\<close>.\<close>

definition try_clamp :: "capability \<Rightarrow> capability \<Rightarrow> capability option" where
  "try_clamp requirement c =
     (if capability_kind_of c \<noteq> capability_kind_of requirement then None
      else let reduced = clamp_quantities c requirement
           in if \<not> subsumes c reduced then None else Some reduced)"

definition clamped_binding :: "capability_set \<Rightarrow> capability \<Rightarrow> capability option" where
  "clamped_binding s requirement =
     (if contains s requirement then Some requirement
      else first_some (try_clamp requirement) (granted s))"

record tickets =
  tk_next :: nat
  tk_live :: "nat \<Rightarrow> bool"

definition no_tickets :: tickets where
  "no_tickets = \<lparr>tk_next = 0, tk_live = (\<lambda>_. False)\<rparr>"

record bound_capability =
  bc_granted :: capability
  bc_ticket :: nat

text \<open>\<^verbatim>\<open>std::make_shared<InvocationTicket>()\<close>: a fresh ticket, live.\<close>

definition mint_handle :: "tickets \<Rightarrow> capability \<Rightarrow> bound_capability \<times> tickets" where
  "mint_handle st c =
     (\<lparr>bc_granted = c, bc_ticket = tk_next st\<rparr>,
      st\<lparr>tk_next := Suc (tk_next st), tk_live := (tk_live st)(tk_next st := True)\<rparr>)"

definition bind :: "tickets \<Rightarrow> capability_set \<Rightarrow> capability \<Rightarrow> (bound_capability \<times> tickets) result" where
  "bind st s requirement =
     (if \<not> contains s requirement then Inl (Error Policy ''capability.not_granted'')
      else Inr (mint_handle st requirement))"

definition bind_clamped ::
  "tickets \<Rightarrow> capability_set \<Rightarrow> capability \<Rightarrow> (bound_capability \<times> tickets) result" where
  "bind_clamped st s requirement =
     (case clamped_binding s requirement of
        None \<Rightarrow> Inl (Error Policy ''capability.not_granted'')
      | Some c \<Rightarrow> Inr (mint_handle st c))"

definition use_handle :: "tickets \<Rightarrow> bound_capability \<Rightarrow> capability result" where
  "use_handle st b =
     (if \<not> tk_live st (bc_ticket b) then Inl (Error Policy ''capability.handle_revoked'')
      else Inr (bc_granted b))"

definition revoke :: "tickets \<Rightarrow> bound_capability \<Rightarrow> tickets" where
  "revoke st b = st\<lparr>tk_live := (tk_live st)(bc_ticket b := False)\<rparr>"

subsection \<open>Ceilings\<close>

text \<open>\<^verbatim>\<open>CapabilityCeiling\<close>: a set, or the named absence of a ceiling.\<close>

datatype capability_ceiling = NoCeiling | Ceiling capability_set

definition no_ceiling :: capability_ceiling where
  "no_ceiling = NoCeiling"

fun ceiling_is_none :: "capability_ceiling \<Rightarrow> bool" where
  "ceiling_is_none NoCeiling = True"
| "ceiling_is_none (Ceiling s) = False"

fun admits :: "capability_ceiling \<Rightarrow> capability_set \<Rightarrow> bool" where
  "admits NoCeiling request = True"
| "admits (Ceiling s) request = set_covers s request"

section \<open>Lemmas\<close>

lemma contains_iff: "contains s r \<longleftrightarrow> (\<exists>c\<in>set (granted s). subsumes c r)"
  by (simp add: contains_def list_ex_iff)

lemma set_covers_iff:
  "set_covers s t \<longleftrightarrow> (\<forall>r\<in>set (granted t). \<exists>c\<in>set (granted s). subsumes c r)"
  by (simp add: set_covers_def contains_iff list_all_iff)

lemma granted_grant_root [simp]: "granted (grant_root cs) = cs"
  by (simp add: grant_root_def)

interpretation capset: narrowing set_covers
  using cap.all_any_refl cap.all_any_trans by unfold_locales (auto simp: set_covers_iff)

lemma contains_trans: "contains s c \<Longrightarrow> subsumes c d \<Longrightarrow> contains s d"
  unfolding contains_iff by (rule cap.any_covers_trans)

lemma set_covers_contains: "set_covers s t \<Longrightarrow> contains t c \<Longrightarrow> contains s c"
  by (auto simp: set_covers_iff contains_iff intro: subsumes_trans)

lemma contains_granted: "c \<in> set (granted s) \<Longrightarrow> contains s c"
  by (auto simp: contains_iff intro: subsumes_refl)

lemma attenuate_check_ok: "attenuate_check s rs = Inr () \<longleftrightarrow> list_all (contains s) rs"
  by (induction rs) auto

lemma attenuate_check_cases:
  "attenuate_check s rs = (if list_all (contains s) rs then Inr ()
     else Inl (Error Policy ''capability.attenuation_not_subsumed''))"
  by (induction rs) auto

lemma attenuate_eq:
  "attenuate s rs = (if set_covers s (grant_root rs) then Inr (grant_root rs)
     else Inl (Error Policy ''capability.attenuation_not_subsumed''))"
  by (simp add: attenuate_def attenuate_check_cases set_covers_def)

lemma set_map_filter: "y \<in> set (List.map_filter f xs) \<longleftrightarrow> (\<exists>x\<in>set xs. f x = Some y)"
  by (force simp: List.map_filter_def)

lemma first_some_SomeD: "first_some f xs = Some y \<Longrightarrow> \<exists>x\<in>set xs. f x = Some y"
  by (induction xs) (auto split: option.splits)

lemma first_some_None_iff: "first_some f xs = None \<longleftrightarrow> (\<forall>x\<in>set xs. f x = None)"
  by (induction xs) (auto split: option.splits)

lemma try_clamp_fs_write:
  "try_clamp (FsWrite r) c \<noteq> None \<longleftrightarrow>
     (\<exists>w. c = FsWrite w \<and> fw_mount_id w = fw_mount_id r
        \<and> path_prefix_covers (fw_path_prefix w) (fw_path_prefix r))"
  by (cases c) (auto simp: try_clamp_def clamp_quantities_def clamp_fs_write_def subsumes_fs_write_def)

lemma set_fs_write_grants:
  "w \<in> set (fs_write_grants s m) \<longleftrightarrow> FsWrite w \<in> set (granted s) \<and> fw_mount_id w = m"
  by (auto simp: fs_write_grants_def set_map_filter)

lemma try_clamp_SomeD:
  "try_clamp r c = Some d \<Longrightarrow> d = clamp_quantities c r \<and> subsumes c d"
  by (auto simp: try_clamp_def Let_def split: if_splits)

lemma clamped_binding_sound:
  assumes "clamped_binding s r = Some d"
  shows "contains s d" and "subsumes r d"
proof -
  have "contains s d \<and> subsumes r d"
  proof (cases "contains s r")
    case True
    with assms show ?thesis by (auto simp: clamped_binding_def intro: subsumes_refl)
  next
    case False
    with assms obtain c where "c \<in> set (granted s)" and "try_clamp r c = Some d"
      by (auto simp: clamped_binding_def dest: first_some_SomeD)
    then show ?thesis
      using requested_subsumes_clamped by (auto simp: contains_iff dest!: try_clamp_SomeD)
  qed
  then show "contains s d" and "subsumes r d" by auto
qed

definition tickets_ok :: "tickets \<Rightarrow> bool" where
  "tickets_ok st \<longleftrightarrow> (\<forall>i. tk_live st i \<longrightarrow> i < tk_next st)"

lemma tickets_ok_no_tickets [simp]: "tickets_ok no_tickets"
  by (simp add: tickets_ok_def no_tickets_def)

lemma tickets_ok_mint [simp]: "tickets_ok st \<Longrightarrow> tickets_ok (snd (mint_handle st c))"
  by (auto simp: tickets_ok_def mint_handle_def less_SucI)

lemma tickets_ok_revoke [simp]: "tickets_ok st \<Longrightarrow> tickets_ok (revoke st b)"
  by (auto simp: tickets_ok_def revoke_def)

lemma use_minted [simp]: "use_handle (snd (mint_handle st c)) (fst (mint_handle st c)) = Inr c"
  by (simp add: use_handle_def mint_handle_def)


section \<open>Runs of handle operations\<close>

text \<open>Sequences of the operations that touch the ticket store, in the order a host performs them.\<close>

datatype handle_op =
    Op_bind capability_set capability
  | Op_bind_clamped capability_set capability
  | Op_revoke bound_capability

fun handle_step :: "tickets \<Rightarrow> handle_op \<Rightarrow> tickets" where
  "handle_step st (Op_bind s r) = (case bind st s r of Inl e \<Rightarrow> st | Inr (b, st') \<Rightarrow> st')"
| "handle_step st (Op_bind_clamped s r) =
     (case bind_clamped st s r of Inl e \<Rightarrow> st | Inr (b, st') \<Rightarrow> st')"
| "handle_step st (Op_revoke b) = revoke st b"

fun handle_run :: "tickets \<Rightarrow> handle_op list \<Rightarrow> tickets" where
  "handle_run st [] = st"
| "handle_run st (x # xs) = handle_run (handle_step st x) xs"

fun revoked_tickets :: "handle_op list \<Rightarrow> nat list" where
  "revoked_tickets [] = []"
| "revoked_tickets (Op_revoke b # xs) = bc_ticket b # revoked_tickets xs"
| "revoked_tickets (x # xs) = revoked_tickets xs"

lemma handle_step_other:
  assumes "i < tk_next st" and "\<And>b. x \<noteq> Op_revoke b"
  shows "tk_live (handle_step st x) i = tk_live st i" and "i < tk_next (handle_step st x)"
  using assms
  by (cases x; auto simp: bind_def bind_clamped_def mint_handle_def split: option.splits)+

lemma handle_run_live:
  "i < tk_next st \<Longrightarrow>
     tk_live (handle_run st xs) i \<longleftrightarrow> tk_live st i \<and> i \<notin> set (revoked_tickets xs)"
proof (induction xs arbitrary: st)
  case Nil
  then show ?case by simp
next
  case (Cons x xs)
  show ?case
  proof (cases x)
    case (Op_revoke b)
    with Cons show ?thesis by (auto simp: revoke_def)
  next
    case (Op_bind s r)
    with Cons handle_step_other [OF Cons.prems, of x] show ?thesis by (simp del: handle_step.simps)
  next
    case (Op_bind_clamped s r)
    with Cons handle_step_other [OF Cons.prems, of x] show ?thesis by (simp del: handle_step.simps)
  qed
qed

section \<open>Chains of attenuations\<close>

fun attenuate_chain :: "capability_set \<Rightarrow> capability list list \<Rightarrow> capability_set result" where
  "attenuate_chain s [] = Inr s"
| "attenuate_chain s (rs # rest) =
     (case attenuate s rs of Inl e \<Rightarrow> Inl e | Inr t \<Rightarrow> attenuate_chain t rest)"

lemma attenuate_covers: "attenuate s rs = Inr t \<Longrightarrow> set_covers s t"
  by (auto simp: attenuate_eq split: if_splits)

lemma attenuate_chain_covers: "attenuate_chain s css = Inr t \<Longrightarrow> set_covers s t"
proof (induction css arbitrary: s)
  case Nil
  then show ?case by (simp add: capset.covers_refl)
next
  case (Cons rs css)
  then obtain u where "attenuate s rs = Inr u" and "attenuate_chain u css = Inr t"
    by (auto split: sum.splits)
  then show ?case using Cons.IH attenuate_covers capset.covers_trans by blast
qed

section \<open>Properties\<close>

text \<open>Narrowing of authority is a preorder on all 23 kinds of capability: a capability covers
  itself, and what is covered by something covered is covered. Every derivation of authority in the
  engine composes because of this.\<close>

theorem subsumes_preorder:
  "subsumes c c \<and> (subsumes a b \<and> subsumes b d \<longrightarrow> subsumes a d)"
  using cap.covers_refl cap.covers_trans by blast

theorem subsumes_preorder_witness:
  "subsumes (SandboxMount \<lparr>sm_host_path_prefix = ''/work'', sm_guest_path_prefix = ''/'', sm_read_write = True\<rparr>)
            (SandboxMount \<lparr>sm_host_path_prefix = ''/work/a/b'', sm_guest_path_prefix = ''/x'', sm_read_write = False\<rparr>)"
  using subsumes_preorder
    [of Elicit
        "SandboxMount \<lparr>sm_host_path_prefix = ''/work'', sm_guest_path_prefix = ''/'', sm_read_write = True\<rparr>"
        "SandboxMount \<lparr>sm_host_path_prefix = ''/work/a'', sm_guest_path_prefix = ''/x'', sm_read_write = False\<rparr>"
        "SandboxMount \<lparr>sm_host_path_prefix = ''/work/a/b'', sm_guest_path_prefix = ''/x'', sm_read_write = False\<rparr>"]
  by (simp add: subsumes_sandbox_mount_def path_prefix_covers_def starts_with_def)

text \<open>C2. Attenuation only narrows, through any number of steps: if a set was reached from
  \<open>s\<close> by a chain of successful \<^verbatim>\<open>attenuate\<close> calls, everything it authorizes was already
  authorized by \<open>s\<close>.\<close>

theorem attenuation_never_widens:
  assumes "attenuate_chain s css = Inr t" and "contains t c"
  shows "contains s c"
  using assms by (blast intro: set_covers_contains attenuate_chain_covers)

definition demo_root :: capability_set where
  "demo_root = grant_root
     [FsRead \<lparr>fr_mount_id = ''work'', fr_path_prefix = ''/src'', fr_size_cap_bytes = At_most 100\<rparr>]"

definition demo_narrow :: "capability list" where
  "demo_narrow =
     [FsRead \<lparr>fr_mount_id = ''work'', fr_path_prefix = ''/src/a'', fr_size_cap_bytes = At_most 10\<rparr>]"

theorem attenuation_never_widens_witness:
  "attenuate_chain demo_root [demo_narrow, demo_narrow] = Inr (grant_root demo_narrow)
   \<and> contains demo_root (FsRead \<lparr>fr_mount_id = ''work'', fr_path_prefix = ''/src/a/b'',
        fr_size_cap_bytes = At_most 5\<rparr>)"
proof -
  have h: "attenuate_chain demo_root [demo_narrow, demo_narrow] = Inr (grant_root demo_narrow)"
    by (simp add: demo_root_def demo_narrow_def attenuate_def contains_def subsumes_fs_read_def
        path_prefix_covers_def starts_with_def cap_covers_def)
  have c: "contains (grant_root demo_narrow) (FsRead \<lparr>fr_mount_id = ''work'',
      fr_path_prefix = ''/src/a/b'', fr_size_cap_bytes = At_most 5\<rparr>)"
    by (simp add: demo_narrow_def contains_def subsumes_fs_read_def
        path_prefix_covers_def starts_with_def cap_covers_def)
  show ?thesis using h attenuation_never_widens [OF h c] by simp
qed

text \<open>Attenuation is all or nothing: it returns exactly the requested set when every requested
  entry is covered, and otherwise refuses with \<^verbatim>\<open>capability.attenuation_not_subsumed\<close>; no third
  outcome (a partial grant) exists.\<close>

theorem attenuate_all_or_nothing:
  "attenuate s rs =
     (if list_all (contains s) rs then Inr (grant_root rs)
      else Inl (Error Policy ''capability.attenuation_not_subsumed''))"
  by (simp add: attenuate_eq set_covers_def)

text \<open>A clamped binding is never wider than what is held nor than what was asked for.\<close>

theorem clamped_binding_narrows_both:
  assumes "clamped_binding s r = Some d"
  shows "contains s d \<and> subsumes r d"
  using clamped_binding_sound [OF assms] by blast

theorem clamped_binding_narrows_both_witness:
  "clamped_binding demo_root
     (FsRead \<lparr>fr_mount_id = ''work'', fr_path_prefix = ''/src/a'', fr_size_cap_bytes = Unbounded\<rparr>)
   = Some (FsRead \<lparr>fr_mount_id = ''work'', fr_path_prefix = ''/src/a'', fr_size_cap_bytes = At_most 100\<rparr>)
   \<and> contains demo_root
     (FsRead \<lparr>fr_mount_id = ''work'', fr_path_prefix = ''/src/a'', fr_size_cap_bytes = At_most 100\<rparr>)"
proof -
  have h: "clamped_binding demo_root
     (FsRead \<lparr>fr_mount_id = ''work'', fr_path_prefix = ''/src/a'', fr_size_cap_bytes = Unbounded\<rparr>)
   = Some (FsRead \<lparr>fr_mount_id = ''work'', fr_path_prefix = ''/src/a'', fr_size_cap_bytes = At_most 100\<rparr>)"
    by (simp add: demo_root_def clamped_binding_def contains_def try_clamp_def clamp_quantities_def
        clamp_fs_read_def cap_meet_def subsumes_fs_read_def path_prefix_covers_def starts_with_def
        cap_covers_def)
  show ?thesis using h clamped_binding_narrows_both [OF h] by simp
qed

text \<open>Clamping decides on scope alone for writable mounts: a write requirement can be bound
  exactly when some held grant names its mount and covers its path, whatever the two byte and file
  caps are.\<close>

theorem clamped_fs_write_iff_scope:
  "clamped_binding s (FsWrite r) \<noteq> None \<longleftrightarrow>
     list_ex (\<lambda>w. path_prefix_covers (fw_path_prefix w) (fw_path_prefix r))
       (fs_write_grants s (fw_mount_id r))"
proof -
  have "contains s (FsWrite r) \<Longrightarrow>
      \<exists>c\<in>set (granted s). try_clamp (FsWrite r) c \<noteq> None"
    unfolding contains_iff try_clamp_fs_write by (auto simp: subsumes_fs_write_def)
  then have "clamped_binding s (FsWrite r) \<noteq> None \<longleftrightarrow>
      (\<exists>c\<in>set (granted s). try_clamp (FsWrite r) c \<noteq> None)"
    unfolding clamped_binding_def by (metis first_some_None_iff option.distinct(1))
  then show ?thesis
    unfolding try_clamp_fs_write by (auto simp: list_ex_iff set_fs_write_grants)
qed

text \<open>A per-invocation handle lives exactly until its ticket is revoked: after any sequence of
  binds, clamped binds and revocations, a handle minted before it (and so every copy of it) yields
  its capability if it was live and nothing in the sequence revoked its ticket, and
  \<^verbatim>\<open>capability.handle_revoked\<close> otherwise. No later bind revives it.\<close>

theorem handle_lives_until_revoked:
  assumes "bc_ticket b < tk_next st"
  shows "use_handle (handle_run st ops) b =
     (if tk_live st (bc_ticket b) \<and> bc_ticket b \<notin> set (revoked_tickets ops)
      then Inr (bc_granted b) else Inl (Error Policy ''capability.handle_revoked''))"
  using handle_run_live [OF assms] by (simp add: use_handle_def)

theorem handle_lives_until_revoked_witness:
  "use_handle (handle_run (snd (mint_handle no_tickets Entropy))
       [Op_bind (grant_root [Elicit]) Elicit, Op_revoke (fst (mint_handle no_tickets Entropy)),
        Op_bind (grant_root [Entropy]) Entropy])
     (fst (mint_handle no_tickets Entropy))
   = Inl (Error Policy ''capability.handle_revoked'')"
  by (subst handle_lives_until_revoked) (simp_all add: mint_handle_def no_tickets_def)

text \<open>A network lookup hands out exactly the host that was asked for: the grant
  \<^verbatim>\<open>find_net_out\<close> returns names that one host, is covered by what is held, and exists exactly when
  some held grant lists the host literally.\<close>

theorem find_net_out_exact:
  "(case find_net_out s h of
      None \<Rightarrow> {n. NetOut n \<in> set (granted s) \<and> h \<in> set (no_host_allowlist n)} = {}
    | Some n \<Rightarrow> no_host_allowlist n = [h] \<and> contains s (NetOut n))"
proof (cases "find_net_out s h")
  case None
  then have "NetOut n \<in> set (granted s) \<Longrightarrow> h \<notin> set (no_host_allowlist n)" for n
    unfolding find_net_out_def first_some_None_iff by (fastforce dest: bspec)
  with None show ?thesis by auto
next
  case (Some n)
  from first_some_SomeD [OF Some [unfolded find_net_out_def]]
  obtain m where m: "NetOut m \<in> set (granted s)" "h \<in> set (no_host_allowlist m)"
    and n: "n = narrow_net_out h m"
    by (auto split: option.splits if_splits)
  from m(2) have "subsumes (NetOut m) (NetOut (narrow_net_out h m))"
    by (auto simp: subsumes_net_out_iff allowlist_covers_def list_all_iff narrow_net_out_def)
  with m(1) n have "contains s (NetOut n)" unfolding contains_iff by blast
  with Some n show ?thesis by (simp add: narrow_net_out_def)
qed

text \<open>An unrestricted network grant cannot be narrowed to a host: the widest \<^verbatim>\<open>NetOut\<close> the
  file builds (empty allowlist, documented as unrestricted) subsumes only requests that are
  themselves unrestricted, so attenuating it to one named host is refused.\<close>

theorem unrestricted_net_out_covers_no_host:
  "subsumes (capability_from_kind K_net_out) (NetOut n) \<longleftrightarrow> no_host_allowlist n = []"
  by (auto simp: subsumes_net_out_iff allowlist_covers_def cap_covers_def list_all_iff
      split: list.splits)

definition demo_native_grant :: native_exec where
  "demo_native_grant =
     \<lparr>ne_program_pattern = ''python*'', ne_worktree_mount_id = ''work'', ne_cpu_ms_cap = At_most 50,
      ne_wall_ms_cap = Unbounded, ne_memory_bytes_cap = Unbounded, ne_live_session = True,
      ne_session_wall_ms_cap = At_most 1000, ne_max_processes = Unbounded\<rparr>"

text \<open>The clamp of \<^verbatim>\<open>NativeExec\<close> leaves the two held-shell caps alone: a grant whose scope covers
  a requirement and whose caps differ from it only in \<^verbatim>\<open>session_wall_ms_cap\<close> is not used, and
  the clamped binding is refused.\<close>

theorem native_exec_clamp_skips_session_caps:
  "clamped_binding (grant_root [NativeExec demo_native_grant])
     (NativeExec (demo_native_grant\<lparr>ne_program_pattern := ''python3'', ne_cpu_ms_cap := Unbounded\<rparr>)) =
   Some (NativeExec (demo_native_grant\<lparr>ne_program_pattern := ''python3''\<rparr>))
   \<and> clamped_binding (grant_root [NativeExec demo_native_grant])
     (NativeExec (demo_native_grant\<lparr>ne_program_pattern := ''python3'', ne_session_wall_ms_cap := Unbounded\<rparr>))
   = None"
  by (simp add: demo_native_grant_def clamped_binding_def contains_def try_clamp_def
      clamp_quantities_def clamp_native_exec_def cap_meet_def subsumes_native_exec_def
      native_exec_pattern_covers_def starts_with_def cap_covers_def)

end
