(* ===== verification/AgentSpawn.thy ===== *)
theory AgentSpawn
  imports CapabilitySets
begin

text \<open>
  What a spawned child agent inherits (\<^verbatim>\<open>trust/agent_spawn_capability.hpp\<close>): the depth check on
  the caller's own grant, and the minting of the child's capability set from the caller's held set,
  the target's declared ceiling and the freshly minted worktree grants. The target's metadata enters
  through its capability ceiling only, the one field the functions read; a worktree grant enters
  through its read and write entries.
\<close>

section \<open>Definitions\<close>

record spawn_worktree_grant =
  swg_read :: "fs_read option"
  swg_write :: "fs_write option"

definition check_and_consume_spawn_depth :: "capability_set \<Rightarrow> string \<Rightarrow> spawn_budget result" where
  "check_and_consume_spawn_depth caller_held target_agent_id =
     (case find_agent_call caller_held target_agent_id of
        None \<Rightarrow> Inl (Error Policy ''agent_spawn.not_available'')
      | Some grant \<Rightarrow> attenuate_for_spawn (ac_budget grant))"

record child_spawn_grant =
  csg_capabilities :: capability_set
  csg_child_depth_budget :: spawn_budget

text \<open>One iteration of the loop over the ceiling: an \<^verbatim>\<open>AgentCall\<close> entry is re-rooted to the
  tighter of the live chain depth and its own declared depth, any other entry is kept.\<close>

definition reroot :: "spawn_budget \<Rightarrow> capability \<Rightarrow> capability" where
  "reroot child_depth_budget c =
     (case get_agent_call c of
        Some ac \<Rightarrow>
          AgentCall \<lparr>ac_agent_id = ac_agent_id ac,
            ac_budget = (if remaining_depth child_depth_budget \<le> remaining_depth (ac_budget ac)
                         then child_depth_budget else ac_budget ac)\<rparr>
      | None \<Rightarrow> c)"

definition mint_child_spawn_capabilities ::
  "capability_set \<Rightarrow> capability list \<Rightarrow> spawn_worktree_grant \<Rightarrow> spawn_budget \<Rightarrow> child_spawn_grant result"
where
  "mint_child_spawn_capabilities caller_held ceiling worktree_grant child_depth_budget =
     (case attenuate caller_held ceiling of
        Inl e \<Rightarrow> Inl e
      | Inr covered \<Rightarrow>
          Inr \<lparr>csg_capabilities = grant_root
                 (map (reroot child_depth_budget) ceiling
                  @ (case swg_read worktree_grant of Some r \<Rightarrow> [FsRead r] | None \<Rightarrow> [])
                  @ (case swg_write worktree_grant of Some w \<Rightarrow> [FsWrite w] | None \<Rightarrow> [])),
               csg_child_depth_budget = child_depth_budget\<rparr>)"

text \<open>A whole level of spawning, in the order the header prescribes: depth first, then minting.\<close>

record spawn_request =
  sr_target :: string
  sr_ceiling :: "capability list"
  sr_worktree :: spawn_worktree_grant

definition spawn_level :: "capability_set \<Rightarrow> spawn_request \<Rightarrow> child_spawn_grant result" where
  "spawn_level caller_held r =
     (case check_and_consume_spawn_depth caller_held (sr_target r) of
        Inl e \<Rightarrow> Inl e
      | Inr b \<Rightarrow> mint_child_spawn_capabilities caller_held (sr_ceiling r) (sr_worktree r) b)"

text \<open>A chain of spawns: each child spawns the next with what it was granted.\<close>

fun spawn_descend :: "capability_set \<Rightarrow> spawn_request list \<Rightarrow> capability_set result" where
  "spawn_descend held [] = Inr held"
| "spawn_descend held (r # rs) =
     (case spawn_level held r of
        Inl e \<Rightarrow> Inl e
      | Inr g \<Rightarrow> spawn_descend (csg_capabilities g) rs)"

text \<open>The largest spawn depth any entry of a set still carries.\<close>

definition agent_depths :: "capability list \<Rightarrow> nat list" where
  "agent_depths cs = map (\<lambda>a. unat (remaining_depth (ac_budget a))) (List.map_filter get_agent_call cs)"

definition depth_bound :: "capability_set \<Rightarrow> nat" where
  "depth_bound s = fold max (agent_depths (granted s)) 0"

section \<open>Lemmas\<close>

lemma fold_max_le_iff: "fold max xs (a::nat) \<le> b \<longleftrightarrow> a \<le> b \<and> (\<forall>x\<in>set xs. x \<le> b)"
  by (induction xs arbitrary: a) auto

lemma depth_bound_le_iff:
  "depth_bound s \<le> b \<longleftrightarrow>
     (\<forall>a. AgentCall a \<in> set (granted s) \<longrightarrow> unat (remaining_depth (ac_budget a)) \<le> b)"
  by (auto simp: depth_bound_def fold_max_le_iff agent_depths_def set_map_filter)

lemma depth_bound_ge:
  "AgentCall a \<in> set (granted s) \<Longrightarrow> unat (remaining_depth (ac_budget a)) \<le> depth_bound s"
  using depth_bound_le_iff [of s "depth_bound s"] by blast

lemma reroot_AgentCall:
  "reroot b c = AgentCall a \<Longrightarrow> remaining_depth (ac_budget a) \<le> remaining_depth b"
  by (auto simp: reroot_def split: option.splits if_splits)

lemma subsumes_reroot: "subsumes c (reroot b c)"
proof (cases "get_agent_call c")
  case None
  then show ?thesis by (simp add: reroot_def subsumes_refl)
next
  case (Some ac)
  then show ?thesis by (auto simp: reroot_def subsumes_agent_call_def)
qed

lemma find_agent_call_SomeD:
  "find_agent_call s i = Some a \<Longrightarrow> AgentCall a \<in> set (granted s) \<and> ac_agent_id a = i"
  unfolding find_agent_call_def
  by (drule first_some_SomeD) (auto split: option.splits if_splits)

lemma mint_child_InrD:
  assumes "mint_child_spawn_capabilities held ceiling wt b = Inr g"
  shows "set_covers held (grant_root ceiling)"
    and "granted (csg_capabilities g) = map (reroot b) ceiling
       @ (case swg_read wt of Some r \<Rightarrow> [FsRead r] | None \<Rightarrow> [])
       @ (case swg_write wt of Some w \<Rightarrow> [FsWrite w] | None \<Rightarrow> [])"
  using assms
  by (auto simp: mint_child_spawn_capabilities_def attenuate_eq split: if_splits)

lemma spawn_level_InrD:
  assumes "spawn_level held r = Inr g"
  obtains a b where "AgentCall a \<in> set (granted held)" and "ac_agent_id a = sr_target r"
    and "attenuate_for_spawn (ac_budget a) = Inr b"
    and "mint_child_spawn_capabilities held (sr_ceiling r) (sr_worktree r) b = Inr g"
  using assms
  by (auto simp: spawn_level_def check_and_consume_spawn_depth_def
      split: sum.splits option.splits dest!: find_agent_call_SomeD)

lemma spawn_level_depth:
  assumes "spawn_level held r = Inr g"
  shows "depth_bound (csg_capabilities g) < depth_bound held"
proof -
  from assms obtain a b where a: "AgentCall a \<in> set (granted held)"
    and b: "attenuate_for_spawn (ac_budget a) = Inr b"
    and m: "mint_child_spawn_capabilities held (sr_ceiling r) (sr_worktree r) b = Inr g"
    by (rule spawn_level_InrD)
  have "unat (remaining_depth (ac_budget c)) \<le> unat (remaining_depth b)"
    if "AgentCall c \<in> set (granted (csg_capabilities g))" for c
  proof -
    from that mint_child_InrD(2) [OF m] obtain d where "reroot b d = AgentCall c"
      by (auto split: option.splits)
    then show ?thesis by (simp add: reroot_AgentCall word_le_nat_alt [symmetric])
  qed
  then have "depth_bound (csg_capabilities g) \<le> unat (remaining_depth b)"
    unfolding depth_bound_le_iff by blast
  also have "\<dots> < unat (remaining_depth (ac_budget a))"
    using attenuate_for_spawn_unat [OF b] by simp
  also have "\<dots> \<le> depth_bound held" using a by (rule depth_bound_ge)
  finally show ?thesis .
qed

section \<open>Properties\<close>

text \<open>C4. A spawned child holds nothing its caller did not: every entry of the minted set is covered
  by the caller's held set, or is one of the two entries of the worktree minted for it.\<close>

theorem child_spawn_no_new_authority:
  assumes "mint_child_spawn_capabilities held ceiling wt b = Inr g"
    and "c \<in> set (granted (csg_capabilities g))"
  shows "contains held c \<or> (\<exists>r. swg_read wt = Some r \<and> c = FsRead r)
         \<or> (\<exists>w. swg_write wt = Some w \<and> c = FsWrite w)"
proof -
  have "contains held (reroot b d)" if "d \<in> set ceiling" for d
    using mint_child_InrD(1) [OF assms(1)] that subsumes_reroot contains_trans
    by (auto simp: set_covers_def list_all_iff)
  then show ?thesis
    using assms(2) unfolding mint_child_InrD(2) [OF assms(1)] by (auto split: option.splits)
qed

definition demo_caller :: capability_set where
  "demo_caller = grant_root
     [AgentCall \<lparr>ac_agent_id = ''writer'', ac_budget = SpawnBudget 2\<rparr>, Entropy]"

definition demo_request :: spawn_request where
  "demo_request = \<lparr>sr_target = ''writer'',
     sr_ceiling = [AgentCall \<lparr>ac_agent_id = ''writer'', ac_budget = SpawnBudget 2\<rparr>, Entropy],
     sr_worktree = \<lparr>swg_read = None, swg_write = None\<rparr>\<rparr>"

lemmas demo_spawn_simps = demo_caller_def demo_request_def mint_child_spawn_capabilities_def
  attenuate_def contains_def subsumes_agent_call_def reroot_def spawn_level_def
  check_and_consume_spawn_depth_def find_agent_call_def attenuate_for_spawn_def get_agent_call_def

theorem child_spawn_no_new_authority_witness:
  "\<exists>g. mint_child_spawn_capabilities demo_caller (sr_ceiling demo_request)
         (sr_worktree demo_request) (SpawnBudget 1) = Inr g
     \<and> contains demo_caller (AgentCall \<lparr>ac_agent_id = ''writer'', ac_budget = SpawnBudget 1\<rparr>)"
proof -
  define g where "g = \<lparr>csg_capabilities = grant_root
      [AgentCall \<lparr>ac_agent_id = ''writer'', ac_budget = SpawnBudget 1\<rparr>, Entropy],
    csg_child_depth_budget = SpawnBudget 1\<rparr>"
  have h: "mint_child_spawn_capabilities demo_caller (sr_ceiling demo_request)
      (sr_worktree demo_request) (SpawnBudget 1) = Inr g"
    by (simp add: demo_spawn_simps g_def)
  have m: "AgentCall \<lparr>ac_agent_id = ''writer'', ac_budget = SpawnBudget 1\<rparr>
      \<in> set (granted (csg_capabilities g))"
    by (simp add: g_def)
  show ?thesis using h child_spawn_no_new_authority [OF h m] by auto
qed

text \<open>Spawn recursion is bounded by the root's grants: a chain of successful spawns, whatever
  targets, ceilings and worktrees it goes through, is no longer than the largest spawn depth the
  root set holds.\<close>

theorem spawn_descend_bounded:
  assumes "spawn_descend held rs = Inr s"
  shows "length rs + depth_bound s \<le> depth_bound held"
  using assms
proof (induction rs arbitrary: held)
  case Nil
  then show ?case by simp
next
  case (Cons r rs)
  then obtain g where g: "spawn_level held r = Inr g"
    and "spawn_descend (csg_capabilities g) rs = Inr s"
    by (auto split: sum.splits)
  then have "length rs + depth_bound s \<le> depth_bound (csg_capabilities g)" by (blast intro: Cons.IH)
  with spawn_level_depth [OF g] show ?case by simp
qed

theorem spawn_descend_bounded_witness:
  "is_ok (spawn_descend demo_caller [demo_request, demo_request \<lparr>sr_ceiling := []\<rparr>])
   \<and> 2 \<le> depth_bound demo_caller"
proof -
  have h: "spawn_descend demo_caller [demo_request, demo_request \<lparr>sr_ceiling := []\<rparr>]
      = Inr (grant_root [])"
    by (simp add: demo_spawn_simps)
  show ?thesis using h spawn_descend_bounded [OF h] by simp
qed

end
