(* ===== verification/Sha256.thy ===== *)
theory Sha256
  imports Prelude
begin

text \<open>
  The engine's own SHA-256 (\<^verbatim>\<open>detail/sha256_posix.hpp\<close>) and what is built on it: the
  HMAC-SHA256 of \<^verbatim>\<open>src/trust/hmac_posix.cpp\<close> and the content digest of
  \<^verbatim>\<open>src/core/worktree_digest_posix.cpp\<close>. The optimised one-pass routine, which hashes the full
  blocks in place and builds one or two padded tail blocks, is proved equal to the compression of the
  blocks of the padded message; the theory \<open>Fips180\<close> relates that to the standard.
\<close>

unbundle bit_operations_syntax

section \<open>The compression function\<close>

text \<open>The constants, in decimal; the source spells them in hexadecimal, in the same order.\<close>

definition kSha256InitialHash :: "u32 list" where
  "kSha256InitialHash =
     [1779033703, 3144134277, 1013904242, 2773480762,
      1359893119, 2600822924, 528734635, 1541459225]"

definition kSha256RoundConstants :: "u32 list" where
  "kSha256RoundConstants =
     [1116352408, 1899447441, 3049323471, 3921009573, 961987163, 1508970993, 2453635748,
      2870763221, 3624381080, 310598401, 607225278, 1426881987, 1925078388, 2162078206,
      2614888103, 3248222580, 3835390401, 4022224774, 264347078, 604807628, 770255983,
      1249150122, 1555081692, 1996064986, 2554220882, 2821834349, 2952996808, 3210313671,
      3336571891, 3584528711, 113926993, 338241895, 666307205, 773529912, 1294757372,
      1396182291, 1695183700, 1986661051, 2177026350, 2456956037, 2730485921, 2820302411,
      3259730800, 3345764771, 3516065817, 3600352804, 4094571909, 275423344, 430227734,
      506948616, 659060556, 883997877, 958139571, 1322822218, 1537002063, 1747873779,
      1955562222, 2024104815, 2227730452, 2361852424, 2428436474, 2756734187, 3204031479,
      3329325298]"

definition sha256_rotr32 :: "u32 \<Rightarrow> nat \<Rightarrow> u32" where
  "sha256_rotr32 x n = drop_bit n x OR push_bit (32 - n) x"

definition sha256_load_be32 :: "u8 list \<Rightarrow> u32" where
  "sha256_load_be32 p =
     push_bit 24 (ucast (p ! 0)) OR push_bit 16 (ucast (p ! 1))
     OR push_bit 8 (ucast (p ! 2)) OR ucast (p ! 3)"

definition sha256_store_be32 :: "u32 \<Rightarrow> u8 list" where
  "sha256_store_be32 v = [ucast (drop_bit 24 v), ucast (drop_bit 16 v), ucast (drop_bit 8 v), ucast v]"

text \<open>The body of the schedule loop, for one index.\<close>

definition schedule_step :: "nat \<Rightarrow> u32 list \<Rightarrow> u32 list" where
  "schedule_step i w =
     (let s0 = sha256_rotr32 (w ! (i - 15)) 7 XOR sha256_rotr32 (w ! (i - 15)) 18
               XOR drop_bit 3 (w ! (i - 15));
          s1 = sha256_rotr32 (w ! (i - 2)) 17 XOR sha256_rotr32 (w ! (i - 2)) 19
               XOR drop_bit 10 (w ! (i - 2))
      in w[i := w ! (i - 16) + s0 + w ! (i - 7) + s1])"

definition message_schedule :: "u8 list \<Rightarrow> u32 list" where
  "message_schedule block =
     fold schedule_step [16..<64]
       (map (\<lambda>i. sha256_load_be32 (drop (i * 4) block)) [0..<16] @ replicate 48 0)"

text \<open>The body of the round loop: the eight working variables, rotated.\<close>

fun sha256_round ::
  "u32 \<times> u32 \<Rightarrow> u32 \<times> u32 \<times> u32 \<times> u32 \<times> u32 \<times> u32 \<times> u32 \<times> u32
   \<Rightarrow> u32 \<times> u32 \<times> u32 \<times> u32 \<times> u32 \<times> u32 \<times> u32 \<times> u32" where
  "sha256_round (k, wi) (a, b, c, d, e, f, g, h) =
     (let s1 = sha256_rotr32 e 6 XOR sha256_rotr32 e 11 XOR sha256_rotr32 e 25;
          ch = (e AND f) XOR (NOT e AND g);
          temp1 = h + s1 + ch + k + wi;
          s0 = sha256_rotr32 a 2 XOR sha256_rotr32 a 13 XOR sha256_rotr32 a 22;
          maj = (a AND b) XOR (a AND c) XOR (b AND c);
          temp2 = s0 + maj
      in (temp1 + temp2, a, b, c, d + temp1, e, f, g))"

definition sha256_process_block :: "u32 list \<Rightarrow> u8 list \<Rightarrow> u32 list" where
  "sha256_process_block state block =
     (case fold sha256_round (zip kSha256RoundConstants (message_schedule block))
             (state ! 0, state ! 1, state ! 2, state ! 3, state ! 4, state ! 5, state ! 6, state ! 7)
      of (a, b, c, d, e, f, g, h) \<Rightarrow>
        [state ! 0 + a, state ! 1 + b, state ! 2 + c, state ! 3 + d,
         state ! 4 + e, state ! 5 + f, state ! 6 + g, state ! 7 + h])"

section \<open>The hash\<close>

text \<open>The tail buffer: 128 zero bytes, the rest of the message copied to the front, the marker byte,
  and the bit length written backwards from the end of the padded region.\<close>

definition tail_padded_len :: "nat \<Rightarrow> nat" where
  "tail_padded_len tail_len = (if tail_len + 1 \<le> 56 then 64 else 128)"

definition sha256_tail :: "u8 list \<Rightarrow> u8 list" where
  "sha256_tail bytes =
     (let full_blocks = length bytes div 64;
          tail_len = length bytes - full_blocks * 64;
          t0 = drop (full_blocks * 64) bytes @ replicate (128 - tail_len) 0;
          t1 = t0[tail_len := 0x80];
          padded_len = tail_padded_len tail_len;
          bit_len = (of_nat (length bytes) :: u64) * 8
      in fold (\<lambda>i t. t[padded_len - 1 - i := ucast (drop_bit (i * 8) bit_len AND 0xFF)]) [0..<8] t1)"

definition sha256_raw :: "u8 list \<Rightarrow> u8 list" where
  "sha256_raw bytes =
     (let full_blocks = length bytes div 64;
          state = fold (\<lambda>i s. sha256_process_block s (take 64 (drop (i * 64) bytes)))
                    [0..<full_blocks] kSha256InitialHash;
          tail = sha256_tail bytes;
          padded_len = tail_padded_len (length bytes - full_blocks * 64);
          state = sha256_process_block state (take 64 tail);
          state = (if padded_len = 128 then sha256_process_block state (drop 64 tail) else state)
      in concat (map (\<lambda>i. sha256_store_be32 (state ! i)) [0..<8]))"

section \<open>HMAC (src/trust/hmac_posix.cpp)\<close>

definition kBlockSize :: nat where
  "kBlockSize = 64"

definition derive_key_block :: "u8 list \<Rightarrow> u8 list" where
  "derive_key_block key =
     (if kBlockSize < length key
      then sha256_raw key @ replicate (kBlockSize - length (sha256_raw key)) 0
      else key @ replicate (kBlockSize - length key) 0)"

definition xor_pad :: "u8 list \<Rightarrow> u8 \<Rightarrow> u8 list" where
  "xor_pad k_prime pad_byte = map (\<lambda>i. k_prime ! i XOR pad_byte) [0..<kBlockSize]"

text \<open>\<^verbatim>\<open>std::size_t\<close> is 64 bits wide on the platforms the engine builds for.\<close>

definition size_max :: nat where
  "size_max = 2 ^ 64 - 1"

definition hmac_sha256 :: "u8 list \<Rightarrow> u8 list \<Rightarrow> u8 list result" where
  "hmac_sha256 key data =
     (if size_max - kBlockSize < length data then Inl (Error Contract ''hmac.data_len_overflow'')
      else
        let k_prime = derive_key_block key;
            inner_hash = sha256_raw (xor_pad k_prime 0x36 @ data)
        in Inr (sha256_raw (xor_pad k_prime 0x5c @ inner_hash)))"

text \<open>The loop of \<^verbatim>\<open>constant_time_equal\<close> runs over all 32 positions and accumulates the
  differences.\<close>

definition constant_time_equal :: "u8 list \<Rightarrow> u8 list \<Rightarrow> bool" where
  "constant_time_equal a b = (fold (\<lambda>i diff. diff OR (a ! i XOR b ! i)) [0..<32] (0::u8) = 0)"

section \<open>Content digests (src/core/worktree_digest_posix.cpp)\<close>

type_synonym digest = string

definition hex_digit :: "u8 \<Rightarrow> char" where
  "hex_digit v = (if v < 10 then char_of (0x30 + unat v) else char_of (0x61 + (unat v - 10)))"

definition to_hex :: "u8 list \<Rightarrow> string" where
  "to_hex raw = concat (map (\<lambda>b. [hex_digit (drop_bit 4 b), hex_digit (b AND 0x0F)]) raw)"

definition compute_digest :: "u8 list \<Rightarrow> digest result" where
  "compute_digest bytes = Inr (to_hex (sha256_raw bytes))"

section \<open>Reference definitions\<close>

text \<open>Pad the whole message to a multiple of 64 bytes, split it into blocks, compress them
  in order. HMAC as RFC 2104 states it, over any hash function.\<close>

fun chunks64 :: "'a list \<Rightarrow> 'a list list" where
  "chunks64 xs = (if xs = [] then [] else take 64 xs # chunks64 (drop 64 xs))"

declare chunks64.simps [simp del]

definition be64 :: "u64 \<Rightarrow> u8 list" where
  "be64 v = map (\<lambda>i. ucast (drop_bit (i * 8) v)) (rev [0..<8])"

definition sha256_pad :: "u8 list \<Rightarrow> u8 list" where
  "sha256_pad m = m @ [0x80] @ replicate ((119 - length m mod 64) mod 64) 0
                    @ be64 (of_nat (8 * length m))"

definition sha256_reference :: "u8 list \<Rightarrow> u8 list" where
  "sha256_reference m =
     concat (map sha256_store_be32
       (fold (\<lambda>block state. sha256_process_block state block)
         (chunks64 (sha256_pad m)) kSha256InitialHash))"

definition hmac_reference :: "(u8 list \<Rightarrow> u8 list) \<Rightarrow> u8 list \<Rightarrow> u8 list \<Rightarrow> u8 list" where
  "hmac_reference H K m =
     (let k0 = (if length K > 64 then H K else K);
          k = k0 @ replicate (64 - length k0) 0
      in H (map (\<lambda>b. b XOR 0x5c) k @ H (map (\<lambda>b. b XOR 0x36) k @ m)))"

section \<open>Lemmas\<close>

lemma length_sha256_process_block [simp]: "length (sha256_process_block s b) = 8"
  by (simp add: sha256_process_block_def split: prod.splits)

lemma length_sha256_store_be32 [simp]: "length (sha256_store_be32 v) = 4"
  by (simp add: sha256_store_be32_def)

lemma length_sha256_raw [simp]: "length (sha256_raw m) = 32"
  by (simp add: sha256_raw_def Let_def length_concat comp_def sum_list_triv)

lemma chunks64_Nil [simp]: "chunks64 [] = []"
  by (simp add: chunks64.simps)

lemma chunks64_append:
  assumes "64 dvd length xs"
  shows "chunks64 (xs @ ys) = chunks64 xs @ chunks64 ys"
  using assms
proof (induction xs rule: chunks64.induct)
  case (1 xs)
  show ?case
  proof (cases "xs = []")
    case False
    with "1.prems" have "64 \<le> length xs" by (simp add: dvd_imp_le)
    moreover from this "1.prems" have "64 dvd length (drop 64 xs)" by (simp add: dvd_diff_nat)
    ultimately show ?thesis
      using False "1.IH" [OF False] chunks64.simps [of xs] chunks64.simps [of "xs @ ys"]
      by (simp add: numeral_eq_Suc)
  qed simp
qed

lemma chunks64_block: "length b = 64 \<Longrightarrow> chunks64 b = [b]"
  by (auto simp: chunks64.simps [of b])

lemma fold_full_blocks:
  "64 * n \<le> length m \<Longrightarrow>
   fold (\<lambda>i s. P s (take 64 (drop (i * 64) m))) [0..<n] s0
     = fold (\<lambda>b s. P s b) (chunks64 (take (64 * n) m)) s0"
proof (induction n)
  case (Suc n)
  have t: "take (64 * Suc n) m = take (64 * n) m @ take 64 (drop (64 * n) m)"
    using take_add [of "64 * n" 64 m] by (simp add: algebra_simps)
  have "chunks64 (take (64 * Suc n) m)
      = chunks64 (take (64 * n) m) @ [take 64 (drop (64 * n) m)]"
    unfolding t using Suc.prems by (subst chunks64_append) (auto simp: chunks64_block)
  with Suc show ?case by (simp add: mult.commute)
qed simp

text \<open>Writing positions \<open>n - 1\<close>, \<open>n - 2\<close>, \dots backwards.\<close>

lemma fold_update_backwards:
  assumes "k \<le> n" and "n \<le> length t"
  shows "fold (\<lambda>i t. t[n - 1 - i := f i]) [0..<k] t
           = take (n - k) t @ map f (rev [0..<k]) @ drop n t"
  using assms
proof (induction k)
  case (Suc k)
  then have split: "take (n - k) t = take (n - Suc k) t @ [t ! (n - Suc k)]"
    by (metis Suc_diff_Suc Suc_le_lessD diff_less_mono2 le_trans less_imp_diff_less
        less_le_trans take_Suc_conv_app_nth zero_less_diff diff_less le_zero_eq not_less zero_less_Suc)
  from Suc show ?case by (simp add: split list_update_append)
qed simp


lemma ucast_and_ff [simp]: "(ucast (v AND 0xFF :: u64) :: u8) = ucast v"
proof -
  have "(ucast (v AND mask 8 :: u64) :: u8) = ucast v"
    by (rule bit_word_eqI) (auto simp: bit_simps)
  then show ?thesis by (simp add: mask_eq_exp_minus_1)
qed

lemma take_append2: "length A + length B = n \<Longrightarrow> take n (A @ B @ C) = A @ B"
  by auto

lemma sha256_tail_eq:
  assumes "r = length m mod 64"
  shows "take (tail_padded_len r) (sha256_tail m)
    = drop (length m - r) m @ [0x80] @ replicate (tail_padded_len r - 9 - r) 0
        @ be64 (of_nat (8 * length m))" (is ?eq)
    and "length (sha256_tail m) = 128" (is ?len)
proof -
  let ?n = "tail_padded_len r"
  let ?t1 = "drop (length m - r) m @ 0x80 # replicate (127 - r) 0"
  have lt: "r < 64" using assms by simp
  have d: "length m div 64 * 64 = length m - r" "length m - (length m - r) = r"
    using assms by (simp_all add: minus_mod_eq_div_mult minus_div_mult_eq_mod)
  have n: "8 \<le> ?n" "?n \<le> 128" "r + 9 \<le> ?n" using lt by (auto simp: tail_padded_len_def)
  have ld: "length (drop (length m - r) m) = r"
    using assms by simp
  have t1: "(drop (length m - r) m @ replicate (128 - r) (0::u8))[r := 0x80] = ?t1"
    using lt ld by (simp add: list_update_append Suc_diff_Suc [symmetric] numeral_eq_Suc)
  have e: "sha256_tail m = take (?n - 8) ?t1 @ be64 (of_nat (8 * length m)) @ drop ?n ?t1"
    unfolding sha256_tail_def Let_def d t1
    by (subst fold_update_backwards) (use n lt ld in \<open>simp_all add: be64_def mult.commute\<close>)
  have a: "take (?n - 8) ?t1 = drop (length m - r) m @ [0x80] @ replicate (?n - 9 - r) 0"
    using n ld lt by (simp add: take_Cons' min_def)
  have la: "length (take (?n - 8) ?t1) = ?n - 8" and lc: "length (drop ?n ?t1) = 128 - ?n"
    using n ld lt by simp_all
  have lb: "length (be64 v) = 8" for v by (simp add: be64_def)
  have "take ?n (sha256_tail m) = take (?n - 8) ?t1 @ be64 (of_nat (8 * length m))"
    unfolding e by (rule take_append2) (simp only: la lb le_add_diff_inverse2 [OF n(1)])
  then show ?eq unfolding a by (simp only: append_assoc)
  show ?len
    unfolding e length_append la lb lc using n by linarith
qed



text \<open>Compressing the tail buffer is compressing the blocks of the padded rest.\<close>

lemma chunks64_tail:
  assumes "r = length m mod 64"
  shows "chunks64 (take (tail_padded_len r) (sha256_tail m))
    = take 64 (sha256_tail m)
      # (if tail_padded_len r = 128 then [drop 64 (sha256_tail m)] else [])"
  using sha256_tail_eq(2) [OF assms]
  by (auto simp: tail_padded_len_def chunks64.simps [of "sha256_tail m"] chunks64_block)

lemma sha256_pad_split:
  assumes "r = length m mod 64"
  shows "sha256_pad m = take (length m - r) m @ take (tail_padded_len r) (sha256_tail m)"
proof -
  have "r < 64" using assms by simp
  then have "(119 - r) mod 64 = tail_padded_len r - 9 - r"
    by (auto simp: tail_padded_len_def mod_if)
  then show ?thesis
    using append_take_drop_id [of "length m - r" m]
    by (simp add: sha256_pad_def sha256_tail_eq(1) [OF assms] assms [symmetric])
qed

lemma concat_map_nth8:
  assumes "length (xs :: 'a list) = 8"
  shows "concat (map (\<lambda>i. f (xs ! i)) [0..<8]) = concat (map f xs)"
  using map_nth [of xs] assms by (metis map_map comp_def map_cong)

lemma length_derive_key_block [simp]: "length (derive_key_block k) = 64"
  by (simp add: derive_key_block_def kBlockSize_def)

lemma xor_pad_eq: "length k = 64 \<Longrightarrow> xor_pad k p = map (\<lambda>b. b XOR p) k"
  by (auto simp: xor_pad_def kBlockSize_def intro: nth_equalityI)

lemma fold_or_zero_iff:
  "fold (\<lambda>i diff. diff OR f i) is (d :: u8) = 0 \<longleftrightarrow> d = 0 \<and> (\<forall>i\<in>set is. f i = 0)"
  by (induction "is" arbitrary: d) (auto simp: or_eq_0_iff)

lemma xor_zero_iff: "(a :: u8) XOR b = 0 \<longleftrightarrow> a = b"
proof
  assume "a XOR b = 0"
  then have "(a XOR b) XOR b = b" by simp
  then show "a = b" by (simp add: xor.assoc)
qed simp

lemma constant_time_equal_iff:
  assumes "length a = 32" and "length b = 32"
  shows "constant_time_equal a b \<longleftrightarrow> a = b"
proof -
  have "constant_time_equal a b \<longleftrightarrow> (\<forall>i < 32. a ! i XOR b ! i = 0)"
    by (auto simp: constant_time_equal_def fold_or_zero_iff)
  also have "\<dots> \<longleftrightarrow> (\<forall>i < 32. a ! i = b ! i)" by (simp add: xor_zero_iff)
  also have "\<dots> \<longleftrightarrow> a = b" using assms by (auto intro: nth_equalityI)
  finally show ?thesis .
qed

lemma length_to_hex: "length (to_hex raw) = 2 * length raw"
  by (simp add: to_hex_def length_concat comp_def sum_list_triv)

text \<open>The hexadecimal digits are distinct, so printing loses nothing.\<close>

definition hex_value :: "char \<Rightarrow> nat" where
  "hex_value c = (if of_char c < (0x61::nat) then of_char c - 0x30 else of_char c - 0x61 + 10)"

lemma hex_value_hex_digit: "v < 16 \<Longrightarrow> hex_value (hex_digit v) = unat v"
  by (auto simp: hex_value_def hex_digit_def word_less_nat_alt unat_of_nat take_bit_nat_def)

lemma hex_digit_inj: "a < 16 \<Longrightarrow> b < 16 \<Longrightarrow> hex_digit a = hex_digit b \<longleftrightarrow> a = b"
  by (metis hex_value_hex_digit word_unat_eq_iff)

lemma nibbles_bound: "drop_bit 4 (b :: u8) < 16" "(b :: u8) AND 0x0F < 16"
proof -
  have b: "unat b < 2 ^ LENGTH(8)" by (rule unsigned_less)
  show "drop_bit 4 b < 16"
    using b by (simp add: word_less_nat_alt unat_drop_bit_eq drop_bit_nat_def)
  have "(b AND 0x0F) \<le> 0x0F" by (rule word_and_le1)
  then show "b AND 0x0F < 16" by (rule le_less_trans) simp
qed

lemma nibbles_inj:
  assumes "drop_bit 4 a = drop_bit 4 (b :: u8)" and "a AND 0x0F = b AND 0x0F"
  shows "a = b"
proof -
  have m: "(0x0F :: u8) = mask 4" by (simp add: mask_eq_exp_minus_1)
  have "a = push_bit 4 (drop_bit 4 a) OR (a AND mask 4)" for a :: u8
    by (rule bit_word_eqI) (auto simp: bit_simps)
  with assms show ?thesis unfolding m by metis
qed

lemma to_hex_inj: "to_hex a = to_hex b \<Longrightarrow> a = b"
proof (induction a arbitrary: b)
  case Nil
  then show ?case by (cases b) (simp_all add: to_hex_def)
next
  case (Cons x xs)
  then obtain y ys where b: "b = y # ys" by (cases b) (auto simp: to_hex_def)
  with Cons.prems have "x = y" and "to_hex xs = to_hex ys"
    by (auto simp: to_hex_def hex_digit_inj nibbles_bound intro: nibbles_inj)
  with Cons.IH b show ?case by simp
qed

lemma hmac_sha256_Inr: "length d \<le> size_max - 64 \<Longrightarrow> is_ok (hmac_sha256 k d)"
  by (simp add: hmac_sha256_def kBlockSize_def Let_def)

lemma hmac_sha256_length: "hmac_sha256 k d = Inr s \<Longrightarrow> length s = 32"
  by (auto simp: hmac_sha256_def Let_def split: if_splits)

section \<open>Properties\<close>

text \<open>Hashing the full blocks in place and then one or two tail blocks gives the compression of the blocks of the padded
  message.\<close>

lemma raw_is_padded_blocks: "sha256_raw m = sha256_reference m"
proof -
  define r where "r = length m mod 64"
  define P where "P = (\<lambda>(b :: u8 list) s. sha256_process_block s b)"
  have d: "length m div 64 * 64 = length m - r" "64 * (length m div 64) = length m - r"
    "64 dvd length m - r"
    by (simp_all add: r_def minus_mod_eq_div_mult dvd_minus_mod)
  have rr: "length m - (length m - r) = r" by (simp add: r_def diff_diff_cancel)
  have full: "fold (\<lambda>i s. sha256_process_block s (take 64 (drop (i * 64) m))) [0..<length m div 64] s
      = fold P (chunks64 (take (length m - r) m)) s" for s
    using fold_full_blocks [of "length m div 64" m sha256_process_block s] d by (simp add: P_def)
  have chunks: "chunks64 (sha256_pad m) = chunks64 (take (length m - r) m)
      @ take 64 (sha256_tail m) # (if tail_padded_len r = 128 then [drop 64 (sha256_tail m)] else [])"
    unfolding sha256_pad_split [OF r_def] using d(3)
    by (subst chunks64_append) (simp_all add: chunks64_tail [OF r_def])
  show ?thesis
    unfolding sha256_raw_def sha256_reference_def Let_def d rr full chunks P_def
    by (subst concat_map_nth8) (simp_all add: fold_append)
qed

text \<open>The portable HMAC-SHA256 is RFC 2104's construction over the engine's SHA-256, returning a
  32-byte code for every key and every message that fits a 64-bit address space with room for one
  block, and a contract error for a longer one.\<close>

theorem hmac_sha256_is_rfc2104:
  "hmac_sha256 key data =
     (if length data \<le> 2 ^ 64 - 65 then Inr (hmac_reference sha256_raw key data)
      else Inl (Error Contract ''hmac.data_len_overflow''))
   \<and> length (hmac_reference sha256_raw key data) = 32"
proof -
  have k: "derive_key_block key =
      (if length key > 64 then sha256_raw key else key)
        @ replicate (64 - length (if length key > 64 then sha256_raw key else key)) 0"
    by (simp add: derive_key_block_def kBlockSize_def)
  have "hmac_reference sha256_raw key data =
      sha256_raw (xor_pad (derive_key_block key) 0x5c
        @ sha256_raw (xor_pad (derive_key_block key) 0x36 @ data))"
    unfolding xor_pad_eq [OF length_derive_key_block] by (simp add: k hmac_reference_def Let_def)
  then show ?thesis
    by (auto simp: hmac_sha256_def Let_def size_max_def kBlockSize_def)
qed

text \<open>The accumulating comparison decides equality of two 32-byte codes.\<close>

theorem constant_time_equal_correct:
  assumes "length a = 32" and "length b = 32"
  shows "constant_time_equal a b \<longleftrightarrow> a = b"
  using assms by (rule constant_time_equal_iff)

theorem constant_time_equal_correct_witness:
  "constant_time_equal (replicate 32 7) (replicate 32 7)
   \<and> \<not> constant_time_equal (replicate 32 7) (replicate 31 7 @ [8])"
  using constant_time_equal_correct [of "replicate 32 7" "replicate 32 7"]
    constant_time_equal_correct [of "replicate 32 7" "replicate 31 7 @ [8]"]
  by (simp add: numeral_eq_Suc)

text \<open>A content digest is 64 characters long, is always produced, and two contents have the same
  digest exactly when their SHA-256 hashes agree: printing in hexadecimal identifies nothing.\<close>

theorem compute_digest_faithful:
  "(\<exists>d. compute_digest a = Inr d \<and> length d = 64)
   \<and> (compute_digest a = compute_digest b \<longleftrightarrow> sha256_raw a = sha256_raw b)"
  by (auto simp: compute_digest_def length_to_hex dest: to_hex_inj)

end
