(* ===== verification/Tokens.thy ===== *)
theory Tokens
  imports Capabilities Sha256 "HOL-Library.Signed_Division"
begin

text \<open>
  Capability bearer tokens (\<^verbatim>\<open>src/trust/capability_token.cpp\<close>): a root signature over kind and
  parameter, one further HMAC per caveat with the previous signature as the key, and verification
  by replaying the chain. The code reaches HMAC through the interface of \<^verbatim>\<open>trust/hmac.hpp\<close>,
  which has two providers (CNG on Windows, the engine's own elsewhere); the operations take it as
  an argument and the locale \<open>mac_provider\<close> states what they rely on. The engine's own HMAC is
  an interpretation.

  Time points are tick counts of \<^verbatim>\<open>std::chrono::system_clock\<close>; the file builds on Windows only,
  where a tick is 100 nanoseconds.
\<close>

section \<open>Definitions\<close>

type_synonym mac_fn = "u8 list \<Rightarrow> u8 list \<Rightarrow> u8 list result"

datatype caveat = ExpiresAt int | PathPrefix string

record capability_token =
  tk_kind :: capability_kind
  tk_param :: string
  tk_caveats :: "caveat list"
  tk_signature :: "u8 list"

record evaluation_request =
  rq_kind :: capability_kind
  rq_path :: string
  rq_now :: int

text \<open>\<^verbatim>\<open>static_cast<std::uint32_t>(kind)\<close>: the enumerators in declaration order.\<close>

primrec kind_code :: "capability_kind \<Rightarrow> u32" where
  "kind_code K_fs_read = 0"
| "kind_code K_fs_write = 1"
| "kind_code K_net_out = 2"
| "kind_code K_net_listen = 3"
| "kind_code K_secret = 4"
| "kind_code K_tool_call = 5"
| "kind_code K_runner_call = 6"
| "kind_code K_exec = 7"
| "kind_code K_clock = 8"
| "kind_code K_entropy = 9"
| "kind_code K_env_read = 10"
| "kind_code K_env_write = 11"
| "kind_code K_agent_call = 12"
| "kind_code K_schedule = 13"
| "kind_code K_background = 14"
| "kind_code K_elicit = 15"
| "kind_code K_native_exec = 16"
| "kind_code K_sandbox_mount = 17"
| "kind_code K_sandbox_net_out = 18"
| "kind_code K_task_branch = 19"
| "kind_code K_task_branch_commit = 20"
| "kind_code K_run_command = 21"
| "kind_code K_unmediated_shell = 22"

definition encode_root :: "capability_kind \<Rightarrow> string \<Rightarrow> u8 list" where
  "encode_root kind param = put_u32 (kind_code kind) @ put_str param"

text \<open>\<^verbatim>\<open>duration_cast<milliseconds>\<close> divides the tick count, truncating towards zero.\<close>

definition ticks_per_ms :: int where
  "ticks_per_ms = 10000"

definition to_ms :: "int \<Rightarrow> int" where
  "to_ms t = t sdiv ticks_per_ms"

fun encode_caveat :: "caveat \<Rightarrow> u8 list" where
  "encode_caveat (ExpiresAt t) = 0 # put_u64 (word_of_int (to_ms t))"
| "encode_caveat (PathPrefix p) = 1 # put_str p"

text \<open>The random source: \<open>None\<close> is a failure of the system generator.\<close>

definition generate_secret_key :: "u8 list option \<Rightarrow> u8 list result" where
  "generate_secret_key rng =
     (case rng of None \<Rightarrow> Inl (Error Fatal ''capability_token.bcrypt_failure'') | Some key \<Rightarrow> Inr key)"

definition token_mint_root :: "mac_fn \<Rightarrow> u8 list \<Rightarrow> capability_kind \<Rightarrow> string \<Rightarrow> capability_token result" where
  "token_mint_root hmac key kind param =
     (case hmac key (encode_root kind param) of
        Inl e \<Rightarrow> Inl e
      | Inr sig \<Rightarrow> Inr \<lparr>tk_kind = kind, tk_param = param, tk_caveats = [], tk_signature = sig\<rparr>)"

definition token_attenuate :: "mac_fn \<Rightarrow> capability_token \<Rightarrow> caveat \<Rightarrow> capability_token result" where
  "token_attenuate hmac parent c =
     (case hmac (tk_signature parent) (encode_caveat c) of
        Inl e \<Rightarrow> Inl e
      | Inr sig \<Rightarrow> Inr (parent\<lparr>tk_caveats := tk_caveats parent @ [c], tk_signature := sig\<rparr>))"

text \<open>The two loops of \<^verbatim>\<open>verify\<close>: the replay of the signature chain, and the caveat checks in mint
  order.\<close>

fun replay_chain :: "mac_fn \<Rightarrow> u8 list \<Rightarrow> caveat list \<Rightarrow> u8 list result" where
  "replay_chain hmac running [] = Inr running"
| "replay_chain hmac running (c # cs) =
     (case hmac running (encode_caveat c) of Inl e \<Rightarrow> Inl e | Inr s \<Rightarrow> replay_chain hmac s cs)"

fun check_caveats :: "evaluation_request \<Rightarrow> caveat list \<Rightarrow> unit result" where
  "check_caveats rq [] = Inr ()"
| "check_caveats rq (ExpiresAt t # cs) =
     (if t \<le> rq_now rq then Inl (Error Policy ''capability_token.expired'') else check_caveats rq cs)"
| "check_caveats rq (PathPrefix p # cs) =
     (if \<not> starts_with p (rq_path rq) then Inl (Error Policy ''capability_token.path_denied'')
      else check_caveats rq cs)"

definition token_verify ::
  "mac_fn \<Rightarrow> capability_token \<Rightarrow> u8 list \<Rightarrow> evaluation_request \<Rightarrow> unit result" where
  "token_verify hmac t key rq =
     (case hmac key (encode_root (tk_kind t) (tk_param t)) of
        Inl e \<Rightarrow> Inl e
      | Inr running \<Rightarrow>
          (case replay_chain hmac running (tk_caveats t) of
             Inl e \<Rightarrow> Inl e
           | Inr expected \<Rightarrow>
               if \<not> constant_time_equal expected (tk_signature t)
               then Inl (Error Policy ''capability_token.bad_signature'')
               else if tk_kind t \<noteq> rq_kind rq
               then Inl (Error Policy ''capability_token.kind_mismatch'')
               else check_caveats rq (tk_caveats t)))"

section \<open>Vocabulary of the properties\<close>

text \<open>Delegation: each holder appends one caveat to what it was handed.\<close>

fun token_delegate :: "mac_fn \<Rightarrow> capability_token \<Rightarrow> caveat list \<Rightarrow> capability_token result" where
  "token_delegate hmac t [] = Inr t"
| "token_delegate hmac t (c # cs) =
     (case token_attenuate hmac t c of Inl e \<Rightarrow> Inl e | Inr t' \<Rightarrow> token_delegate hmac t' cs)"

fun caveat_holds :: "evaluation_request \<Rightarrow> caveat \<Rightarrow> bool" where
  "caveat_holds rq (ExpiresAt t) = (rq_now rq < t)"
| "caveat_holds rq (PathPrefix p) = starts_with p (rq_path rq)"

text \<open>The inputs on which verification of a token calls HMAC, in order, with their results.\<close>

fun chain_queries :: "mac_fn \<Rightarrow> u8 list \<Rightarrow> caveat list \<Rightarrow> (u8 list \<times> u8 list) list" where
  "chain_queries hmac running [] = []"
| "chain_queries hmac running (c # cs) = (running, encode_caveat c) #
     (case hmac running (encode_caveat c) of Inl e \<Rightarrow> [] | Inr s \<Rightarrow> chain_queries hmac s cs)"

definition token_queries :: "mac_fn \<Rightarrow> u8 list \<Rightarrow> capability_token \<Rightarrow> (u8 list \<times> u8 list) list" where
  "token_queries hmac key t =
     (key, encode_root (tk_kind t) (tk_param t)) #
     (case hmac key (encode_root (tk_kind t) (tk_param t)) of
        Inl e \<Rightarrow> [] | Inr s \<Rightarrow> chain_queries hmac s (tk_caveats t))"

text \<open>Two different inputs among given queries with the same code; a query whose result is a given
  key.\<close>

definition queries_collide :: "mac_fn \<Rightarrow> (u8 list \<times> u8 list) list \<Rightarrow> (u8 list \<times> u8 list) list \<Rightarrow> bool" where
  "queries_collide hmac Q Q' =
     list_ex (\<lambda>(k, d). list_ex (\<lambda>(k', d'). (k, d) \<noteq> (k', d') \<and> is_ok (hmac k d) \<and> hmac k d = hmac k' d') Q') Q"

definition queries_expose :: "mac_fn \<Rightarrow> u8 list \<Rightarrow> (u8 list \<times> u8 list) list \<Rightarrow> bool" where
  "queries_expose hmac key Q = list_ex (\<lambda>(k, d). hmac k d = Inr key) Q"

text \<open>What a signature pins of a caveat: an expiry up to the millisecond, a prefix exactly.\<close>

fun caveat_scope :: "caveat \<Rightarrow> u64 + string" where
  "caveat_scope (ExpiresAt t) = Inl (word_of_int (to_ms t))"
| "caveat_scope (PathPrefix p) = Inr p"

fun caveat_small :: "caveat \<Rightarrow> bool" where
  "caveat_small (ExpiresAt t) = True"
| "caveat_small (PathPrefix p) = (length p < 2 ^ 32)"

definition token_small :: "capability_token \<Rightarrow> bool" where
  "token_small t = (length (tk_param t) < 2 ^ 32 \<and> list_all caveat_small (tk_caveats t))"

section \<open>Encodings\<close>

lemma kind_code_inj: "kind_code k = kind_code k' \<longleftrightarrow> k = k'"
proof -
  have "k = k'" if "unat (kind_code k) = unat (kind_code k')"
    using that by (cases k; cases k'; simp)
  then show ?thesis by auto
qed

lemma encode_root_inj:
  assumes "encode_root k p = encode_root k' p'" and "length p < 2 ^ 32" and "length p' < 2 ^ 32"
  shows "k = k' \<and> p = p'"
proof -
  from assms(1) have "put_u32 (kind_code k) = put_u32 (kind_code k')" and "put_str p = put_str p'"
    unfolding encode_root_def by (simp_all add: append_eq_append_conv)
  then show ?thesis
    using put_str_inj assms(2,3) by (auto simp: codec_simps kind_code_inj)
qed

lemma encode_caveat_inj:
  assumes "encode_caveat c = encode_caveat d" and "caveat_small c" and "caveat_small d"
  shows "caveat_scope c = caveat_scope d"
  using assms by (cases c; cases d) (auto simp: codec_simps intro: put_str_inj)

lemma encode_caveat_cong: "caveat_scope c = caveat_scope d \<Longrightarrow> encode_caveat c = encode_caveat d"
  by (cases c; cases d) auto

lemma check_caveats_iff: "check_caveats rq cs = Inr () \<longleftrightarrow> list_all (caveat_holds rq) cs"
  by (induction rq cs rule: check_caveats.induct) auto

section \<open>The chain\<close>

lemma replay_chain_append:
  "replay_chain hmac s (cs @ ds) =
     (case replay_chain hmac s cs of Inl e \<Rightarrow> Inl e | Inr s' \<Rightarrow> replay_chain hmac s' ds)"
  by (induction cs arbitrary: s) (auto split: sum.splits)

lemma replay_chain_cong:
  "map caveat_scope cs = map caveat_scope ds \<Longrightarrow> replay_chain hmac s cs = replay_chain hmac s ds"
proof (induction cs arbitrary: s ds)
  case (Cons c cs)
  then obtain d ds' where ds: "ds = d # ds'" and "caveat_scope c = caveat_scope d"
    and r: "map caveat_scope cs = map caveat_scope ds'"
    by auto
  then have "encode_caveat c = encode_caveat d" by (auto intro: encode_caveat_cong)
  with ds Cons.IH [OF r] show ?case by (simp split: sum.splits)
qed simp

lemma token_delegate_InrD:
  assumes "token_delegate hmac t cs = Inr t'"
  shows "tk_kind t' = tk_kind t \<and> tk_param t' = tk_param t \<and> tk_caveats t' = tk_caveats t @ cs
         \<and> replay_chain hmac (tk_signature t) cs = Inr (tk_signature t')"
  using assms
proof (induction cs arbitrary: t)
  case (Cons c cs)
  then obtain u where u: "token_attenuate hmac t c = Inr u" and "token_delegate hmac u cs = Inr t'"
    by (auto split: sum.splits)
  with Cons.IH [of u] show ?case by (auto simp: token_attenuate_def split: sum.splits)
qed simp

locale mac_provider =
  fixes hmac :: mac_fn
  assumes mac_length: "hmac k d = Inr s \<Longrightarrow> length s = 32"
begin

lemma replay_length:
  "length s = 32 \<Longrightarrow> replay_chain hmac s cs = Inr r \<Longrightarrow> length r = 32"
  by (induction cs arbitrary: s) (auto split: sum.splits dest: mac_length)

text \<open>Verification succeeds exactly when the signature is the replayed chain, the kinds agree and
  every caveat holds.\<close>

lemma verify_iff:
  assumes "length (tk_signature t) = 32"
  shows "token_verify hmac t key rq = Inr () \<longleftrightarrow>
    (\<exists>s. hmac key (encode_root (tk_kind t) (tk_param t)) = Inr s
         \<and> replay_chain hmac s (tk_caveats t) = Inr (tk_signature t))
    \<and> tk_kind t = rq_kind rq \<and> list_all (caveat_holds rq) (tk_caveats t)"
  using assms
  by (auto simp: token_verify_def check_caveats_iff constant_time_equal_iff
      dest: mac_length replay_length [rotated] split: sum.splits if_splits)

lemma verify_delegated:
  assumes "token_mint_root hmac key kind param = Inr t0" and "token_delegate hmac t0 cs = Inr t"
  shows "token_verify hmac t key rq = Inr () \<longleftrightarrow> kind = rq_kind rq \<and> list_all (caveat_holds rq) cs"
proof -
  obtain s where s: "hmac key (encode_root kind param) = Inr s"
    and t0: "t0 = \<lparr>tk_kind = kind, tk_param = param, tk_caveats = [], tk_signature = s\<rparr>"
    using assms(1) by (auto simp: token_mint_root_def split: sum.splits)
  have t: "tk_kind t = kind" "tk_param t = param" "tk_caveats t = cs"
    "replay_chain hmac s cs = Inr (tk_signature t)"
    using token_delegate_InrD [OF assms(2)] t0 by simp_all
  have "length (tk_signature t) = 32" using mac_length [OF s] t(4) by (rule replay_length)
  from verify_iff [OF this, of key rq] show ?thesis by (auto simp: t s)
qed

end

interpretation posix_mac: mac_provider hmac_sha256
  by standard (rule hmac_sha256_length)

section \<open>Binding\<close>

lemma chain_queries_snoc:
  assumes "replay_chain hmac s (cs @ [c]) = Inr r"
  obtains m where "replay_chain hmac s cs = Inr m" and "hmac m (encode_caveat c) = Inr r"
    and "chain_queries hmac s (cs @ [c]) = chain_queries hmac s cs @ [(m, encode_caveat c)]"
proof -
  from assms obtain m where m: "replay_chain hmac s cs = Inr m" and c: "hmac m (encode_caveat c) = Inr r"
    by (auto simp: replay_chain_append split: sum.splits)
  moreover from m have "chain_queries hmac s (cs @ [c]) = chain_queries hmac s cs @ [(m, encode_caveat c)]"
    by (induction cs arbitrary: s) (auto split: sum.splits simp: c)
  ultimately show ?thesis by (rule that)
qed

text \<open>The last query of a chain produces its final signature.\<close>

lemma last_query:
  assumes "hmac key e = Inr s" and "replay_chain hmac s cs = Inr r"
  shows "\<exists>(k, d) \<in> set ((key, e) # chain_queries hmac s cs). hmac k d = Inr r"
proof (cases cs rule: rev_cases)
  case Nil
  with assms show ?thesis by simp
next
  case (snoc ds d)
  with assms(2) obtain m where "hmac m (encode_caveat d) = Inr r"
    and "chain_queries hmac s cs = chain_queries hmac s ds @ [(m, encode_caveat d)]"
    by (metis chain_queries_snoc)
  then show ?thesis by auto
qed

lemma queries_collide_iff:
  "queries_collide hmac Q Q' \<longleftrightarrow> (\<exists>k d k' d' s. (k, d) \<in> set Q \<and> (k', d') \<in> set Q'
     \<and> (k, d) \<noteq> (k', d') \<and> hmac k d = Inr s \<and> hmac k' d' = Inr s)" (is "_ \<longleftrightarrow> ?R")
proof
  show "queries_collide hmac Q Q' \<Longrightarrow> ?R"
    unfolding queries_collide_def list_ex_iff by (auto elim!: is_okE) metis+
next
  assume ?R
  then obtain k d k' d' s where "(k, d) \<in> set Q" "(k', d') \<in> set Q'" "(k, d) \<noteq> (k', d')"
    "hmac k d = Inr s" "hmac k' d' = Inr s"
    by blast
  then show "queries_collide hmac Q Q'"
    unfolding queries_collide_def list_ex_iff
    by (intro bexI [of _ "(k, d)"] case_prodI bexI [of _ "(k', d')"]) auto
qed

lemma queries_collideI:
  "(k, d) \<in> set Q \<Longrightarrow> (k', d') \<in> set Q' \<Longrightarrow> (k, d) \<noteq> (k', d') \<Longrightarrow> hmac k d = Inr s \<Longrightarrow> hmac k' d' = Inr s
   \<Longrightarrow> queries_collide hmac Q Q'"
  unfolding queries_collide_iff by blast

lemma queries_collide_mono:
  "queries_collide hmac Q Q' \<Longrightarrow> set Q \<subseteq> set R \<Longrightarrow> set Q' \<subseteq> set R' \<Longrightarrow> queries_collide hmac R R'"
  unfolding queries_collide_iff by blast

lemma queries_collide_sym: "queries_collide hmac Q Q' \<Longrightarrow> queries_collide hmac Q' Q"
  unfolding queries_collide_iff by metis

lemma queries_expose_simps [simp]:
  "\<not> queries_expose hmac key []"
  "queries_expose hmac key ((k, d) # Q) \<longleftrightarrow> hmac k d = Inr key \<or> queries_expose hmac key Q"
  "queries_expose hmac key (Q @ R) \<longleftrightarrow> queries_expose hmac key Q \<or> queries_expose hmac key R"
  by (auto simp: queries_expose_def)

lemma chain_binds_root:
  assumes "hmac key e = Inr r" and "hmac key e' = Inr s'" and "replay_chain hmac s' cs' = Inr r"
  shows "e = e' \<and> cs' = [] \<or> queries_collide hmac [(key, e)] ((key, e') # chain_queries hmac s' cs')
         \<or> queries_expose hmac key ((key, e') # chain_queries hmac s' cs')"
proof (cases cs' rule: rev_cases)
  case Nil
  with assms show ?thesis by (cases "e = e'") (auto intro: queries_collideI)
next
  case (snoc ds d)
  with assms(3) obtain m where m: "replay_chain hmac s' ds = Inr m" "hmac m (encode_caveat d) = Inr r"
    and q: "chain_queries hmac s' cs' = chain_queries hmac s' ds @ [(m, encode_caveat d)]"
    by (metis chain_queries_snoc)
  show ?thesis
  proof (cases "m = key")
    case True
    with last_query [OF assms(2) m(1)] show ?thesis
      unfolding queries_expose_def list_ex_iff q by auto
  next
    case False
    then show ?thesis using assms(1) m(2) q
      by (intro disjI2 disjI1 queries_collideI [of key e _ m "encode_caveat d" _ _ r]) auto
  qed
qed

text \<open>Two chains from one key that end in the same signature signed the same encodings, unless the
  inputs they hashed contain a collision or produced the key itself.\<close>

lemma chain_binds:
  assumes "hmac key e = Inr s" and "replay_chain hmac s cs = Inr r"
    and "hmac key e' = Inr s'" and "replay_chain hmac s' cs' = Inr r"
  shows "e = e' \<and> map encode_caveat cs = map encode_caveat cs'
    \<or> queries_collide hmac ((key, e) # chain_queries hmac s cs) ((key, e') # chain_queries hmac s' cs')
    \<or> queries_expose hmac key ((key, e) # chain_queries hmac s cs @ (key, e') # chain_queries hmac s' cs')"
  using assms(2,4)
proof (induction cs arbitrary: cs' r rule: rev_induct)
  case Nil
  then have "hmac key e = Inr r" using assms(1) by simp
  from chain_binds_root [OF this assms(3) Nil(2)] show ?case by auto
next
  case (snoc c cs)
  obtain m where m: "replay_chain hmac s cs = Inr m" "hmac m (encode_caveat c) = Inr r"
    and q: "chain_queries hmac s (cs @ [c]) = chain_queries hmac s cs @ [(m, encode_caveat c)]"
    using snoc.prems(1) by (rule chain_queries_snoc)
  show ?case
  proof (cases cs' rule: rev_cases)
    case Nil
    with snoc.prems(2) assms(3) have "hmac key e' = Inr r" by simp
    from chain_binds_root [OF this assms(1) snoc.prems(1)] have
      "queries_collide hmac ((key, e) # chain_queries hmac s (cs @ [c])) [(key, e')]
       \<or> queries_expose hmac key ((key, e) # chain_queries hmac s (cs @ [c]))"
      by (auto intro: queries_collide_sym)
    with Nil show ?thesis by auto
  next
    case snoc': (snoc ds d)
    with snoc.prems(2) obtain m' where m': "replay_chain hmac s' ds = Inr m'" "hmac m' (encode_caveat d) = Inr r"
      and q': "chain_queries hmac s' cs' = chain_queries hmac s' ds @ [(m', encode_caveat d)]"
      by (metis chain_queries_snoc)
    show ?thesis
    proof (cases "(m, encode_caveat c) = (m', encode_caveat d)")
      case True
      with m' have "replay_chain hmac s' ds = Inr m" by simp
      from snoc.IH [OF m(1) this] consider
          "e = e' \<and> map encode_caveat cs = map encode_caveat ds"
        | "queries_collide hmac ((key, e) # chain_queries hmac s cs) ((key, e') # chain_queries hmac s' ds)"
        | "queries_expose hmac key ((key, e) # chain_queries hmac s cs @ (key, e') # chain_queries hmac s' ds)"
        by blast
      then show ?thesis
      proof cases
        case 1
        with True snoc' show ?thesis by simp
      next
        case 2
        then have "queries_collide hmac ((key, e) # chain_queries hmac s (cs @ [c]))
            ((key, e') # chain_queries hmac s' cs')"
          unfolding q q' by (rule queries_collide_mono) auto
        then show ?thesis by blast
      next
        case 3
        then show ?thesis unfolding q q' by auto
      qed
    next
      case False
      then show ?thesis unfolding q q' using m(2) m'(2)
        by (intro disjI2 disjI1 queries_collideI [of m "encode_caveat c" _ m' "encode_caveat d" _ _ r]) auto
    qed
  qed
qed

lemma map_encode_caveat_inj:
  "map encode_caveat cs = map encode_caveat ds \<Longrightarrow> list_all caveat_small cs \<Longrightarrow> list_all caveat_small ds
   \<Longrightarrow> map caveat_scope cs = map caveat_scope ds"
proof (induction cs arbitrary: ds)
  case (Cons c cs)
  then obtain d ds' where "ds = d # ds'" and "encode_caveat c = encode_caveat d"
    and "map encode_caveat cs = map encode_caveat ds'"
    by (metis list.simps(9) map_eq_Cons_D)
  with Cons show ?case using encode_caveat_inj [of c d] by simp
qed simp

section \<open>Properties\<close>

text \<open>A token minted by the host and delegated through any sequence of caveats is accepted exactly
  for requests of its kind that satisfy every one of those caveats, whoever appended them.\<close>

theorem delegated_token_accepts:
  assumes "\<And>k d s. hmac k d = Inr s \<Longrightarrow> length s = 32"
    and "token_mint_root hmac key kind param = Inr t0" and "token_delegate hmac t0 cs = Inr t"
  shows "token_verify hmac t key rq = Inr () \<longleftrightarrow> kind = rq_kind rq \<and> list_all (caveat_holds rq) cs"
  using mac_provider.verify_delegated [of hmac] assms by (auto simp: mac_provider_def)

theorem delegated_token_accepts_witness:
  "token_verify (\<lambda>k d. Inr (replicate 32 7))
     \<lparr>tk_kind = K_fs_read, tk_param = ''m'', tk_caveats = [PathPrefix ''/a'', ExpiresAt 5],
      tk_signature = replicate 32 7\<rparr> []
     \<lparr>rq_kind = K_fs_read, rq_path = ''/a/b'', rq_now = 4\<rparr> = Inr ()
   \<and> token_verify (\<lambda>k d. Inr (replicate 32 7))
     \<lparr>tk_kind = K_fs_read, tk_param = ''m'', tk_caveats = [PathPrefix ''/a'', ExpiresAt 5],
      tk_signature = replicate 32 7\<rparr> []
     \<lparr>rq_kind = K_fs_read, rq_path = ''/a/b'', rq_now = 5\<rparr> \<noteq> Inr ()"
proof -
  let ?h = "\<lambda>k d. Inr (replicate 32 7)"
  let ?t0 = "\<lparr>tk_kind = K_fs_read, tk_param = ''m'', tk_caveats = [], tk_signature = replicate 32 7\<rparr>"
  let ?cs = "[PathPrefix ''/a'', ExpiresAt 5]"
  have m: "token_mint_root ?h [] K_fs_read ''m'' = Inr ?t0" by (simp add: token_mint_root_def)
  have d: "token_delegate ?h ?t0 ?cs = Inr (?t0\<lparr>tk_caveats := ?cs\<rparr>)"
    by (simp add: token_attenuate_def)
  show ?thesis
    using delegated_token_accepts [OF _ m d, of "\<lparr>rq_kind = K_fs_read, rq_path = ''/a/b'', rq_now = 4\<rparr>"]
      delegated_token_accepts [OF _ m d, of "\<lparr>rq_kind = K_fs_read, rq_path = ''/a/b'', rq_now = 5\<rparr>"]
    by (auto simp: starts_with_def)
qed

text \<open>C14. A signature binds the whole scope: two tokens that both verify under one key with the same
  signature carry the same kind, the same parameter and the same caveats in the same order (expiries up
  to the millisecond), unless the HMAC inputs of these two verifications contain a collision or
  produced the secret key itself. So removing or editing a caveat while keeping a signature, or
  reaching a known signature by another chain, needs such an event.\<close>

theorem token_signature_binds_scope:
  assumes "\<And>k d s. hmac k d = Inr s \<Longrightarrow> length s = 32"
    and "length (tk_signature t) = 32" and "tk_signature t' = tk_signature t"
    and "token_verify hmac t key rq = Inr ()" and "token_verify hmac t' key rq' = Inr ()"
    and "token_small t" and "token_small t'"
  shows "tk_kind t = tk_kind t' \<and> tk_param t = tk_param t'
         \<and> map caveat_scope (tk_caveats t) = map caveat_scope (tk_caveats t')
    \<or> queries_collide hmac (token_queries hmac key t) (token_queries hmac key t')
    \<or> queries_expose hmac key (token_queries hmac key t @ token_queries hmac key t')"
proof -
  have p: "mac_provider hmac" using assms(1) by (simp add: mac_provider_def)
  obtain s where s: "hmac key (encode_root (tk_kind t) (tk_param t)) = Inr s"
      "replay_chain hmac s (tk_caveats t) = Inr (tk_signature t)"
    using mac_provider.verify_iff [OF p assms(2)] assms(4) by blast
  obtain s' where s': "hmac key (encode_root (tk_kind t') (tk_param t')) = Inr s'"
      "replay_chain hmac s' (tk_caveats t') = Inr (tk_signature t)"
    using mac_provider.verify_iff [OF p, of t'] assms(2,3,5) by auto
  have q: "token_queries hmac key t = (key, encode_root (tk_kind t) (tk_param t)) # chain_queries hmac s (tk_caveats t)"
    "token_queries hmac key t' = (key, encode_root (tk_kind t') (tk_param t')) # chain_queries hmac s' (tk_caveats t')"
    by (simp_all add: token_queries_def s(1) s'(1))
  have "tk_kind t = tk_kind t' \<and> tk_param t = tk_param t'
      \<and> map caveat_scope (tk_caveats t) = map caveat_scope (tk_caveats t')"
    if "encode_root (tk_kind t) (tk_param t) = encode_root (tk_kind t') (tk_param t')"
      and "map encode_caveat (tk_caveats t) = map encode_caveat (tk_caveats t')"
    using encode_root_inj [OF that(1)] map_encode_caveat_inj [OF that(2)] assms(6,7)
    unfolding token_small_def by blast
  with chain_binds [OF s s'] show ?thesis unfolding q append_Cons by blast
qed

definition demo_mac :: mac_fn where
  "demo_mac k d = Inr (if k = [] then replicate 32 7 else replicate 32 8)"

theorem token_signature_binds_scope_witness:
  "tk_caveats \<lparr>tk_kind = K_fs_read, tk_param = ''m'', tk_caveats = [ExpiresAt 10001],
       tk_signature = replicate 32 8\<rparr> = [ExpiresAt 10001]
   \<and> caveat_scope (ExpiresAt 10001) = caveat_scope (ExpiresAt 19999)"
proof -
  let ?t = "\<lambda>x. \<lparr>tk_kind = K_fs_read, tk_param = ''m'', tk_caveats = [ExpiresAt x],
       tk_signature = replicate 32 8\<rparr>"
  let ?rq = "\<lparr>rq_kind = K_fs_read, rq_path = ''/'', rq_now = 0\<rparr>"
  have v: "token_verify demo_mac (?t x) [] ?rq = Inr ()" if "0 < x" for x
    using that by (simp add: demo_mac_def token_verify_def constant_time_equal_iff)
  have l: "length s = 32" if "demo_mac k d = Inr s" for k d s
    using that by (auto simp: demo_mac_def split: if_splits)
  have sm: "token_small (?t x)" for x by (simp add: token_small_def)
  have ec: "to_ms 10001 = to_ms 19999"
    by (simp add: to_ms_def ticks_per_ms_def signed_divide_int_def)
  have "\<not> queries_collide demo_mac (token_queries demo_mac [] (?t 10001)) (token_queries demo_mac [] (?t 19999))"
    by (auto simp: demo_mac_def queries_collide_def token_queries_def ec numeral_eq_Suc)
  moreover have "\<not> queries_expose demo_mac [] (token_queries demo_mac [] (?t 10001) @ token_queries demo_mac [] (?t 19999))"
    by (simp add: demo_mac_def queries_expose_def token_queries_def numeral_eq_Suc)
  ultimately show ?thesis
    using token_signature_binds_scope [of demo_mac "?t 10001" "?t 19999", OF l _ _ v v sm sm] by simp
qed

text \<open>Expiries are signed to the millisecond but enforced to the tick: the holder of a token with an
  expiry caveat can move that expiry to any other tick of the same millisecond, and the edited token
  still verifies, against the edited expiry.\<close>

theorem expiry_editable_within_millisecond:
  assumes "\<And>k d s. hmac k d = Inr s \<Longrightarrow> length s = 32"
    and "token_mint_root hmac key kind param = Inr t0"
    and "token_delegate hmac t0 [ExpiresAt a] = Inr t" and "to_ms a = to_ms b"
  shows "token_verify hmac (t\<lparr>tk_caveats := [ExpiresAt b]\<rparr>) key rq = Inr ()
         \<longleftrightarrow> kind = rq_kind rq \<and> rq_now rq < b"
proof -
  have p: "mac_provider hmac" using assms(1) by (simp add: mac_provider_def)
  have "token_attenuate hmac t0 (ExpiresAt a) = Inr t" using assms(3) by (simp split: sum.splits)
  moreover have "tk_caveats t0 = []" using assms(2) by (auto simp: token_mint_root_def split: sum.splits)
  ultimately have "token_delegate hmac t0 [ExpiresAt b] = Inr (t\<lparr>tk_caveats := [ExpiresAt b]\<rparr>)"
    using assms(4) by (auto simp: token_attenuate_def split: sum.splits)
  from mac_provider.verify_delegated [OF p assms(2) this, of rq] show ?thesis by simp
qed

theorem expiry_editable_within_millisecond_witness:
  "token_verify (\<lambda>k d. Inr (replicate 32 7))
     \<lparr>tk_kind = K_fs_read, tk_param = ''m'', tk_caveats = [ExpiresAt 19999],
      tk_signature = replicate 32 7\<rparr> []
     \<lparr>rq_kind = K_fs_read, rq_path = ''/a'', rq_now = 15000\<rparr> = Inr ()"
proof -
  let ?h = "\<lambda>k d. Inr (replicate 32 7)"
  let ?t0 = "\<lparr>tk_kind = K_fs_read, tk_param = ''m'', tk_caveats = [], tk_signature = replicate 32 7\<rparr>"
  have m: "token_mint_root ?h [] K_fs_read ''m'' = Inr ?t0" by (simp add: token_mint_root_def)
  have d: "token_delegate ?h ?t0 [ExpiresAt 10000] = Inr (?t0\<lparr>tk_caveats := [ExpiresAt 10000]\<rparr>)"
    by (simp add: token_attenuate_def)
  have e: "to_ms 10000 = to_ms 19999"
    by (simp add: to_ms_def ticks_per_ms_def signed_divide_int_def)
  show ?thesis
    using expiry_editable_within_millisecond [OF _ m d e,
        of "\<lparr>rq_kind = K_fs_read, rq_path = ''/a'', rq_now = 15000\<rparr>"]
    by simp
qed

end
