(* ===== verification/Registry.thy ===== *)
theory Registry
  imports Capabilities Sha256
begin

text \<open>
  The host-side capability registry (\<^verbatim>\<open>src/trust/capability_registry.cpp\<close>): opaque references, and
  every check against the stored entry. The map is behind a mutex; \<^verbatim>\<open>derive_attenuated\<close> takes it
  twice, once to copy the parent and once to insert the child, so the step relation below lets any
  other operation run between the two. The random generator is an argument of the operations that
  use it: the 16 bytes it returned, or \<open>None\<close> when it failed.
\<close>

section \<open>Definitions\<close>

record registry_entry =
  re_kind :: capability_kind
  re_param :: string
  re_path_prefix :: string
  re_expires_at :: int

type_synonym registry = "string \<rightharpoonup> registry_entry"

definition generate_ref :: "u8 list option \<Rightarrow> string result" where
  "generate_ref rng =
     (case rng of
        None \<Rightarrow> Inl (Error Fatal ''capability_registry.rng_failure'')
      | Some raw \<Rightarrow> Inr (to_hex raw))"

definition registry_grant ::
  "registry \<Rightarrow> u8 list option \<Rightarrow> registry_entry \<Rightarrow> (string result \<times> registry)" where
  "registry_grant reg rng entry =
     (case generate_ref rng of
        Inl e \<Rightarrow> (Inl e, reg)
      | Inr ref \<Rightarrow> (Inr ref, reg(ref \<mapsto> entry)))"

definition registry_check :: "registry \<Rightarrow> string \<Rightarrow> capability_kind \<Rightarrow> string \<Rightarrow> int \<Rightarrow> unit result" where
  "registry_check reg ref requested_kind requested_path now =
     (case reg ref of
        None \<Rightarrow> Inl (Error Policy ''capability_registry.unknown_ref'')
      | Some entry \<Rightarrow>
          if re_kind entry \<noteq> requested_kind
          then Inl (Error Policy ''capability_registry.kind_mismatch'')
          else if re_expires_at entry \<le> now
          then Inl (Error Policy ''capability_registry.expired'')
          else if re_path_prefix entry \<noteq> [] \<and> \<not> starts_with (re_path_prefix entry) requested_path
          then Inl (Error Policy ''capability_registry.path_denied'')
          else Inr ())"

text \<open>The first critical section of \<^verbatim>\<open>derive_attenuated\<close> with the checks that follow it, and the
  second one.\<close>

definition derive_prepare :: "registry \<Rightarrow> string \<Rightarrow> string \<Rightarrow> int \<Rightarrow> registry_entry result" where
  "derive_prepare reg parent narrower_prefix narrower_expiry =
     (case reg parent of
        None \<Rightarrow> Inl (Error Policy ''capability_registry.unknown_parent'')
      | Some parent_copy \<Rightarrow>
          if re_path_prefix parent_copy \<noteq> [] \<and> \<not> starts_with (re_path_prefix parent_copy) narrower_prefix
          then Inl (Error Policy ''capability_registry.widen_rejected'')
          else if re_expires_at parent_copy < narrower_expiry
          then Inl (Error Policy ''capability_registry.widen_rejected'')
          else Inr \<lparr>re_kind = re_kind parent_copy, re_param = re_param parent_copy,
                    re_path_prefix = narrower_prefix, re_expires_at = narrower_expiry\<rparr>)"

definition derive_attenuated ::
  "registry \<Rightarrow> u8 list option \<Rightarrow> string \<Rightarrow> string \<Rightarrow> int \<Rightarrow> (string result \<times> registry)" where
  "derive_attenuated reg rng parent narrower_prefix narrower_expiry =
     (case derive_prepare reg parent narrower_prefix narrower_expiry of
        Inl e \<Rightarrow> (Inl e, reg)
      | Inr child \<Rightarrow> registry_grant reg rng child)"

definition registry_revoke :: "registry \<Rightarrow> string \<Rightarrow> registry" where
  "registry_revoke reg ref = reg(ref := None)"

definition entry_count :: "registry \<Rightarrow> nat" where
  "entry_count reg = card (dom reg)"

section \<open>Narrowing of entries\<close>

definition entry_covers :: "registry_entry \<Rightarrow> registry_entry \<Rightarrow> bool" where
  "entry_covers p c \<longleftrightarrow>
     re_kind p = re_kind c \<and> re_param p = re_param c
     \<and> starts_with (re_path_prefix p) (re_path_prefix c) \<and> re_expires_at c \<le> re_expires_at p"

interpretation entry: narrowing entry_covers
  by standard (auto simp: entry_covers_def intro: starts_with_trans)

definition entry_admits :: "registry_entry \<Rightarrow> capability_kind \<Rightarrow> string \<Rightarrow> int \<Rightarrow> bool" where
  "entry_admits e kind path now \<longleftrightarrow>
     re_kind e = kind \<and> now < re_expires_at e \<and> starts_with (re_path_prefix e) path"

lemma entry_admits_mono: "entry_covers p c \<Longrightarrow> entry_admits c k path now \<Longrightarrow> entry_admits p k path now"
  by (auto simp: entry_covers_def entry_admits_def intro: starts_with_trans)

lemma registry_check_iff:
  "registry_check reg ref k path now = Inr () \<longleftrightarrow> (\<exists>e. reg ref = Some e \<and> entry_admits e k path now)"
  by (auto simp: registry_check_def entry_admits_def split: option.splits)

lemma derive_prepare_covers:
  "derive_prepare reg parent pre x = Inr c \<Longrightarrow> \<exists>p. reg parent = Some p \<and> entry_covers p c"
  by (auto simp: derive_prepare_def entry_covers_def split: option.splits if_splits)

lemma registry_grant_InrD:
  "registry_grant reg rng e = (Inr ref, reg') \<Longrightarrow> reg' = reg(ref \<mapsto> e) \<and> rng \<noteq> None"
  by (auto simp: registry_grant_def generate_ref_def split: sum.splits option.splits)

section \<open>Interleaved runs\<close>

text \<open>The state of a run: the map, the children that passed the checks of \<^verbatim>\<open>derive_attenuated\<close> and
  are not inserted yet, and every entry the host ever granted as a root.\<close>

record registry_state =
  rs_entries :: registry
  rs_pending :: "registry_entry list"
  rs_roots :: "registry_entry list"

definition registry_init :: registry_state where
  "registry_init = \<lparr>rs_entries = Map.empty, rs_pending = [], rs_roots = []\<rparr>"

inductive registry_step :: "registry_state \<Rightarrow> registry_state \<Rightarrow> bool" where
  step_grant: "registry_grant (rs_entries s) rng e = (Inr ref, reg') \<Longrightarrow>
    registry_step s (s\<lparr>rs_entries := reg', rs_roots := e # rs_roots s\<rparr>)"
| step_prepare: "derive_prepare (rs_entries s) parent pre x = Inr c \<Longrightarrow>
    registry_step s (s\<lparr>rs_pending := c # rs_pending s\<rparr>)"
| step_insert: "c \<in> set (rs_pending s) \<Longrightarrow> registry_grant (rs_entries s) rng c = (Inr ref, reg') \<Longrightarrow>
    registry_step s (s\<lparr>rs_entries := reg', rs_pending := remove1 c (rs_pending s)\<rparr>)"
| step_revoke: "registry_step s (s\<lparr>rs_entries := registry_revoke (rs_entries s) ref\<rparr>)"

inductive_cases registry_stepE: "registry_step s s'"

definition rooted :: "registry_state \<Rightarrow> registry_entry \<Rightarrow> bool" where
  "rooted s e = list_ex (\<lambda>g. entry_covers g e) (rs_roots s)"

definition registry_inv :: "registry_state \<Rightarrow> bool" where
  "registry_inv s \<longleftrightarrow> (\<forall>e\<in>ran (rs_entries s). rooted s e) \<and> (\<forall>e\<in>set (rs_pending s). rooted s e)"

lemma rooted_derive: "rooted s p \<Longrightarrow> entry_covers p c \<Longrightarrow> rooted s c"
  unfolding rooted_def list_ex_iff by (rule entry.any_covers_trans)

lemma registry_inv_init: "registry_inv registry_init"
  by (simp add: registry_inv_def registry_init_def)

lemma ran_upd_subset: "ran (m(k \<mapsto> v)) \<subseteq> insert v (ran m)"
  by (auto simp: ran_def)

lemma rooted_more_roots: "rooted s e \<Longrightarrow> set (rs_roots s) \<subseteq> set (rs_roots s') \<Longrightarrow> rooted s' e"
  by (auto simp: rooted_def list_ex_iff)

text \<open>Inserting a rooted entry and forgetting pending ones keeps the invariant.\<close>

lemma registry_inv_insert:
  assumes "registry_inv s" and "rooted s' e" and "set (rs_roots s) \<subseteq> set (rs_roots s')"
    and "ran (rs_entries s') \<subseteq> insert e (ran (rs_entries s))"
    and "set (rs_pending s') \<subseteq> insert e (set (rs_pending s))"
  shows "registry_inv s'"
  using assms rooted_more_roots [of s _ s'] unfolding registry_inv_def by blast

lemma registry_inv_step:
  assumes "registry_step s s'" and "registry_inv s"
  shows "registry_inv s'"
  using assms
proof (cases rule: registry_step.cases)
  case (step_grant rng e ref reg')
  then have "ran reg' \<subseteq> insert e (ran (rs_entries s))"
    using registry_grant_InrD [OF step_grant(2)] by (simp add: ran_upd_subset)
  with step_grant(1) show ?thesis
    by (simp add: registry_inv_insert [OF assms(2), of _ e] rooted_def entry.covers_refl subset_insertI subset_insertI2)
next
  case (step_prepare parent pre x c)
  then obtain p where "p \<in> ran (rs_entries s)" and "entry_covers p c"
    using derive_prepare_covers by (meson ranI)
  with assms(2) have "rooted s c" by (auto simp: registry_inv_def intro: rooted_derive)
  with step_prepare(1) show ?thesis
    by (intro registry_inv_insert [OF assms(2), of _ c]) (auto simp: rooted_def)
next
  case (step_insert c rng ref reg')
  then have "ran reg' \<subseteq> insert c (ran (rs_entries s))"
    using registry_grant_InrD [OF step_insert(3)] by (simp add: ran_upd_subset)
  moreover have "rooted s c" using step_insert(2) assms(2) by (auto simp: registry_inv_def)
  ultimately show ?thesis using step_insert(1,2) set_remove1_subset [of c "rs_pending s"]
    by (intro registry_inv_insert [OF assms(2), of _ c]) (auto simp: rooted_def)
next
  case (step_revoke ref)
  moreover have "ran (registry_revoke (rs_entries s) ref) \<subseteq> ran (rs_entries s)"
    by (auto simp: registry_revoke_def ran_def split: if_splits)
  ultimately show ?thesis using assms(2) by (auto simp: registry_inv_def rooted_def)
qed

lemma registry_inv_reachable: "registry_step\<^sup>*\<^sup>* registry_init s \<Longrightarrow> registry_inv s"
  by (induction rule: rtranclp_induct) (auto intro: registry_inv_init registry_inv_step)

section \<open>Properties\<close>

text \<open>C35. However grants, derivations (interrupted between their two critical sections) and revocations
  interleave, a reference that passes the registry's check authorises only what some entry granted by
  the host itself authorises: same kind, path below that grant's prefix, before that grant's expiry.\<close>

theorem registry_check_within_some_grant:
  assumes "registry_step\<^sup>*\<^sup>* registry_init s"
    and "registry_check (rs_entries s) ref kind path now = Inr ()"
  shows "\<exists>g\<in>set (rs_roots s). re_kind g = kind \<and> now < re_expires_at g \<and> starts_with (re_path_prefix g) path"
proof -
  obtain e where e: "rs_entries s ref = Some e" and a: "entry_admits e kind path now"
    using assms(2) by (auto simp: registry_check_iff)
  have "rooted s e" using registry_inv_reachable [OF assms(1)] e by (auto simp: registry_inv_def ran_def)
  then obtain g where "g \<in> set (rs_roots s)" and "entry_covers g e" by (auto simp: rooted_def list_ex_iff)
  with entry_admits_mono [OF _ a] show ?thesis unfolding entry_admits_def by blast
qed

theorem registry_check_within_some_grant_witness:
  "\<exists>g\<in>set [\<lparr>re_kind = K_fs_read, re_param = ''m'', re_path_prefix = ''/a'', re_expires_at = 9\<rparr>].
     starts_with (re_path_prefix g) ''/a/b/c''"
proof -
  define g where "g = \<lparr>re_kind = K_fs_read, re_param = ''m'', re_path_prefix = ''/a'', re_expires_at = 9\<rparr>"
  define c where "c = \<lparr>re_kind = K_fs_read, re_param = ''m'', re_path_prefix = ''/a/b'', re_expires_at = 5\<rparr>"
  define s1 where "s1 = \<lparr>rs_entries = [''01'' \<mapsto> g], rs_pending = [], rs_roots = [g]\<rparr>"
  define s2 where "s2 = \<lparr>rs_entries = [''01'' \<mapsto> g], rs_pending = [c], rs_roots = [g]\<rparr>"
  define s3 where "s3 = \<lparr>rs_entries = [''01'' \<mapsto> g, ''02'' \<mapsto> c], rs_pending = [], rs_roots = [g]\<rparr>"
  have hex: "to_hex [1] = ''01''" "to_hex [2] = ''02''"
    by code_simp+
  have "registry_step registry_init s1"
    using step_grant [of registry_init "Some [1]" g "''01''" "[''01'' \<mapsto> g]"]
    by (simp add: registry_grant_def generate_ref_def hex registry_init_def s1_def)
  moreover have "registry_step s1 s2"
    using step_prepare [of s1 "''01''" "''/a/b''" 5 c]
    by (simp add: derive_prepare_def s1_def s2_def g_def c_def starts_with_def)
  moreover have "registry_step s2 s3"
    using step_insert [of c s2 "Some [2]" "''02''" "[''01'' \<mapsto> g, ''02'' \<mapsto> c]"]
    by (simp add: registry_grant_def generate_ref_def hex s2_def s3_def)
  ultimately have r: "registry_step\<^sup>*\<^sup>* registry_init s3"
    by (meson converse_rtranclp_into_rtranclp rtranclp.rtrancl_refl)
  have k: "registry_check (rs_entries s3) ''02'' K_fs_read ''/a/b/c'' 4 = Inr ()"
    by (simp add: registry_check_def s3_def c_def starts_with_def)
  show ?thesis using registry_check_within_some_grant [OF r k] by (simp add: s3_def g_def)
qed

text \<open>Deriving never widens: when a derivation succeeds, whatever its new reference passes, the
  parent reference passed before, and no other reference changed, except one the generator repeated.\<close>

theorem derive_attenuated_narrows:
  assumes "derive_attenuated reg rng parent pre x = (Inr ref, reg')"
  shows "(registry_check reg' ref kind path now = Inr () \<longrightarrow> registry_check reg parent kind path now = Inr ())
         \<and> (\<forall>r. r \<noteq> ref \<longrightarrow> reg' r = reg r)"
proof -
  obtain c where c: "derive_prepare reg parent pre x = Inr c" and g: "registry_grant reg rng c = (Inr ref, reg')"
    using assms by (auto simp: derive_attenuated_def split: sum.splits)
  then show ?thesis
    using derive_prepare_covers [OF c] registry_grant_InrD [OF g]
    by (auto simp: registry_check_iff dest: entry_admits_mono)
qed

theorem derive_attenuated_narrows_witness:
  "derive_attenuated [''p'' \<mapsto> \<lparr>re_kind = K_fs_read, re_param = ''m'', re_path_prefix = ''/a'', re_expires_at = 9\<rparr>]
     (Some []) ''p'' ''/a/b'' 5 =
     (Inr [], [''p'' \<mapsto> \<lparr>re_kind = K_fs_read, re_param = ''m'', re_path_prefix = ''/a'', re_expires_at = 9\<rparr>,
               [] \<mapsto> \<lparr>re_kind = K_fs_read, re_param = ''m'', re_path_prefix = ''/a/b'', re_expires_at = 5\<rparr>])
   \<and> registry_check [''p'' \<mapsto> \<lparr>re_kind = K_fs_read, re_param = ''m'', re_path_prefix = ''/a'', re_expires_at = 9\<rparr>]
       ''p'' K_fs_read ''/a/b/c'' 4 = Inr ()"
  (is "?d = (Inr [], ?reg') \<and> _")
proof -
  have d: "?d = (Inr [], ?reg')"
    by (simp add: derive_attenuated_def derive_prepare_def registry_grant_def generate_ref_def
        to_hex_def starts_with_def)
  moreover have "registry_check ?reg' [] K_fs_read ''/a/b/c'' 4 = Inr ()"
    by (simp add: registry_check_def starts_with_def)
  ultimately show ?thesis using derive_attenuated_narrows [OF d] by blast
qed

end
