(* ===== verification/Identity.thy ===== *)
theory Identity
  imports Prelude
begin

text \<open>
  Who an effect is attributed to: request principals and their delegation
  (\<^verbatim>\<open>trust/principal.hpp\<close>) and the durable identity authority (\<^verbatim>\<open>trust/identity_authority.hpp\<close>).
  The authority is one object behind a mutex, so its methods are functions of an explicit state. Its
  two files enter as a value: the high-water mark and the text of the adoption log, which the code
  writes line by line and parses again at start. Failing writes are not modelled (the code ignores
  them).
\<close>

section \<open>Principals (trust/principal.hpp)\<close>

datatype principal_kind = Human | Service | Agent | Anonymous

record principal =
  p_id :: string
  p_tenant_id :: string
  p_kind :: principal_kind
  p_on_behalf_of :: string
  p_delegation_depth :: u32
  p_delegation_root :: string

definition root_id :: "principal \<Rightarrow> string" where
  "root_id p = (if p_delegation_root p = [] then p_id p else p_delegation_root p)"

definition make_embedded_principal :: "string \<Rightarrow> string \<Rightarrow> principal" where
  "make_embedded_principal i tenant =
     \<lparr>p_id = i, p_tenant_id = tenant, p_kind = Service, p_on_behalf_of = [],
      p_delegation_depth = 0, p_delegation_root = []\<rparr>"

definition make_local_cli_principal :: "string \<Rightarrow> string \<Rightarrow> principal" where
  "make_local_cli_principal user tenant =
     \<lparr>p_id = user, p_tenant_id = tenant, p_kind = Human, p_on_behalf_of = [],
      p_delegation_depth = 0, p_delegation_root = []\<rparr>"

definition make_anonymous_principal :: "string \<Rightarrow> principal" where
  "make_anonymous_principal tenant =
     \<lparr>p_id = ''anonymous'', p_tenant_id = tenant, p_kind = Anonymous, p_on_behalf_of = [],
      p_delegation_depth = 0, p_delegation_root = []\<rparr>"

definition kMaxDelegationDepth :: u32 where
  "kMaxDelegationDepth = 8"

definition derive_on_behalf_of :: "principal \<Rightarrow> string \<Rightarrow> principal result" where
  "derive_on_behalf_of parent derived_id =
     (if kMaxDelegationDepth \<le> p_delegation_depth parent
      then Inl (Error Policy ''principal.delegation_depth_exceeded'')
      else Inr \<lparr>p_id = derived_id, p_tenant_id = p_tenant_id parent, p_kind = Agent,
                p_on_behalf_of = p_id parent, p_delegation_depth = p_delegation_depth parent + 1,
                p_delegation_root = root_id parent\<rparr>)"

definition principal_admitted_for :: "principal \<Rightarrow> principal \<Rightarrow> bool" where
  "principal_admitted_for caller owner =
     (if p_tenant_id caller \<noteq> p_tenant_id owner then False
      else if p_id caller = p_id owner then True
      else p_on_behalf_of caller \<noteq> [] \<and> p_on_behalf_of caller = p_id owner)"

text \<open>A chain of delegations, each on behalf of the last.\<close>

fun delegate_chain :: "principal \<Rightarrow> string list \<Rightarrow> principal result" where
  "delegate_chain p [] = Inr p"
| "delegate_chain p (i # is) =
     (case derive_on_behalf_of p i of Inl e \<Rightarrow> Inl e | Inr q \<Rightarrow> delegate_chain q is)"

section \<open>The identity authority (trust/identity_authority.hpp)\<close>

record identity_handle =
  ih_id :: u64
  ih_label :: string

record 'a grant =
  g_payload :: 'a
  g_issued_to :: identity_handle
  g_issued_by :: identity_handle
  g_grant_id :: u64

text \<open>The two durable files: \<^verbatim>\<open>identity_next_id.txt\<close> (absent, or a number) and
  \<^verbatim>\<open>identity_adopted.log\<close>.\<close>

record identity_files =
  if_next_id :: "u64 option"
  if_adopted_log :: string

record identity_authority =
  ia_ancestry :: "u64 \<rightharpoonup> u64 option"
  ia_adopted :: "string \<times> string \<rightharpoonup> u64"
  ia_next_id :: u64
  ia_next_grant_id :: u64
  ia_durable :: "identity_files option"

definition emplace :: "('k \<rightharpoonup> 'v) \<Rightarrow> 'k \<Rightarrow> 'v \<Rightarrow> ('k \<rightharpoonup> 'v)" where
  "emplace m k v = (case m k of None \<Rightarrow> m(k \<mapsto> v) | Some w \<Rightarrow> m)"

definition persist_high_water_mark :: "identity_authority \<Rightarrow> u64 \<Rightarrow> identity_authority" where
  "persist_high_water_mark s n =
     s\<lparr>ia_durable := map_option (\<lambda>f. f\<lparr>if_next_id := Some n\<rparr>) (ia_durable s)\<rparr>"

definition allocate_id :: "identity_authority \<Rightarrow> u64 \<times> identity_authority" where
  "allocate_id s =
     (ia_next_id s, persist_high_water_mark (s\<lparr>ia_next_id := ia_next_id s + 1\<rparr>) (ia_next_id s + 1))"

definition ia_mint_root :: "identity_authority \<Rightarrow> string \<Rightarrow> identity_handle \<times> identity_authority" where
  "ia_mint_root s label =
     (let (i, s) = allocate_id s
      in (\<lparr>ih_id = i, ih_label = label\<rparr>, s\<lparr>ia_ancestry := emplace (ia_ancestry s) i None\<rparr>))"

definition derive_child ::
  "identity_authority \<Rightarrow> identity_handle \<Rightarrow> string \<Rightarrow> identity_handle \<times> identity_authority" where
  "derive_child s parent label =
     (let (i, s) = allocate_id s
      in (\<lparr>ih_id = i, ih_label = label\<rparr>,
          s\<lparr>ia_ancestry := emplace (ia_ancestry s) i (Some (ih_id parent))\<rparr>))"

text \<open>The loop of \<^verbatim>\<open>is_ancestor_of\<close> follows parent links; on a cyclic table it would not end.\<close>

partial_function (option) ancestor_walk :: "(u64 \<rightharpoonup> u64 option) \<Rightarrow> u64 \<Rightarrow> u64 \<Rightarrow> bool option" where
  "ancestor_walk anc candidate d =
     (case anc d of
        None \<Rightarrow> Some False
      | Some None \<Rightarrow> Some False
      | Some (Some p) \<Rightarrow> if p = candidate then Some True else ancestor_walk anc candidate p)"

definition is_ancestor_of :: "identity_authority \<Rightarrow> u64 \<Rightarrow> u64 \<Rightarrow> bool option" where
  "is_ancestor_of s candidate d =
     (if candidate = d then Some True else ancestor_walk (ia_ancestry s) candidate d)"

definition is_known :: "identity_authority \<Rightarrow> u64 \<Rightarrow> bool" where
  "is_known s i = (ia_ancestry s i \<noteq> None)"

definition mint_grant ::
  "identity_authority \<Rightarrow> 'a \<Rightarrow> identity_handle \<Rightarrow> identity_handle \<Rightarrow> 'a grant \<times> identity_authority" where
  "mint_grant s payload issued_to issued_by =
     (\<lparr>g_payload = payload, g_issued_to = issued_to, g_issued_by = issued_by, g_grant_id = ia_next_grant_id s\<rparr>,
      s\<lparr>ia_next_grant_id := ia_next_grant_id s + 1\<rparr>)"

definition authorized :: "identity_authority \<Rightarrow> 'a grant \<Rightarrow> identity_handle \<Rightarrow> bool option" where
  "authorized s g caller = is_ancestor_of s (ih_id (g_issued_to g)) (ih_id caller)"

subsection \<open>The adoption log\<close>

definition tab :: char where "tab = CHR 0x09"
definition newline :: char where "newline = CHR 0x0A"

definition append_adopted_record :: "identity_authority \<Rightarrow> string \<Rightarrow> string \<Rightarrow> u64 \<Rightarrow> identity_authority" where
  "append_adopted_record s tenant real_id i =
     s\<lparr>ia_durable := map_option
         (\<lambda>f. f\<lparr>if_adopted_log := if_adopted_log f @ tenant @ [tab] @ real_id @ [tab] @ show_nat (unat i) @ [newline]\<rparr>)
         (ia_durable s)\<rparr>"

definition adopt :: "identity_authority \<Rightarrow> principal \<Rightarrow> identity_handle \<times> identity_authority" where
  "adopt s real_principal =
     (let tenant = p_tenant_id real_principal; real_id = p_id real_principal;
          obo = p_on_behalf_of real_principal
      in case ia_adopted s (tenant, real_id) of
           Some i \<Rightarrow> (\<lparr>ih_id = i, ih_label = real_id\<rparr>, s)
         | None \<Rightarrow>
             (let (i, s) = allocate_id s;
                  parent_id = (if obo \<noteq> [] then ia_adopted s (tenant, obo) else None);
                  s = s\<lparr>ia_adopted := emplace (ia_adopted s) (tenant, real_id) i,
                        ia_ancestry := emplace (ia_ancestry s) i parent_id\<rparr>
              in (\<lparr>ih_id = i, ih_label = real_id\<rparr>, append_adopted_record s tenant real_id i)))"

text \<open>\<^verbatim>\<open>std::getline\<close> until the end of the file; the last line may lack its newline.\<close>

fun getlines :: "string \<Rightarrow> string \<Rightarrow> string list" where
  "getlines cur [] = (if cur = [] then [] else [cur])"
| "getlines cur (c # cs) = (if c = newline then cur # getlines [] cs else getlines (cur @ [c]) cs)"

text \<open>\<^verbatim>\<open>std::stoull\<close>: leading space, an optional sign, the longest run of digits; no digits or a value
  out of range throw, anything after the digits is ignored.\<close>

definition is_space :: "char \<Rightarrow> bool" where
  "is_space c = (c = CHR '' '' \<or> (0x09 \<le> (of_char c :: nat) \<and> (of_char c :: nat) \<le> 0x0D))"

definition stoull :: "string \<Rightarrow> u64 option" where
  "stoull str =
     (let s1 = dropWhile is_space str;
          neg = (s1 \<noteq> [] \<and> hd s1 = CHR ''-'');
          s2 = (if s1 \<noteq> [] \<and> (hd s1 = CHR ''-'' \<or> hd s1 = CHR ''+'') then tl s1 else s1);
          ds = takeWhile is_digit s2
      in if ds = [] \<or> 2 ^ 64 \<le> digits_value ds then None
         else Some (if neg then - of_nat (digits_value ds) else of_nat (digits_value ds)))"

definition parse_record :: "string \<Rightarrow> (string \<times> string \<times> u64) option" where
  "parse_record line =
     (let tenant = takeWhile (\<lambda>c. c \<noteq> tab) line; r1 = dropWhile (\<lambda>c. c \<noteq> tab) line
      in if r1 = [] then None
         else let real_id = takeWhile (\<lambda>c. c \<noteq> tab) (tl r1); r2 = dropWhile (\<lambda>c. c \<noteq> tab) (tl r1)
              in if r2 = [] then None
                 else case stoull (tl r2) of None \<Rightarrow> None | Some i \<Rightarrow> Some (tenant, real_id, i))"

definition load_record :: "string \<Rightarrow> identity_authority \<Rightarrow> identity_authority" where
  "load_record line s =
     (case parse_record line of
        None \<Rightarrow> s
      | Some (tenant, real_id, i) \<Rightarrow>
          s\<lparr>ia_adopted := emplace (ia_adopted s) (tenant, real_id) i,
            ia_ancestry := emplace (ia_ancestry s) i None\<rparr>)"

definition load_durable_state :: "identity_authority \<Rightarrow> identity_authority" where
  "load_durable_state s =
     (case ia_durable s of
        None \<Rightarrow> s
      | Some f \<Rightarrow>
          (let s = (case if_next_id f of
                      Some n \<Rightarrow> if 1 \<le> n then s\<lparr>ia_next_id := n\<rparr> else persist_high_water_mark s (ia_next_id s)
                    | None \<Rightarrow> persist_high_water_mark s (ia_next_id s))
           in fold load_record (getlines [] (if_adopted_log f)) s))"

text \<open>The constructor: a process starting on the given files.\<close>

definition ia_bootstrap :: "identity_files option \<Rightarrow> identity_authority" where
  "ia_bootstrap durable =
     load_durable_state \<lparr>ia_ancestry = Map.empty, ia_adopted = Map.empty, ia_next_id = 1,
       ia_next_grant_id = 1, ia_durable = durable\<rparr>"

section \<open>Delegation of principals\<close>

lemma derive_on_behalf_of_InrD:
  assumes "derive_on_behalf_of p i = Inr q"
  shows "p_id q = i \<and> p_tenant_id q = p_tenant_id p \<and> p_kind q = Agent \<and> p_on_behalf_of q = p_id p
    \<and> unat (p_delegation_depth q) = Suc (unat (p_delegation_depth p)) \<and> p_delegation_root q = root_id p"
proof -
  have lt: "p_delegation_depth p < 8"
    using assms by (auto simp: derive_on_behalf_of_def kMaxDelegationDepth_def split: if_splits)
  then have "unat (p_delegation_depth p + 1) = Suc (unat (p_delegation_depth p))"
    by (rule unat_inc [OF less_imp_not_max])
  with assms show ?thesis by (auto simp: derive_on_behalf_of_def split: if_splits)
qed

lemma derive_on_behalf_of_ok_iff: "is_ok (derive_on_behalf_of p i) \<longleftrightarrow> unat (p_delegation_depth p) < 8"
  by (auto simp: derive_on_behalf_of_def kMaxDelegationDepth_def word_le_nat_alt)

lemma delegate_chain_ok_iff:
  "unat (p_delegation_depth p) \<le> 8 \<Longrightarrow>
   is_ok (delegate_chain p is) \<longleftrightarrow> unat (p_delegation_depth p) + length is \<le> 8"
proof (induction "is" arbitrary: p)
  case (Cons i "is")
  show ?case
  proof (cases "derive_on_behalf_of p i")
    case (Inl e)
    then show ?thesis using derive_on_behalf_of_ok_iff [of p i] Cons.prems by simp
  next
    case (Inr q)
    with derive_on_behalf_of_ok_iff [of p i] have "unat (p_delegation_depth p) < 8" by simp
    with Inr Cons.IH [of q] derive_on_behalf_of_InrD [OF Inr] show ?thesis by simp
  qed
qed simp

lemma delegate_chain_InrD:
  assumes "delegate_chain p is = Inr q"
  shows "p_tenant_id q = p_tenant_id p" and "unat (p_delegation_depth q) = unat (p_delegation_depth p) + length is"
    and "is \<noteq> [] \<Longrightarrow> p_kind q = Agent" and "is \<noteq> [] \<Longrightarrow> p_id q = last is"
  using assms
proof (induction "is" arbitrary: p)
  case (Cons i "is")
  {
    case 1
    then show ?case using Cons.IH(1) by (auto split: sum.splits dest: derive_on_behalf_of_InrD)
  next
    case 2
    then show ?case using Cons.IH(2) by (fastforce split: sum.splits dest: derive_on_behalf_of_InrD)
  next
    case 3
    then show ?case using Cons.IH(3) by (cases "is") (auto split: sum.splits dest: derive_on_behalf_of_InrD)
  next
    case 4
    then show ?case using Cons.IH(4) by (cases "is") (auto split: sum.splits dest: derive_on_behalf_of_InrD)
  }
qed simp_all

lemma delegate_chain_root:
  "delegate_chain p is = Inr q \<Longrightarrow> p_delegation_root p \<noteq> [] \<Longrightarrow> p_delegation_root q = p_delegation_root p"
  by (induction "is" arbitrary: p) (auto split: sum.splits dest!: derive_on_behalf_of_InrD simp: root_id_def)

text \<open>Delegation is bounded and never crosses a tenant or gains a more trusted kind: from a root
  principal a chain of delegations succeeds exactly up to eight hops, and its end has the root's
  tenant, the kind agent, a depth equal to the number of hops, and names the root as the start of the
  chain.\<close>

theorem delegation_chain_bounded:
  assumes "p_delegation_depth p = 0" and "p_delegation_root p = []" and "p_id p \<noteq> []"
  shows "(is_ok (delegate_chain p (i # is)) \<longleftrightarrow> length (i # is) \<le> 8)
    \<and> (\<forall>q. delegate_chain p (i # is) = Inr q \<longrightarrow>
          p_tenant_id q = p_tenant_id p \<and> p_kind q = Agent \<and> root_id q = p_id p
          \<and> unat (p_delegation_depth q) = length (i # is))"
proof -
  have ok: "is_ok (delegate_chain p (i # is)) \<longleftrightarrow> length (i # is) \<le> 8"
    using delegate_chain_ok_iff [of p "i # is"] assms(1) by simp
  have "root_id q = p_id p" if "delegate_chain p (i # is) = Inr q" for q
  proof -
    from that obtain r where r: "derive_on_behalf_of p i = Inr r" and "delegate_chain r is = Inr q"
      by (auto split: sum.splits)
    moreover have "p_delegation_root r = p_id p"
      using derive_on_behalf_of_InrD [OF r] assms(2) by (simp add: root_id_def)
    ultimately show ?thesis using delegate_chain_root assms(3) by (simp add: root_id_def)
  qed
  with ok show ?thesis using delegate_chain_InrD [of p "i # is"] assms(1) by auto
qed

theorem delegation_chain_bounded_witness:
  "is_ok (delegate_chain (make_local_cli_principal ''ann'' ''t'') [''a'', ''b''])
   \<and> \<not> is_ok (delegate_chain (make_local_cli_principal ''ann'' ''t'')
          [''a'', ''b'', ''c'', ''d'', ''e'', ''f'', ''g'', ''h'', ''i''])"
proof -
  let ?p = "make_local_cli_principal ''ann'' ''t''"
  have h: "p_delegation_depth ?p = 0" "p_delegation_root ?p = []" "p_id ?p \<noteq> []"
    by (simp_all add: make_local_cli_principal_def)
  show ?thesis using delegation_chain_bounded [OF h, of "''a''" "[''b'']"]
      delegation_chain_bounded [OF h, of "''a''" "[''b'', ''c'', ''d'', ''e'', ''f'', ''g'', ''h'', ''i'']"]
    by (simp del: delegate_chain.simps)
qed

text \<open>Session admission is single-hop: of a chain owner, delegate, delegate's delegate with
  distinct names, the first two are admitted to the owner's session and the third is not, while it is
  admitted to its own parent's; and no one is admitted across tenants.\<close>

theorem admission_single_hop:
  assumes "derive_on_behalf_of p i = Inr q" and "derive_on_behalf_of q j = Inr r"
    and "distinct [p_id p, i, j]" and "p_id p \<noteq> []" and "i \<noteq> []"
  shows "principal_admitted_for p p \<and> principal_admitted_for q p \<and> \<not> principal_admitted_for r p
    \<and> principal_admitted_for r q
    \<and> (\<forall>caller. p_tenant_id caller \<noteq> p_tenant_id p \<longrightarrow> \<not> principal_admitted_for caller p)"
  using derive_on_behalf_of_InrD [OF assms(1)] derive_on_behalf_of_InrD [OF assms(2)] assms(3-5)
  by (auto simp: principal_admitted_for_def)

theorem admission_single_hop_witness:
  "\<exists>q r. derive_on_behalf_of (make_local_cli_principal ''ann'' ''t'') ''a'' = Inr q
     \<and> derive_on_behalf_of q ''b'' = Inr r
     \<and> \<not> principal_admitted_for r (make_local_cli_principal ''ann'' ''t'')"
proof -
  obtain q where q: "derive_on_behalf_of (make_local_cli_principal ''ann'' ''t'') ''a'' = Inr q"
    by (simp add: derive_on_behalf_of_def make_local_cli_principal_def kMaxDelegationDepth_def)
  then have "p_delegation_depth q = 1"
    by (auto simp: derive_on_behalf_of_def make_local_cli_principal_def split: if_splits)
  then obtain r where r: "derive_on_behalf_of q ''b'' = Inr r"
    by (simp add: derive_on_behalf_of_def kMaxDelegationDepth_def word_le_nat_alt)
  show ?thesis using q r admission_single_hop [OF q r] by (auto simp: make_local_cli_principal_def)
qed

section \<open>The log: what is written is what is read\<close>

text \<open>Names the log can carry: no tab and no newline.\<close>

definition clean :: "string \<Rightarrow> bool" where
  "clean str = list_all (\<lambda>c. c \<noteq> tab \<and> c \<noteq> newline) str"

definition record_line :: "string \<times> string \<times> u64 \<Rightarrow> string" where
  "record_line r = (case r of (tenant, real_id, i) \<Rightarrow> tenant @ [tab] @ real_id @ [tab] @ show_nat (unat i))"

definition record_clean :: "string \<times> string \<times> u64 \<Rightarrow> bool" where
  "record_clean r = (case r of (tenant, real_id, i) \<Rightarrow> clean tenant \<and> clean real_id)"

lemma is_digit_not:
  "is_digit c \<Longrightarrow> \<not> is_space c \<and> c \<noteq> CHR ''-'' \<and> c \<noteq> CHR ''+'' \<and> c \<noteq> tab \<and> c \<noteq> newline"
  by (auto simp: is_digit_def is_space_def tab_def newline_def)

lemma stoull_show_nat: "stoull (show_nat (unat i)) = Some i"
proof -
  let ?s = "show_nat (unat i)"
  have hd: "is_digit (hd ?s)" by (rule show_nat_digits [OF hd_in_set [OF show_nat_nonempty]])
  have "dropWhile is_space ?s = ?s"
    using is_digit_not [OF hd] show_nat_nonempty [of "unat i"] by (cases ?s) auto
  moreover have t: "takeWhile is_digit ?s = ?s" using show_nat_digits by (simp add: takeWhile_eq_all_conv)
  moreover have "unat i < 2 ^ LENGTH(64)" by (rule unsigned_less)
  ultimately show ?thesis
    using is_digit_not [OF hd] show_nat_nonempty [of "unat i"]
    by (simp add: stoull_def Let_def digits_value_show_nat t del: takeWhile_eq_all_conv)
qed

lemma parse_record_line:
  assumes "record_clean r"
  shows "parse_record (record_line r) = Some r"
proof -
  obtain t i n where r: "r = (t, i, n)" by (cases r) auto
  with assms have t: "\<forall>c\<in>set t. c \<noteq> tab" and i: "\<forall>c\<in>set i. c \<noteq> tab"
    by (auto simp: record_clean_def clean_def list_all_iff)
  from t have "takeWhile (\<lambda>c. c \<noteq> tab) (record_line r) = t"
    and "dropWhile (\<lambda>c. c \<noteq> tab) (record_line r) = tab # i @ tab # show_nat (unat n)"
    by (simp_all add: r record_line_def takeWhile_append2 dropWhile_append2)
  moreover from i have "takeWhile (\<lambda>c. c \<noteq> tab) (i @ tab # show_nat (unat n)) = i"
    and "dropWhile (\<lambda>c. c \<noteq> tab) (i @ tab # show_nat (unat n)) = tab # show_nat (unat n)"
    by (simp_all add: takeWhile_append2 dropWhile_append2)
  ultimately show ?thesis by (simp add: parse_record_def Let_def stoull_show_nat r)
qed

lemma getlines_line:
  "newline \<notin> set l \<Longrightarrow> getlines cur (l @ newline # rest) = (cur @ l) # getlines [] rest"
  by (induction l arbitrary: cur) auto

lemma newline_notin_record_line: "record_clean r \<Longrightarrow> newline \<notin> set (record_line r)"
  using is_digit_not show_nat_digits
  by (auto simp: record_clean_def record_line_def clean_def list_all_iff tab_def newline_def
      split: prod.splits)

definition log_text :: "(string \<times> string \<times> u64) list \<Rightarrow> string" where
  "log_text rs = concat (map (\<lambda>r. record_line r @ [newline]) rs)"

lemma getlines_log_text: "list_all record_clean rs \<Longrightarrow> getlines [] (log_text rs) = map record_line rs"
  by (induction rs) (auto simp: log_text_def getlines_line newline_notin_record_line)

text \<open>What a log contributes to the state: the adoptions, first one wins, and roots for their ids.\<close>

definition replay_adopted :: "(string \<times> string \<times> u64) list \<Rightarrow> (string \<times> string \<rightharpoonup> u64)" where
  "replay_adopted rs = fold (\<lambda>(t, r, i) m. emplace m (t, r) i) rs Map.empty"

definition replay_roots :: "(string \<times> string \<times> u64) list \<Rightarrow> (u64 \<rightharpoonup> u64 option)" where
  "replay_roots rs = fold (\<lambda>(t, r, i) m. emplace m i None) rs Map.empty"

lemma emplace_apply: "emplace m k v x = (if x = k \<and> m k = None then Some v else m x)"
  by (auto simp: emplace_def split: option.splits)

lemma fold_load_record:
  "list_all record_clean rs \<Longrightarrow>
   fold load_record (map record_line rs) s =
     s\<lparr>ia_adopted := fold (\<lambda>(t, r, i) m. emplace m (t, r) i) rs (ia_adopted s),
       ia_ancestry := fold (\<lambda>(t, r, i) m. emplace m i None) rs (ia_ancestry s)\<rparr>"
proof (induction rs arbitrary: s)
  case (Cons r rs)
  then have "load_record (record_line r) s = (case r of (t, x, i) \<Rightarrow>
      s\<lparr>ia_adopted := emplace (ia_adopted s) (t, x) i, ia_ancestry := emplace (ia_ancestry s) i None\<rparr>)"
    by (simp add: load_record_def parse_record_line split: prod.splits)
  with Cons show ?case by (cases r) simp
qed simp

lemma replay_roots_Some:
  "replay_roots rs i = Some p \<Longrightarrow> p = None \<and> i \<in> (snd \<circ> snd) ` set rs"
  unfolding replay_roots_def
  by (induction rs rule: rev_induct) (auto simp: emplace_apply split: if_splits)

lemma replay_adopted_Some: "replay_adopted rs (t, r) = Some i \<Longrightarrow> (t, r, i) \<in> set rs"
  unfolding replay_adopted_def
  by (induction rs rule: rev_induct) (auto simp: emplace_apply split: if_splits prod.splits)

lemma replay_adopted_snoc: "replay_adopted (rs @ [(t, r, i)]) = emplace (replay_adopted rs) (t, r) i"
  by (simp add: replay_adopted_def)

section \<open>Runs of the authority\<close>

text \<open>
  One process after another on the same files: minting, derivation below a known handle (a handle
  can only be obtained from the authority), adoption, granting, and a restart. Two side conditions:
  the counter has not reached the end of its 64-bit range, and a principal adopted while the
  authority is durable has a tenant and an id the log can carry.
\<close>

inductive ia_step :: "identity_authority \<Rightarrow> identity_authority \<Rightarrow> bool" where
  ia_mint: "ia_next_id s \<noteq> - 1 \<Longrightarrow> ia_mint_root s label = (h, s') \<Longrightarrow> ia_step s s'"
| ia_derive: "ia_next_id s \<noteq> - 1 \<Longrightarrow> is_known s (ih_id parent) \<Longrightarrow> derive_child s parent label = (h, s')
    \<Longrightarrow> ia_step s s'"
| ia_adopt: "ia_next_id s \<noteq> - 1 \<Longrightarrow> clean (p_tenant_id p) \<Longrightarrow> clean (p_id p) \<Longrightarrow> adopt s p = (h, s')
    \<Longrightarrow> ia_step s s'"
| ia_grant: "ia_step s (s\<lparr>ia_next_grant_id := ia_next_grant_id s + 1\<rparr>)"
| ia_restart: "ia_durable s = Some f \<Longrightarrow> ia_step s (ia_bootstrap (Some f))"

definition fresh_files :: identity_files where
  "fresh_files = \<lparr>if_next_id = None, if_adopted_log = []\<rparr>"

text \<open>The links of the ancestry table.\<close>

definition parent_links :: "identity_authority \<Rightarrow> (u64 \<times> u64) set" where
  "parent_links s = {(p, d). ia_ancestry s d = Some (Some p)}"

definition links_ok :: "identity_authority \<Rightarrow> bool" where
  "links_ok s \<longleftrightarrow> ia_next_id s \<noteq> 0
     \<and> (\<forall>i q. ia_ancestry s i = Some q \<longrightarrow> i < ia_next_id s)
     \<and> (\<forall>p d. ia_ancestry s d = Some (Some p) \<longrightarrow> p < d)
     \<and> (\<forall>k i. ia_adopted s k = Some i \<longrightarrow> i < ia_next_id s)"

definition files_ok :: "identity_authority \<Rightarrow> bool" where
  "files_ok s \<longleftrightarrow> (\<forall>f. ia_durable s = Some f \<longrightarrow> if_next_id f = Some (ia_next_id s)
     \<and> (\<exists>rs. list_all record_clean rs \<and> if_adopted_log f = log_text rs \<and> ia_adopted s = replay_adopted rs
             \<and> (\<forall>(t, r, i) \<in> set rs. i < ia_next_id s)))"

definition ia_inv :: "identity_authority \<Rightarrow> bool" where
  "ia_inv s \<longleftrightarrow> links_ok s \<and> files_ok s"

lemmas ia_defs = ia_mint_root_def derive_child_def allocate_id_def persist_high_water_mark_def
  append_adopted_record_def Let_def

lemma word_less_inc: "x \<noteq> - 1 \<Longrightarrow> y < x + 1 \<longleftrightarrow> y < x \<or> y = x" for x y :: "'a::len word"
  by (auto simp: word_less_nat_alt unat_inc less_Suc_eq word_unat_eq_iff)

text \<open>Registering a fresh identity below an older one.\<close>

lemma links_ok_register:
  assumes "links_ok s" and n: "ia_next_id s \<noteq> - 1"
    and "ia_next_id s' = ia_next_id s + 1"
    and "ia_ancestry s' = emplace (ia_ancestry s) (ia_next_id s) q"
    and q: "\<And>p. q = Some p \<Longrightarrow> p < ia_next_id s"
    and "\<And>k i. ia_adopted s' k = Some i \<Longrightarrow> ia_adopted s k = Some i \<or> i = ia_next_id s"
  shows "links_ok s'"
proof -
  have "ia_next_id s + 1 \<noteq> 0" using n by (simp add: eq_neg_iff_add_eq_0)
  moreover have "i < ia_next_id s'" if "ia_adopted s' k = Some i" for k i
    using assms(6) [OF that] assms(1) unfolding links_ok_def assms(3) word_less_inc [OF n] by blast
  ultimately show ?thesis
    using assms(1-5) unfolding links_ok_def
    by (auto simp: emplace_apply word_less_inc split: if_splits dest: q)
qed

lemma files_ok_same_log:
  assumes "files_ok s" and "ia_next_id s \<noteq> - 1" and "ia_next_id s' = ia_next_id s + 1"
    and "ia_durable s' = map_option (\<lambda>f. f\<lparr>if_next_id := Some (ia_next_id s + 1)\<rparr>) (ia_durable s)"
    and "ia_adopted s' = ia_adopted s"
  shows "files_ok s'"
  unfolding files_ok_def
proof (intro allI impI)
  fix f' assume "ia_durable s' = Some f'"
  then obtain f where f: "ia_durable s = Some f" and f': "f' = f\<lparr>if_next_id := Some (ia_next_id s + 1)\<rparr>"
    unfolding assms(4) by auto
  from f assms(1) obtain rs where rs: "list_all record_clean rs" "if_adopted_log f = log_text rs"
    "ia_adopted s = replay_adopted rs" "\<forall>(t, r, i) \<in> set rs. i < ia_next_id s"
    by (auto simp: files_ok_def)
  from rs(4) have "\<forall>(t, r, i) \<in> set rs. i < ia_next_id s'"
    by (auto simp: assms(3) word_less_inc [OF assms(2)])
  with rs show "if_next_id f' = Some (ia_next_id s') \<and> (\<exists>rs. list_all record_clean rs
      \<and> if_adopted_log f' = log_text rs \<and> ia_adopted s' = replay_adopted rs
      \<and> (\<forall>(t, r, i) \<in> set rs. i < ia_next_id s'))"
    by (auto simp: f' assms(3,5))
qed

lemma ia_inv_mint:
  assumes "ia_inv s" and "ia_next_id s \<noteq> - 1" and "ia_mint_root s label = (h, s')"
  shows "ia_inv s'"
  using assms links_ok_register [of s s' None] files_ok_same_log [of s s']
  by (auto simp: ia_inv_def ia_defs)

lemma ia_inv_derive:
  assumes "ia_inv s" and "ia_next_id s \<noteq> - 1" and "is_known s (ih_id parent)"
    and "derive_child s parent label = (h, s')"
  shows "ia_inv s'"
proof -
  have "ih_id parent < ia_next_id s" using assms(1,3) by (auto simp: ia_inv_def links_ok_def is_known_def)
  then show ?thesis
    using assms links_ok_register [of s s' "Some (ih_id parent)"] files_ok_same_log [of s s']
    by (auto simp: ia_inv_def ia_defs)
qed

text \<open>Adoption of a principal seen before changes nothing; of a new one, it registers it.\<close>

lemma adopt_known: "ia_adopted s (p_tenant_id p, p_id p) = Some i \<Longrightarrow>
  adopt s p = (\<lparr>ih_id = i, ih_label = p_id p\<rparr>, s)"
  by (simp add: adopt_def Let_def)

lemma adopt_new:
  assumes "ia_adopted s (p_tenant_id p, p_id p) = None" and "adopt s p = (h, s')"
  shows "ih_id h = ia_next_id s" and "ia_next_id s' = ia_next_id s + 1"
    and "ia_adopted s' = emplace (ia_adopted s) (p_tenant_id p, p_id p) (ia_next_id s)"
    and "ia_ancestry s' = emplace (ia_ancestry s) (ia_next_id s)
          (if p_on_behalf_of p \<noteq> [] then ia_adopted s (p_tenant_id p, p_on_behalf_of p) else None)"
    and "ia_durable s' = map_option (\<lambda>f. f\<lparr>if_next_id := Some (ia_next_id s + 1),
          if_adopted_log := if_adopted_log f @ record_line (p_tenant_id p, p_id p, ia_next_id s) @ [newline]\<rparr>)
          (ia_durable s)"
  using assms
  by (auto simp: adopt_def ia_defs record_line_def option.map_comp comp_def intro!: option.map_cong0)

lemma ia_inv_adopt:
  assumes "ia_inv s" and n: "ia_next_id s \<noteq> - 1" and "clean (p_tenant_id p)" and "clean (p_id p)"
    and "adopt s p = (h, s')"
  shows "ia_inv s'"
proof (cases "ia_adopted s (p_tenant_id p, p_id p)")
  case (Some i)
  with adopt_known assms(1,5) show ?thesis by auto
next
  case None
  note new = adopt_new [OF None assms(5)]
  let ?r = "(p_tenant_id p, p_id p, ia_next_id s)"
  have "links_ok s'"
    using assms(1) new(3,4)
    by (intro links_ok_register [OF _ n new(2)])
      (auto simp: ia_inv_def links_ok_def emplace_apply split: if_splits)
  moreover have "files_ok s'"
    unfolding files_ok_def
  proof (intro allI impI)
    fix f' assume "ia_durable s' = Some f'"
    then obtain f where f: "ia_durable s = Some f"
      and f': "f' = f\<lparr>if_next_id := Some (ia_next_id s + 1), if_adopted_log := if_adopted_log f @ record_line ?r @ [newline]\<rparr>"
      unfolding new(5) by auto
    from f assms(1) obtain rs where rs: "list_all record_clean rs" "if_adopted_log f = log_text rs"
      "ia_adopted s = replay_adopted rs" "\<forall>(t, r, i) \<in> set rs. i < ia_next_id s"
      by (auto simp: ia_inv_def files_ok_def)
    have "if_adopted_log f' = log_text (rs @ [?r])" by (simp add: f' rs(2) log_text_def)
    moreover have "list_all record_clean (rs @ [?r])" using rs(1) assms(3,4) by (simp add: record_clean_def)
    moreover have "ia_adopted s' = replay_adopted (rs @ [?r])"
      by (simp add: new(3) rs(3) replay_adopted_snoc)
    moreover have "\<forall>(t, r, i) \<in> set (rs @ [?r]). i < ia_next_id s'"
      using rs(4) by (auto simp: new(2) word_less_inc [OF n])
    moreover have "if_next_id f' = Some (ia_next_id s')" by (simp add: f' new(2))
    ultimately show "if_next_id f' = Some (ia_next_id s') \<and> (\<exists>rs. list_all record_clean rs
        \<and> if_adopted_log f' = log_text rs \<and> ia_adopted s' = replay_adopted rs
        \<and> (\<forall>(t, r, i) \<in> set rs. i < ia_next_id s'))"
      by blast
  qed
  ultimately show ?thesis by (simp add: ia_inv_def)
qed

text \<open>A restart recovers the counter and every adoption, and keeps no links.\<close>

lemma bootstrap_recovers:
  assumes "ia_inv s" and "ia_durable s = Some f"
  shows "ia_next_id (ia_bootstrap (Some f)) = ia_next_id s"
    and "ia_adopted (ia_bootstrap (Some f)) = ia_adopted s"
    and "ia_durable (ia_bootstrap (Some f)) = Some f"
    and "ia_inv (ia_bootstrap (Some f))"
proof -
  from assms obtain rs where rs: "list_all record_clean rs" "if_adopted_log f = log_text rs"
    "ia_adopted s = replay_adopted rs" "\<forall>(t, r, i) \<in> set rs. i < ia_next_id s"
    and n: "if_next_id f = Some (ia_next_id s)"
    by (auto simp: ia_inv_def files_ok_def)
  have nz: "ia_next_id s \<noteq> 0" using assms(1) by (simp add: ia_inv_def links_ok_def)
  then have "1 \<le> ia_next_id s" by (simp add: word_le_nat_alt unat_gt_0 Suc_leI)
  then have b: "ia_bootstrap (Some f) = \<lparr>ia_ancestry = replay_roots rs, ia_adopted = replay_adopted rs,
      ia_next_id = ia_next_id s, ia_next_grant_id = 1, ia_durable = Some f\<rparr>"
    by (simp add: ia_bootstrap_def load_durable_state_def Let_def n rs(2) getlines_log_text [OF rs(1)]
        fold_load_record [OF rs(1)] replay_adopted_def replay_roots_def)
  then show "ia_next_id (ia_bootstrap (Some f)) = ia_next_id s"
    and "ia_adopted (ia_bootstrap (Some f)) = ia_adopted s"
    and "ia_durable (ia_bootstrap (Some f)) = Some f"
    by (simp_all add: rs(3))
  have "i < ia_next_id s" if "replay_roots rs i = Some q" for i q
    using replay_roots_Some [OF that] rs(4) by auto
  moreover have "i < ia_next_id s" if "replay_adopted rs k = Some i" for i k
    using replay_adopted_Some [of rs "fst k" "snd k" i] that rs(4) by auto
  ultimately have "links_ok (ia_bootstrap (Some f))"
    using nz by (auto simp: links_ok_def b dest: replay_roots_Some)
  moreover have "files_ok (ia_bootstrap (Some f))"
    using rs n by (auto simp: files_ok_def b)
  ultimately show "ia_inv (ia_bootstrap (Some f))" by (simp add: ia_inv_def)
qed

lemma ia_inv_step: "ia_step s s' \<Longrightarrow> ia_inv s \<Longrightarrow> ia_inv s'"
proof (induction rule: ia_step.induct)
  case (ia_grant s)
  then show ?case by (simp add: ia_inv_def links_ok_def files_ok_def)
qed (auto intro: ia_inv_mint ia_inv_derive ia_inv_adopt bootstrap_recovers)

lemma ia_inv_start: "ia_inv (ia_bootstrap None)" "ia_inv (ia_bootstrap (Some fresh_files))"
  by (auto simp: ia_inv_def links_ok_def files_ok_def ia_bootstrap_def load_durable_state_def
      fresh_files_def persist_high_water_mark_def replay_adopted_def log_text_def intro!: exI [of _ "[]"])

definition ia_reachable :: "identity_authority \<Rightarrow> bool" where
  "ia_reachable s \<longleftrightarrow> ia_step\<^sup>*\<^sup>* (ia_bootstrap None) s \<or> ia_step\<^sup>*\<^sup>* (ia_bootstrap (Some fresh_files)) s"

lemma ia_inv_steps: "ia_step\<^sup>*\<^sup>* s s' \<Longrightarrow> ia_inv s \<Longrightarrow> ia_inv s'"
  by (induction rule: rtranclp_induct) (auto intro: ia_inv_step)

lemma ia_inv_reachable: "ia_reachable s \<Longrightarrow> ia_inv s"
  using ia_inv_steps ia_inv_start by (auto simp: ia_reachable_def)

section \<open>Ancestry\<close>

lemma parent_links_trancl_less:
  assumes "\<And>p d. anc d = Some (Some p) \<Longrightarrow> p < (d :: u64)" and "(a, d) \<in> {(p, d). anc d = Some (Some p)}\<^sup>+"
  shows "a < d"
  using assms(2) by (induction rule: trancl_induct) (auto dest: assms(1))

lemma ancestor_walk_decides:
  assumes "\<And>p d. anc d = Some (Some p) \<Longrightarrow> p < d"
  shows "ancestor_walk anc c d = Some ((c, d) \<in> {(p, d). anc d = Some (Some p)}\<^sup>+)"
proof (induction d rule: measure_induct_rule [where f = unat])
  case (less d)
  let ?R = "{(p, d). anc d = Some (Some p)}"
  show ?case
  proof (cases "anc d")
    case None
    moreover have "(c, d) \<notin> ?R\<^sup>+" using None by (auto elim: tranclE)
    ultimately show ?thesis by (simp add: ancestor_walk.simps)
  next
    case (Some q)
    show ?thesis
    proof (cases q)
      case None
      moreover have "(c, d) \<notin> ?R\<^sup>+" using Some None by (auto elim: tranclE)
      ultimately show ?thesis using Some by (simp add: ancestor_walk.simps)
    next
      case q: (Some p)
      with Some have p: "anc d = Some (Some p)" by simp
      then have "unat p < unat d" using assms by (simp add: word_less_nat_alt)
      note IH = less.IH [OF this]
      have "(c, d) \<in> ?R\<^sup>+ \<longleftrightarrow> c = p \<or> (c, p) \<in> ?R\<^sup>+"
        using p by (auto elim: tranclE intro: trancl_into_trancl)
      then show ?thesis using p IH by (subst ancestor_walk.simps) auto
    qed
  qed
qed

text \<open>Ancestry queries always return, and decide ancestry: in every state the authority can reach,
  through any sequence of minting, derivation, adoption, granting and restarts, the walk up the parent
  links ends, and it answers yes exactly when the candidate is the descendant itself or can be reached
  by following links upwards. A grant is thus authorised exactly for its holder and its descendants.\<close>

theorem ancestry_decided:
  assumes "ia_reachable s"
  shows "is_ancestor_of s a d = Some ((a, d) \<in> (parent_links s)\<^sup>*)
    \<and> authorized s g h = Some ((ih_id (g_issued_to g), ih_id h) \<in> (parent_links s)\<^sup>*)"
proof -
  have "links_ok s" using ia_inv_reachable [OF assms] by (simp add: ia_inv_def)
  then have "ancestor_walk (ia_ancestry s) a d = Some ((a, d) \<in> (parent_links s)\<^sup>+)" for a d
    unfolding parent_links_def by (intro ancestor_walk_decides) (auto simp: links_ok_def)
  then have "is_ancestor_of s a d = Some ((a, d) \<in> (parent_links s)\<^sup>*)" for a d
    by (auto simp: is_ancestor_of_def rtrancl_eq_or_trancl)
  then show ?thesis by (simp add: authorized_def)
qed

text \<open>A run used as an example: a durable authority that adopts a principal, adopts its delegate,
  and derives a handle below it.\<close>

definition demo_ann :: principal where
  "demo_ann = make_local_cli_principal ''ann'' ''t''"

definition demo_bot :: principal where
  "demo_bot = make_embedded_principal ''bot'' ''t'' \<lparr>p_on_behalf_of := ''ann''\<rparr>"

definition demo_authority :: identity_authority where
  "demo_authority = snd (adopt (snd (adopt (ia_bootstrap (Some fresh_files)) demo_ann)) demo_bot)"

lemmas demo_identity_simps = demo_authority_def demo_ann_def demo_bot_def adopt_def ia_defs
  make_local_cli_principal_def make_embedded_principal_def ia_bootstrap_def fresh_files_def
  load_durable_state_def emplace_def

lemma demo_reachable: "ia_reachable demo_authority"
proof -
  let ?s0 = "ia_bootstrap (Some fresh_files)" and ?s1 = "snd (adopt (ia_bootstrap (Some fresh_files)) demo_ann)"
  have "ia_step ?s0 ?s1"
    by (rule ia_adopt [of _ demo_ann "fst (adopt ?s0 demo_ann)"])
      (simp_all add: demo_identity_simps clean_def tab_def newline_def)
  moreover have "ia_step ?s1 demo_authority"
    by (rule ia_adopt [of _ demo_bot "fst (adopt ?s1 demo_bot)"])
      (simp_all add: demo_identity_simps clean_def tab_def newline_def)
  ultimately show ?thesis unfolding ia_reachable_def
    by (meson converse_rtranclp_into_rtranclp rtranclp.rtrancl_refl)
qed

theorem ancestry_decided_witness:
  "is_ancestor_of demo_authority 1 2 = Some True \<and> is_ancestor_of demo_authority 2 1 = Some False"
proof -
  have a: "ia_ancestry demo_authority = [1 \<mapsto> None, 2 \<mapsto> Some 1]"
    by (simp add: demo_identity_simps)
  have l: "parent_links demo_authority = {(1, 2)}"
    by (auto simp: parent_links_def a split: if_splits)
  have "(1, 2) \<in> {(1 :: u64, 2)}\<^sup>*" by blast
  moreover have "(2, 1) \<notin> {(1 :: u64, 2)}\<^sup>*" by (auto elim: rtranclE)
  ultimately show ?thesis using ancestry_decided [OF demo_reachable, of 1 2, THEN conjunct1]
      ancestry_decided [OF demo_reachable, of 2 1, THEN conjunct1] by (simp add: l)
qed

section \<open>Stability across restarts\<close>

lemma adopt_keeps:
  assumes "adopt s p = (h, s')" and "ia_adopted s k = Some i"
  shows "ia_adopted s' k = Some i"
proof (cases "ia_adopted s (p_tenant_id p, p_id p)")
  case None
  with assms(2) show ?thesis unfolding adopt_new(3) [OF None assms(1)] emplace_apply by auto
next
  case (Some j)
  with assms show ?thesis by (simp add: adopt_known)
qed

lemma adopt_registers:
  assumes "adopt s p = (h, s')"
  shows "ia_adopted s' (p_tenant_id p, p_id p) = Some (ih_id h)"
proof (cases "ia_adopted s (p_tenant_id p, p_id p)")
  case None
  then show ?thesis using adopt_new(1,3) [OF None assms] by (simp add: emplace_apply)
next
  case (Some j)
  with assms show ?thesis by (auto simp: adopt_known)
qed

lemma adopt_counter:
  assumes "adopt s p = (h, s')"
  shows "ia_next_id s' = ia_next_id s \<or> ia_next_id s' = ia_next_id s + 1"
proof (cases "ia_adopted s (p_tenant_id p, p_id p)")
  case None
  then show ?thesis using adopt_new(2) [OF None assms] by simp
next
  case (Some j)
  with assms show ?thesis by (simp add: adopt_known)
qed

lemma ia_step_keeps_adopted:
  assumes "ia_step s s'" and "ia_inv s" and "ia_adopted s k = Some i"
  shows "ia_adopted s' k = Some i"
  using assms
proof (cases rule: ia_step.cases)
  case (ia_adopt p h)
  then show ?thesis using adopt_keeps assms(3) by blast
next
  case (ia_restart f)
  then show ?thesis using bootstrap_recovers(2) [OF assms(2)] assms(3) by simp
qed (auto simp: ia_defs)

lemma ia_step_counter:
  assumes "ia_step s s'" and "ia_inv s"
  shows "ia_next_id s \<le> ia_next_id s'"
proof -
  have inc: "ia_next_id s \<le> ia_next_id s + 1" if "ia_next_id s \<noteq> - 1"
    using that by (simp add: word_le_nat_alt unat_inc)
  from assms(1) show ?thesis
  proof (cases rule: ia_step.cases)
    case (ia_adopt p h)
    then show ?thesis using adopt_counter [of s p h s'] inc by auto
  next
    case (ia_restart f)
    then show ?thesis using bootstrap_recovers(1) [OF assms(2)] by simp
  qed (use inc in \<open>auto simp: ia_defs\<close>)
qed

lemma ia_steps_stable:
  assumes "ia_step\<^sup>*\<^sup>* s s'" and "ia_inv s"
  shows "ia_next_id s \<le> ia_next_id s' \<and> (\<forall>k i. ia_adopted s k = Some i \<longrightarrow> ia_adopted s' k = Some i)"
  using assms
proof (induction rule: rtranclp_induct)
  case (step y z)
  then have "ia_inv y" using ia_inv_steps by blast
  with step ia_step_counter ia_step_keeps_adopted show ?case by (meson order_trans)
qed simp



definition demo_tabbed :: principal where
  "demo_tabbed = make_local_cli_principal (''b'' @ [tab] @ ''7'') ''a''"

text \<open>The adoption log does not separate its fields: a principal whose id contains a tab and a
  number is logged so that, after a restart, a different principal of the same tenant, never adopted
  before, receives the internal id that the number names, an id never allocated to it.\<close>

theorem adoption_log_confuses_principals:
  "ia_adopted (snd (adopt (ia_bootstrap (Some fresh_files)) demo_tabbed)) (''a'', ''b'') = None
   \<and> (\<exists>f. ia_durable (snd (adopt (ia_bootstrap (Some fresh_files)) demo_tabbed)) = Some f
        \<and> ia_next_id (ia_bootstrap (Some f)) = 2
        \<and> ih_id (fst (adopt (ia_bootstrap (Some f)) (make_local_cli_principal ''b'' ''a''))) = 7)"
proof -
  define f where "f = \<lparr>if_next_id = Some 2, if_adopted_log =
    ''a'' @ [tab] @ ''b'' @ [tab] @ ''7'' @ [tab] @ ''1'' @ [newline]\<rparr>"
  have "(of_char (digit_char 1) :: nat) = of_char (CHR ''1'')" by (simp add: of_char_digit_char)
  then have d: "digit_char 1 = CHR ''1''" using of_char_eq_iff by blast
  have f: "ia_durable (snd (adopt (ia_bootstrap (Some fresh_files)) demo_tabbed)) = Some f"
    by (simp add: demo_identity_simps demo_tabbed_def f_def show_nat.simps d [unfolded One_nat_def])
  have "stoull [CHR ''7'', tab, CHR ''1''] = Some 7"
    by (simp add: stoull_def is_space_def is_digit_def digits_value_def tab_def)
  then have b: "ia_adopted (ia_bootstrap (Some f)) (''a'', ''b'') = Some 7" "ia_next_id (ia_bootstrap (Some f)) = 2"
    by (simp_all add: ia_bootstrap_def load_durable_state_def f_def load_record_def parse_record_def
        emplace_def Let_def word_le_nat_alt newline_def tab_def)
  have "ia_adopted (snd (adopt (ia_bootstrap (Some fresh_files)) demo_tabbed)) (''a'', ''b'') = None"
    by (simp add: demo_identity_simps demo_tabbed_def)
  moreover have "adopt (ia_bootstrap (Some f)) (make_local_cli_principal ''b'' ''a'')
      = (\<lparr>ih_id = 7, ih_label = ''b''\<rparr>, ia_bootstrap (Some f))"
    using adopt_known [of "ia_bootstrap (Some f)" "make_local_cli_principal ''b'' ''a''" 7] b(1)
    by (simp add: make_local_cli_principal_def)
  ultimately show ?thesis using f b(2) by simp
qed

end
