(* ===== verification/Quota.thy ===== *)
theory Quota
  imports Identity
begin

text \<open>
  Quantities that are spent: the spawn cost pool (\<^verbatim>\<open>rt/spawn_cost_budget.hpp\<close>) and the
  identity-scoped quota that can be split into child shares (\<^verbatim>\<open>rt/async_quota.hpp\<close>). Every
  operation takes its object's mutex first and awaits nothing after it, so an operation is one atomic
  step and a concurrent execution is a sequence of steps.

  A quota object is known by the address of its mutex, which it keeps for life. The store holds the
  objects by address; an object handed over by value and destroyed leaves a hole. Addresses are not
  reused.
\<close>

section \<open>The spawn cost pool (rt/spawn_cost_budget.hpp)\<close>

datatype spawn_cost_budget = SpawnCostBudget (scb_remaining: u64)

definition scb_initialize :: "u64 \<Rightarrow> spawn_cost_budget" where
  "scb_initialize total_tokens = SpawnCostBudget total_tokens"

definition scb_consume :: "spawn_cost_budget \<Rightarrow> u64 \<Rightarrow> u64 result \<times> spawn_cost_budget" where
  "scb_consume b amount =
     (if scb_remaining b < amount then (Inl (Error Resource ''spawn_cost_budget.exhausted''), b)
      else (Inr amount, SpawnCostBudget (scb_remaining b - amount)))"

text \<open>Requests in the order in which they obtain the mutex, with their answers.\<close>

fun scb_run :: "spawn_cost_budget \<Rightarrow> u64 list \<Rightarrow> u64 result list \<times> spawn_cost_budget" where
  "scb_run b [] = ([], b)"
| "scb_run b (a # as) =
     (case scb_consume b a of (r, b') \<Rightarrow> (case scb_run b' as of (rs, b'') \<Rightarrow> (r # rs, b'')))"

definition granted_amount :: "u64 result \<Rightarrow> nat" where
  "granted_amount r = (case r of Inl e \<Rightarrow> 0 | Inr a \<Rightarrow> unat a)"

section \<open>Splittable quotas (rt/async_quota.hpp)\<close>

record async_quota =
  aq_owner :: u64
  aq_remaining :: u64
  aq_children :: "u64 \<rightharpoonup> u64"
  aq_origin_mutex :: "nat option"

type_synonym quota_store = "async_quota option list"

definition quota_at :: "quota_store \<Rightarrow> nat \<Rightarrow> async_quota option" where
  "quota_at st a = (if a < length st then st ! a else None)"

definition quota_mint_root ::
  "identity_authority \<Rightarrow> identity_handle \<Rightarrow> u64 \<Rightarrow> quota_store \<Rightarrow> nat result \<times> quota_store" where
  "quota_mint_root authority owner total_units st =
     (if \<not> is_known authority (ih_id owner)
      then (Inl (Error Policy ''async_quota.unknown_subject''), st)
      else (Inr (length st),
            st @ [Some \<lparr>aq_owner = ih_id owner, aq_remaining = total_units, aq_children = Map.empty,
                        aq_origin_mutex = None\<rparr>]))"

text \<open>The methods, on the object at an address. The caller holds a live object; for an address without
  one the model answers with an error of its own that no method of the code produces.\<close>

definition no_object :: error where
  "no_object = Error Fatal ''model.no_object''"

definition allocate_child_share ::
  "quota_store \<Rightarrow> nat \<Rightarrow> identity_handle \<Rightarrow> u64 \<Rightarrow> nat result \<times> quota_store" where
  "allocate_child_share st self child amount =
     (case quota_at st self of
        None \<Rightarrow> (Inl no_object, st)
      | Some q \<Rightarrow>
          if aq_children q (ih_id child) \<noteq> None
          then (Inl (Error Contract ''async_quota.child_share_already_live''), st)
          else if aq_remaining q < amount
          then (Inl (Error Resource ''async_quota.insufficient_remaining''), st)
          else (Inr (length st),
                st[self := Some (q\<lparr>aq_remaining := aq_remaining q - amount,
                                   aq_children := (aq_children q)(ih_id child \<mapsto> amount)\<rparr>)]
                @ [Some \<lparr>aq_owner = ih_id child, aq_remaining = amount, aq_children = Map.empty,
                         aq_origin_mutex = Some self\<rparr>]))"

definition try_consume ::
  "quota_store \<Rightarrow> nat \<Rightarrow> u64 \<Rightarrow> identity_handle \<Rightarrow> unit result \<times> quota_store" where
  "try_consume st self amount spender =
     (case quota_at st self of
        None \<Rightarrow> (Inl no_object, st)
      | Some q \<Rightarrow>
          if ih_id spender \<noteq> aq_owner q
          then (Inl (Error Policy ''async_quota.unauthorized_spender''), st)
          else if aq_remaining q < amount
          then (Inl (Error Resource ''async_quota.exhausted''), st)
          else (Inr (), st[self := Some (q\<lparr>aq_remaining := aq_remaining q - amount\<rparr>)]))"

text \<open>\<^verbatim>\<open>release_child_share\<close> takes the child by value: it is gone when the call returns, whatever the
  call answers.\<close>

definition release_child_share :: "quota_store \<Rightarrow> nat \<Rightarrow> nat \<Rightarrow> unit result \<times> quota_store" where
  "release_child_share st self child =
     (case (quota_at st self, quota_at st child) of
        (Some q, Some c) \<Rightarrow>
          if aq_origin_mutex c \<noteq> Some self
          then (Inl (Error Contract ''async_quota.release_wrong_parent''), st[child := None])
          else if aq_children q (aq_owner c) = None
          then (Inl (Error Contract ''async_quota.release_not_owed''), st[child := None])
          else (Inr (), st[child := None,
                  self := Some (q\<lparr>aq_children := (aq_children q)(aq_owner c := None),
                                   aq_remaining := aq_remaining q + aq_remaining c\<rparr>)])
      | _ \<Rightarrow> (Inl no_object, st))"

definition refund :: "quota_store \<Rightarrow> nat \<Rightarrow> u64 \<Rightarrow> unit result \<times> quota_store" where
  "refund st self amount =
     (case quota_at st self of
        None \<Rightarrow> (Inl no_object, st)
      | Some q \<Rightarrow> (Inr (), st[self := Some (q\<lparr>aq_remaining := aq_remaining q + amount\<rparr>)]))"

definition quota_remaining :: "quota_store \<Rightarrow> nat \<Rightarrow> u64 option" where
  "quota_remaining st self = map_option aq_remaining (quota_at st self)"

section \<open>Runs\<close>

text \<open>Operations in the order of their critical sections; dropping an object is the end of its scope.\<close>

datatype quota_op =
    OpMint identity_handle u64
  | OpAllocate nat identity_handle u64
  | OpConsume nat u64 identity_handle
  | OpRelease nat nat
  | OpRefund nat u64
  | OpDrop nat

fun quota_step :: "identity_authority \<Rightarrow> quota_op \<Rightarrow> quota_store \<Rightarrow> bool \<times> quota_store" where
  "quota_step au (OpMint h n) st = (case quota_mint_root au h n st of (r, st') \<Rightarrow> (is_ok r, st'))"
| "quota_step au (OpAllocate a h n) st = (case allocate_child_share st a h n of (r, st') \<Rightarrow> (is_ok r, st'))"
| "quota_step au (OpConsume a n h) st = (case try_consume st a n h of (r, st') \<Rightarrow> (is_ok r, st'))"
| "quota_step au (OpRelease a c) st = (case release_child_share st a c of (r, st') \<Rightarrow> (is_ok r, st'))"
| "quota_step au (OpRefund a n) st = (case refund st a n of (r, st') \<Rightarrow> (is_ok r, st'))"
| "quota_step au (OpDrop a) st = (True, st[a := None])"

text \<open>What a run spent, and what was put into it by minting and refunding.\<close>

fun quota_run :: "identity_authority \<Rightarrow> quota_op list \<Rightarrow> quota_store \<Rightarrow> (bool \<times> quota_op) list \<times> quota_store" where
  "quota_run au [] st = ([], st)"
| "quota_run au (x # xs) st =
     (case quota_step au x st of (ok, st') \<Rightarrow> (case quota_run au xs st' of (log, st'') \<Rightarrow> ((ok, x) # log, st'')))"

fun spent :: "(bool \<times> quota_op) list \<Rightarrow> nat" where
  "spent [] = 0"
| "spent ((True, OpConsume a n h) # log) = unat n + spent log"
| "spent (x # log) = spent log"

fun supplied :: "(bool \<times> quota_op) list \<Rightarrow> nat" where
  "supplied [] = 0"
| "supplied ((True, OpMint h n) # log) = unat n + supplied log"
| "supplied ((True, OpRefund a n) # log) = unat n + supplied log"
| "supplied (x # log) = supplied log"

definition live_amount :: "async_quota option \<Rightarrow> nat" where
  "live_amount x = (case x of None \<Rightarrow> 0 | Some q \<Rightarrow> unat (aq_remaining q))"

definition total_live :: "quota_store \<Rightarrow> nat" where
  "total_live st = sum_list (map live_amount st)"

section \<open>Lemmas\<close>

lemma unat_sub_exact: "\<not> (a :: 'a::len word) < b \<Longrightarrow> unat (a - b) + unat b = unat a"
  by (metis add.commute le_add_diff_inverse not_less unat_sub word_le_nat_alt)

lemma unat_add_le: "unat (a + b) \<le> unat (a :: 'a::len word) + unat b"
  by (simp add: unat_word_ariths(1))

lemma total_live_append [simp]: "total_live (st @ [x]) = total_live st + live_amount x"
  by (simp add: total_live_def)

lemma total_live_update:
  assumes "a < length st"
  shows "total_live (st[a := x]) + live_amount (st ! a) = total_live st + live_amount x"
proof -
  have "live_amount (st ! a) \<le> total_live st"
    unfolding total_live_def using assms by (auto intro!: member_le_sum_list)
  then show ?thesis
    using assms by (simp add: total_live_def map_update sum_list_update)
qed

lemma quota_at_SomeD: "quota_at st a = Some q \<Longrightarrow> a < length st \<and> st ! a = Some q"
  by (auto simp: quota_at_def split: if_splits)

lemma live_amount_simps [simp]: "live_amount None = 0" "live_amount (Some q) = unat (aq_remaining q)"
  by (simp_all add: live_amount_def)

lemma total_live_drop: "total_live (st[a := None]) \<le> total_live st"
  by (cases "a < length st") (use total_live_update [of a st None] in \<open>auto simp: list_update_beyond\<close>)

text \<open>What each operation does to the sum of all live amounts. Wrap-around on release and refund can
  only lose units.\<close>

lemma allocate_total:
  assumes "allocate_child_share st a h n = (r, st')"
  shows "total_live st' = total_live st"
proof (cases "quota_at st a")
  case None
  with assms show ?thesis by (simp add: allocate_child_share_def)
next
  case (Some q)
  note at = quota_at_SomeD [OF Some]
  have "unat (aq_remaining q - n) + unat n = unat (aq_remaining q)" if "\<not> aq_remaining q < n"
    using that by (rule unat_sub_exact)
  with assms Some at show ?thesis
    using total_live_update [of a st "Some (q\<lparr>aq_remaining := aq_remaining q - n,
        aq_children := (aq_children q)(ih_id h \<mapsto> n)\<rparr>)"]
    by (auto simp: allocate_child_share_def split: if_splits)
qed

lemma consume_total:
  assumes "try_consume st a n h = (r, st')"
  shows "total_live st' + (if is_ok r then unat n else 0) = total_live st"
proof (cases "quota_at st a")
  case None
  with assms show ?thesis by (auto simp: try_consume_def)
next
  case (Some q)
  note at = quota_at_SomeD [OF Some]
  have "unat (aq_remaining q - n) + unat n = unat (aq_remaining q)" if "\<not> aq_remaining q < n"
    using that by (rule unat_sub_exact)
  with assms Some at show ?thesis
    using total_live_update [of a st "Some (q\<lparr>aq_remaining := aq_remaining q - n\<rparr>)"]
    by (auto simp: try_consume_def split: if_splits)
qed

section \<open>The origin invariant\<close>

text \<open>A share comes from an object that existed before it, so no object is its own parent.\<close>

definition origins_ok :: "quota_store \<Rightarrow> bool" where
  "origins_ok st \<longleftrightarrow> (\<forall>a q p. quota_at st a = Some q \<longrightarrow> aq_origin_mutex q = Some p \<longrightarrow> p < a)"

lemma quota_at_update: "quota_at (st[i := x]) a = (if a = i \<and> i < length st then x else quota_at st a)"
  by (auto simp: quota_at_def)

lemma quota_at_append: "quota_at (st @ [x]) a = (if a = length st then x else quota_at st a)"
  by (auto simp: quota_at_def nth_append)

lemma origins_ok_update:
  assumes "origins_ok st" and "\<And>q p. x = Some q \<Longrightarrow> aq_origin_mutex q = Some p \<Longrightarrow> p < i"
  shows "origins_ok (st[i := x])"
  using assms by (auto simp: origins_ok_def quota_at_update)

lemma origins_ok_append:
  assumes "origins_ok st" and "\<And>q p. x = Some q \<Longrightarrow> aq_origin_mutex q = Some p \<Longrightarrow> p < length st"
  shows "origins_ok (st @ [x])"
  using assms by (auto simp: origins_ok_def quota_at_append)

lemma origins_okD: "origins_ok st \<Longrightarrow> quota_at st a = Some q \<Longrightarrow> aq_origin_mutex q = Some p \<Longrightarrow> p < a"
  by (simp add: origins_ok_def)

lemma origins_ok_step:
  assumes "origins_ok st" and "quota_step au x st = (ok, st')"
  shows "origins_ok st'"
proof (cases x)
  case (OpMint h n)
  with assms show ?thesis
    by (auto simp: quota_mint_root_def intro!: origins_ok_append split: if_splits)
next
  case (OpAllocate a h n)
  with assms show ?thesis
    by (auto simp: allocate_child_share_def intro!: origins_ok_append origins_ok_update
        dest: origins_okD quota_at_SomeD split: option.splits if_splits)
next
  case (OpConsume a n h)
  with assms show ?thesis
    by (auto simp: try_consume_def intro!: origins_ok_update dest: origins_okD split: option.splits if_splits)
next
  case (OpRelease a c)
  with assms show ?thesis
    by (auto simp: release_child_share_def intro!: origins_ok_update dest: origins_okD
        split: option.splits if_splits)
next
  case (OpRefund a n)
  with assms show ?thesis
    by (auto simp: refund_def intro!: origins_ok_update dest: origins_okD split: option.splits if_splits)
next
  case (OpDrop a)
  with assms show ?thesis by (auto intro!: origins_ok_update)
qed

section \<open>Conservation\<close>

lemma release_total:
  assumes "release_child_share st a c = (r, st')" and "origins_ok st"
  shows "total_live st' \<le> total_live st"
proof (cases "\<exists>q d. quota_at st a = Some q \<and> quota_at st c = Some d")
  case False
  with assms(1) show ?thesis by (auto simp: release_child_share_def split: option.splits)
next
  case True
  then obtain q d where q: "quota_at st a = Some q" and d: "quota_at st c = Some d" by blast
  note aq = quota_at_SomeD [OF q] and ad = quota_at_SomeD [OF d]
  show ?thesis
  proof (cases "is_ok r")
    case False
    with assms(1) q d show ?thesis
      by (auto simp: release_child_share_def total_live_drop split: if_splits)
  next
    case True
    let ?q = "q\<lparr>aq_children := (aq_children q)(aq_owner d := None), aq_remaining := aq_remaining q + aq_remaining d\<rparr>"
    from True assms(1) q d have st': "st' = st[c := None, a := Some ?q]"
      by (auto simp: release_child_share_def split: if_splits)
    have "total_live (st[c := None]) + unat (aq_remaining d) = total_live st"
      using total_live_update [of c st None] ad by simp
    moreover have "total_live st' + live_amount (st[c := None] ! a)
        = total_live (st[c := None]) + unat (aq_remaining q + aq_remaining d)"
      using total_live_update [of a "st[c := None]" "Some ?q"] aq st' by simp
    moreover have "c \<noteq> a \<Longrightarrow> live_amount (st[c := None] ! a) = unat (aq_remaining q)" using aq by simp
    moreover have "c = a \<Longrightarrow> False"
      using True assms q d by (auto simp: release_child_share_def split: if_splits dest: origins_okD)
    ultimately show ?thesis using unat_add_le [of "aq_remaining q" "aq_remaining d"] by fastforce
  qed
qed

lemma refund_total:
  assumes "refund st a n = (r, st')"
  shows "total_live st' \<le> total_live st + (if is_ok r then unat n else 0)"
proof (cases "quota_at st a")
  case None
  with assms show ?thesis by (auto simp: refund_def)
next
  case (Some q)
  with assms show ?thesis
    using total_live_update [of a st "Some (q\<lparr>aq_remaining := aq_remaining q + n\<rparr>)"]
      quota_at_SomeD [OF Some] unat_add_le [of "aq_remaining q" n]
    by (auto simp: refund_def)
qed

lemma quota_step_total:
  assumes "origins_ok st" and "quota_step au x st = (ok, st')"
  shows "total_live st' + spent [(ok, x)] \<le> total_live st + supplied [(ok, x)]"
proof (cases x)
  case (OpMint h n)
  with assms(2) show ?thesis by (auto simp: quota_mint_root_def split: if_splits)
next
  case (OpAllocate a h n)
  with assms(2) show ?thesis by (cases ok) (auto split: prod.splits dest: allocate_total)
next
  case (OpConsume a n h)
  with assms(2) show ?thesis by (cases ok) (auto split: prod.splits dest!: consume_total)
next
  case (OpRelease a c)
  with assms show ?thesis by (cases ok) (auto split: prod.splits dest: release_total)
next
  case (OpRefund a n)
  with assms(2) show ?thesis by (cases ok) (auto split: prod.splits dest!: refund_total)
next
  case (OpDrop a)
  with assms(2) show ?thesis by (cases ok) (auto simp: total_live_drop)
qed

lemma spent_Cons: "spent (x # log) = spent [x] + spent log"
  by (cases "(x # log)" rule: spent.cases) auto

lemma supplied_Cons: "supplied (x # log) = supplied [x] + supplied log"
  by (cases "(x # log)" rule: supplied.cases) auto

lemma quota_run_total:
  assumes "origins_ok st" and "quota_run au xs st = (log, st')"
  shows "total_live st' + spent log \<le> total_live st + supplied log"
  using assms
proof (induction xs arbitrary: st log)
  case (Cons x xs)
  obtain ok st1 where s: "quota_step au x st = (ok, st1)" by fastforce
  obtain log1 where r: "quota_run au xs st1 = (log1, st')" and l: "log = (ok, x) # log1"
    using Cons.prems(2) s by (auto split: prod.splits)
  have "total_live st' + spent log1 \<le> total_live st1 + supplied log1"
    using Cons.IH [OF origins_ok_step [OF Cons.prems(1) s] r] .
  with quota_step_total [OF Cons.prems(1) s] show ?case
    unfolding l spent_Cons [of "(ok, x)" log1] supplied_Cons [of "(ok, x)" log1] by linarith
qed auto

section \<open>Properties\<close>

text \<open>C5. No quota is spent twice: over any sequence of minting, splitting, spending, releasing,
  refunding and dropping quota objects, in any interleaving and by whatever identities, the amounts
  spent plus everything still spendable never exceed the amounts minted plus the amounts refunded.\<close>

theorem quota_never_overspent:
  "case quota_run au xs [] of (log, st) \<Rightarrow> spent log + total_live st \<le> supplied log"
proof -
  obtain log st where r: "quota_run au xs [] = (log, st)" by fastforce
  have "origins_ok []" by (simp add: origins_ok_def quota_at_def)
  from quota_run_total [OF this r] show ?thesis by (simp add: r total_live_def)
qed

text \<open>Splitting and giving back is exact: a share that is allocated, from which its holder spends,
  and that is released to its parent leaves the parent with what it had less what was spent, and
  leaves no ledger entry, so the same child can be given a share again.\<close>

theorem share_round_trip:
  assumes "quota_at st p = Some q" and "allocate_child_share st p child amount = (Inr c, st1)"
    and "try_consume st1 c used child = (Inr (), st2)"
  shows "\<exists>st3. release_child_share st2 p c = (Inr (), st3)
    \<and> quota_remaining st3 p = Some (aq_remaining q - used) \<and> quota_at st3 c = None
    \<and> (\<exists>q'. quota_at st3 p = Some q' \<and> aq_children q' (ih_id child) = None)"
proof -
  note at = quota_at_SomeD [OF assms(1)]
  let ?q = "q\<lparr>aq_remaining := aq_remaining q - amount, aq_children := (aq_children q)(ih_id child \<mapsto> amount)\<rparr>"
  let ?c = "\<lparr>aq_owner = ih_id child, aq_remaining = amount, aq_children = Map.empty, aq_origin_mutex = Some p\<rparr>"
  from assms(1,2) have c: "c = length st" and st1: "st1 = st[p := Some ?q] @ [Some ?c]"
    by (auto simp: allocate_child_share_def split: if_splits)
  then have "quota_at st1 c = Some ?c" by (simp add: quota_at_append)
  with assms(3) have st2: "st2 = st1[c := Some (?c\<lparr>aq_remaining := amount - used\<rparr>)]"
    by (auto simp: try_consume_def split: if_splits)
  have p: "quota_at st2 p = Some ?q" and d: "quota_at st2 c = Some (?c\<lparr>aq_remaining := amount - used\<rparr>)"
    using at c by (simp_all add: st2 st1 quota_at_update quota_at_append)
  have "p \<noteq> c" and "p < length st2" and "c < length st2" using at c by (simp_all add: st2 st1)
  then show ?thesis using p d
    by (auto simp: release_child_share_def quota_remaining_def quota_at_update)
qed

definition demo_share_store :: quota_store where
  "demo_share_store = [Some \<lparr>aq_owner = 1, aq_remaining = 100, aq_children = Map.empty, aq_origin_mutex = None\<rparr>]"

theorem share_round_trip_witness:
  "\<exists>st1 st2 st3. allocate_child_share demo_share_store 0 \<lparr>ih_id = 2, ih_label = ''c''\<rparr> 40 = (Inr 1, st1)
     \<and> try_consume st1 1 15 \<lparr>ih_id = 2, ih_label = ''c''\<rparr> = (Inr (), st2)
     \<and> release_child_share st2 0 1 = (Inr (), st3) \<and> quota_remaining st3 0 = Some 85"
proof -
  let ?h = "\<lparr>ih_id = 2, ih_label = ''c''\<rparr>"
  obtain st1 where a: "allocate_child_share demo_share_store 0 ?h 40 = (Inr 1, st1)"
    by (simp add: allocate_child_share_def demo_share_store_def quota_at_def word_less_nat_alt)
  then have st1: "st1 ! 1 = Some \<lparr>aq_owner = 2, aq_remaining = 40, aq_children = Map.empty, aq_origin_mutex = Some 0\<rparr>"
      "length st1 = 2"
    by (auto simp: allocate_child_share_def demo_share_store_def quota_at_def split: if_splits)
  obtain st2 where t: "try_consume st1 1 15 ?h = (Inr (), st2)"
    using st1 by (simp add: try_consume_def quota_at_def word_less_nat_alt)
  have q: "quota_at demo_share_store 0
      = Some \<lparr>aq_owner = 1, aq_remaining = 100, aq_children = Map.empty, aq_origin_mutex = None\<rparr>"
    by (simp add: quota_at_def demo_share_store_def)
  show ?thesis using a t share_round_trip [OF q a t] by auto
qed

lemma scb_run_total:
  "scb_run b as = (rs, b') \<Longrightarrow> sum_list (map granted_amount rs) + unat (scb_remaining b') = unat (scb_remaining b)"
proof (induction "as" arbitrary: b rs)
  case (Cons a "as")
  obtain r b1 where c: "scb_consume b a = (r, b1)" by fastforce
  obtain rs1 where r: "scb_run b1 as = (rs1, b')" and rs: "rs = r # rs1"
    using Cons.prems c by (auto split: prod.splits)
  have "granted_amount r + unat (scb_remaining b1) = unat (scb_remaining b)"
    using c unat_sub_exact [of "scb_remaining b" a]
    by (auto simp: scb_consume_def granted_amount_def split: if_splits)
  with Cons.IH [OF r] rs show ?case by simp
qed simp

text \<open>The spawn cost pool hands out exactly what it holds: for any sequence of requests, the amounts
  granted plus what remains equal the initial total, and a request is refused exactly when it exceeds
  what remains at that moment.\<close>

theorem spawn_cost_exact:
  "case scb_run (scb_initialize t) as of (rs, b) \<Rightarrow>
     sum_list (map granted_amount rs) + unat (scb_remaining b) = unat t
     \<and> (\<forall>a. is_ok (fst (scb_consume b a)) \<longleftrightarrow> unat a \<le> unat (scb_remaining b))"
proof -
  obtain rs b where r: "scb_run (scb_initialize t) as = (rs, b)" by fastforce
  then show ?thesis
    using scb_run_total [OF r]
    by (auto simp: scb_initialize_def scb_consume_def word_le_nat_alt word_less_nat_alt split: if_splits)
qed

text \<open>A release to the wrong parent is refused, but it destroys the share: the child object is
  gone, no amount is credited anywhere, and the true parent still holds its ledger entry, so it can
  neither take the share back nor give that child another one.\<close>

theorem wrong_parent_release_strands_share:
  assumes "quota_at st c = Some s" and "aq_origin_mutex s = Some y" and "x \<noteq> y" and "x \<noteq> c" and "y \<noteq> c"
    and "quota_at st x = Some qx" and "quota_at st y = Some qy" and "aq_children qy (aq_owner s) = Some n"
  shows "\<exists>st'. release_child_share st x c = (Inl (Error Contract ''async_quota.release_wrong_parent''), st')
    \<and> quota_at st' c = None \<and> total_live st' + unat (aq_remaining s) = total_live st
    \<and> release_child_share st' y c = (Inl no_object, st')
    \<and> (\<forall>h k. ih_id h = aq_owner s \<longrightarrow> fst (allocate_child_share st' y h k)
          = Inl (Error Contract ''async_quota.child_share_already_live''))"
proof -
  note c = quota_at_SomeD [OF assms(1)]
  have r: "release_child_share st x c = (Inl (Error Contract ''async_quota.release_wrong_parent''), st[c := None])"
    using assms by (simp add: release_child_share_def)
  have "total_live (st[c := None]) + unat (aq_remaining s) = total_live st"
    using total_live_update [of c st None] c by simp
  with r show ?thesis
    using assms c by (auto simp: quota_at_update release_child_share_def allocate_child_share_def split: option.splits)
qed

definition demo_two_parents :: quota_store where
  "demo_two_parents =
     [Some \<lparr>aq_owner = 1, aq_remaining = 5, aq_children = Map.empty, aq_origin_mutex = None\<rparr>,
      Some \<lparr>aq_owner = 1, aq_remaining = 60, aq_children = [2 \<mapsto> 40], aq_origin_mutex = None\<rparr>,
      Some \<lparr>aq_owner = 2, aq_remaining = 40, aq_children = Map.empty, aq_origin_mutex = Some 1\<rparr>]"

theorem wrong_parent_release_strands_share_witness:
  "\<exists>st'. total_live demo_two_parents = 105 \<and> total_live st' = 65
     \<and> release_child_share demo_two_parents 0 2 = (Inl (Error Contract ''async_quota.release_wrong_parent''), st')"
proof -
  let ?st = demo_two_parents
  let ?s = "\<lparr>aq_owner = 2, aq_remaining = 40, aq_children = Map.empty, aq_origin_mutex = Some 1\<rparr>"
  have a: "quota_at ?st 2 = Some ?s"
      "quota_at ?st 0 = Some \<lparr>aq_owner = 1, aq_remaining = 5, aq_children = Map.empty, aq_origin_mutex = None\<rparr>"
      "quota_at ?st 1 = Some \<lparr>aq_owner = 1, aq_remaining = 60, aq_children = [2 \<mapsto> 40], aq_origin_mutex = None\<rparr>"
    by (simp_all add: demo_two_parents_def quota_at_def numeral_eq_Suc)
  have "total_live ?st = 105" by (simp add: demo_two_parents_def total_live_def)
  with wrong_parent_release_strands_share [OF a(1) _ _ _ _ a(2,3)] show ?thesis by fastforce
qed

end
