(* ===== verification/Breaker.thy ===== *)
theory Breaker
  imports Prelude
begin

text \<open>
  The circuit breaker of the model-call gateway (\<^verbatim>\<open>rt/circuit_breaker.hpp\<close>). Times are monotonic
  nanosecond counts; the code subtracts them as signed 64-bit values, and the model assumes, as the
  code does, that the difference of two clock readings does not leave that range. One caller owns a
  breaker at a time, so a history is a sequence of calls.
\<close>

section \<open>Definitions\<close>

datatype admit = Accept | Shed

datatype breaker_state = Closed | Open | HalfOpen

record circuit_breaker =
  cb_fail_threshold :: u32
  cb_open_ns :: int
  cb_consec_fail :: u32
  cb_opened_at_ns :: int
  cb_state :: breaker_state
  cb_probe_inflight :: bool

definition new_breaker :: "u32 \<Rightarrow> int \<Rightarrow> circuit_breaker" where
  "new_breaker fail_threshold open_duration_ns =
     \<lparr>cb_fail_threshold = (if fail_threshold = 0 then 1 else fail_threshold), cb_open_ns = open_duration_ns,
      cb_consec_fail = 0, cb_opened_at_ns = 0, cb_state = Closed, cb_probe_inflight = False\<rparr>"

definition on_send :: "circuit_breaker \<Rightarrow> int \<Rightarrow> admit \<times> circuit_breaker" where
  "on_send b now_ns =
     (case cb_state b of
        Closed \<Rightarrow> (Accept, b)
      | Open \<Rightarrow>
          if cb_open_ns b \<le> now_ns - cb_opened_at_ns b
          then (Accept, b\<lparr>cb_state := HalfOpen, cb_probe_inflight := True\<rparr>)
          else (Shed, b)
      | HalfOpen \<Rightarrow>
          if cb_probe_inflight b then (Shed, b)
          else (Accept, b\<lparr>cb_probe_inflight := True\<rparr>))"

definition trip :: "circuit_breaker \<Rightarrow> int \<Rightarrow> circuit_breaker" where
  "trip b now_ns = b\<lparr>cb_state := Open, cb_opened_at_ns := now_ns, cb_probe_inflight := False\<rparr>"

definition on_result :: "circuit_breaker \<Rightarrow> bool \<Rightarrow> int \<Rightarrow> circuit_breaker" where
  "on_result b ok now_ns =
     (if cb_state b = HalfOpen then
        (let b = b\<lparr>cb_probe_inflight := False\<rparr>
         in if ok then b\<lparr>cb_state := Closed, cb_consec_fail := 0\<rparr> else trip b now_ns)
      else if ok then b\<lparr>cb_consec_fail := 0\<rparr>
      else
        (let b = b\<lparr>cb_consec_fail := cb_consec_fail b + 1\<rparr>
         in if cb_fail_threshold b \<le> cb_consec_fail b then trip b now_ns else b))"

definition on_canceled :: "circuit_breaker \<Rightarrow> circuit_breaker" where
  "on_canceled b = (if cb_state b = HalfOpen then b\<lparr>cb_probe_inflight := False\<rparr> else b)"

definition is_open :: "circuit_breaker \<Rightarrow> bool" where
  "is_open b = (cb_state b = Open)"

section \<open>Histories\<close>

datatype breaker_event = Send int | Result bool int | Cancel

fun breaker_event_step :: "circuit_breaker \<Rightarrow> breaker_event \<Rightarrow> admit option \<times> circuit_breaker" where
  "breaker_event_step b (Send t) = (case on_send b t of (a, b') \<Rightarrow> (Some a, b'))"
| "breaker_event_step b (Result ok t) = (None, on_result b ok t)"
| "breaker_event_step b Cancel = (None, on_canceled b)"

text \<open>The sequential discipline of the retry loop: an attempt is sent, and when it was admitted, its
  outcome (or its cancellation) is fed back before the next attempt is sent.\<close>

datatype outcome = Succeeded int | Failed int | Canceled_attempt

definition feed_back :: "circuit_breaker \<Rightarrow> outcome \<Rightarrow> circuit_breaker" where
  "feed_back b out = (case out of
     Succeeded t \<Rightarrow> on_result b True t | Failed t \<Rightarrow> on_result b False t | Canceled_attempt \<Rightarrow> on_canceled b)"

definition attempt :: "circuit_breaker \<Rightarrow> int \<Rightarrow> outcome \<Rightarrow> admit \<times> circuit_breaker" where
  "attempt b t out = (case on_send b t of (Shed, b') \<Rightarrow> (Shed, b') | (Accept, b') \<Rightarrow> (Accept, feed_back b' out))"

fun attempts :: "circuit_breaker \<Rightarrow> (int \<times> outcome) list \<Rightarrow> admit list \<times> circuit_breaker" where
  "attempts b [] = ([], b)"
| "attempts b ((t, out) # xs) =
     (case attempt b t out of (a, b') \<Rightarrow> (case attempts b' xs of (as, b'') \<Rightarrow> (a # as, b'')))"

text \<open>The failures at the end of a history, cancellations aside.\<close>

definition trailing_failures :: "(int \<times> outcome) list \<Rightarrow> nat" where
  "trailing_failures xs = length (filter (\<lambda>(t, out). case out of Failed f \<Rightarrow> True | _ \<Rightarrow> False)
     (takeWhile (\<lambda>(t, out). case out of Succeeded s \<Rightarrow> False | _ \<Rightarrow> True) (rev xs)))"

section \<open>Invariant\<close>

definition breaker_inv :: "circuit_breaker \<Rightarrow> bool" where
  "breaker_inv b \<longleftrightarrow> cb_fail_threshold b \<noteq> 0
     \<and> (cb_state b = Closed \<longrightarrow> cb_consec_fail b < cb_fail_threshold b)
     \<and> (cb_probe_inflight b \<longrightarrow> cb_state b = HalfOpen)"

lemma breaker_inv_new: "breaker_inv (new_breaker n d)"
  by (auto simp: breaker_inv_def new_breaker_def word_neq_0_conv)

lemma breaker_inv_send: "breaker_inv b \<Longrightarrow> breaker_inv (snd (on_send b t))"
  by (auto simp: breaker_inv_def on_send_def split: breaker_state.splits)

lemma breaker_inv_result: "breaker_inv b \<Longrightarrow> breaker_inv (on_result b ok t)"
  by (cases "cb_state b") (auto simp: breaker_inv_def on_result_def trip_def Let_def word_neq_0_conv not_le)

lemma breaker_inv_cancel: "breaker_inv b \<Longrightarrow> breaker_inv (on_canceled b)"
  by (auto simp: breaker_inv_def on_canceled_def)

lemma breaker_inv_events:
  "breaker_inv b \<Longrightarrow> breaker_inv (fold (\<lambda>e b. snd (breaker_event_step b e)) es b)"
proof (induction es arbitrary: b)
  case (Cons e es)
  then have "breaker_inv (snd (breaker_event_step b e))"
    by (cases e) (auto simp: breaker_inv_result breaker_inv_cancel breaker_inv_send split: prod.splits,
        metis breaker_inv_send snd_conv)
  with Cons.IH show ?case by simp
qed simp

section \<open>Closed histories\<close>

lemma trailing_failures_simps [simp]:
  "trailing_failures [] = 0"
  "trailing_failures (xs @ [(t, Succeeded s)]) = 0"
  "trailing_failures (xs @ [(t, Failed s)]) = Suc (trailing_failures xs)"
  "trailing_failures (xs @ [(t, Canceled_attempt)]) = trailing_failures xs"
  by (simp_all add: trailing_failures_def)

lemma attempts_snoc:
  "attempts b (xs @ [(t, out)]) =
     (case attempts b xs of (as, b1) \<Rightarrow> (case attempt b1 t out of (a, b2) \<Rightarrow> (as @ [a], b2)))"
  by (induction b xs rule: attempts.induct) (auto split: prod.splits)

lemma attempt_closed:
  "cb_state b = Closed \<Longrightarrow> attempt b t out = (Accept, feed_back b out)"
  by (simp add: attempt_def on_send_def)

text \<open>As long as the run of failures stays below the threshold, the breaker is closed and counts it.\<close>

lemma attempts_below_threshold:
  assumes "0 < unat (cb_fail_threshold b0)" and "cb_state b0 = Closed" and "cb_consec_fail b0 = 0"
    and "\<forall>k \<le> length xs. trailing_failures (take k xs) < unat (cb_fail_threshold b0)"
  shows "\<exists>b. attempts b0 xs = (replicate (length xs) Accept, b) \<and> cb_state b = Closed
    \<and> cb_fail_threshold b = cb_fail_threshold b0 \<and> unat (cb_consec_fail b) = trailing_failures xs"
  using assms(4)
proof (induction xs rule: rev_induct)
  case Nil
  then show ?case using assms by simp
next
  case (snoc x xs)
  have "\<forall>k \<le> length xs. trailing_failures (take k xs) < unat (cb_fail_threshold b0)"
  proof (intro allI impI)
    fix k assume "k \<le> length xs"
    then show "trailing_failures (take k xs) < unat (cb_fail_threshold b0)"
      using spec [OF snoc.prems, of k] by simp
  qed
  then obtain b where b: "attempts b0 xs = (replicate (length xs) Accept, b)" "cb_state b = Closed"
    "cb_fail_threshold b = cb_fail_threshold b0" "unat (cb_consec_fail b) = trailing_failures xs"
    using snoc.IH by blast
  obtain t out where x: "x = (t, out)" by fastforce
  have lt: "trailing_failures (xs @ [x]) < unat (cb_fail_threshold b0)"
    using spec [OF snoc.prems, of "length (xs @ [x])"] by simp
  have "cb_state (feed_back b out) = Closed \<and> cb_fail_threshold (feed_back b out) = cb_fail_threshold b0
      \<and> unat (cb_consec_fail (feed_back b out)) = trailing_failures (xs @ [x])"
  proof (cases out)
    case (Failed f)
    with lt x b(4) have s: "Suc (unat (cb_consec_fail b)) < unat (cb_fail_threshold b0)" by simp
    then have "cb_consec_fail b < cb_fail_threshold b0" by (simp add: word_less_nat_alt)
    then have "unat (cb_consec_fail b + 1) = Suc (unat (cb_consec_fail b))"
      by (rule unat_inc [OF less_imp_not_max])
    with s b Failed x show ?thesis
      by (simp add: feed_back_def on_result_def trip_def Let_def word_le_nat_alt)
  qed (use b x in \<open>simp_all add: feed_back_def on_result_def on_canceled_def\<close>)
  with b x show ?case by (simp add: attempts_snoc attempt_closed replicate_append_same)
qed

section \<open>Properties\<close>

text \<open>The breaker trips after exactly the threshold of consecutive failures, not before and not
  later: a fresh breaker admits every attempt of a history in which no run of failures reached the
  threshold; it then stays closed if the last outcome keeps the run below the threshold, and is open
  when one more failure completes it. Successes reset the run, cancellations leave it alone.\<close>

theorem breaker_trips_exactly_at_threshold:
  assumes "thr \<noteq> 0" and "\<forall>k \<le> length xs. trailing_failures (take k xs) < unat thr"
  shows "\<exists>b. attempts (new_breaker thr d) xs = (replicate (length xs) Accept, b) \<and> cb_state b = Closed
    \<and> (is_open (on_result b False t) \<longleftrightarrow> Suc (trailing_failures xs) = unat thr)"
proof -
  have thr: "0 < unat thr" using assms(1) by (simp add: unat_gt_0)
  from attempts_below_threshold [of "new_breaker thr d" xs] thr assms
  obtain b where b: "attempts (new_breaker thr d) xs = (replicate (length xs) Accept, b)" "cb_state b = Closed"
    "cb_fail_threshold b = thr" "unat (cb_consec_fail b) = trailing_failures xs"
    by (auto simp: new_breaker_def)
  have lt: "unat (cb_consec_fail b) < unat thr" using assms(2) b(4) by force
  then have "cb_consec_fail b < thr" by (simp add: word_less_nat_alt)
  then have "unat (cb_consec_fail b + 1) = Suc (unat (cb_consec_fail b))"
    by (rule unat_inc [OF less_imp_not_max])
  then have "is_open (on_result b False t) \<longleftrightarrow> Suc (trailing_failures xs) = unat thr"
    using b(2-4) lt by (auto simp: on_result_def trip_def is_open_def Let_def word_le_nat_alt)
  with b(1,2) show ?thesis by blast
qed

theorem breaker_trips_exactly_at_threshold_witness:
  "\<exists>b. attempts (new_breaker 2 100) [(0, Failed 1), (2, Succeeded 3), (4, Failed 5)]
         = (replicate 3 Accept, b) \<and> is_open (on_result b False 6)"
proof -
  let ?xs = "[(0, Failed 1), (2, Succeeded 3), (4, Failed 5)]"
  have h: "\<forall>k \<le> length ?xs. trailing_failures (take k ?xs) < unat (2 :: u32)"
  proof (intro allI impI)
    fix k assume "k \<le> length ?xs"
    then have "k = 0 \<or> k = 1 \<or> k = 2 \<or> k = 3" by (simp add: le_Suc_eq numeral_eq_Suc)
    then show "trailing_failures (take k ?xs) < unat (2 :: u32)"
      by (auto simp: trailing_failures_def take_Cons')
  qed
  have "trailing_failures ?xs = 1" by (simp add: trailing_failures_def)
  moreover have "unat (2 :: u32) = 2" by simp
  ultimately show ?thesis
    using breaker_trips_exactly_at_threshold [of 2 ?xs 100 6, OF _ h] by (auto simp: numeral_3_eq_3 simp del: attempts.simps)
qed

text \<open>Sends with no outcome fed back in between.\<close>

fun sends :: "circuit_breaker \<Rightarrow> int list \<Rightarrow> admit list \<times> circuit_breaker" where
  "sends b [] = ([], b)"
| "sends b (t # ts) = (case on_send b t of (a, b') \<Rightarrow> (case sends b' ts of (as, b'') \<Rightarrow> (a # as, b'')))"

lemma sends_probe_inflight:
  "cb_state b = HalfOpen \<Longrightarrow> cb_probe_inflight b \<Longrightarrow> sends b ts = (replicate (length ts) Shed, b)"
  by (induction ts) (simp_all add: on_send_def)

lemma sends_cooling:
  "cb_state b = Open \<Longrightarrow> \<forall>t\<in>set ts. t - cb_opened_at_ns b < cb_open_ns b \<Longrightarrow>
   sends b (ts @ us) = (case sends b us of (as, b') \<Rightarrow> (replicate (length ts) Shed @ as, b'))"
  by (induction ts) (auto simp: on_send_def split: prod.splits)

text \<open>C39. An open breaker sheds for its whole cooldown and then lets exactly one probe through: whatever
  sends arrive, all before the end of the cooldown are shed, the first at or after it is accepted, and
  all further ones are shed until an outcome is fed back. A failed probe reopens with a fresh cooldown
  from its own time, a successful one closes with the count at zero, a canceled one frees the slot.\<close>

theorem open_breaker_single_probe:
  assumes "cb_state b = Open" and "\<forall>s\<in>set early. s - cb_opened_at_ns b < cb_open_ns b"
    and "cb_open_ns b \<le> t - cb_opened_at_ns b"
  shows "\<exists>b'. sends b (early @ t # late) = (replicate (length early) Shed @ Accept # replicate (length late) Shed, b')
    \<and> cb_state b' = HalfOpen
    \<and> (\<forall>now s. s - now < cb_open_ns b \<longrightarrow> fst (on_send (on_result b' False now) s) = Shed)
    \<and> (\<forall>now. cb_state (on_result b' True now) = Closed \<and> cb_consec_fail (on_result b' True now) = 0)
    \<and> (\<forall>s. fst (on_send (on_canceled b') s) = Accept)"
proof -
  let ?b = "b\<lparr>cb_state := HalfOpen, cb_probe_inflight := True\<rparr>"
  have "on_send b t = (Accept, ?b)" using assms(1,3) by (simp add: on_send_def)
  then have "sends b (t # late) = (Accept # replicate (length late) Shed, ?b)"
    using sends_probe_inflight [of ?b late] by simp
  then have "sends b (early @ t # late) = (replicate (length early) Shed @ Accept # replicate (length late) Shed, ?b)"
    using sends_cooling [OF assms(1,2), of "t # late"] by simp
  then show ?thesis
    by (intro exI [of _ ?b]) (auto simp: on_result_def on_canceled_def on_send_def trip_def Let_def)
qed

theorem open_breaker_single_probe_witness:
  "fst (sends \<lparr>cb_fail_threshold = 2, cb_open_ns = 100, cb_consec_fail = 2, cb_opened_at_ns = 10,
       cb_state = Open, cb_probe_inflight = False\<rparr> [20, 109, 110, 111, 300])
   = [Shed, Shed, Accept, Shed, Shed]"
  using open_breaker_single_probe [of "\<lparr>cb_fail_threshold = 2, cb_open_ns = 100, cb_consec_fail = 2,
      cb_opened_at_ns = 10, cb_state = Open, cb_probe_inflight = False\<rparr>" "[20, 109]" 110 "[111, 300]"]
  by (auto simp: numeral_eq_Suc)

end
