(* ===== verification/Base64.thy ===== *)
theory Base64
  imports Prelude
begin

text \<open>
  The engine's one base64 codec (\<^verbatim>\<open>core/base64.hpp\<close>): the encoder, the shared decode loop and its
  two decoders. The loop keeps a 32-bit buffer that it shifts left by six bits per character; bits
  pushed out at the top are lost, which the proofs show to be harmless.
\<close>

unbundle bit_operations_syntax

section \<open>Definitions\<close>

definition kAlphabet :: string where
  "kAlphabet = ''ABCDEFGHIJKLMNOPQRSTUVWXYZabcdefghijklmnopqrstuvwxyz0123456789+/''"

definition sextet_char :: "u32 \<Rightarrow> nat \<Rightarrow> char" where
  "sextet_char v k = kAlphabet ! unat (drop_bit k v AND 0x3F)"

fun encode_raw :: "u8 list \<Rightarrow> string" where
  "encode_raw (a # b # c # rest) =
     (let v = push_bit 16 (ucast a) OR push_bit 8 (ucast b) OR ucast c
      in [sextet_char v 18, sextet_char v 12, sextet_char v 6, sextet_char v 0] @ encode_raw rest)"
| "encode_raw [a] =
     (let v = push_bit 16 (ucast a) in [sextet_char v 18, sextet_char v 12] @ ''=='')"
| "encode_raw [a, b] =
     (let v = push_bit 16 (ucast a) OR push_bit 8 (ucast b)
      in [sextet_char v 18, sextet_char v 12, sextet_char v 6] @ ''='')"
| "encode_raw [] = []"

definition char_in :: "char \<Rightarrow> char \<Rightarrow> char \<Rightarrow> bool" where
  "char_in lo hi c = ((of_char lo :: nat) \<le> of_char c \<and> (of_char c :: nat) \<le> of_char hi)"

definition decode_char :: "char \<Rightarrow> int" where
  "decode_char c =
     (if char_in CHR ''A'' CHR ''Z'' c then int (of_char c) - int (of_char CHR ''A'')
      else if char_in CHR ''a'' CHR ''z'' c then int (of_char c) - int (of_char CHR ''a'') + 26
      else if char_in CHR ''0'' CHR ''9'' c then int (of_char c) - int (of_char CHR ''0'') + 52
      else if c = CHR ''+'' then 62
      else if c = CHR ''/'' then 63
      else - 1)"

datatype padding_rule = SkipWithLineBreaks | RejectWithZeroTail

definition skipped :: "char \<Rightarrow> bool" where
  "skipped c = (c = CHR ''='' \<or> c = CHR 0x0A \<or> c = CHR 0x0D)"

text \<open>The loop: the bytes it appends, and the buffer and bit count it ends with.\<close>

fun decode_loop :: "padding_rule \<Rightarrow> u32 \<Rightarrow> nat \<Rightarrow> string \<Rightarrow> (u8 list \<times> u32 \<times> nat) option" where
  "decode_loop rule buffer bits [] = Some ([], buffer, bits)"
| "decode_loop rule buffer bits (c # cs) =
     (if rule = SkipWithLineBreaks \<and> skipped c then decode_loop rule buffer bits cs
      else if decode_char c < 0 then None
      else
        let buffer = push_bit 6 buffer OR word_of_int (decode_char c); bits = bits + 6
        in if 8 \<le> bits then
             (case decode_loop rule buffer (bits - 8) cs of
                None \<Rightarrow> None
              | Some (out, r) \<Rightarrow> Some (ucast (drop_bit (bits - 8) buffer AND 0xFF) # out, r))
           else decode_loop rule buffer bits cs)"

definition decode :: "string \<Rightarrow> padding_rule \<Rightarrow> u8 list option" where
  "decode str rule =
     (case decode_loop rule 0 0 str of
        None \<Rightarrow> None
      | Some (out, buffer, bits) \<Rightarrow>
          if rule = RejectWithZeroTail \<and> buffer AND (push_bit bits 1 - 1) \<noteq> 0 then None else Some out)"

definition encode :: "u8 list \<Rightarrow> string" where
  "encode bytes = encode_raw bytes"

definition encode_text :: "string \<Rightarrow> string" where
  "encode_text str = encode_raw (map byte_of_char str)"

definition decode_lenient :: "string \<Rightarrow> u8 list option" where
  "decode_lenient str = decode str SkipWithLineBreaks"

definition decode_strict :: "string \<Rightarrow> u8 list option" where
  "decode_strict str =
     (if length str mod 4 \<noteq> 0 then None
      else
        let padding = (if str \<noteq> [] \<and> last str = CHR ''=''
                       then (if str ! (length str - 2) = CHR ''='' then 2 else 1) else 0)
        in decode (take (length str - padding) str) RejectWithZeroTail)"

section \<open>The alphabet\<close>

lemma alphabet_decode_all: "\<forall>i\<in>set [0..<64]. decode_char (kAlphabet ! i) = int i"
  by code_simp

lemma decode_char_alphabet: "i < 64 \<Longrightarrow> decode_char (kAlphabet ! i) = int i"
  using alphabet_decode_all by simp

lemma alphabet_ranges:
  "\<forall>n\<in>{65..<91::nat}. kAlphabet ! (n - 65) = char_of n"
  "\<forall>n\<in>{97..<123::nat}. kAlphabet ! (n - 97 + 26) = char_of n"
  "\<forall>n\<in>{48..<58::nat}. kAlphabet ! (n - 48 + 52) = char_of n"
  "kAlphabet ! 62 = CHR ''+''" "kAlphabet ! 63 = CHR ''/''"
  by code_simp+

text \<open>A character the decoder knows is the one the encoder prints for its value.\<close>

lemma alphabet_decode_char:
  assumes "0 \<le> decode_char c"
  shows "nat (decode_char c) < 64" and "kAlphabet ! nat (decode_char c) = c"
proof -
  consider "char_in CHR ''A'' CHR ''Z'' c" | "\<not> char_in CHR ''A'' CHR ''Z'' c" "char_in CHR ''a'' CHR ''z'' c"
    | "\<not> char_in CHR ''A'' CHR ''Z'' c" "\<not> char_in CHR ''a'' CHR ''z'' c" "char_in CHR ''0'' CHR ''9'' c"
    | "c = CHR ''+''" | "c = CHR ''/''"
    using assms by (auto simp: decode_char_def split: if_splits)
  then have "nat (decode_char c) < 64 \<and> kAlphabet ! nat (decode_char c) = c"
  proof cases
    case 1
    then have n: "(of_char c :: nat) \<in> {65..<91}" and "nat (decode_char c) = of_char c - 65"
      by (auto simp: char_in_def decode_char_def)
    with bspec [OF alphabet_ranges(1) n] show ?thesis by auto
  next
    case 2
    then have n: "(of_char c :: nat) \<in> {97..<123}" and "nat (decode_char c) = of_char c - 97 + 26"
      by (auto simp: char_in_def decode_char_def)
    with bspec [OF alphabet_ranges(2) n] show ?thesis by auto
  next
    case 3
    then have n: "(of_char c :: nat) \<in> {48..<58}" and "nat (decode_char c) = of_char c - 48 + 52"
      by (auto simp: char_in_def decode_char_def)
    with bspec [OF alphabet_ranges(3) n] show ?thesis by auto
  qed (use alphabet_ranges(4,5) in \<open>simp_all add: decode_char_def char_in_def\<close>)
  then show "nat (decode_char c) < 64" and "kAlphabet ! nat (decode_char c) = c" by auto
qed

definition sextet :: "char \<Rightarrow> u32" where
  "sextet c = word_of_int (decode_char c)"

lemma unat_sextet:
  assumes "0 \<le> decode_char c"
  shows "unat (sextet c) = nat (decode_char c)"
proof -
  obtain n where n: "decode_char c = int n" using assms by (metis nonneg_int_cases)
  with alphabet_decode_char(1) [OF assms] have "n < 2 ^ 32" by simp
  then have "unat (of_nat n :: u32) = n" by (rule unat_of_nat_small32)
  with n show ?thesis by (simp add: sextet_def)
qed

lemma take_bit_6_iff: "take_bit 6 (s :: u32) = s \<longleftrightarrow> unat s < 64"
  by (simp add: word_unat_eq_iff unsigned_take_bit_eq take_bit_nat_eq_self_iff)

lemma and_3f: "(x :: u32) AND 0x3F = take_bit 6 x"
  by (simp add: take_bit_eq_mask mask_eq_exp_minus_1)

lemma ucast_and_ff32: "(ucast (x AND 0xFF :: u32) :: u8) = ucast x"
proof -
  have "(ucast (x AND mask 8 :: u32) :: u8) = ucast x"
    by (rule bit_word_eqI) (auto simp: bit_simps)
  then show ?thesis by (simp add: mask_eq_exp_minus_1)
qed

lemma sextet_char_props:
  "0 \<le> decode_char (sextet_char v k)" "sextet (sextet_char v k) = take_bit 6 (drop_bit k v)"
proof -
  let ?s = "take_bit 6 (drop_bit k v)"
  have lt: "unat ?s < 64" using take_bit_6_iff [of ?s] by simp
  have "sextet_char v k = kAlphabet ! unat ?s" by (simp add: sextet_char_def and_3f)
  with decode_char_alphabet [OF lt] have d: "decode_char (sextet_char v k) = int (unat ?s)" by simp
  then show "0 \<le> decode_char (sextet_char v k)" by simp
  show "sextet (sextet_char v k) = ?s" by (simp add: sextet_def d)
qed

lemma char_of_sextet:
  "0 \<le> decode_char c \<Longrightarrow> take_bit 6 (drop_bit k v) = sextet c \<Longrightarrow> sextet_char v k = c"
  by (simp add: sextet_char_def and_3f unat_sextet alphabet_decode_char(2))

lemma take_bit_sextet: "0 \<le> decode_char c \<Longrightarrow> take_bit 6 (sextet c) = sextet c"
  by (simp add: take_bit_6_iff unat_sextet alphabet_decode_char(1))

lemma valid_not_skipped: "0 \<le> decode_char c \<Longrightarrow> \<not> skipped c"
  by (auto simp: skipped_def decode_char_def char_in_def split: if_splits)

section \<open>Three bytes and four sextets\<close>

definition byte1 :: "u32 \<Rightarrow> u32 \<Rightarrow> u8" where "byte1 s1 s2 = ucast (push_bit 2 s1 OR drop_bit 4 s2)"
definition byte2 :: "u32 \<Rightarrow> u32 \<Rightarrow> u8" where "byte2 s2 s3 = ucast (push_bit 4 s2 OR drop_bit 2 s3)"
definition byte3 :: "u32 \<Rightarrow> u32 \<Rightarrow> u8" where "byte3 s3 s4 = ucast (push_bit 6 s3 OR s4)"

definition pack :: "u8 \<Rightarrow> u8 \<Rightarrow> u8 \<Rightarrow> u32" where
  "pack a b c = push_bit 16 (ucast a) OR push_bit 8 (ucast b) OR ucast c"

definition six :: "u32 \<Rightarrow> nat \<Rightarrow> u32" where "six v k = take_bit 6 (drop_bit k v)"

lemma u8_bits:
  assumes "bit x 0 = bit y 0" "bit x 1 = bit y 1" "bit x 2 = bit y 2" "bit x 3 = bit y 3"
    "bit x 4 = bit y 4" "bit x 5 = bit y 5" "bit x 6 = bit y 6" "bit x 7 = bit (y :: u8) 7"
  shows "x = y"
proof (rule bit_word_eqI)
  fix n assume "n < LENGTH(8)"
  then have "n = 0 \<or> n = 1 \<or> n = 2 \<or> n = 3 \<or> n = 4 \<or> n = 5 \<or> n = 6 \<or> n = 7" by auto
  then show "bit x n = bit y n" using assms by blast
qed

lemma six_bits:
  assumes "bit x 0 = bit y 0" "bit x 1 = bit y 1" "bit x 2 = bit y 2" "bit x 3 = bit y 3"
    "bit x 4 = bit y 4" "bit x 5 = bit (y :: u32) 5"
  shows "take_bit 6 x = take_bit 6 y"
proof (rule bit_word_eqI)
  fix n
  show "bit (take_bit 6 x) n = bit (take_bit 6 y) n"
  proof (cases "n < 6")
    case True
    then have "n = 0 \<or> n = 1 \<or> n = 2 \<or> n = 3 \<or> n = 4 \<or> n = 5" by auto
    then have "bit x n = bit y n" using assms by blast
    then show ?thesis by (simp add: bit_simps)
  qed (simp add: bit_simps)
qed

lemma u8_high [simp]: "8 \<le> n \<Longrightarrow> bit (a :: u8) n = False"
  using bit_imp_le_length [of a n] by auto

lemma unpack:
  "byte1 (six (pack a b c) 18) (six (pack a b c) 12) = a"
  "byte2 (six (pack a b c) 12) (six (pack a b c) 6) = b"
  "byte3 (six (pack a b c) 6) (six (pack a b c) 0) = c"
  by (rule u8_bits; simp add: byte1_def byte2_def byte3_def six_def pack_def bit_simps flip: numeral_2_eq_2)+

lemma repack:
  assumes "take_bit 6 s1 = s1" "take_bit 6 s2 = s2" "take_bit 6 s3 = s3" "take_bit 6 s4 = s4"
  defines "v \<equiv> pack (byte1 s1 s2) (byte2 s2 s3) (byte3 s3 s4)"
  shows "six v 18 = s1" "six v 12 = s2" "six v 6 = s3" "six v 0 = s4"
proof -
  have h: "\<not> bit s n" if "take_bit 6 s = s" "6 \<le> n" for s :: u32 and n
    using that by (metis bit_take_bit_iff not_less)
  note hs = h [OF assms(1)] h [OF assms(2)] h [OF assms(3)] h [OF assms(4)]
  have "six v 18 = take_bit 6 s1" unfolding six_def
    by (rule six_bits) (simp_all add: hs v_def pack_def byte1_def byte2_def byte3_def bit_simps flip: numeral_2_eq_2)
  moreover have "six v 12 = take_bit 6 s2" unfolding six_def
    by (rule six_bits) (simp_all add: hs v_def pack_def byte1_def byte2_def byte3_def bit_simps flip: numeral_2_eq_2)
  moreover have "six v 6 = take_bit 6 s3" unfolding six_def
    by (rule six_bits) (simp_all add: hs v_def pack_def byte1_def byte2_def byte3_def bit_simps flip: numeral_2_eq_2)
  moreover have "six v 0 = take_bit 6 s4" unfolding six_def
    by (rule six_bits) (simp_all add: hs v_def pack_def byte1_def byte2_def byte3_def bit_simps flip: numeral_2_eq_2)
  ultimately show "six v 18 = s1" "six v 12 = s2" "six v 6 = s3" "six v 0 = s4"
    by (simp_all add: assms(1-4))
qed

section \<open>The decode loop\<close>

lemma take_bit_cong_bits:
  "(\<And>m. m < k \<Longrightarrow> bit x m = bit y m) \<Longrightarrow> take_bit k x = take_bit k (y :: u32)"
  by (rule bit_word_eqI) (auto simp: bit_simps)

lemma byte_cong_bits:
  "(\<And>m. m < k + 8 \<Longrightarrow> bit x m = bit y m) \<Longrightarrow> (ucast (drop_bit k x) :: u8) = ucast (drop_bit k (y :: u32))"
  by (rule bit_word_eqI) (auto simp: bit_simps)

lemma loop_buffer_irrelevant:
  assumes "take_bit bits b1 = take_bit bits b2" and "bits < 8"
  shows "rel_option (\<lambda>(o1, r1, k1) (o2, r2, k2). o1 = o2 \<and> k1 = k2 \<and> k1 < 8 \<and> take_bit k1 r1 = take_bit k1 r2)
           (decode_loop rule b1 bits cs) (decode_loop rule b2 bits cs)"
  using assms
proof (induction cs arbitrary: b1 b2 bits)
  case (Cons c cs)
  let ?n1 = "push_bit 6 b1 OR word_of_int (decode_char c)" and ?n2 = "push_bit 6 b2 OR word_of_int (decode_char c)"
  have eq: "bit b1 n = bit b2 n" if "n < bits" for n
    using Cons.prems(1) that by (metis bit_take_bit_iff)
  have n: "bit ?n1 k = bit ?n2 k" if "k < bits + 6" for k
    using that eq by (auto simp: bit_simps)
  have t: "take_bit k ?n1 = take_bit k ?n2" if "k \<le> bits + 6" for k
    using that by (intro take_bit_cong_bits n) simp
  have byte: "(ucast (drop_bit (bits - 2) ?n1) :: u8) = ucast (drop_bit (bits - 2) ?n2)" if "2 \<le> bits"
    using that by (intro byte_cong_bits n) simp
  have IH: "rel_option (\<lambda>(o1, r1, k1) (o2, r2, k2). o1 = o2 \<and> k1 = k2 \<and> k1 < 8 \<and> take_bit k1 r1 = take_bit k1 r2)
      (decode_loop rule b1' k cs) (decode_loop rule b2' k cs)"
    if "take_bit k b1' = take_bit k b2'" "k < 8" for b1' b2' k
    using Cons.IH that .
  show ?case
  proof (cases "rule = SkipWithLineBreaks \<and> skipped c \<or> decode_char c < 0")
    case True
    then show ?thesis using IH [OF Cons.prems] by auto
  next
    case False
    show ?thesis
    proof (cases "8 \<le> bits + 6")
      case True
      have "bits - 2 < 8" using Cons.prems(2) by simp
      with False True byte IH [OF t [of "bits - 2"]] show ?thesis
        by (auto simp: Let_def ucast_and_ff32 split: option.splits elim!: option.rel_cases)
    next
      case small: False
      with False IH [OF t [of "bits + 6"]] show ?thesis by (auto simp: Let_def)
    qed
  qed
qed simp

lemma loop_group:
  assumes "0 \<le> decode_char c1" "0 \<le> decode_char c2" "0 \<le> decode_char c3" "0 \<le> decode_char c4"
  shows "\<exists>buf'. decode_loop rule buf 0 (c1 # c2 # c3 # c4 # cs) =
    (case decode_loop rule buf' 0 cs of None \<Rightarrow> None
     | Some (out, r) \<Rightarrow> Some (byte1 (sextet c1) (sextet c2) # byte2 (sextet c2) (sextet c3)
                               # byte3 (sextet c3) (sextet c4) # out, r))"
proof -
  note v = assms [THEN valid_not_skipped] and nn = assms [THEN leD]
  have h: "\<not> bit (sextet c) n" if "0 \<le> decode_char c" "6 \<le> n" for c n
    using take_bit_sextet [OF that(1)] that(2) by (metis bit_take_bit_iff not_less)
  note hs = h [OF assms(1)] h [OF assms(2)] h [OF assms(3)] h [OF assms(4)]
  let ?B2 = "push_bit 6 (push_bit 6 buf OR sextet c1) OR sextet c2"
  let ?B3 = "push_bit 6 ?B2 OR sextet c3" and ?B4 = "push_bit 6 (push_bit 6 ?B2 OR sextet c3) OR sextet c4"
  have "(ucast (drop_bit 4 ?B2) :: u8) = byte1 (sextet c1) (sextet c2)"
    by (rule u8_bits) (simp_all add: hs byte1_def bit_simps flip: numeral_2_eq_2)
  moreover have "(ucast (drop_bit 2 ?B3) :: u8) = byte2 (sextet c2) (sextet c3)"
    by (rule u8_bits) (simp_all add: hs byte2_def bit_simps flip: numeral_2_eq_2)
  moreover have "(ucast ?B4 :: u8) = byte3 (sextet c3) (sextet c4)"
    by (rule u8_bits) (simp_all add: hs byte3_def bit_simps flip: numeral_2_eq_2)
  ultimately show ?thesis
    using v nn by (intro exI [of _ ?B4])
      (simp add: Let_def ucast_and_ff32 flip: sextet_def split: option.splits)
qed

lemma loop_two:
  assumes "0 \<le> decode_char c1" "0 \<le> decode_char c2"
  shows "\<exists>buf'. decode_loop rule buf 0 [c1, c2] = Some ([byte1 (sextet c1) (sextet c2)], buf', 4)
    \<and> take_bit 4 buf' = take_bit 4 (sextet c2)"
proof -
  note v = assms [THEN valid_not_skipped] and nn = assms [THEN leD]
  have h: "\<not> bit (sextet c) n" if "0 \<le> decode_char c" "6 \<le> n" for c n
    using take_bit_sextet [OF that(1)] that(2) by (metis bit_take_bit_iff not_less)
  note hs = h [OF assms(1)] h [OF assms(2)]
  let ?B2 = "push_bit 6 (push_bit 6 buf OR sextet c1) OR sextet c2"
  have "(ucast (drop_bit 4 ?B2) :: u8) = byte1 (sextet c1) (sextet c2)"
    by (rule u8_bits) (simp_all add: hs byte1_def bit_simps flip: numeral_2_eq_2)
  moreover have "take_bit 4 ?B2 = take_bit 4 (sextet c2)"
    by (rule take_bit_cong_bits) (simp add: bit_simps)
  ultimately show ?thesis
    using v nn by (intro exI [of _ ?B2]) (simp add: Let_def ucast_and_ff32 flip: sextet_def)
qed

lemma loop_three:
  assumes "0 \<le> decode_char c1" "0 \<le> decode_char c2" "0 \<le> decode_char c3"
  shows "\<exists>buf'. decode_loop rule buf 0 [c1, c2, c3]
      = Some ([byte1 (sextet c1) (sextet c2), byte2 (sextet c2) (sextet c3)], buf', 2)
    \<and> take_bit 2 buf' = take_bit 2 (sextet c3)"
proof -
  note v = assms [THEN valid_not_skipped] and nn = assms [THEN leD]
  have h: "\<not> bit (sextet c) n" if "0 \<le> decode_char c" "6 \<le> n" for c n
    using take_bit_sextet [OF that(1)] that(2) by (metis bit_take_bit_iff not_less)
  note hs = h [OF assms(1)] h [OF assms(2)] h [OF assms(3)]
  let ?B2 = "push_bit 6 (push_bit 6 buf OR sextet c1) OR sextet c2"
  let ?B3 = "push_bit 6 ?B2 OR sextet c3"
  have "(ucast (drop_bit 4 ?B2) :: u8) = byte1 (sextet c1) (sextet c2)"
    by (rule u8_bits) (simp_all add: hs byte1_def bit_simps flip: numeral_2_eq_2)
  moreover have "(ucast (drop_bit 2 ?B3) :: u8) = byte2 (sextet c2) (sextet c3)"
    by (rule u8_bits) (simp_all add: hs byte2_def bit_simps flip: numeral_2_eq_2)
  moreover have "take_bit 2 ?B3 = take_bit 2 (sextet c3)"
    by (rule take_bit_cong_bits) (simp add: bit_simps)
  ultimately show ?thesis
    using v nn by (intro exI [of _ ?B3]) (simp add: Let_def ucast_and_ff32 flip: sextet_def)
qed

lemma tail_mask: "(x :: u32) AND (push_bit k 1 - 1) = take_bit k x"
  by (simp add: take_bit_eq_mask mask_eq_exp_minus_1 push_bit_eq_mult)

lemma loop_invalid:
  assumes "c \<in> set cs" and "decode_char c < 0"
  shows "decode_loop RejectWithZeroTail buf bits cs = None"
  using assms(1)
proof (induction cs arbitrary: buf bits)
  case (Cons a cs)
  then show ?case
    by (cases "a = c") (simp_all add: assms(2) Let_def)
qed simp

section \<open>The strict decoder\<close>

lemma decode_strict_rule:
  "decode str RejectWithZeroTail =
     (case decode_loop RejectWithZeroTail 0 0 str of None \<Rightarrow> None
      | Some (out, buf, k) \<Rightarrow> if take_bit k buf = 0 then Some out else None)"
  unfolding decode_def tail_mask by (simp split: option.splits)

lemma decode_reject_group:
  assumes "0 \<le> decode_char c1" "0 \<le> decode_char c2" "0 \<le> decode_char c3" "0 \<le> decode_char c4"
  shows "decode (c1 # c2 # c3 # c4 # cs) RejectWithZeroTail =
    map_option (\<lambda>out. byte1 (sextet c1) (sextet c2) # byte2 (sextet c2) (sextet c3)
                       # byte3 (sextet c3) (sextet c4) # out) (decode cs RejectWithZeroTail)"
proof -
  obtain buf' where l: "decode_loop RejectWithZeroTail 0 0 (c1 # c2 # c3 # c4 # cs) =
    (case decode_loop RejectWithZeroTail buf' 0 cs of None \<Rightarrow> None
     | Some (out, r) \<Rightarrow> Some (byte1 (sextet c1) (sextet c2) # byte2 (sextet c2) (sextet c3)
                               # byte3 (sextet c3) (sextet c4) # out, r))"
    using loop_group [OF assms, of RejectWithZeroTail 0 cs] by blast
  have "take_bit 0 buf' = take_bit 0 (0 :: u32)" by simp
  from loop_buffer_irrelevant [OF this, of RejectWithZeroTail cs] l show ?thesis
    unfolding decode_strict_rule
    by (auto simp: rel_option_iff split: option.splits prod.splits)
qed

lemma decode_reject_invalid: "c \<in> set cs \<Longrightarrow> decode_char c < 0 \<Longrightarrow> decode cs RejectWithZeroTail = None"
  by (simp add: decode_strict_rule loop_invalid)

lemma decode_char_eq_sign: "decode_char CHR ''='' = - 1"
  by (simp add: decode_char_def char_in_def)

definition padding_of :: "string \<Rightarrow> nat" where
  "padding_of str = (if str \<noteq> [] \<and> last str = CHR ''='' then (if str ! (length str - 2) = CHR ''='' then 2 else 1) else 0)"

lemma decode_strict_padding:
  "decode_strict str = (if length str mod 4 \<noteq> 0 then None
     else decode (take (length str - padding_of str) str) RejectWithZeroTail)"
  by (simp add: decode_strict_def padding_of_def Let_def)

lemma decode_strict_group:
  assumes "cs \<noteq> []" and "length cs mod 4 = 0"
  shows "decode_strict (c1 # c2 # c3 # c4 # cs) =
    (if 0 \<le> decode_char c1 \<and> 0 \<le> decode_char c2 \<and> 0 \<le> decode_char c3 \<and> 0 \<le> decode_char c4
     then map_option (\<lambda>out. byte1 (sextet c1) (sextet c2) # byte2 (sextet c2) (sextet c3)
                             # byte3 (sextet c3) (sextet c4) # out) (decode_strict cs)
     else None)"
proof -
  from assms have "4 \<le> length cs" by (metis dvd_imp_le length_greater_0_conv mod_0_imp_dvd)
  then have p: "padding_of (c1 # c2 # c3 # c4 # cs) = padding_of cs"
    and "padding_of cs \<le> length cs"
    using assms(1) by (auto simp: padding_of_def nth_Cons' numeral_eq_Suc)
  then have "take (length (c1 # c2 # c3 # c4 # cs) - padding_of cs) (c1 # c2 # c3 # c4 # cs)
      = c1 # c2 # c3 # c4 # take (length cs - padding_of cs) cs"
    by (simp add: Suc_diff_le)
  moreover have "length (c1 # c2 # c3 # c4 # cs) mod 4 = 0" using assms(2) by simp
  ultimately show ?thesis
    using assms(2) decode_reject_group [of c1 c2 c3 c4]
    by (auto simp: decode_strict_padding p not_le intro: decode_reject_invalid)
qed

lemma decode_two:
  assumes "0 \<le> decode_char c1" "0 \<le> decode_char c2"
  shows "decode [c1, c2] RejectWithZeroTail =
      (if take_bit 4 (sextet c2) = 0 then Some [byte1 (sextet c1) (sextet c2)] else None)"
  using loop_two [OF assms, of RejectWithZeroTail 0]
  by (auto simp: decode_strict_rule simp del: decode_loop.simps)

lemma decode_three:
  assumes "0 \<le> decode_char c1" "0 \<le> decode_char c2" "0 \<le> decode_char c3"
  shows "decode [c1, c2, c3] RejectWithZeroTail =
      (if take_bit 2 (sextet c3) = 0
       then Some [byte1 (sextet c1) (sextet c2), byte2 (sextet c2) (sextet c3)] else None)"
  using loop_three [OF assms, of RejectWithZeroTail 0]
  by (auto simp: decode_strict_rule simp del: decode_loop.simps)

text \<open>A last group of four characters.\<close>

lemma decode_strict_last:
  "decode_strict [c1, c2, c3, c4] =
     (if \<not> (0 \<le> decode_char c1 \<and> 0 \<le> decode_char c2) then None
      else if c4 = CHR ''='' then
        (if c3 = CHR ''='' then
           (if take_bit 4 (sextet c2) = 0 then Some [byte1 (sextet c1) (sextet c2)] else None)
         else if 0 \<le> decode_char c3 \<and> take_bit 2 (sextet c3) = 0
         then Some [byte1 (sextet c1) (sextet c2), byte2 (sextet c2) (sextet c3)] else None)
      else if 0 \<le> decode_char c3 \<and> 0 \<le> decode_char c4
      then Some [byte1 (sextet c1) (sextet c2), byte2 (sextet c2) (sextet c3), byte3 (sextet c3) (sextet c4)]
      else None)"
proof -
  have s: "decode_strict [c1, c2, c3, c4] = decode
      (if c4 = CHR ''='' then if c3 = CHR ''='' then [c1, c2] else [c1, c2, c3] else [c1, c2, c3, c4])
      RejectWithZeroTail"
    by (simp add: decode_strict_padding padding_of_def numeral_eq_Suc)
  have nil: "decode [] RejectWithZeroTail = Some []" by (simp add: decode_strict_rule)
  show ?thesis
    unfolding s using decode_two decode_three decode_reject_group [of c1 c2 c3 c4 "[]"]
    by (cases "0 \<le> decode_char c3") (auto simp: nil not_le intro: decode_reject_invalid)
qed

text \<open>The leftover bits are zero exactly when the byte they would start is.\<close>

lemma leftover_zero:
  assumes "take_bit 6 s = s"
  shows "take_bit 4 s = 0 \<longleftrightarrow> byte2 s 0 = 0" and "take_bit 2 s = 0 \<longleftrightarrow> byte3 s 0 = 0"
proof -
  have z: "bit (0 :: u8) n = False" "bit (0 :: u32) n = False" for n by simp_all
  have four: "take_bit 4 s = 0 \<longleftrightarrow> \<not> bit s 0 \<and> \<not> bit s 1 \<and> \<not> bit s 2 \<and> \<not> bit s 3"
  proof
    assume "take_bit 4 s = 0"
    then have "\<not> bit (take_bit 4 s) n" for n by simp
    then have "n < 4 \<Longrightarrow> \<not> bit s n" for n by (auto simp: bit_take_bit_iff)
    then show "\<not> bit s 0 \<and> \<not> bit s 1 \<and> \<not> bit s 2 \<and> \<not> bit s 3" by simp
  next
    assume a: "\<not> bit s 0 \<and> \<not> bit s 1 \<and> \<not> bit s 2 \<and> \<not> bit s 3"
    have "take_bit 4 s = take_bit 4 0"
    proof (rule take_bit_cong_bits)
      fix m :: nat assume "m < 4"
      then have "m = 0 \<or> m = 1 \<or> m = 2 \<or> m = 3" by auto
      with a show "bit s m = bit 0 m" by auto
    qed
    then show "take_bit 4 s = 0" by simp
  qed
  have two: "take_bit 2 s = 0 \<longleftrightarrow> \<not> bit s 0 \<and> \<not> bit s 1"
  proof
    assume "take_bit 2 s = 0"
    then have "\<not> bit (take_bit 2 s) n" for n by simp
    then have "n < 2 \<Longrightarrow> \<not> bit s n" for n by (auto simp: bit_take_bit_iff)
    then show "\<not> bit s 0 \<and> \<not> bit s 1" by simp
  next
    assume a: "\<not> bit s 0 \<and> \<not> bit s 1"
    have "take_bit 2 s = take_bit 2 0"
    proof (rule take_bit_cong_bits)
      fix m :: nat assume "m < 2"
      then have "m = 0 \<or> m = 1" by auto
      with a show "bit s m = bit 0 m" by auto
    qed
    then show "take_bit 2 s = 0" by simp
  qed
  have b2: "bit (byte2 s 0) n = (4 \<le> n \<and> n < 8 \<and> bit s (n - 4))" for n
    by (auto simp: byte2_def bit_simps)
  have b3: "bit (byte3 s 0) n = (6 \<le> n \<and> n < 8 \<and> bit s (n - 6))" for n
    by (auto simp: byte3_def bit_simps)
  show "take_bit 4 s = 0 \<longleftrightarrow> byte2 s 0 = 0"
  proof
    assume "take_bit 4 s = 0"
    then show "byte2 s 0 = 0" unfolding four
      by (intro u8_bits) (simp_all add: b2 flip: numeral_2_eq_2)
  next
    assume "byte2 s 0 = 0"
    then have "\<not> bit (byte2 s 0) n" for n by simp
    from this [of 4] this [of 5] this [of 6] this [of 7] show "take_bit 4 s = 0"
      unfolding four by (simp add: b2 flip: numeral_2_eq_2)
  qed
  show "take_bit 2 s = 0 \<longleftrightarrow> byte3 s 0 = 0"
  proof
    assume "take_bit 2 s = 0"
    then show "byte3 s 0 = 0" unfolding two
      by (intro u8_bits) (simp_all add: b3 flip: numeral_2_eq_2)
  next
    assume "byte3 s 0 = 0"
    then have "\<not> bit (byte3 s 0) n" for n by simp
    from this [of 6] this [of 7] show "take_bit 2 s = 0"
      unfolding two by (simp add: b3 flip: numeral_2_eq_2)
  qed
qed

section \<open>Round trips\<close>

lemma encode_raw_pack:
  "encode_raw (a # b # c # rest) = [sextet_char (pack a b c) 18, sextet_char (pack a b c) 12,
     sextet_char (pack a b c) 6, sextet_char (pack a b c) 0] @ encode_raw rest"
  "encode_raw [a] = [sextet_char (pack a 0 0) 18, sextet_char (pack a 0 0) 12, CHR ''='', CHR ''='']"
  "encode_raw [a, b] = [sextet_char (pack a b 0) 18, sextet_char (pack a b 0) 12,
     sextet_char (pack a b 0) 6, CHR ''='']"
  by (simp_all add: pack_def Let_def)

lemma length_encode_raw: "length (encode_raw bs) mod 4 = 0"
  by (induction bs rule: encode_raw.induct) (simp_all add: Let_def)

lemma encode_raw_Nil_iff: "encode_raw bs = [] \<longleftrightarrow> bs = []"
  by (cases bs rule: encode_raw.cases) (simp_all add: Let_def)

declare encode_raw.simps(1-3) [simp del]

lemma sextet_of_char: "sextet (sextet_char v k) = six v k" "0 \<le> decode_char (sextet_char v k)"
  using sextet_char_props by (simp_all add: six_def)

lemma sextet_char_not_eq: "sextet_char v k \<noteq> CHR ''=''"
  using sextet_of_char(2) [of v k] by (auto simp: decode_char_eq_sign)

lemma six_zero: "six (pack a 0 0) 6 = 0" "six (pack a b 0) 0 = 0"
proof -
  have "take_bit 6 (drop_bit 6 (pack a 0 0)) = take_bit 6 0"
    by (rule six_bits) (simp_all add: pack_def bit_simps flip: numeral_2_eq_2)
  then show "six (pack a 0 0) 6 = 0" by (simp add: six_def)
  have "take_bit 6 (pack a b 0) = take_bit 6 0"
    by (rule six_bits) (simp_all add: pack_def bit_simps flip: numeral_2_eq_2)
  then show "six (pack a b 0) 0 = 0" by (simp add: six_def)
qed

lemma take_bit_six: "take_bit 6 (six v k) = six v k"
  by (simp add: six_def)

lemma leftover_pack:
  "take_bit 4 (six (pack a 0 0) 12) = 0" "take_bit 2 (six (pack a b 0) 6) = 0"
proof -
  have "byte2 (six (pack a 0 0) 12) 0 = 0" using unpack(2) [of a 0 0] by (simp add: six_zero)
  then show "take_bit 4 (six (pack a 0 0) 12) = 0" using leftover_zero(1) take_bit_six by blast
  have "byte3 (six (pack a b 0) 6) 0 = 0" using unpack(3) [of a b 0] by (simp add: six_zero)
  then show "take_bit 2 (six (pack a b 0) 6) = 0" using leftover_zero(2) take_bit_six by blast
qed

lemma decode_strict_encode: "decode_strict (encode_raw bs) = Some bs"
proof (induction bs rule: encode_raw.induct)
  case (1 a b c rest)
  show ?case
  proof (cases "rest = []")
    case True
    then show ?thesis
      by (simp add: encode_raw_pack(1) decode_strict_last sextet_of_char sextet_char_not_eq unpack)
  next
    case False
    then show ?thesis
      using "1.IH" [OF refl] decode_strict_group [of "encode_raw rest"] length_encode_raw
      by (simp add: encode_raw_pack(1) encode_raw_Nil_iff sextet_of_char unpack)
  qed
next
  case (2 a)
  show ?case
    by (simp add: leftover_pack encode_raw_pack(2) decode_strict_last sextet_of_char unpack)
next
  case (3 a b)
  show ?case
    by (simp add: leftover_pack encode_raw_pack(3) decode_strict_last sextet_of_char sextet_char_not_eq unpack
       )
next
  case 4
  show ?case by (simp add: decode_strict_padding padding_of_def decode_strict_rule)
qed

lemma encode_group:
  assumes "0 \<le> decode_char c1" "0 \<le> decode_char c2" "0 \<le> decode_char c3" "0 \<le> decode_char c4"
  shows "encode_raw (byte1 (sextet c1) (sextet c2) # byte2 (sextet c2) (sextet c3)
           # byte3 (sextet c3) (sextet c4) # rest) = c1 # c2 # c3 # c4 # encode_raw rest"
  using repack [OF assms [THEN take_bit_sextet]] assms
  by (simp add: encode_raw_pack char_of_sextet six_def)

lemma encode_two:
  assumes "0 \<le> decode_char c1" "0 \<le> decode_char c2" "take_bit 4 (sextet c2) = 0"
  shows "encode_raw [byte1 (sextet c1) (sextet c2)] = [c1, c2, CHR ''='', CHR ''='']"
proof -
  have "byte2 (sextet c2) 0 = 0" using leftover_zero(1) [OF take_bit_sextet [OF assms(2)]] assms(3) by simp
  moreover have "byte3 0 0 = 0" by (simp add: byte3_def)
  ultimately show ?thesis
    using repack(1,2) [OF take_bit_sextet [OF assms(1)] take_bit_sextet [OF assms(2)], of 0 0] assms
    by (simp add: encode_raw_pack char_of_sextet six_def)
qed

lemma encode_three:
  assumes "0 \<le> decode_char c1" "0 \<le> decode_char c2" "0 \<le> decode_char c3" "take_bit 2 (sextet c3) = 0"
  shows "encode_raw [byte1 (sextet c1) (sextet c2), byte2 (sextet c2) (sextet c3)] = [c1, c2, c3, CHR ''='']"
proof -
  have "byte3 (sextet c3) 0 = 0" using leftover_zero(2) [OF take_bit_sextet [OF assms(3)]] assms(4) by simp
  then show ?thesis
    using repack(1-3) [OF assms(1-3) [THEN take_bit_sextet], of 0] assms
    by (simp add: encode_raw_pack char_of_sextet six_def)
qed

lemma strict_text_cases:
  assumes "length str mod 4 = 0"
  obtains "str = []" | c1 c2 c3 c4 where "str = [c1, c2, c3, c4]"
  | c1 c2 c3 c4 cs where "str = c1 # c2 # c3 # c4 # cs" "cs \<noteq> []" "length cs mod 4 = 0"
proof (cases "str = []")
  case False
  with assms have "4 \<le> length str" by (metis dvd_imp_le length_greater_0_conv mod_0_imp_dvd)
  then obtain c1 c2 c3 c4 cs where s: "str = c1 # c2 # c3 # c4 # cs"
    by (auto simp: numeral_eq_Suc Suc_le_length_iff)
  with assms that show ?thesis by (cases "cs = []") auto
qed (use that in blast)

lemma encode_decode_strict: "decode_strict str = Some bs \<Longrightarrow> encode_raw bs = str"
proof (induction str arbitrary: bs rule: length_induct)
  case (1 str)
  then have "length str mod 4 = 0" by (auto simp: decode_strict_padding split: if_splits)
  then show ?case
  proof (cases rule: strict_text_cases)
    case 1
    with "1.prems" show ?thesis by (simp add: decode_strict_padding padding_of_def decode_strict_rule)
  next
    case (2 c1 c2 c3 c4)
    with "1.prems" show ?thesis
      using encode_group [of c1 c2 c3 c4 "[]"] encode_two encode_three
      by (auto simp: decode_strict_last split: if_splits)
  next
    case (3 c1 c2 c3 c4 cs)
    with "1.prems" obtain out where out: "decode_strict cs = Some out"
      and v: "0 \<le> decode_char c1" "0 \<le> decode_char c2" "0 \<le> decode_char c3" "0 \<le> decode_char c4"
      and bs: "bs = byte1 (sextet c1) (sextet c2) # byte2 (sextet c2) (sextet c3) # byte3 (sextet c3) (sextet c4) # out"
      by (auto simp: decode_strict_group split: if_splits)
    have "encode_raw out = cs" using "1.IH" 3(1) out by simp
    with encode_group [OF v, of out] bs 3(1) show ?thesis by (simp)
  qed
qed

section \<open>The lenient decoder\<close>

lemma loop_skip:
  "decode_loop SkipWithLineBreaks buf bits cs
     = decode_loop RejectWithZeroTail buf bits (filter (\<lambda>c. \<not> skipped c) cs)"
  by (induction cs arbitrary: buf bits) (simp_all add: Let_def)

lemma decode_lenient_reject:
  "decode_lenient str = map_option fst (decode_loop RejectWithZeroTail 0 0 (filter (\<lambda>c. \<not> skipped c) str))"
  by (auto simp: decode_lenient_def decode_def loop_skip split: option.splits)

lemma skipped_eq: "skipped CHR ''=''" by (simp add: skipped_def)

lemma sextet_char_not_skipped: "\<not> skipped (sextet_char v k)"
  using sextet_of_char(2) valid_not_skipped by blast

lemma decode_unpadded:
  "decode (filter (\<lambda>c. \<not> skipped c) (encode_raw bs)) RejectWithZeroTail = Some bs"
proof (induction bs rule: encode_raw.induct)
  case (1 a b c rest)
  show ?case using "1.IH" [OF refl] decode_reject_group
    by (simp add: encode_raw_pack sextet_char_not_skipped sextet_of_char unpack)
next
  case (2 a)
  show ?case
    by (simp add: encode_raw_pack sextet_char_not_skipped sextet_of_char skipped_eq decode_two unpack leftover_pack)
next
  case (3 a b)
  show ?case
    by (simp add: encode_raw_pack sextet_char_not_skipped sextet_of_char skipped_eq decode_three unpack leftover_pack)
qed (simp add: decode_strict_rule)

section \<open>Properties\<close>

text \<open>C40. The strict decoder accepts exactly the encoder's output: a text decodes to bytes exactly when
  it is the encoding of those bytes, so every byte sequence survives the round trip and no other
  spelling (wrong length, stray padding, line breaks, nonzero leftover bits) is accepted.\<close>

theorem decode_strict_iff_encode: "decode_strict str = Some bs \<longleftrightarrow> str = encode bs"
  using decode_strict_encode [of bs] encode_decode_strict [of str bs] by (auto simp: encode_def)

text \<open>The lenient decoder accepts every spelling of an encoding that differs from it only in padding
  and line breaks, wherever they stand, and returns the encoded bytes.\<close>

theorem decode_lenient_respells:
  assumes "filter (\<lambda>c. \<not> skipped c) str = filter (\<lambda>c. \<not> skipped c) (encode bs)"
  shows "decode_lenient str = Some bs"
proof -
  from decode_unpadded [of bs] obtain buf k where
    "decode_loop RejectWithZeroTail 0 0 (filter (\<lambda>c. \<not> skipped c) (encode_raw bs)) = Some (bs, buf, k)"
    by (auto simp: decode_strict_rule split: option.splits if_splits)
  with assms show ?thesis by (simp add: decode_lenient_reject encode_def)
qed

theorem decode_lenient_respells_witness:
  "decode_lenient (''QU'' @ [CHR 0x0A] @ ''I'') = Some [65, 66]"
proof -
  have "encode [65, 66] = ''QUI=''" by code_simp
  then have "filter (\<lambda>c. \<not> skipped c) (''QU'' @ [CHR 0x0A] @ ''I'') = filter (\<lambda>c. \<not> skipped c) (encode [65, 66])"
    by (simp add: skipped_def)
  then show ?thesis by (rule decode_lenient_respells)
qed

end
