(* ===== verification/Fips180.thy ===== *)
theory Fips180
  imports Sha256 Complex_Main
begin

text \<open>
  SHA-256 as the standard FIPS 180-4 states it, written apart from the engine's routine and sharing no definition with it:
  the constants as the fractional bits of the roots of the first primes (section 4.2.2 and 5.3.3), the padding as the smallest
  number of zeros (5.1.1), the words of a block by their value (5.2.1), the schedule by recursion, the rounds and the chaining
  (6.2.2). The routine of \<^verbatim>\<open>detail/sha256_posix.hpp\<close> is shown to compute it. A message of \<open>2 ^ 64\<close> bits or more, for which
  the standard defines no hash, has the length field of its length modulo \<open>2 ^ 64\<close> on both sides.
\<close>

unbundle bit_operations_syntax

section \<open>The standard\<close>

subsection \<open>Constants\<close>

definition prime_number :: "nat \<Rightarrow> bool" where
  "prime_number p = (2 \<le> p \<and> list_all (\<lambda>d. \<not> d dvd p) [2..<p])"

text \<open>The primes below 312, of which there are 64.\<close>

definition first_primes :: "nat list" where
  "first_primes = filter prime_number [2..<312]"

definition fractional_bits :: "real \<Rightarrow> u32" where
  "fractional_bits x = word_of_int \<lfloor>frac x * 2 ^ 32\<rfloor>"

definition fips_K :: "nat \<Rightarrow> u32" where
  "fips_K t = fractional_bits (root 3 (real (first_primes ! t)))"

definition fips_H0 :: "u32 list" where
  "fips_H0 = map (\<lambda>p. fractional_bits (sqrt (real p))) (take 8 first_primes)"

subsection \<open>Functions\<close>

definition SHR :: "nat \<Rightarrow> u32 \<Rightarrow> u32" where
  "SHR n x = of_nat (unat x div 2 ^ n)"

definition Ch :: "u32 \<Rightarrow> u32 \<Rightarrow> u32 \<Rightarrow> u32" where
  "Ch x y z = (x AND y) XOR (NOT x AND z)"

definition Maj :: "u32 \<Rightarrow> u32 \<Rightarrow> u32 \<Rightarrow> u32" where
  "Maj x y z = (x AND y) XOR (x AND z) XOR (y AND z)"

definition Sigma0 :: "u32 \<Rightarrow> u32" where
  "Sigma0 x = word_rotr 2 x XOR word_rotr 13 x XOR word_rotr 22 x"

definition Sigma1 :: "u32 \<Rightarrow> u32" where
  "Sigma1 x = word_rotr 6 x XOR word_rotr 11 x XOR word_rotr 25 x"

definition sigma0 :: "u32 \<Rightarrow> u32" where
  "sigma0 x = word_rotr 7 x XOR word_rotr 18 x XOR SHR 3 x"

definition sigma1 :: "u32 \<Rightarrow> u32" where
  "sigma1 x = word_rotr 17 x XOR word_rotr 19 x XOR SHR 10 x"

subsection \<open>Padding and parsing\<close>

text \<open>The bytes of a number, the most significant first.\<close>

definition big_endian :: "nat \<Rightarrow> nat \<Rightarrow> u8 list" where
  "big_endian k n = map (\<lambda>i. of_nat (n div 256 ^ (k - 1 - i) mod 256)) [0..<k]"

definition fips_pad :: "u8 list \<Rightarrow> u8 list" where
  "fips_pad m = m @ [0x80] @ replicate (LEAST k. 64 dvd length m + 1 + k + 8) 0 @ big_endian 8 (8 * length m)"

definition block_word :: "u8 list \<Rightarrow> nat \<Rightarrow> u32" where
  "block_word block t = of_nat (foldl (\<lambda>n b. 256 * n + unat b) 0 (take 4 (drop (4 * t) block)))"

subsection \<open>The hash\<close>

fun fips_W :: "u8 list \<Rightarrow> nat \<Rightarrow> u32" where
  "fips_W block t =
     (if t < 16 then block_word block t
      else sigma1 (fips_W block (t - 2)) + fips_W block (t - 7) + sigma0 (fips_W block (t - 15)) + fips_W block (t - 16))"

declare fips_W.simps [simp del]

text \<open>The working variables \<open>a\<close> to \<open>h\<close> are a list.\<close>

definition fips_round :: "u32 \<Rightarrow> u32 \<Rightarrow> u32 list \<Rightarrow> u32 list" where
  "fips_round k w v =
     (let T1 = v ! 7 + Sigma1 (v ! 4) + Ch (v ! 4) (v ! 5) (v ! 6) + k + w;
          T2 = Sigma0 (v ! 0) + Maj (v ! 0) (v ! 1) (v ! 2)
      in [T1 + T2, v ! 0, v ! 1, v ! 2, v ! 3 + T1, v ! 4, v ! 5, v ! 6])"

primrec fips_rounds :: "u8 list \<Rightarrow> u32 list \<Rightarrow> nat \<Rightarrow> u32 list" where
  "fips_rounds block H 0 = H"
| "fips_rounds block H (Suc t) = fips_round (fips_K t) (fips_W block t) (fips_rounds block H t)"

definition fips_compress :: "u32 list \<Rightarrow> u8 list \<Rightarrow> u32 list" where
  "fips_compress H block = map2 (+) (fips_rounds block H 64) H"

definition fips_sha256 :: "u8 list \<Rightarrow> u8 list" where
  "fips_sha256 m =
     (let M = fips_pad m;
          H = fold (\<lambda>i H. fips_compress H (take 64 (drop (64 * i) M))) [0..<length M div 64] fips_H0
      in concat (map (\<lambda>w. big_endian 4 (unat w)) H))"

section \<open>The constants of the engine\<close>

lemma fractional_bits_floor: "fractional_bits x = word_of_int \<lfloor>x * 2 ^ 32\<rfloor>"
proof -
  have "\<lfloor>frac x * 2 ^ 32\<rfloor> = \<lfloor>x * 2 ^ 32 - of_int (\<lfloor>x\<rfloor> * 2 ^ 32)\<rfloor>" by (simp add: frac_def algebra_simps)
  also have "\<dots> = \<lfloor>x * 2 ^ 32\<rfloor> - \<lfloor>x\<rfloor> * 2 ^ 32" by (rule floor_diff_of_int)
  finally have e: "fractional_bits x = word_of_int (\<lfloor>x * 2 ^ 32\<rfloor> - \<lfloor>x\<rfloor> * 2 ^ 32)" by (simp only: fractional_bits_def)
  have "(a - c * 2 ^ 32) mod 2 ^ 32 = a mod 2 ^ 32" for a c :: int by (simp add: mod_eq_dvd_iff)
  then show ?thesis unfolding e word_of_int_eq_iff by (simp only: take_bit_eq_mod len_bit0 len_num1) simp
qed

text \<open>The integer part of a scaled root is pinned by two powers.\<close>

lemma scaled_root_bits:
  assumes "0 < k" and "x ^ k = real p" and "0 \<le> x" and "a ^ k \<le> p * 2 ^ (32 * k)" and "p * 2 ^ (32 * k) < Suc a ^ k"
  shows "fractional_bits x = of_nat a"
proof -
  have e: "(x * 2 ^ 32) ^ k = real (p * 2 ^ (32 * k))" using assms(2) by (simp add: power_mult_distrib power_mult)
  have "real a ^ k \<le> (x * 2 ^ 32) ^ k" unfolding e using assms(4) by (metis of_nat_le_iff of_nat_power)
  then have "real a \<le> x * 2 ^ 32" by (subst (asm) power_mono_iff) (use assms(1, 3) in simp_all)
  moreover have "(x * 2 ^ 32) ^ k < real (Suc a) ^ k" unfolding e using assms(5) by (metis of_nat_less_iff of_nat_power)
  then have "x * 2 ^ 32 < real (Suc a)" by (rule power_less_imp_less_base) simp
  ultimately have "\<lfloor>x * 2 ^ 32\<rfloor> = int a" by (intro floor_unique) simp_all
  then show ?thesis unfolding fractional_bits_floor by simp
qed

lemma cube_root_bits: "a ^ 3 \<le> p * 2 ^ 96 \<Longrightarrow> p * 2 ^ 96 < Suc a ^ 3 \<Longrightarrow> fractional_bits (root 3 (real p)) = of_nat a"
  by (rule scaled_root_bits [of 3 _ p]) simp_all

lemma square_root_bits: "a ^ 2 \<le> p * 2 ^ 64 \<Longrightarrow> p * 2 ^ 64 < Suc a ^ 2 \<Longrightarrow> fractional_bits (sqrt (real p)) = of_nat a"
  by (rule scaled_root_bits [of 2 _ p]) simp_all

definition scaled_cube_roots :: "nat list" where
  "scaled_cube_roots =
     [5411319704, 6194414737, 7344290767, 8215976869, 9551921755, 10098905585, 11043570340, 11460697813, 12214315672,
      13195500289, 13492127166, 14311783875, 14809980276, 15046980094, 15499789991, 16133124468, 16720292289,
      16907126662, 17444216262, 17784676812, 17950125167, 18429019306, 18734950876, 19175934170, 19734090066,
      20001703533, 20132865992, 20390182855, 20516441075, 20764397895, 21588763473, 21813078375, 22141143685,
      22248366392, 22769593852, 22871018771, 23170020180, 23461497531, 23651862830, 23931792517, 24205322401,
      24295138891, 24734567280, 24820601251, 24990902297, 25075189284, 25569408389, 26045227120, 26200031510,
      26276752392, 26428864332, 26653801653, 26727943347, 27092625994, 27306805839, 27517677555, 27725365998,
      27793908591, 27997534228, 28131656200, 28198240250, 28526537963, 28973835255, 29099129074]"

definition scaled_square_roots :: "nat list" where
  "scaled_square_roots =
     [6074000999, 7439101573, 9603838834, 11363415354, 14244795007, 15485724812, 17708603819, 18721328409]"

text \<open>A composite number below 312 has a divisor up to 17, and so one of the first seven primes.\<close>

lemma small_divisor: "list_all (\<lambda>c. list_ex (\<lambda>q. q dvd c) [2, 3, 5, 7, 11, 13, 17]) [2..<18]" for q :: nat
  by simp

lemma divisor_of_prime: "prime_number n \<Longrightarrow> q dvd n \<Longrightarrow> 2 \<le> q \<Longrightarrow> n = q"
  using dvd_imp_le [of q n] by (fastforce simp: prime_number_def list_all_iff)

lemma prime_number_below:
  assumes "n < 312"
  shows "prime_number n \<longleftrightarrow> 2 \<le> n \<and> list_all (\<lambda>q. q dvd n \<longrightarrow> n = q) [2, 3, 5, 7, 11, 13, 17]"
proof
  assume "prime_number n"
  then show "2 \<le> n \<and> list_all (\<lambda>q. q dvd n \<longrightarrow> n = q) [2, 3, 5, 7, 11, 13, 17]"
    using divisor_of_prime [of n] by (simp add: prime_number_def)
next
  assume p: "2 \<le> n \<and> list_all (\<lambda>q. q dvd n \<longrightarrow> n = q) [2, 3, 5, 7, 11, 13, 17]"
  have "\<not> d dvd n" if d: "d \<in> set [2..<n]" for d
  proof
    assume "d dvd n"
    then obtain e where e: "n = d * e" by (rule dvdE)
    have "2 \<le> e" using d e by (cases e; cases "e - 1") auto
    have "d \<le> 17 \<or> e \<le> 17"
    proof (rule ccontr)
      assume "\<not> ?thesis"
      then have "18 * 18 \<le> d * e" by (intro mult_le_mono) auto
      then show False using assms e by simp
    qed
    moreover have "d < n" "e < n" "2 \<le> d" "d dvd n" "e dvd n" using \<open>2 \<le> e\<close> d e by auto
    ultimately obtain c where c: "c dvd n" "2 \<le> c" "c \<le> 17" "c < n" using \<open>2 \<le> e\<close> by blast
    then have "c \<in> {2..<18}" by simp
    then obtain q where q: "q \<in> set [2, 3, 5, 7, 11, 13, 17]" "q dvd c"
      using small_divisor unfolding list_all_iff list_ex_iff set_upt by blast
    then have "q dvd n" "q \<le> c" using c dvd_trans dvd_imp_le [of q c] by auto
    then show False using p q(1) c(4) by (auto simp: list_all_iff)
  qed
  then show "prime_number n" using p by (simp add: prime_number_def list_all_iff)
qed

lemma first_primes_eq:
  "first_primes =
     [2, 3, 5, 7, 11, 13, 17, 19, 23, 29, 31, 37, 41, 43, 47, 53, 59, 61, 67, 71, 73, 79, 83, 89, 97, 101, 103, 107,
      109, 113, 127, 131, 137, 139, 149, 151, 157, 163, 167, 173, 179, 181, 191, 193, 197, 199, 211, 223, 227, 229,
      233, 239, 241, 251, 257, 263, 269, 271, 277, 281, 283, 293, 307, 311]"
proof -
  have "first_primes = filter (\<lambda>n. 2 \<le> n \<and> list_all (\<lambda>q. q dvd n \<longrightarrow> n = q) [2, 3, 5, 7, 11, 13, 17]) [2..<312]"
    unfolding first_primes_def
    by (rule filter_cong [OF refl], rule prime_number_below) (simp only: set_upt atLeastLessThan_iff)
  then show ?thesis by simp
qed

lemma first_primes_count: "length first_primes = 64"
  by (simp add: first_primes_eq)

lemma cube_roots_exact: "list_all2 (\<lambda>p a. a ^ 3 \<le> p * 2 ^ 96 \<and> p * 2 ^ 96 < Suc a ^ 3) first_primes scaled_cube_roots"
  by (simp add: first_primes_eq scaled_cube_roots_def)

lemma square_roots_exact:
  "list_all2 (\<lambda>p a. a ^ 2 \<le> p * 2 ^ 64 \<and> p * 2 ^ 64 < Suc a ^ 2) (take 8 first_primes) scaled_square_roots"
  by (simp add: first_primes_eq scaled_square_roots_def)

lemma scaled_cube_roots_bits: "map of_nat scaled_cube_roots = kSha256RoundConstants" "length scaled_cube_roots = 64"
  by (simp_all add: scaled_cube_roots_def kSha256RoundConstants_def)

lemma scaled_square_roots_bits: "map of_nat scaled_square_roots = kSha256InitialHash" "length scaled_square_roots = 8"
  by (simp_all add: scaled_square_roots_def kSha256InitialHash_def)

lemma round_constants:
  assumes "t < 64"
  shows "kSha256RoundConstants ! t = fips_K t"
proof -
  have "kSha256RoundConstants ! t = of_nat (scaled_cube_roots ! t)"
    unfolding scaled_cube_roots_bits(1) [symmetric] using assms scaled_cube_roots_bits(2) by (simp only: nth_map)
  also have "\<dots> = fips_K t"
    using list_all2_nthD [OF cube_roots_exact, of t] assms first_primes_count unfolding fips_K_def
    by (intro cube_root_bits [symmetric]) simp_all
  finally show ?thesis .
qed

lemma initial_hash: "kSha256InitialHash = fips_H0"
proof (rule nth_equalityI)
  show "length kSha256InitialHash = length fips_H0" by (simp add: kSha256InitialHash_def fips_H0_def first_primes_count)
next
  fix i assume "i < length kSha256InitialHash"
  then have i: "i < 8" by (simp add: kSha256InitialHash_def)
  have "kSha256InitialHash ! i = of_nat (scaled_square_roots ! i)"
    unfolding scaled_square_roots_bits(1) [symmetric] using i scaled_square_roots_bits(2) by (simp only: nth_map)
  also have "\<dots> = fractional_bits (sqrt (real (take 8 first_primes ! i)))"
    using list_all2_nthD [OF square_roots_exact, of i] i first_primes_count
    by (intro square_root_bits [symmetric]) simp_all
  also have "\<dots> = fips_H0 ! i" using i first_primes_count by (simp add: fips_H0_def)
  finally show "kSha256InitialHash ! i = fips_H0 ! i" .
qed

section \<open>The routine of the engine\<close>

lemma rotr_word:
  assumes "0 < n" and "n < 32"
  shows "sha256_rotr32 x n = word_rotr n x"
  unfolding sha256_rotr32_def
proof (rule bit_word_eqI)
  fix i assume "i < LENGTH(32)"
  then have i: "i < 32" by simp
  show "bit (drop_bit n x OR push_bit (32 - n) x) i = bit (word_rotr n x) i"
  proof (cases "i + n < 32")
    case True
    with i show ?thesis by (auto simp: bit_simps add.commute)
  next
    case False
    then have "\<not> bit x (n + i)" "i - (32 - n) = (i + n) mod 32" using i assms(2) bit_imp_le_length [of x "n + i"] by (auto simp: mod_if)
    with False i assms show ?thesis by (auto simp: bit_simps)
  qed
qed

lemma SHR_word: "SHR n x = drop_bit n x"
proof -
  have "unat (drop_bit n x) = unat x div 2 ^ n" by (simp only: unat_drop_bit_eq drop_bit_nat_def)
  then have "SHR n x = of_nat (unat (drop_bit n x))" by (simp only: SHR_def)
  then show ?thesis by simp
qed

lemmas sigma_words = Sigma0_def Sigma1_def sigma0_def sigma1_def Ch_def Maj_def SHR_word rotr_word

subsection \<open>Words and bytes\<close>

lemma append_byte: "push_bit 8 x OR ucast (b :: u8) = 256 * x + of_nat (unat b)" for x :: u32
proof -
  have "push_bit 8 x + ucast b = push_bit 8 x OR ucast b"
    by (rule disjunctive_add) (auto simp: bit_simps dest: bit_imp_le_length)
  then show ?thesis by (simp add: push_bit_eq_mult mult.commute)
qed

lemma four_first: "4 \<le> length xs \<Longrightarrow> \<exists>a b c d rest. xs = a # b # c # d # rest"
  by (auto simp: numeral_eq_Suc Suc_le_length_iff)

lemma upto_four: "[0..<4] = [0, 1, 2, 3 :: nat]" and upto_eight: "[0..<8] = [0, 1, 2, 3, 4, 5, 6, 7 :: nat]"
  by code_simp+

lemma load_word:
  assumes "4 * t + 4 \<le> length block"
  shows "sha256_load_be32 (drop (t * 4) block) = block_word block t"
proof -
  have "4 \<le> length (drop (4 * t) block)" using assms by simp
  from four_first [OF this] obtain a b c d rest where p: "drop (4 * t) block = a # b # c # d # rest" by blast
  have "sha256_load_be32 (a # b # c # d # rest) =
      push_bit 8 (push_bit 8 (push_bit 8 (ucast a) OR ucast b) OR ucast c) OR ucast d"
    by (simp add: sha256_load_be32_def push_bit_or or.assoc)
  then show ?thesis using p by (simp add: append_byte block_word_def mult.commute)
qed

lemma byte_of_nat: "(of_nat (n mod 256) :: u8) = of_nat n"
  by (simp add: word_unat_eq_iff unat_of_nat take_bit_eq_mod)

lemma byte_at: "k + 8 \<le> LENGTH('a) \<Longrightarrow> ucast (drop_bit k (of_nat n :: 'a::len word)) = (of_nat (n div 2 ^ k) :: u8)"
  by (rule bit_word_eqI) (auto simp: bit_simps simp flip: drop_bit_eq_div)

lemma store_word: "sha256_store_be32 v = big_endian 4 (unat v)"
  using byte_at [of 24 "unat v", where 'a = 32] byte_at [of 16 "unat v", where 'a = 32] byte_at [of 8 "unat v", where 'a = 32]
    byte_at [of 0 "unat v", where 'a = 32]
  by (simp add: sha256_store_be32_def big_endian_def byte_of_nat upto_four)

lemma length_bytes: "be64 (of_nat n) = big_endian 8 n"
proof -
  have p: "(2 :: nat) ^ (k * 8) = 256 ^ k" for k by (simp add: power_mult mult.commute [of k])
  have "be64 (of_nat n) = map (\<lambda>i. ucast (drop_bit ((7 - i) * 8) (of_nat n :: u64))) [0..<8]"
    by (simp add: be64_def upto_eight)
  also have "\<dots> = big_endian 8 n" by (auto simp: big_endian_def byte_at byte_of_nat p)
  finally show ?thesis .
qed

lemma zeros_count:
  "64 dvd n + 1 + (119 - n mod 64) mod 64 + 8" "64 dvd n + 1 + k + 8 \<Longrightarrow> (119 - n mod 64) mod 64 \<le> k" for n k :: nat
proof -
  define q r where "q = n div 64" and "r = n mod 64"
  have n: "n = 64 * q + r" "r < 64" by (simp_all add: q_def r_def)
  have z: "(119 - r) mod 64 = (if r \<le> 55 then 55 - r else 119 - r)" using n(2) by (auto simp: mod_if)
  have "n + 1 + (119 - r) mod 64 + 8 = 64 * (q + (if r \<le> 55 then 1 else 2))" using n unfolding z by auto
  then show "64 dvd n + 1 + (119 - n mod 64) mod 64 + 8" unfolding r_def by (metis dvd_triv_left)
  assume "64 dvd n + 1 + k + 8"
  then obtain j where "n + 1 + k + 8 = 64 * j" by (rule dvdE)
  then have j: "r + 9 + k + 64 * q = 64 * j" using n(1) by simp
  have "(if r \<le> 55 then 55 - r else 119 - r) \<le> k"
  proof (cases "r \<le> 55")
    case True
    have "q < j" using j by linarith
    then have "64 * q + 64 \<le> 64 * j" by linarith
    with j True show ?thesis by simp
  next
    case False
    then have "Suc q < j" using j by linarith
    then have "64 * q + 128 \<le> 64 * j" by linarith
    with j False show ?thesis by simp
  qed
  then show "(119 - n mod 64) mod 64 \<le> k" unfolding r_def [symmetric] z .
qed

lemma zeros_needed: "(LEAST k. 64 dvd n + 1 + k + 8) = (119 - n mod 64) mod 64" for n :: nat
  by (rule Least_equality) (rule zeros_count, erule zeros_count)

lemma padding: "sha256_pad m = fips_pad m"
  unfolding sha256_pad_def fips_pad_def zeros_needed length_bytes by (rule refl)

subsection \<open>Schedule, rounds and blocks\<close>

lemma schedule_prefix:
  assumes "16 \<le> n" and "n \<le> 64" and "length block = 64"
  shows "length (fold schedule_step [16..<n] (map (\<lambda>i. sha256_load_be32 (drop (i * 4) block)) [0..<16] @ replicate 48 0)) = 64 \<and>
    (\<forall>t<n. fold schedule_step [16..<n] (map (\<lambda>i. sha256_load_be32 (drop (i * 4) block)) [0..<16] @ replicate 48 0) ! t
      = fips_W block t)"
  using assms(1, 2)
proof (induction n rule: nat_induct_at_least)
  case base
  show ?case using assms(3) by (auto simp: nth_append load_word fips_W.simps)
next
  case (Suc n)
  define w where "w = fold schedule_step [16..<n] (map (\<lambda>i. sha256_load_be32 (drop (i * 4) block)) [0..<16] @ replicate 48 0)"
  have w: "length w = 64" "\<And>t. t < n \<Longrightarrow> w ! t = fips_W block t" using Suc by (simp_all add: w_def)
  have "schedule_step n w ! n = fips_W block n"
    using w Suc.hyps Suc.prems fips_W.simps [of block n] by (simp add: schedule_step_def Let_def sigma_words ac_simps)
  moreover have "schedule_step n w ! t = fips_W block t" if "t < n" for t
    using w that by (simp add: schedule_step_def Let_def)
  moreover have "length (schedule_step n w) = 64" using w(1) by (simp add: schedule_step_def Let_def)
  ultimately show ?case using Suc.hyps unfolding w_def by (auto simp: less_Suc_eq)
qed

lemma schedule:
  assumes "length block = 64"
  shows "length (message_schedule block) = 64" and "t < 64 \<Longrightarrow> message_schedule block ! t = fips_W block t"
  using schedule_prefix [of 64 block] assms by (simp_all add: message_schedule_def)

definition variables :: "u32 list \<Rightarrow> u32 \<times> u32 \<times> u32 \<times> u32 \<times> u32 \<times> u32 \<times> u32 \<times> u32" where
  "variables v = (v ! 0, v ! 1, v ! 2, v ! 3, v ! 4, v ! 5, v ! 6, v ! 7)"

lemma round_eq: "sha256_round (k, w) (variables v) = variables (fips_round k w v)"
  by (simp add: variables_def fips_round_def Let_def sigma_words ac_simps)

lemma rounds_prefix:
  assumes "n \<le> 64" and "length block = 64"
  shows "fold (\<lambda>t. sha256_round (kSha256RoundConstants ! t, message_schedule block ! t)) [0..<n] (variables H)
    = variables (fips_rounds block H n)"
  using assms(1) by (induction n) (simp_all add: round_eq round_constants schedule(2) [OF assms(2)])

lemma length_fips_rounds: "length H = 8 \<Longrightarrow> length (fips_rounds block H n) = 8"
  by (induction n) (simp_all add: fips_round_def Let_def)

lemma rounds:
  assumes "length block = 64"
  shows "fold sha256_round (zip kSha256RoundConstants (message_schedule block)) (variables H) = variables (fips_rounds block H 64)"
proof -
  have k: "length kSha256RoundConstants = 64" by (simp add: kSha256RoundConstants_def)
  have "zip kSha256RoundConstants (message_schedule block) = map (\<lambda>t. (kSha256RoundConstants ! t, message_schedule block ! t)) [0..<64]"
    using k schedule(1) [OF assms] by (intro nth_equalityI) simp_all
  then show ?thesis using rounds_prefix [OF order.refl assms] by (simp add: fold_map comp_def)
qed

lemma compress:
  assumes "length block = 64" and "length H = 8"
  shows "sha256_process_block H block = fips_compress H block"
proof -
  let ?v = "fips_rounds block H 64"
  have "sha256_process_block H block = map (\<lambda>i. H ! i + ?v ! i) [0..<8]"
    using rounds [OF assms(1), of H] unfolding sha256_process_block_def variables_def [symmetric]
    by (simp add: variables_def upto_eight)
  also have "\<dots> = fips_compress H block"
    using length_fips_rounds [OF assms(2), of block 64] assms(2)
    by (intro nth_equalityI) (simp_all add: fips_compress_def add.commute)
  finally show ?thesis .
qed

lemma fips_compress_length: "length H = 8 \<Longrightarrow> length (fips_compress H block) = 8"
  by (simp add: fips_compress_def length_fips_rounds)

lemma padded_length: "64 dvd length (fips_pad m)"
  using zeros_count(1) [of "length m"] unfolding fips_pad_def zeros_needed by (simp add: big_endian_def ac_simps)

lemma blocks_eq:
  assumes "64 * n \<le> length M" and "length H = 8"
  shows "fold (\<lambda>i H. sha256_process_block H (take 64 (drop (i * 64) M))) [0..<n] H =
      fold (\<lambda>i H. fips_compress H (take 64 (drop (64 * i) M))) [0..<n] H \<and>
    length (fold (\<lambda>i H. fips_compress H (take 64 (drop (64 * i) M))) [0..<n] H) = 8"
  using assms by (induction n) (simp_all add: compress fips_compress_length mult.commute)

text \<open>C37. The engine's own SHA-256 computes the standard: for every message the one-pass routine, which hashes the full blocks
  in place and then one or two tail blocks, with its tables of constants, its schedule held in an array, its rotations by
  shifts and its loads and stores of bytes, gives the hash FIPS 180-4 defines by the roots of the first primes, the recursive
  schedule, the rounds and the padding of the whole message.\<close>

theorem sha256_raw_is_fips180: "sha256_raw m = fips_sha256 m"
proof -
  let ?M = "fips_pad m" and ?n = "length (fips_pad m) div 64"
  have n: "64 * ?n = length ?M" using padded_length by (rule dvd_mult_div_cancel)
  have i: "length fips_H0 = 8" by (simp add: fips_H0_def first_primes_count)
  have "fold (\<lambda>block H. sha256_process_block H block) (chunks64 ?M) fips_H0 =
      fold (\<lambda>i H. fips_compress H (take 64 (drop (64 * i) ?M))) [0..<?n] fips_H0"
    using fold_full_blocks [of ?n ?M sha256_process_block fips_H0] blocks_eq [OF _ i, of ?n ?M] n by simp
  then show ?thesis
    by (simp add: raw_is_padded_blocks sha256_reference_def padding initial_hash fips_sha256_def Let_def store_word [abs_def])
qed

end
