(* ===== verification/Json.thy ===== *)
theory Json
  imports Prelude "HOL-Library.Char_ord" "HOL-Library.List_Lexorder"
begin

text \<open>
  The engine's JSON value, its bounded parser and its printer (\<^verbatim>\<open>core/json_value.hpp\<close>). Tool
  arguments, peer responses, recordings and every durable log go through it.

  A JSON number is a C++ \<^verbatim>\<open>double\<close>. Its type is the parameter \<open>'n\<close> and the three things the code
  asks of the standard library about it are the fields of \<open>num_ops\<close>: whether a number is finite and
  integral, and the two conversions \<^verbatim>\<open>std::to_chars\<close> and \<^verbatim>\<open>std::from_chars\<close>. The
  properties of documents with numbers state what they use of these as the hypothesis \<open>number_ok\<close>.
\<close>

unbundle bit_operations_syntax

section \<open>Values\<close>

datatype 'n json =
    JNull
  | JBool bool
  | JNumber 'n
  | JString string
  | JArray "'n json list"
  | JObject "(string \<times> 'n json) list"

text \<open>\<^verbatim>\<open>Value::find\<close>: the first member of that name.\<close>

fun json_find :: "'n json \<Rightarrow> string \<Rightarrow> 'n json option" where
  "json_find (JObject ms) key = map_of ms key"
| "json_find v key = None"

record 'n num_ops =
  no_integral :: "'n \<Rightarrow> int option"
  no_to_chars :: "'n \<Rightarrow> string"
  no_from_chars :: "string \<Rightarrow> ('n \<times> nat) option"

text \<open>\<^verbatim>\<open>as_bounded_integer\<close>: \<open>no_integral\<close> answers the tests for finiteness and integrality at once.\<close>

definition as_bounded_integer :: "'n num_ops \<Rightarrow> 'n json \<Rightarrow> u64 \<Rightarrow> u64 option" where
  "as_bounded_integer nm v mx =
     (case v of
        JNumber d \<Rightarrow>
          (case no_integral nm d of
             None \<Rightarrow> None
           | Some i \<Rightarrow>
               if i < 0 then None
               else if 2 ^ 64 \<le> i then None
               else if mx < word_of_int i then None
               else Some (word_of_int i))
      | _ \<Rightarrow> None)"

record parse_budget =
  pb_max_depth :: u32
  pb_max_nodes :: u64

definition default_budget :: parse_budget where
  "default_budget = \<lparr>pb_max_depth = 64, pb_max_nodes = 100000\<rparr>"

section \<open>The parser\<close>

text \<open>The position of the parser is the rest of the text; a failure is its class and code.\<close>

definition fail :: "string \<Rightarrow> 'a result" where
  "fail c = Inl (Error Contract c)"

definition fail_budget :: "string \<Rightarrow> 'a result" where
  "fail_budget c = Inl (Error Resource c)"

definition is_ws :: "char \<Rightarrow> bool" where
  "is_ws c = (c = CHR '' '' \<or> c = CHR 0x09 \<or> c = CHR 0x0A \<or> c = CHR 0x0D)"

definition skip_ws :: "string \<Rightarrow> string" where
  "skip_ws s = dropWhile is_ws s"

definition at_char :: "char \<Rightarrow> string \<Rightarrow> bool" where
  "at_char c s = (s \<noteq> [] \<and> hd s = c)"

definition at_digit :: "string \<Rightarrow> bool" where
  "at_digit s = (s \<noteq> [] \<and> is_digit (hd s))"

definition consume_literal :: "string \<Rightarrow> string \<Rightarrow> string option" where
  "consume_literal lit s = (if take (length lit) s = lit then Some (drop (length lit) s) else None)"

definition parse_null :: "string \<Rightarrow> ('n json \<times> string) result" where
  "parse_null s =
     (case consume_literal ''null'' s of
        None \<Rightarrow> fail ''json.malformed_literal'' | Some r \<Rightarrow> Inr (JNull, r))"

definition parse_bool :: "string \<Rightarrow> ('n json \<times> string) result" where
  "parse_bool s =
     (if at_char CHR ''t'' s then
        (case consume_literal ''true'' s of
           None \<Rightarrow> fail ''json.malformed_literal'' | Some r \<Rightarrow> Inr (JBool True, r))
      else
        (case consume_literal ''false'' s of
           None \<Rightarrow> fail ''json.malformed_literal'' | Some r \<Rightarrow> Inr (JBool False, r)))"

text \<open>Where the scan of a number stops: sign, digits, fraction, exponent.\<close>

definition digits_end :: "string \<Rightarrow> string option" where
  "digits_end s = (if at_digit s then Some (dropWhile is_digit s) else None)"

definition fraction_end :: "string \<Rightarrow> string option" where
  "fraction_end s = (if at_char CHR ''.'' s then digits_end (tl s) else Some s)"

definition skip_sign :: "char list \<Rightarrow> string \<Rightarrow> string" where
  "skip_sign signs s = (if s \<noteq> [] \<and> hd s \<in> set signs then tl s else s)"

definition exponent_end :: "string \<Rightarrow> string option" where
  "exponent_end s =
     (if at_char CHR ''e'' s \<or> at_char CHR ''E'' s then digits_end (skip_sign ''+-'' (tl s)) else Some s)"

definition number_end :: "string \<Rightarrow> string option" where
  "number_end s =
     (case digits_end (skip_sign ''-'' s) of
        None \<Rightarrow> None
      | Some s \<Rightarrow> (case fraction_end s of None \<Rightarrow> None | Some s \<Rightarrow> exponent_end s))"

definition parse_number :: "'n num_ops \<Rightarrow> string \<Rightarrow> ('n json \<times> string) result" where
  "parse_number nm s =
     (case number_end s of
        None \<Rightarrow> fail ''json.malformed_number''
      | Some r \<Rightarrow>
          (let digits = take (length s - length r) s
           in case no_from_chars nm digits of
                None \<Rightarrow> fail ''json.malformed_number''
              | Some (n, k) \<Rightarrow>
                  if k \<noteq> length digits then fail ''json.malformed_number'' else Inr (JNumber n, r)))"

definition hex_value :: "char \<Rightarrow> u32 option" where
  "hex_value c =
     (let n = of_char c :: nat
      in if 48 \<le> n \<and> n \<le> 57 then Some (of_nat (n - 48))
         else if 97 \<le> n \<and> n \<le> 102 then Some (of_nat (n - 87))
         else if 65 \<le> n \<and> n \<le> 70 then Some (of_nat (n - 55))
         else None)"

text \<open>\<^verbatim>\<open>std::from_chars\<close> in base 16 over exactly the characters given.\<close>

fun hex_number :: "u32 \<Rightarrow> string \<Rightarrow> u32 option" where
  "hex_number acc [] = Some acc"
| "hex_number acc (c # cs) = (case hex_value c of None \<Rightarrow> None | Some d \<Rightarrow> hex_number (acc * 16 + d) cs)"

definition char_of_word :: "u32 \<Rightarrow> char" where
  "char_of_word w = char_of (unat (ucast w :: u8))"

definition append_utf8 :: "string \<Rightarrow> u32 \<Rightarrow> string" where
  "append_utf8 out cp =
     (if cp \<le> 0x7F then out @ [char_of_word cp]
      else if cp \<le> 0x7FF then
        out @ [char_of_word (0xC0 OR drop_bit 6 cp), char_of_word (0x80 OR (cp AND 0x3F))]
      else
        out @ [char_of_word (0xE0 OR drop_bit 12 cp), char_of_word (0x80 OR (drop_bit 6 cp AND 0x3F)),
               char_of_word (0x80 OR (cp AND 0x3F))])"

definition quote_char :: char where "quote_char = CHR 0x22"
definition backslash :: char where "backslash = CHR 0x5C"

definition plain :: "char \<Rightarrow> bool" where
  "plain c = (c \<noteq> quote_char \<and> c \<noteq> backslash)"

text \<open>The single-character escapes; \<^verbatim>\<open>u\<close> is handled by the loop.\<close>

definition simple_escape :: "char \<Rightarrow> char option" where
  "simple_escape e =
     (if e = quote_char then Some quote_char
      else if e = backslash then Some backslash
      else if e = CHR ''/'' then Some CHR ''/''
      else if e = CHR ''b'' then Some CHR 0x08
      else if e = CHR ''f'' then Some CHR 0x0C
      else if e = CHR ''n'' then Some CHR 0x0A
      else if e = CHR ''r'' then Some CHR 0x0D
      else if e = CHR ''t'' then Some CHR 0x09
      else None)"

text \<open>One escape, after its backslash.\<close>

definition parse_escape :: "string \<Rightarrow> string \<Rightarrow> (string \<times> string) result" where
  "parse_escape out s =
     (case s of
        [] \<Rightarrow> fail ''json.unterminated_escape''
      | e # r \<Rightarrow>
          if e = CHR ''u'' then
            (if length r < 4 then fail ''json.bad_unicode_escape''
             else case hex_number 0 (take 4 r) of
                    None \<Rightarrow> fail ''json.bad_unicode_escape''
                  | Some cp \<Rightarrow> Inr (append_utf8 out cp, drop 4 r))
          else case simple_escape e of
                 None \<Rightarrow> fail ''json.bad_escape''
               | Some c \<Rightarrow> Inr (out @ [c], r))"

lemma parse_escape_shorter: "parse_escape out s = Inr (out', r) \<Longrightarrow> length r < length s"
  by (auto simp: parse_escape_def fail_def split: list.splits if_splits option.splits)

function (sequential) string_loop :: "string \<Rightarrow> string \<Rightarrow> (string \<times> string) result" where
  "string_loop out s =
     (let run = takeWhile plain s
      in case dropWhile plain s of
           [] \<Rightarrow> fail ''json.unterminated_string''
         | c # r \<Rightarrow>
             if c = quote_char then Inr (out @ run, r)
             else case parse_escape (out @ run) r of
                    Inl e \<Rightarrow> Inl e
                  | Inr (out', r') \<Rightarrow> string_loop out' r')"
  by pat_completeness auto

lemma dropWhile_shorter: "dropWhile P s = c # r \<Longrightarrow> length r < length s"
  by (metis length_dropWhile_le length_Cons less_eq_Suc_le)

termination string_loop
proof (relation "measure (\<lambda>(out, s). length s)")
  show "wf (measure (\<lambda>(out, s). length s))" by simp
next
  fix out s run c r p out' r'
  assume "dropWhile plain s = c # r" and "parse_escape (out @ run) r = Inr p" and "(out', r') = p"
  then have "length r' < length r" and "length r < length s"
    using parse_escape_shorter [of "out @ run" r out' r'] dropWhile_shorter [of plain s c r] by auto
  then show "((out', r'), (out, s)) \<in> measure (\<lambda>(out, s). length s)" by simp
qed

declare string_loop.simps [simp del]

text \<open>The token without escapes is taken in one piece; any other goes through the loop.\<close>

definition parse_string_raw :: "string \<Rightarrow> (string \<times> string) result" where
  "parse_string_raw s =
     (if \<not> at_char quote_char s then fail ''json.expected_string''
      else
        let t = tl s
        in case dropWhile plain t of
             [] \<Rightarrow> fail ''json.unterminated_string''
           | c # r \<Rightarrow> if c = quote_char then Inr (takeWhile plain t, r) else string_loop [] t)"

definition parse_string_value :: "string \<Rightarrow> ('n json \<times> string) result" where
  "parse_string_value s =
     (case parse_string_raw s of Inl e \<Rightarrow> Inl e | Inr (str, r) \<Rightarrow> Inr (JString str, r))"

text \<open>\<^verbatim>\<open>has_duplicate_key\<close>: pairwise up to sixteen members, sorted neighbours above.\<close>

definition pairwise_duplicate :: "string list \<Rightarrow> bool" where
  "pairwise_duplicate ks = (\<exists>i\<in>set [1..<length ks]. \<exists>j\<in>set [0..<i]. ks ! i = ks ! j)"

fun adjacent_find :: "string list \<Rightarrow> bool" where
  "adjacent_find (a # b # ks) = (a = b \<or> adjacent_find (b # ks))"
| "adjacent_find ks = False"

definition has_duplicate_key :: "(string \<times> 'v) list \<Rightarrow> bool" where
  "has_duplicate_key ms =
     (if length ms < 2 then False
      else if length ms \<le> 16 then pairwise_duplicate (map fst ms)
      else adjacent_find (sort (map fst ms)))"

text \<open>
  The recursion, with fuel: \<open>None\<close> is running out of it, which \<open>parse\<close> never does. A result carries the
  rest of the text and the number of nodes visited so far. The two loops take the parser of their
  elements, \<open>parse_value\<close> at the fuel left, as an argument.
\<close>

type_synonym 'n parsed = "('n json \<times> string \<times> u64) result option"

definition leaf :: "u64 \<Rightarrow> ('n json \<times> string) result \<Rightarrow> 'n parsed" where
  "leaf nodes r = Some (case r of Inl e \<Rightarrow> Inl e | Inr (v, s) \<Rightarrow> Inr (v, s, nodes))"

primrec array_loop ::
  "(u64 \<Rightarrow> string \<Rightarrow> 'n parsed) \<Rightarrow> nat \<Rightarrow> u64 \<Rightarrow> 'n json list \<Rightarrow> string \<Rightarrow> 'n parsed" where
  "array_loop pv 0 nodes items s = None"
| "array_loop pv (Suc f) nodes items s =
     (case pv nodes (skip_ws s) of
        None \<Rightarrow> None
      | Some (Inl e) \<Rightarrow> Some (Inl e)
      | Some (Inr (v, s, nodes)) \<Rightarrow>
          (let items = items @ [v]; s = skip_ws s
           in if s = [] then Some (fail ''json.unexpected_eof'')
              else if at_char CHR '','' s then array_loop pv f nodes items (tl s)
              else if at_char CHR '']'' s then Some (Inr (JArray items, tl s, nodes))
              else Some (fail ''json.malformed_array'')))"

definition parse_array :: "(u64 \<Rightarrow> string \<Rightarrow> 'n parsed) \<Rightarrow> nat \<Rightarrow> u64 \<Rightarrow> string \<Rightarrow> 'n parsed" where
  "parse_array pv f nodes s =
     (let s = skip_ws (tl s)
      in if at_char CHR '']'' s then Some (Inr (JArray [], tl s, nodes))
         else array_loop pv f nodes [] s)"

primrec object_loop ::
  "(u64 \<Rightarrow> string \<Rightarrow> 'n parsed) \<Rightarrow> nat \<Rightarrow> u64 \<Rightarrow> (string \<times> 'n json) list \<Rightarrow> string \<Rightarrow> 'n parsed" where
  "object_loop pv 0 nodes members s = None"
| "object_loop pv (Suc f) nodes members s =
     (case parse_string_raw (skip_ws s) of
        Inl e \<Rightarrow> Some (Inl e)
      | Inr (key, s) \<Rightarrow>
          (let s = skip_ws s
           in if \<not> at_char CHR '':'' s then Some (fail ''json.malformed_object'')
              else
                case pv nodes (skip_ws (tl s)) of
                  None \<Rightarrow> None
                | Some (Inl e) \<Rightarrow> Some (Inl e)
                | Some (Inr (v, s, nodes)) \<Rightarrow>
                    (let members = members @ [(key, v)]; s = skip_ws s
                     in if s = [] then Some (fail ''json.unexpected_eof'')
                        else if at_char CHR '','' s then object_loop pv f nodes members (tl s)
                        else if at_char CHR ''}'' s then
                          (if has_duplicate_key members then Some (fail ''json.duplicate_key'')
                           else Some (Inr (JObject members, tl s, nodes)))
                        else Some (fail ''json.malformed_object''))))"

definition parse_object :: "(u64 \<Rightarrow> string \<Rightarrow> 'n parsed) \<Rightarrow> nat \<Rightarrow> u64 \<Rightarrow> string \<Rightarrow> 'n parsed" where
  "parse_object pv f nodes s =
     (let s = skip_ws (tl s)
      in if at_char CHR ''}'' s then Some (Inr (JObject [], tl s, nodes))
         else object_loop pv f nodes [] s)"

primrec parse_value :: "'n num_ops \<Rightarrow> parse_budget \<Rightarrow> nat \<Rightarrow> u32 \<Rightarrow> u64 \<Rightarrow> string \<Rightarrow> 'n parsed" where
  "parse_value nm b 0 depth nodes s = None"
| "parse_value nm b (Suc f) depth nodes s =
     (if pb_max_depth b < depth then Some (fail_budget ''json.max_depth_exceeded'')
      else
        let nodes = nodes + 1
        in if pb_max_nodes b < nodes then Some (fail_budget ''json.max_nodes_visited_exceeded'')
           else if s = [] then Some (fail ''json.unexpected_eof'')
           else if hd s = CHR ''{'' then parse_object (parse_value nm b f (depth + 1)) f nodes s
           else if hd s = CHR ''['' then parse_array (parse_value nm b f (depth + 1)) f nodes s
           else if hd s = quote_char then leaf nodes (parse_string_value s)
           else if hd s = CHR ''t'' \<or> hd s = CHR ''f'' then leaf nodes (parse_bool s)
           else if hd s = CHR ''n'' then leaf nodes (parse_null s)
           else leaf nodes (parse_number nm s))"

definition parse_fuel :: "string \<Rightarrow> nat" where
  "parse_fuel s = length s + 1"

definition parse_opt :: "'n num_ops \<Rightarrow> string \<Rightarrow> parse_budget \<Rightarrow> 'n json result option" where
  "parse_opt nm doc b =
     (let s = skip_ws doc
      in case parse_value nm b (parse_fuel s) 0 0 s of
           None \<Rightarrow> None
         | Some (Inl e) \<Rightarrow> Some (Inl e)
         | Some (Inr (v, r, nodes)) \<Rightarrow>
             Some (if skip_ws r \<noteq> [] then fail ''json.trailing_content'' else Inr v))"

section \<open>The printer\<close>

definition hex_char :: "nat \<Rightarrow> char" where
  "hex_char n = (if n < 10 then char_of (48 + n) else char_of (87 + n))"

text \<open>\<^verbatim>\<open>\\u%04x\<close> of a byte.\<close>

definition unicode_escape :: "char \<Rightarrow> string" where
  "unicode_escape c =
     [backslash, CHR ''u'', CHR ''0'', CHR ''0'', hex_char (of_char c div 16), hex_char (of_char c mod 16)]"

definition escape_char :: "char \<Rightarrow> string" where
  "escape_char c =
     (if c = quote_char then [backslash, quote_char]
      else if c = backslash then [backslash, backslash]
      else if c = CHR 0x08 then [backslash, CHR ''b'']
      else if c = CHR 0x0C then [backslash, CHR ''f'']
      else if c = CHR 0x0A then [backslash, CHR ''n'']
      else if c = CHR 0x0D then [backslash, CHR ''r'']
      else if c = CHR 0x09 then [backslash, CHR ''t'']
      else unicode_escape c)"

definition unescaped :: "char \<Rightarrow> bool" where
  "unescaped c = (0x20 \<le> (of_char c :: nat) \<and> c \<noteq> quote_char \<and> c \<noteq> backslash)"

text \<open>The loop keeps the pending run of characters that need no escape.\<close>

fun escape_loop :: "string \<Rightarrow> string \<Rightarrow> string \<Rightarrow> string" where
  "escape_loop run [] out = out @ run"
| "escape_loop run (c # cs) out =
     (if unescaped c then escape_loop (run @ [c]) cs out
      else escape_loop [] cs (out @ run @ escape_char c))"

definition dump_escaped_string :: "string \<Rightarrow> string \<Rightarrow> string" where
  "dump_escaped_string s out = escape_loop [] s (out @ [quote_char]) @ [quote_char]"

definition show_int :: "int \<Rightarrow> string" where
  "show_int i = (if i < 0 then CHR ''-'' # show_nat (nat (- i)) else show_nat (nat i))"

definition dump_number :: "'n num_ops \<Rightarrow> 'n \<Rightarrow> string" where
  "dump_number nm n =
     (case no_integral nm n of
        Some i \<Rightarrow> if \<bar>i\<bar> < 10 ^ 15 then show_int i else no_to_chars nm n
      | None \<Rightarrow> no_to_chars nm n)"

fun dump_into :: "'n num_ops \<Rightarrow> 'n json \<Rightarrow> string \<Rightarrow> string"
and dump_items :: "'n num_ops \<Rightarrow> bool \<Rightarrow> 'n json list \<Rightarrow> string \<Rightarrow> string"
and dump_members :: "'n num_ops \<Rightarrow> bool \<Rightarrow> (string \<times> 'n json) list \<Rightarrow> string \<Rightarrow> string" where
  "dump_into nm JNull out = out @ ''null''"
| "dump_into nm (JBool x) out = out @ (if x then ''true'' else ''false'')"
| "dump_into nm (JNumber n) out = out @ dump_number nm n"
| "dump_into nm (JString s) out = dump_escaped_string s out"
| "dump_into nm (JArray vs) out = dump_items nm True vs (out @ ''['') @ '']''"
| "dump_into nm (JObject ms) out = dump_members nm True ms (out @ ''{'') @ ''}''"
| "dump_items nm first [] out = out"
| "dump_items nm first (v # vs) out =
     dump_items nm False vs (dump_into nm v (if first then out else out @ '',''))"
| "dump_members nm first [] out = out"
| "dump_members nm first ((k, v) # ms) out =
     dump_members nm False ms
       (dump_into nm v (dump_escaped_string k (if first then out else out @ '','') @ '':''))"

definition dump :: "'n num_ops \<Rightarrow> 'n json \<Rightarrow> string" where
  "dump nm v = dump_into nm v []"

text \<open>\<^verbatim>\<open>parse\<close> itself; that the option is never \<open>None\<close> is \<open>parse_opt_total\<close> below.\<close>

definition parse :: "'n num_ops \<Rightarrow> string \<Rightarrow> parse_budget \<Rightarrow> 'n json result" where
  "parse nm doc b = the (parse_opt nm doc b)"

section \<open>The parser always returns\<close>

lemma length_skip_ws: "length (skip_ws s) \<le> length s"
  by (simp add: skip_ws_def length_dropWhile_le)

lemma at_digit_length: "at_digit s \<Longrightarrow> length (dropWhile is_digit s) < length s"
  by (cases s) (auto simp: at_digit_def length_dropWhile_le less_Suc_eq_le)

lemma length_tl_at: "at_char c s \<Longrightarrow> length (tl s) < length s"
  by (cases s) (auto simp: at_char_def)

lemma digits_end_shorter: "digits_end s = Some r \<Longrightarrow> length r < length s"
  by (auto simp: digits_end_def at_digit_length split: if_splits)

lemma length_skip_sign: "length (skip_sign cs s) \<le> length s"
  by (simp add: skip_sign_def)

lemma fraction_end_le: "fraction_end s = Some r \<Longrightarrow> length r \<le> length s"
  by (auto simp: fraction_end_def dest: digits_end_shorter split: if_splits)

lemma exponent_end_le: "exponent_end s = Some r \<Longrightarrow> length r \<le> length s"
  using length_skip_sign [of "''+-''" "tl s"]
  by (auto simp: exponent_end_def dest: digits_end_shorter split: if_splits)

lemma number_end_shorter: "number_end s = Some r \<Longrightarrow> length r < length s"
  using length_skip_sign [of "''-''" s]
  by (auto simp: number_end_def split: option.splits
      dest!: digits_end_shorter fraction_end_le exponent_end_le)

lemma string_loop_end: "dropWhile plain s = [] \<Longrightarrow> string_loop out s = fail ''json.unterminated_string''"
  by (subst string_loop.simps) (simp only: Let_def list.case)

lemma string_loop_quote:
  "dropWhile plain s = quote_char # r \<Longrightarrow> string_loop out s = Inr (out @ takeWhile plain s, r)"
  by (subst string_loop.simps) (simp only: Let_def list.case simp_thms if_True)

lemma string_loop_escape:
  assumes "dropWhile plain s = c # r" and "c \<noteq> quote_char"
  shows "string_loop out s =
     (case parse_escape (out @ takeWhile plain s) r of Inl e \<Rightarrow> Inl e | Inr (out', r') \<Rightarrow> string_loop out' r')"
  by (subst string_loop.simps) (simp only: Let_def list.case assms if_False)

lemma string_loop_shorter: "string_loop out s = Inr (str, r) \<Longrightarrow> length r < length s"
proof (induction out s arbitrary: str r rule: string_loop.induct)
  case (1 out s)
  show ?case
  proof (cases "dropWhile plain s")
    case Nil then show ?thesis using "1.prems" string_loop_end [of s out] by (simp add: fail_def)
  next
    case (Cons c t)
    note t = dropWhile_shorter [OF Cons]
    show ?thesis
    proof (cases "c = quote_char")
      case True then show ?thesis using "1.prems" Cons t string_loop_quote [of s t out] by simp
    next
      case False
      then obtain out' t' where e: "parse_escape (out @ takeWhile plain s) t = Inr (out', t')"
        and l: "string_loop out' t' = Inr (str, r)"
        using "1.prems" string_loop_escape [OF Cons False, of out] by (auto split: sum.splits)
      have "length r < length t'" using "1.IH" [OF refl Cons False e refl l] .
      with parse_escape_shorter [OF e] t show ?thesis by linarith
    qed
  qed
qed

lemma parse_string_raw_shorter:
  assumes "parse_string_raw s = Inr (str, r)" shows "length r < length s"
proof -
  from assms have a: "at_char quote_char s" by (auto simp: parse_string_raw_def fail_def split: if_splits)
  from assms a obtain c t where d: "dropWhile plain (tl s) = c # t"
    and r: "r = t \<or> string_loop [] (tl s) = Inr (str, r)"
    by (auto simp: parse_string_raw_def fail_def Let_def split: list.splits if_splits)
  have "length t < length (tl s)" using dropWhile_shorter [OF d] .
  with r string_loop_shorter [of "[]" "tl s" str r] length_tl_at [OF a] show ?thesis by auto
qed

lemma consume_literal_shorter: "consume_literal (c # l) s = Some r \<Longrightarrow> length r < length s"
  by (cases s) (auto simp: consume_literal_def split: if_splits)

lemmas leaf_defs = leaf_def parse_string_value_def parse_bool_def parse_null_def parse_number_def fail_def Let_def

lemma leaf_shorter:
  "parse_string_value s = Inr (v, r) \<Longrightarrow> length r < length s"
  "parse_bool s = Inr (v, r) \<Longrightarrow> length r < length s"
  "parse_null s = Inr (v, r) \<Longrightarrow> length r < length s"
  "parse_number nm s = Inr (v, r) \<Longrightarrow> length r < length s"
  by (auto simp: leaf_defs split: sum.splits option.splits if_splits
      dest: parse_string_raw_shorter consume_literal_shorter number_end_shorter)

lemma leaf_Inr: "leaf k x = Some (Inr (v, r, k')) \<longleftrightarrow> x = Inr (v, r) \<and> k' = k"
  by (auto simp: leaf_def split: sum.splits)

lemma leaf_total: "\<exists>y. leaf k x = Some y"
  by (simp add: leaf_def)

text \<open>A parser of elements that consumes something gives loops that consume something.\<close>

definition shrinks :: "(u64 \<Rightarrow> string \<Rightarrow> 'n parsed) \<Rightarrow> bool" where
  "shrinks pv \<longleftrightarrow> (\<forall>k s v r k'. pv k s = Some (Inr (v, r, k')) \<longrightarrow> length r < length s)"

lemma shrinksD: "shrinks pv \<Longrightarrow> pv k s = Some (Inr (v, r, k')) \<Longrightarrow> length r < length s"
  unfolding shrinks_def by blast

lemma length_tl_skip: "skip_ws s \<noteq> [] \<Longrightarrow> length (tl (skip_ws s)) < length s"
  using length_skip_ws [of s] by (cases "skip_ws s") auto

lemma array_loop_shorter:
  assumes "shrinks pv"
  shows "array_loop pv f k items s = Some (Inr (v, r, k')) \<Longrightarrow> length r < length s"
proof (induction f arbitrary: k items s)
  case (Suc f)
  from Suc.prems obtain w t k1 where p: "pv k (skip_ws s) = Some (Inr (w, t, k1))"
    by (auto split: option.splits sum.splits)
  have t: "length t < length s" using shrinksD [OF assms p] length_skip_ws [of s] by linarith
  from Suc.prems p have ne: "skip_ws t \<noteq> []"
    and c: "array_loop pv f k1 (items @ [w]) (tl (skip_ws t)) = Some (Inr (v, r, k')) \<or> r = tl (skip_ws t)"
    by (auto simp: fail_def Let_def split: if_splits)
  from c show ?case using Suc.IH length_tl_skip [OF ne] t by fastforce
qed simp

lemma object_loop_shorter:
  assumes "shrinks pv"
  shows "object_loop pv f k ms s = Some (Inr (v, r, k')) \<Longrightarrow> length r < length s"
proof (induction f arbitrary: k ms s)
  case (Suc f)
  from Suc.prems obtain key u where q: "parse_string_raw (skip_ws s) = Inr (key, u)"
    by (auto split: sum.splits)
  have u: "length u < length s" using parse_string_raw_shorter [OF q] length_skip_ws [of s] by linarith
  from Suc.prems q obtain w t k1 where ne1: "skip_ws u \<noteq> []"
    and p: "pv k (skip_ws (tl (skip_ws u))) = Some (Inr (w, t, k1))"
    by (auto simp: fail_def Let_def at_char_def split: option.splits sum.splits if_splits)
  have t: "length t < length s"
    using shrinksD [OF assms p] length_skip_ws [of "tl (skip_ws u)"] length_tl_skip [OF ne1] u by linarith
  from Suc.prems q p have ne: "skip_ws t \<noteq> []"
    and c: "object_loop pv f k1 (ms @ [(key, w)]) (tl (skip_ws t)) = Some (Inr (v, r, k')) \<or> r = tl (skip_ws t)"
    by (auto simp: fail_def Let_def split: if_splits)
  from c show ?case using Suc.IH length_tl_skip [OF ne] t by fastforce
qed simp

lemma parse_array_shorter:
  assumes "shrinks pv" and "parse_array pv f k s = Some (Inr (v, r, k'))" and "s \<noteq> []"
  shows "length r < length s"
  using assms length_skip_ws [of "tl s"] array_loop_shorter [OF assms(1), of f k "[]" "skip_ws (tl s)" v r k']
  by (cases s) (auto simp: parse_array_def Let_def split: if_splits)

lemma parse_object_shorter:
  assumes "shrinks pv" and "parse_object pv f k s = Some (Inr (v, r, k'))" and "s \<noteq> []"
  shows "length r < length s"
  using assms length_skip_ws [of "tl s"] object_loop_shorter [OF assms(1), of f k "[]" "skip_ws (tl s)" v r k']
  by (cases s) (auto simp: parse_object_def Let_def split: if_splits)

lemma parse_value_shrinks: "shrinks (parse_value nm b f depth)"
proof (induction f arbitrary: depth)
  case 0 then show ?case by (simp add: shrinks_def)
next
  case (Suc f)
  show ?case
    unfolding shrinks_def
  proof (intro allI impI)
    fix k s v r k' assume h: "parse_value nm b (Suc f) depth k s = Some (Inr (v, r, k'))"
    then have "s \<noteq> []" by (auto simp: fail_def fail_budget_def Let_def split: if_splits)
    with h show "length r < length s"
      using parse_array_shorter [OF Suc.IH] parse_object_shorter [OF Suc.IH] leaf_shorter
      by (auto simp: fail_budget_def Let_def leaf_Inr split: if_splits)
  qed
qed

text \<open>Enough fuel: one more than the length of the text.\<close>

lemma array_loop_total:
  assumes "shrinks pv" and "\<And>k t. length t \<le> length s \<Longrightarrow> pv k t \<noteq> None"
  shows "length s < f \<Longrightarrow> array_loop pv f k items s \<noteq> None"
  using assms(2)
proof (induction f arbitrary: k items s)
  case (Suc f)
  have "pv k (skip_ws s) \<noteq> None" using Suc.prems(2) length_skip_ws by blast
  then obtain x where x: "pv k (skip_ws s) = Some x" by auto
  show ?case
  proof (cases x)
    case (Inr p)
    obtain w t k1 where p: "p = (w, t, k1)" by (cases p)
    have t: "length t < length s"
      using shrinksD [OF assms(1), of k "skip_ws s" w t k1] x Inr p length_skip_ws [of s] by auto
    have "array_loop pv f k1 (items @ [w]) (tl (skip_ws t)) \<noteq> None" if "skip_ws t \<noteq> []"
      using Suc.IH [of "tl (skip_ws t)"] Suc.prems length_tl_skip [OF that] t by force
    with x Inr p show ?thesis by (auto simp: Let_def)
  qed (simp add: x)
qed simp

lemma object_loop_total:
  assumes "shrinks pv" and "\<And>k t. length t \<le> length s \<Longrightarrow> pv k t \<noteq> None"
  shows "length s < f \<Longrightarrow> object_loop pv f k ms s \<noteq> None"
  using assms(2)
proof (induction f arbitrary: k ms s)
  case (Suc f)
  show ?case
  proof (cases "parse_string_raw (skip_ws s)")
    case (Inr q)
    obtain key u where q: "parse_string_raw (skip_ws s) = Inr (key, u)" using Inr by (cases q) auto
    have u: "length u < length s" using parse_string_raw_shorter [OF q] length_skip_ws [of s] by linarith
    show ?thesis
    proof (cases "at_char CHR '':'' (skip_ws u)")
      case True
      then have ne1: "skip_ws u \<noteq> []" by (simp add: at_char_def)
      have m: "length (skip_ws (tl (skip_ws u))) < length s"
        using length_skip_ws [of "tl (skip_ws u)"] length_tl_skip [OF ne1] u by linarith
      then have "pv k (skip_ws (tl (skip_ws u))) \<noteq> None" using Suc.prems(2) by simp
      then obtain x where x: "pv k (skip_ws (tl (skip_ws u))) = Some x" by auto
      show ?thesis
      proof (cases x)
        case (Inr p)
        obtain w t k1 where p: "p = (w, t, k1)" by (cases p)
        have t: "length t < length s" using shrinksD [OF assms(1), of k "skip_ws (tl (skip_ws u))" w t k1] x Inr p m by simp
        have "object_loop pv f k1 (ms @ [(key, w)]) (tl (skip_ws t)) \<noteq> None" if "skip_ws t \<noteq> []"
          using Suc.IH [of "tl (skip_ws t)"] Suc.prems length_tl_skip [OF that] t by force
        with x Inr p q True show ?thesis by (auto simp: Let_def)
      qed (simp add: x q True)
    qed (simp add: q Let_def)
  qed simp
qed simp

lemma parse_value_total: "length s < f \<Longrightarrow> parse_value nm b f depth k s \<noteq> None"
proof (induction f arbitrary: depth k s)
  case (Suc f)
  note sh = parse_value_shrinks [of nm b f "depth + 1"]
  have skip: "length (skip_ws (tl s)) < f" if "s \<noteq> []"
    using Suc.prems that length_skip_ws [of "tl s"] by (cases s) auto
  have "parse_array (parse_value nm b f (depth + 1)) f k1 s \<noteq> None" if "s \<noteq> []" for k1
    using array_loop_total [OF sh, of "skip_ws (tl s)" f] skip [OF that] Suc.IH
    by (auto simp: parse_array_def Let_def)
  moreover have "parse_object (parse_value nm b f (depth + 1)) f k1 s \<noteq> None" if "s \<noteq> []" for k1
    using object_loop_total [OF sh, of "skip_ws (tl s)" f] skip [OF that] Suc.IH
    by (auto simp: parse_object_def Let_def)
  ultimately show ?case by (simp add: Let_def leaf_total)
qed simp

lemma parse_opt_total: "parse_opt nm doc b \<noteq> None"
proof -
  have "parse_value nm b (parse_fuel (skip_ws doc)) 0 0 (skip_ws doc) \<noteq> None"
    by (rule parse_value_total) (simp add: parse_fuel_def)
  then show ?thesis by (auto simp: parse_opt_def Let_def split: option.splits sum.splits)
qed

section \<open>What an accepted document is\<close>

primrec node_count :: "'n json \<Rightarrow> nat" where
  "node_count JNull = 1"
| "node_count (JBool x) = 1"
| "node_count (JNumber n) = 1"
| "node_count (JString s) = 1"
| "node_count (JArray vs) = Suc (sum_list (map node_count vs))"
| "node_count (JObject ms) = Suc (sum_list (map snd (map (map_prod id node_count) ms)))"

primrec height :: "'n json \<Rightarrow> nat" where
  "height JNull = 0"
| "height (JBool x) = 0"
| "height (JNumber n) = 0"
| "height (JString s) = 0"
| "height (JArray vs) = foldr (\<lambda>h. max (Suc h)) (map height vs) 0"
| "height (JObject ms) = foldr (\<lambda>h. max (Suc h)) (map snd (map (map_prod id height) ms)) 0"

primrec unambiguous :: "'n json \<Rightarrow> bool" where
  "unambiguous JNull = True"
| "unambiguous (JBool x) = True"
| "unambiguous (JNumber n) = True"
| "unambiguous (JString s) = True"
| "unambiguous (JArray vs) = list_all id (map unambiguous vs)"
| "unambiguous (JObject ms) =
     (distinct (map fst ms) \<and> list_all snd (map (map_prod id unambiguous) ms))"

definition within_budget :: "parse_budget \<Rightarrow> 'n json \<Rightarrow> bool" where
  "within_budget b v \<longleftrightarrow>
     height v \<le> unat (pb_max_depth b) \<and> node_count v \<le> unat (pb_max_nodes b) \<and> unambiguous v"

lemma foldr_max_Suc_le: "foldr (\<lambda>h. max (Suc h)) hs 0 \<le> m \<longleftrightarrow> (\<forall>h\<in>set hs. Suc h \<le> m)"
  by (induction hs) auto

lemma height_container_le:
  "height (JArray vs) \<le> m \<longleftrightarrow> (\<forall>v\<in>set vs. Suc (height v) \<le> m)"
  "height (JObject ms) \<le> m \<longleftrightarrow> (\<forall>v\<in>snd ` set ms. Suc (height v) \<le> m)"
  by (auto simp: foldr_max_Suc_le simp del: foldr_map)

lemma node_count_object: "node_count (JObject ms) = Suc (sum_list (map (\<lambda>p. node_count (snd p)) ms))"
  by (simp add: comp_def)

lemma unambiguous_container:
  "unambiguous (JArray vs) \<longleftrightarrow> (\<forall>v\<in>set vs. unambiguous v)"
  "unambiguous (JObject ms) \<longleftrightarrow> distinct (map fst ms) \<and> (\<forall>v\<in>snd ` set ms. unambiguous v)"
  by (auto simp: list_all_iff)

subsection \<open>Duplicate keys\<close>

lemma pairwise_duplicate_iff: "pairwise_duplicate ks \<longleftrightarrow> \<not> distinct ks"
proof
  assume "pairwise_duplicate ks"
  then obtain i j where "i < length ks" "j < i" "ks ! i = ks ! j" by (auto simp: pairwise_duplicate_def)
  then show "\<not> distinct ks" by (metis distinct_conv_nth less_trans nat_neq_iff)
next
  assume "\<not> distinct ks"
  then obtain i j where ij: "i < length ks" "j < length ks" "i \<noteq> j" "ks ! i = ks ! j"
    by (auto simp: distinct_conv_nth)
  have "\<exists>i\<in>set [1..<length ks]. \<exists>j\<in>set [0..<i]. ks ! i = ks ! j"
  proof (cases "j < i")
    case True
    then show ?thesis using ij by (intro bexI [of _ i] bexI [of _ j]) auto
  next
    case False
    then show ?thesis using ij by (intro bexI [of _ j] bexI [of _ i]) auto
  qed
  then show "pairwise_duplicate ks" by (simp add: pairwise_duplicate_def)
qed

lemma adjacent_find_sorted: "sorted ks \<Longrightarrow> adjacent_find ks \<longleftrightarrow> \<not> distinct ks"
proof (induction ks rule: adjacent_find.induct)
  case (1 a b ks)
  have "a \<in> set (b # ks) \<longleftrightarrow> a = b" using "1.prems" by auto
  with 1 show ?case by auto
qed auto

lemma has_duplicate_key_iff: "has_duplicate_key ms \<longleftrightarrow> \<not> distinct (map fst ms)"
proof -
  have "length ms < 2 \<Longrightarrow> distinct (map fst ms)"
    by (cases ms) (auto simp: less_Suc_eq)
  then show ?thesis
    by (auto simp: has_duplicate_key_def pairwise_duplicate_iff adjacent_find_sorted)
qed

subsection \<open>Accepted documents are within the budget\<close>

text \<open>What a parser of elements at one level guarantees of an element it accepts.\<close>

definition accepted :: "parse_budget \<Rightarrow> nat \<Rightarrow> u64 \<Rightarrow> 'n json \<Rightarrow> u64 \<Rightarrow> bool" where
  "accepted b d k v k' \<longleftrightarrow>
     unat k' = unat k + node_count v \<and> k' \<le> pb_max_nodes b \<and>
     d + height v \<le> unat (pb_max_depth b) \<and> unambiguous v"

definition guarded :: "parse_budget \<Rightarrow> nat \<Rightarrow> (u64 \<Rightarrow> string \<Rightarrow> 'n parsed) \<Rightarrow> bool" where
  "guarded b d pv \<longleftrightarrow>
     (\<forall>k s v r k'. k \<le> pb_max_nodes b \<longrightarrow> pv k s = Some (Inr (v, r, k')) \<longrightarrow> accepted b d k v k')"

lemma guardedD: "guarded b d pv \<Longrightarrow> k \<le> pb_max_nodes b \<Longrightarrow> pv k s = Some (Inr (v, r, k')) \<Longrightarrow> accepted b d k v k'"
  unfolding guarded_def by blast

lemma array_loop_accepts:
  assumes "guarded b d pv"
  shows "array_loop pv f k items s = Some (Inr (v, r, k')) \<Longrightarrow> k \<le> pb_max_nodes b \<Longrightarrow>
    \<exists>ws. v = JArray (items @ ws) \<and> unat k' = unat k + sum_list (map node_count ws) \<and> k' \<le> pb_max_nodes b
      \<and> (\<forall>w\<in>set ws. d + height w \<le> unat (pb_max_depth b) \<and> unambiguous w)"
proof (induction f arbitrary: k items s)
  case (Suc f)
  from Suc.prems(1) obtain w t k1 where p: "pv k (skip_ws s) = Some (Inr (w, t, k1))"
    by (auto split: option.splits sum.splits)
  note a = guardedD [OF assms Suc.prems(2) p, unfolded accepted_def]
  from Suc.prems(1) p consider
      "array_loop pv f k1 (items @ [w]) (tl (skip_ws t)) = Some (Inr (v, r, k'))"
    | "v = JArray (items @ [w])" "k' = k1"
    by (auto simp: fail_def Let_def split: if_splits)
  then show ?case
  proof cases
    case 1
    from Suc.IH [OF 1] a obtain ws where "v = JArray ((items @ [w]) @ ws)"
      "unat k' = unat k1 + sum_list (map node_count ws)" "k' \<le> pb_max_nodes b"
      "\<forall>x\<in>set ws. d + height x \<le> unat (pb_max_depth b) \<and> unambiguous x" by auto
    with a show ?thesis by (intro exI [of _ "w # ws"]) auto
  next
    case 2
    with a show ?thesis by (intro exI [of _ "[w]"]) auto
  qed
qed simp

lemma object_loop_accepts:
  assumes "guarded b d pv"
  shows "object_loop pv f k ms s = Some (Inr (v, r, k')) \<Longrightarrow> k \<le> pb_max_nodes b \<Longrightarrow>
    \<exists>ws. v = JObject (ms @ ws) \<and> distinct (map fst (ms @ ws))
      \<and> unat k' = unat k + sum_list (map (\<lambda>p. node_count (snd p)) ws) \<and> k' \<le> pb_max_nodes b
      \<and> (\<forall>w\<in>snd ` set ws. d + height w \<le> unat (pb_max_depth b) \<and> unambiguous w)"
proof (induction f arbitrary: k ms s)
  case (Suc f)
  from Suc.prems(1) obtain key u where q: "parse_string_raw (skip_ws s) = Inr (key, u)"
    by (auto split: sum.splits)
  from Suc.prems(1) q obtain w t k1 where
      p: "pv k (skip_ws (tl (skip_ws u))) = Some (Inr (w, t, k1))"
    by (auto simp: fail_def Let_def split: option.splits sum.splits if_splits)
  note a = guardedD [OF assms Suc.prems(2) p, unfolded accepted_def]
  from Suc.prems(1) p q consider
      "object_loop pv f k1 (ms @ [(key, w)]) (tl (skip_ws t)) = Some (Inr (v, r, k'))"
    | "v = JObject (ms @ [(key, w)])" "k' = k1" "distinct (map fst (ms @ [(key, w)]))"
    by (auto simp: fail_def Let_def has_duplicate_key_iff split: if_splits)
  then show ?case
  proof cases
    case 1
    from Suc.IH [OF 1] a obtain ws where "v = JObject ((ms @ [(key, w)]) @ ws)"
      "distinct (map fst ((ms @ [(key, w)]) @ ws))"
      "unat k' = unat k1 + sum_list (map (\<lambda>p. node_count (snd p)) ws)" "k' \<le> pb_max_nodes b"
      "\<forall>x\<in>snd ` set ws. d + height x \<le> unat (pb_max_depth b) \<and> unambiguous x" by blast
    with a show ?thesis by (intro exI [of _ "(key, w) # ws"]) auto
  next
    case 2
    with a show ?thesis by (intro exI [of _ "[(key, w)]"]) auto
  qed
qed simp

lemma leaf_accepts:
  "parse_string_value s = Inr (v, r) \<Longrightarrow> node_count v = 1 \<and> height v = 0 \<and> unambiguous v"
  "parse_bool s = Inr (v, r) \<Longrightarrow> node_count v = 1 \<and> height v = 0 \<and> unambiguous v"
  "parse_null s = Inr (v, r) \<Longrightarrow> node_count v = 1 \<and> height v = 0 \<and> unambiguous v"
  "parse_number nm s = Inr (v, r) \<Longrightarrow> node_count v = 1 \<and> height v = 0 \<and> unambiguous v"
  by (auto simp: leaf_defs split: sum.splits option.splits if_splits)

text \<open>A budget of \<open>2 ^ 64 - 1\<close> nodes or \<open>2 ^ 32 - 1\<close> levels would let a counter wrap.\<close>

definition proper_budget :: "parse_budget \<Rightarrow> bool" where
  "proper_budget b \<longleftrightarrow> pb_max_depth b \<noteq> - 1 \<and> pb_max_nodes b \<noteq> - 1"

lemma unat_succ_le: "x \<le> y \<Longrightarrow> y \<noteq> - 1 \<Longrightarrow> unat (x + 1) = Suc (unat x)" for x y :: "'a::len word"
  by (metis order_le_less less_imp_not_max unat_inc)

lemma parse_array_accepts:
  assumes "guarded b (Suc d) pv" and "parse_array pv f k s = Some (Inr (v, r, k'))"
    and "k \<le> pb_max_nodes b" and "d \<le> unat (pb_max_depth b)"
  shows "Suc (unat k') = unat k + node_count v" "k' \<le> pb_max_nodes b"
    "d + height v \<le> unat (pb_max_depth b)" "unambiguous v"
proof -
  obtain ws where v: "v = JArray ws" and k: "unat k' = unat k + sum_list (map node_count ws)"
    and m: "k' \<le> pb_max_nodes b"
    and w: "\<forall>w\<in>set ws. Suc d + height w \<le> unat (pb_max_depth b) \<and> unambiguous w"
    using assms array_loop_accepts [OF assms(1), of f k "[]" "skip_ws (tl s)" v r k']
    by (auto simp: parse_array_def Let_def split: if_splits)
  have "height v \<le> unat (pb_max_depth b) - d"
    unfolding v height_container_le using w assms(4) by fastforce
  then show "d + height v \<le> unat (pb_max_depth b)" using assms(4) by linarith
  show "unambiguous v" using w by (simp add: v unambiguous_container del: unambiguous.simps)
  show "Suc (unat k') = unat k + node_count v" "k' \<le> pb_max_nodes b" using k m by (simp_all add: v)
qed

lemma parse_object_accepts:
  assumes "guarded b (Suc d) pv" and "parse_object pv f k s = Some (Inr (v, r, k'))"
    and "k \<le> pb_max_nodes b" and "d \<le> unat (pb_max_depth b)"
  shows "Suc (unat k') = unat k + node_count v" "k' \<le> pb_max_nodes b"
    "d + height v \<le> unat (pb_max_depth b)" "unambiguous v"
proof -
  obtain ws where v: "v = JObject ws" and u: "distinct (map fst ws)"
    and k: "unat k' = unat k + sum_list (map (\<lambda>p. node_count (snd p)) ws)" and m: "k' \<le> pb_max_nodes b"
    and w: "\<forall>w\<in>snd ` set ws. Suc d + height w \<le> unat (pb_max_depth b) \<and> unambiguous w"
    using assms object_loop_accepts [OF assms(1), of f k "[]" "skip_ws (tl s)" v r k']
    by (auto simp: parse_object_def Let_def split: if_splits)
  have "height v \<le> unat (pb_max_depth b) - d"
    unfolding v height_container_le using w assms(4) by fastforce
  then show "d + height v \<le> unat (pb_max_depth b)" using assms(4) by linarith
  show "unambiguous v" using u w by (simp add: v unambiguous_container del: unambiguous.simps)
  show "Suc (unat k') = unat k + node_count v" using k by (simp add: v node_count_object del: node_count.simps)
  show "k' \<le> pb_max_nodes b" by (rule m)
qed

lemma parse_value_guarded:
  assumes "proper_budget b"
  shows "guarded b (unat depth) (parse_value nm b f depth)"
proof (induction f arbitrary: depth)
  case 0 then show ?case by (simp add: guarded_def)
next
  case (Suc f)
  show ?case
    unfolding guarded_def
  proof (intro allI impI)
    fix k s v r k'
    assume k: "k \<le> pb_max_nodes b" and h: "parse_value nm b (Suc f) depth k s = Some (Inr (v, r, k'))"
    then have d: "depth \<le> pb_max_depth b" and m: "k + 1 \<le> pb_max_nodes b"
      by (auto simp: fail_budget_def Let_def not_less split: if_splits)
    have uk: "unat (k + 1) = Suc (unat k)" and ud: "unat (depth + 1) = Suc (unat depth)"
      using assms k d unat_succ_le by (auto simp: proper_budget_def)
    have du: "unat depth \<le> unat (pb_max_depth b)" using d by (simp add: word_le_nat_alt)
    note g = Suc.IH [of "depth + 1", unfolded ud]
    from h consider (array) "parse_array (parse_value nm b f (depth + 1)) f (k + 1) s = Some (Inr (v, r, k'))"
      | (object) "parse_object (parse_value nm b f (depth + 1)) f (k + 1) s = Some (Inr (v, r, k'))"
      | (leaf) "k' = k + 1" "node_count v = 1" "height v = 0" "unambiguous v"
      by (auto simp: fail_def fail_budget_def Let_def leaf_Inr dest: leaf_accepts split: if_splits)
    then show "accepted b (unat depth) k v k'"
    proof cases
      case array
      show ?thesis using parse_array_accepts [OF g array m du] uk by (simp add: accepted_def)
    next
      case object
      show ?thesis using parse_object_accepts [OF g object m du] uk by (simp add: accepted_def)
    next
      case leaf then show ?thesis using uk m du by (simp add: accepted_def)
    qed
  qed
qed

lemma parse_within_budget:
  assumes "proper_budget b" and "parse nm doc b = Inr v"
  shows "within_budget b v"
proof -
  let ?s = "skip_ws doc"
  obtain r k' where p: "parse_value nm b (parse_fuel ?s) 0 0 ?s = Some (Inr (v, r, k'))"
    using assms(2) parse_opt_total [of nm doc b]
    by (auto simp: parse_def parse_opt_def Let_def fail_def split: option.splits sum.splits if_splits)
  have "accepted b (unat (0::u32)) 0 v k'"
    using guardedD [OF parse_value_guarded [OF assms(1)] _ p] by simp
  then show ?thesis by (auto simp: accepted_def within_budget_def word_le_nat_alt)
qed

section \<open>Printing and parsing\<close>

subsection \<open>Strings\<close>

definition escaped :: "char \<Rightarrow> string" where
  "escaped c = (if unescaped c then [c] else escape_char c)"

definition quoted :: "string \<Rightarrow> string" where
  "quoted s = quote_char # concat (map escaped s) @ [quote_char]"

text \<open>The printer that copies runs is the printer that goes character by character.\<close>

lemma escape_loop_escaped: "escape_loop run s out = out @ run @ concat (map escaped s)"
  by (induction run s out rule: escape_loop.induct) (auto simp: escaped_def)

lemma dump_escaped_string_quoted: "dump_escaped_string s out = out @ quoted s"
  by (simp add: dump_escaped_string_def quoted_def escape_loop_escaped)

lemma plain_special [simp]: "\<not> plain quote_char" "\<not> plain backslash"
  by (simp_all add: plain_def)

lemma special_distinct [simp]: "quote_char \<noteq> backslash" "backslash \<noteq> quote_char"
  by (simp_all add: quote_char_def backslash_def)

lemma string_loop_plain:
  assumes "plain c"
  shows "string_loop out (c # t) = string_loop (out @ [c]) t"
proof (cases "dropWhile plain t")
  case Nil
  then have "dropWhile plain (c # t) = []" using assms by simp
  with Nil show ?thesis by (simp only: string_loop_end)
next
  case (Cons d r)
  have c: "dropWhile plain (c # t) = d # r" using assms Cons by simp
  show ?thesis
  proof (cases "d = quote_char")
    case True
    then show ?thesis using assms Cons c string_loop_quote [of "c # t" r out] string_loop_quote [of t r "out @ [c]"]
      by simp
  next
    case False
    then show ?thesis using assms string_loop_escape [OF c False, of out] string_loop_escape [OF Cons False, of "out @ [c]"]
      by simp
  qed
qed

lemma string_loop_backslash:
  "string_loop out (backslash # t) =
     (case parse_escape out t of Inl e \<Rightarrow> Inl e | Inr (out', r') \<Rightarrow> string_loop out' r')"
  using string_loop_escape [of "backslash # t" backslash t out] by simp

text \<open>The control characters that the printer writes as \<^verbatim>\<open>\\u00xx\<close>.\<close>

lemma hex_value_hex_char: "m < 16 \<Longrightarrow> hex_value (hex_char m) = Some (of_nat m)"
  by (simp add: hex_value_def hex_char_def Let_def)

lemma control_word:
  assumes "n < 32"
  shows "char_of_word (of_nat n) = char_of n" "(of_nat n :: u32) \<le> 0x7F"
  using assms
  by (simp_all add: char_of_word_def word_le_nat_alt unsigned_ucast_eq unsigned_of_nat take_bit_nat_eq_self)

lemma hex_number_byte:
  assumes "n < 256"
  shows "hex_number 0 [CHR ''0'', CHR ''0'', hex_char (n div 16), hex_char (n mod 16)] = Some (of_nat n)"
proof -
  have "(of_nat (n div 16) * 16 + of_nat (n mod 16) :: u32) = of_nat n"
    by (metis div_mult_mod_eq of_nat_add of_nat_mult of_nat_numeral)
  moreover have "hex_value CHR ''0'' = Some 0" by (simp add: hex_value_def)
  ultimately show ?thesis using assms by (simp add: hex_value_hex_char less_mult_imp_div_less)
qed

lemma parse_escape_unicode:
  assumes "(of_char c :: nat) < 32"
  shows "parse_escape out (tl (unicode_escape c) @ t) = Inr (out @ [c], t)"
  using assms control_word [OF assms] hex_number_byte [of "of_char c"]
  by (simp add: parse_escape_def unicode_escape_def append_utf8_def)

lemma parse_escape_escape_char:
  assumes "\<not> unescaped c"
  shows "\<exists>e. escape_char c = backslash # e \<and> parse_escape out (e @ t) = Inr (out @ [c], t)"
proof -
  show ?thesis
  proof (cases "c \<in> {quote_char, backslash, CHR 0x08, CHR 0x0C, CHR 0x0A, CHR 0x0D, CHR 0x09}")
    case True
    then show ?thesis
      by (auto simp: escape_char_def parse_escape_def simple_escape_def quote_char_def backslash_def)
  next
    case False
    then have "escape_char c = backslash # tl (unicode_escape c)" and "(of_char c :: nat) < 32"
      using assms by (auto simp: escape_char_def unicode_escape_def unescaped_def)
    with parse_escape_unicode show ?thesis by blast
  qed
qed

lemma string_loop_escaped:
  "string_loop out (concat (map escaped s) @ quote_char # t) = Inr (out @ s, t)"
proof (induction s arbitrary: out)
  case Nil
  then show ?case using string_loop_quote [of "quote_char # t" t out] by simp
next
  case (Cons c s)
  show ?case
  proof (cases "unescaped c")
    case True
    then have "plain c" by (simp add: unescaped_def plain_def)
    moreover have "escaped c = [c]" using True by (simp add: escaped_def)
    ultimately show ?thesis using Cons by (simp add: string_loop_plain)
  next
    case False
    obtain e where "escape_char c = backslash # e"
      "parse_escape out (e @ concat (map escaped s) @ quote_char # t) = Inr (out @ [c], concat (map escaped s) @ quote_char # t)"
      using parse_escape_escape_char [OF False] by blast
    moreover from this False have "escaped c = backslash # e" by (simp add: escaped_def)
    ultimately show ?thesis using Cons by (simp add: string_loop_backslash)
  qed
qed

text \<open>The fast path of the parser agrees with its loop.\<close>

lemma parse_string_raw_loop: "parse_string_raw (quote_char # t) = string_loop [] t"
proof (cases "dropWhile plain t")
  case Nil
  then show ?thesis by (simp only: parse_string_raw_def at_char_def list.sel Let_def list.case string_loop_end) simp
next
  case (Cons c r)
  then show ?thesis using string_loop_quote [of t r "[]"]
    by (auto simp: parse_string_raw_def at_char_def Let_def)
qed

lemma parse_string_raw_quoted: "parse_string_raw (quoted s @ t) = Inr (s, t)"
  using string_loop_escaped [of "[]" s t] by (simp add: quoted_def parse_string_raw_loop)

subsection \<open>Numbers\<close>

definition number_ok :: "'n num_ops \<Rightarrow> 'n \<Rightarrow> bool" where
  "number_ok nm n \<longleftrightarrow>
     no_from_chars nm (dump_number nm n) = Some (n, length (dump_number nm n)) \<and>
     (case no_integral nm n of
        Some i \<Rightarrow> \<bar>i\<bar> < 10 ^ 15 \<or> number_end (no_to_chars nm n) = Some []
      | None \<Rightarrow> number_end (no_to_chars nm n) = Some [])"

text \<open>What may follow a value inside a document the printer writes.\<close>

definition stops :: "string \<Rightarrow> bool" where
  "stops t \<longleftrightarrow> t = [] \<or> hd t \<in> {CHR '','', CHR '']'', CHR ''}''}"

lemma not_digit_stop: "stops t \<Longrightarrow> \<not> at_digit t"
  by (auto simp: stops_def at_digit_def is_digit_def)

lemma dropWhile_digit_stops: "stops t \<Longrightarrow> dropWhile is_digit (s @ t) = dropWhile is_digit s @ t"
  using not_digit_stop [of t] by (induction s) (auto simp: at_digit_def dropWhile_eq_self_iff)

lemma at_char_stops: "stops t \<Longrightarrow> c \<notin> {CHR '','', CHR '']'', CHR ''}''} \<Longrightarrow> at_char c (s @ t) \<longleftrightarrow> at_char c s"
  by (cases s) (auto simp: at_char_def stops_def)

lemma at_digit_stops: "stops t \<Longrightarrow> at_digit (s @ t) \<longleftrightarrow> at_digit s"
  using not_digit_stop [of t] by (cases s) (auto simp: at_digit_def)

lemma tl_append_at: "at_char c s \<Longrightarrow> tl (s @ t) = tl s @ t"
  by (cases s) (auto simp: at_char_def)

lemma digits_end_stops: "stops t \<Longrightarrow> digits_end (s @ t) = map_option (\<lambda>r. r @ t) (digits_end s)"
  by (simp add: digits_end_def at_digit_stops dropWhile_digit_stops)

lemma fraction_end_stops: "stops t \<Longrightarrow> fraction_end (s @ t) = map_option (\<lambda>r. r @ t) (fraction_end s)"
  by (simp add: fraction_end_def at_char_stops digits_end_stops tl_append_at)

lemma skip_sign_stops:
  "stops t \<Longrightarrow> set cs \<inter> {CHR '','', CHR '']'', CHR ''}''} = {} \<Longrightarrow> skip_sign cs (s @ t) = skip_sign cs s @ t"
  by (cases s) (auto simp: skip_sign_def stops_def)

lemma exponent_end_stops: "stops t \<Longrightarrow> exponent_end (s @ t) = map_option (\<lambda>r. r @ t) (exponent_end s)"
  by (auto simp: exponent_end_def at_char_stops digits_end_stops skip_sign_stops tl_append_at)

lemma number_end_append:
  "stops t \<Longrightarrow> number_end s = Some [] \<Longrightarrow> number_end (s @ t) = Some t"
  by (auto simp: number_end_def skip_sign_stops digits_end_stops fraction_end_stops exponent_end_stops
      split: option.splits)

lemma digits_end_show_nat: "digits_end (show_nat n) = Some []"
  using show_nat_nonempty [of n] show_nat_digits [of _ n]
  by (auto simp: digits_end_def at_digit_def)

lemma number_end_show_int: "number_end (show_int i) = Some []"
proof -
  have d: "digits_end (skip_sign ''-'' (show_int i)) = Some []"
  proof (cases "i < 0")
    case False
    have "is_digit (hd (show_nat (nat i)))" by (rule show_nat_digits [OF hd_in_set [OF show_nat_nonempty]])
    then have "hd (show_nat (nat i)) \<noteq> CHR ''-''" by (auto simp: is_digit_def)
    with False show ?thesis by (simp add: show_int_def skip_sign_def digits_end_show_nat)
  qed (simp add: show_int_def skip_sign_def digits_end_show_nat)
  then show ?thesis by (simp add: number_end_def fraction_end_def exponent_end_def at_char_def)
qed

lemma number_ok_end: "number_ok nm n \<Longrightarrow> number_end (dump_number nm n) = Some []"
  by (auto simp: number_ok_def dump_number_def number_end_show_int split: option.splits)

lemma parse_number_dump:
  assumes "number_ok nm n" and "stops t"
  shows "parse_number nm (dump_number nm n @ t) = Inr (JNumber n, t)"
  using assms number_end_append [OF assms(2) number_ok_end [OF assms(1)]]
  by (simp add: parse_number_def number_ok_def)

text \<open>A number starts with a digit or a minus sign.\<close>

lemma number_end_start:
  assumes "number_end s = Some r"
  shows "s \<noteq> [] \<and> (is_digit (hd s) \<or> hd s = CHR ''-'')"
  using assms by (auto simp: number_end_def digits_end_def at_digit_def skip_sign_def split: option.splits if_splits)

subsection \<open>Documents\<close>

fun comma_join :: "string list \<Rightarrow> string" where
  "comma_join [] = []"
| "comma_join [w] = w"
| "comma_join (w # ws) = w @ CHR '','' # comma_join ws"

lemma comma_join_Cons: "comma_join (w # ws) = w @ concat (map (\<lambda>x. CHR '','' # x) ws)"
  by (induction ws arbitrary: w) auto

text \<open>The text of a value, without the accumulator.\<close>

definition member_text :: "string \<times> string \<Rightarrow> string" where
  "member_text m = quoted (fst m) @ CHR '':'' # snd m"

lemma member_text_pair [simp]: "member_text (k, w) = quoted k @ CHR '':'' # w"
  by (simp add: member_text_def)

primrec text_of :: "'n num_ops \<Rightarrow> 'n json \<Rightarrow> string" where
  "text_of nm JNull = ''null''"
| "text_of nm (JBool x) = (if x then ''true'' else ''false'')"
| "text_of nm (JNumber n) = dump_number nm n"
| "text_of nm (JString s) = quoted s"
| "text_of nm (JArray vs) = ''['' @ comma_join (map (text_of nm) vs) @ '']''"
| "text_of nm (JObject ms) = ''{'' @ comma_join (map member_text (map (map_prod id (text_of nm)) ms)) @ ''}''"

definition separated :: "bool \<Rightarrow> string list \<Rightarrow> string" where
  "separated first ws = (if first then comma_join ws else concat (map (\<lambda>x. CHR '','' # x) ws))"

lemma separated_simps:
  "separated first [] = []"
  "separated first (w # ws) = (if first then w else CHR '','' # w) @ separated False ws"
  by (simp_all add: separated_def comma_join_Cons)

lemma dump_into_text:
  "dump_into nm v out = out @ text_of nm v"
  "dump_items nm first vs out = out @ separated first (map (text_of nm) vs)"
  "dump_members nm first ms out = out @ separated first (map member_text (map (map_prod id (text_of nm)) ms))"
proof (induction nm v out and nm first vs out and nm first ms out
    rule: dump_into_dump_items_dump_members.induct)
qed (simp_all add: dump_escaped_string_quoted separated_simps, simp_all add: separated_def id_def)

lemma dump_text: "dump nm v = text_of nm v"
  by (simp add: dump_def dump_into_text)

definition entry_text :: "'n num_ops \<Rightarrow> string \<times> 'n json \<Rightarrow> string" where
  "entry_text nm m = quoted (fst m) @ CHR '':'' # text_of nm (snd m)"

lemma entry_text_pair: "entry_text nm (k, v) = quoted k @ CHR '':'' # text_of nm v"
  by (simp add: entry_text_def)

lemma text_of_object: "text_of nm (JObject ms) = ''{'' @ comma_join (map (entry_text nm) ms) @ ''}''"
proof -
  have "map member_text (map (map_prod id (text_of nm)) ms) = map (entry_text nm) ms"
    by (simp add: member_text_def entry_text_def)
  then show ?thesis by (simp only: text_of.simps)
qed

text \<open>The text of a value starts with a character that decides its kind.\<close>

definition starts_value :: "string \<Rightarrow> bool" where
  "starts_value s \<longleftrightarrow> s \<noteq> [] \<and> \<not> is_ws (hd s) \<and> hd s \<notin> {CHR '','', CHR '']'', CHR ''}''}"

lemma starts_value_append: "starts_value s \<Longrightarrow> starts_value (s @ t)"
  by (auto simp: starts_value_def)

lemma skip_ws_starts: "starts_value s \<Longrightarrow> skip_ws s = s"
  by (cases s) (auto simp: skip_ws_def starts_value_def)

lemma skip_ws_stops: "stops t \<Longrightarrow> skip_ws t = t"
  by (cases t) (auto simp: skip_ws_def stops_def is_ws_def)

lemma starts_value_number:
  assumes "number_ok nm n" shows "starts_value (dump_number nm n)"
  using number_end_start [OF number_ok_end [OF assms]] by (auto simp: starts_value_def is_ws_def is_digit_def)

lemma starts_value_text: "\<forall>n\<in>set_json v. number_ok nm n \<Longrightarrow> starts_value (text_of nm v)"
proof (cases v)
  case (JNumber n)
  then show "\<forall>n\<in>set_json v. number_ok nm n \<Longrightarrow> starts_value (text_of nm v)" by (simp add: starts_value_number)
qed (simp_all add: starts_value_def is_ws_def quoted_def quote_char_def)

text \<open>What it means that a parser of elements reads one value back at one level.\<close>

definition reads :: "parse_budget \<Rightarrow> 'n num_ops \<Rightarrow> (u64 \<Rightarrow> string \<Rightarrow> 'n parsed) \<Rightarrow> 'n json \<Rightarrow> bool" where
  "reads b nm pv v \<longleftrightarrow>
     (\<forall>k t. unat k + node_count v \<le> unat (pb_max_nodes b) \<longrightarrow> stops t \<longrightarrow>
        pv k (text_of nm v @ t) = Some (Inr (v, t, k + of_nat (node_count v))))"

lemma readsD:
  "reads b nm pv v \<Longrightarrow> unat k + node_count v \<le> unat (pb_max_nodes b) \<Longrightarrow> stops t \<Longrightarrow>
     pv k (text_of nm v @ t) = Some (Inr (v, t, k + of_nat (node_count v)))"
  unfolding reads_def by blast

lemma unat_add_of_nat:
  fixes k m :: "'a::len word"
  assumes "unat k + n \<le> unat m"
  shows "unat (k + of_nat n) = unat k + n"
proof -
  have "unat k + n < 2 ^ LENGTH('a)" using assms unsigned_less [of m] by (rule le_less_trans)
  then show ?thesis by (simp add: unat_word_ariths unsigned_of_nat take_bit_eq_mod mod_add_right_eq)
qed

lemma stops_simps [simp]: "stops (CHR '','' # t)" "stops (CHR '']'' # t)" "stops (CHR ''}'' # t)" "stops []"
  by (simp_all add: stops_def)

lemma array_loop_reads:
  assumes "\<forall>v\<in>set vs. reads b nm pv v \<and> starts_value (text_of nm v)" and "vs \<noteq> []" and "length vs \<le> f"
    and "unat k + sum_list (map node_count vs) \<le> unat (pb_max_nodes b)"
  shows "array_loop pv f k items (comma_join (map (text_of nm) vs) @ CHR '']'' # t)
    = Some (Inr (JArray (items @ vs), t, k + of_nat (sum_list (map node_count vs))))"
  using assms
proof (induction vs arbitrary: f k items)
  case (Cons v vs)
  then obtain f' where f: "f = Suc f'" by (cases f) auto
  show ?case
  proof (cases vs)
    case Nil
    have "pv k (text_of nm v @ CHR '']'' # t) = Some (Inr (v, CHR '']'' # t, k + of_nat (node_count v)))"
      using Cons.prems Nil by (intro readsD) auto
    then show ?thesis using Cons.prems Nil f
      by (simp add: skip_ws_starts starts_value_append skip_ws_stops at_char_def Let_def)
  next
    case (Cons w ws)
    let ?r = "comma_join (map (text_of nm) vs) @ CHR '']'' # t"
    have p: "pv k (text_of nm v @ CHR '','' # ?r) = Some (Inr (v, CHR '','' # ?r, k + of_nat (node_count v)))"
      using Cons.prems by (intro readsD) auto
    have u: "unat (k + of_nat (node_count v)) = unat k + node_count v"
      using Cons.prems by (intro unat_add_of_nat [of _ _ "pb_max_nodes b"]) auto
    have "array_loop pv f' (k + of_nat (node_count v)) (items @ [v]) ?r
      = Some (Inr (JArray ((items @ [v]) @ vs), t, k + of_nat (node_count v) + of_nat (sum_list (map node_count vs))))"
      using Cons.prems f u \<open>vs = w # ws\<close> by (intro Cons.IH) auto
    with p Cons.prems f \<open>vs = w # ws\<close> show ?thesis
      by (simp add: skip_ws_starts starts_value_append skip_ws_stops at_char_def Let_def add.assoc)
  qed
qed simp

lemma starts_value_quoted: "starts_value (quoted s @ t)"
  by (simp add: starts_value_def quoted_def is_ws_def quote_char_def)

lemma skip_ws_char: "\<not> is_ws c \<Longrightarrow> skip_ws (c # t) = c # t"
  by (simp add: skip_ws_def)

lemma at_char_Cons [simp]: "at_char c (d # t) \<longleftrightarrow> d = c"
  by (simp add: at_char_def)

text \<open>One member: its key, the colon, its value.\<close>

lemma object_loop_member:
  assumes "reads b nm pv v" and "starts_value (text_of nm v)" and "stops (d # t)"
    and "unat k + node_count v \<le> unat (pb_max_nodes b)"
  shows "object_loop pv (Suc f) k ms (quoted key @ CHR '':'' # text_of nm v @ d # t) =
    (if d = CHR '','' then object_loop pv f (k + of_nat (node_count v)) (ms @ [(key, v)]) t
     else if d = CHR ''}'' then
       (if has_duplicate_key (ms @ [(key, v)]) then Some (fail ''json.duplicate_key'')
        else Some (Inr (JObject (ms @ [(key, v)]), t, k + of_nat (node_count v))))
     else Some (fail ''json.malformed_object''))"
proof -
  have ws: "skip_ws (CHR '':'' # u) = CHR '':'' # u" for u by (simp add: skip_ws_char is_ws_def)
  have "pv k (text_of nm v @ d # t) = Some (Inr (v, d # t, k + of_nat (node_count v)))"
    using assms by (intro readsD)
  then show ?thesis
    using assms(2,3)
    by (simp add: skip_ws_stops skip_ws_starts starts_value_quoted starts_value_append parse_string_raw_quoted ws Let_def)
qed

lemma object_loop_reads:
  assumes "\<forall>v\<in>snd ` set ms. reads b nm pv v \<and> starts_value (text_of nm v)" and "ms \<noteq> []" and "length ms \<le> f"
    and "unat k + sum_list (map (\<lambda>m. node_count (snd m)) ms) \<le> unat (pb_max_nodes b)"
    and "distinct (map fst (acc @ ms))"
  shows "object_loop pv f k acc (comma_join (map (entry_text nm) ms) @ CHR ''}'' # t)
    = Some (Inr (JObject (acc @ ms), t, k + of_nat (sum_list (map (\<lambda>m. node_count (snd m)) ms))))"
  using assms
proof (induction ms arbitrary: f k acc)
  case (Cons m ms)
  obtain key v where m: "m = (key, v)" by (cases m)
  obtain f' where f: "f = Suc f'" using Cons.prems(3) by (cases f) auto
  have v: "reads b nm pv v" "starts_value (text_of nm v)" "unat k + node_count v \<le> unat (pb_max_nodes b)"
    using Cons.prems m by auto
  show ?case
  proof (cases ms)
    case Nil
    then show ?thesis
      using Cons.prems m f object_loop_member [OF v(1,2) _ v(3), of "CHR ''}''" t f' acc key]
      by (simp add: has_duplicate_key_iff entry_text_pair del: object_loop.simps)
  next
    case (Cons w ws)
    let ?r = "comma_join (map (entry_text nm) ms) @ CHR ''}'' # t"
    have u: "unat (k + of_nat (node_count v)) = unat k + node_count v"
      using v(3) by (rule unat_add_of_nat)
    have "object_loop pv f' (k + of_nat (node_count v)) (acc @ [(key, v)]) ?r
      = Some (Inr (JObject ((acc @ [(key, v)]) @ ms), t,
          k + of_nat (node_count v) + of_nat (sum_list (map (\<lambda>m. node_count (snd m)) ms))))"
      using Cons.prems f u m \<open>ms = w # ws\<close> by (intro Cons.IH) auto
    then show ?thesis
      using m f \<open>ms = w # ws\<close> object_loop_member [OF v(1,2) _ v(3), of "CHR '',''" ?r f' acc key]
      by (simp add: add.assoc entry_text_pair del: object_loop.simps)
  qed
qed simp

lemma node_count_pos: "0 < node_count v"
  by (cases v) simp_all

lemma length_le_nodes:
  "length vs \<le> sum_list (map node_count vs)"
  "length ms \<le> sum_list (map (\<lambda>m. node_count (snd m)) ms)"
proof -
  show "length vs \<le> sum_list (map node_count vs)"
  proof (induction vs)
    case (Cons v vs) then show ?case using node_count_pos [of v] by simp
  qed simp
  show "length ms \<le> sum_list (map (\<lambda>m. node_count (snd m)) ms)"
  proof (induction ms)
    case (Cons m ms) then show ?case using node_count_pos [of "snd m"] by simp
  qed simp
qed

lemma member_le_nodes:
  "v \<in> set vs \<Longrightarrow> node_count v \<le> sum_list (map node_count vs)"
  "v \<in> snd ` set ms \<Longrightarrow> node_count v \<le> sum_list (map (\<lambda>m. node_count (snd m)) ms)"
  by (force intro: member_le_sum_list)+

lemma parse_value_head:
  assumes "depth \<le> pb_max_depth b" and "unat k + node_count v \<le> unat (pb_max_nodes b)"
  shows "\<not> pb_max_depth b < depth" "\<not> pb_max_nodes b < k + 1" "unat (k + 1) = Suc (unat k)"
proof -
  show u: "unat (k + 1) = Suc (unat k)"
    using unat_add_of_nat [of k 1 "pb_max_nodes b"] assms(2) node_count_pos [of v] by simp
  show "\<not> pb_max_depth b < depth" using assms(1) by simp
  show "\<not> pb_max_nodes b < k + 1"
    using u assms(2) node_count_pos [of v] by (simp add: word_less_nat_alt)
qed

lemma depth_step:
  fixes depth m :: u32
  assumes "unat depth + Suc h \<le> unat m" shows "unat (depth + 1) = Suc (unat depth)"
  using unat_add_of_nat [of depth 1 m] assms by simp

lemma reads_array:
  assumes r: "\<forall>v\<in>set vs. reads b nm (parse_value nm b f (depth + 1)) v \<and> starts_value (text_of nm v)"
    and d: "depth \<le> pb_max_depth b" and f: "sum_list (map node_count vs) \<le> f"
  shows "reads b nm (parse_value nm b (Suc f) depth) (JArray vs)"
  unfolding reads_def
proof (intro allI impI)
  fix k :: u64 and t assume k: "unat k + node_count (JArray vs) \<le> unat (pb_max_nodes b)" and t: "stops t"
  note h = parse_value_head [OF d k]
  show "parse_value nm b (Suc f) depth k (text_of nm (JArray vs) @ t)
      = Some (Inr (JArray vs, t, k + of_nat (node_count (JArray vs))))"
  proof (cases "vs = []")
    case True
    then show ?thesis using h by (simp add: parse_array_def Let_def skip_ws_char is_ws_def)
  next
    case False
    let ?s = "comma_join (map (text_of nm) vs) @ CHR '']'' # t"
    have sv: "starts_value ?s" using False r by (cases vs) (auto simp: comma_join_Cons starts_value_append)
    have "array_loop (parse_value nm b f (depth + 1)) f (k + 1) [] ?s
        = Some (Inr (JArray ([] @ vs), t, k + 1 + of_nat (sum_list (map node_count vs))))"
      using r False f length_le_nodes(1) [of vs] k h(3) by (intro array_loop_reads [where b = b]) auto
    then show ?thesis
      using h sv by (simp add: parse_array_def Let_def skip_ws_starts at_char_def starts_value_def
          add.assoc del: array_loop.simps)
  qed
qed

lemma reads_object:
  assumes r: "\<forall>v\<in>snd ` set ms. reads b nm (parse_value nm b f (depth + 1)) v \<and> starts_value (text_of nm v)"
    and d: "depth \<le> pb_max_depth b" and f: "sum_list (map (\<lambda>m. node_count (snd m)) ms) \<le> f"
    and u: "distinct (map fst ms)"
  shows "reads b nm (parse_value nm b (Suc f) depth) (JObject ms)"
  unfolding reads_def
proof (intro allI impI)
  fix k :: u64 and t assume k: "unat k + node_count (JObject ms) \<le> unat (pb_max_nodes b)" and t: "stops t"
  note h = parse_value_head [OF d k]
  show "parse_value nm b (Suc f) depth k (text_of nm (JObject ms) @ t)
      = Some (Inr (JObject ms, t, k + of_nat (node_count (JObject ms))))"
  proof (cases "ms = []")
    case True
    then show ?thesis using h by (simp add: parse_object_def Let_def skip_ws_char is_ws_def)
  next
    case False
    let ?s = "comma_join (map (entry_text nm) ms) @ CHR ''}'' # t"
    have sv: "starts_value ?s"
      using False starts_value_quoted by (cases ms) (auto simp: comma_join_Cons entry_text_def)
    have "object_loop (parse_value nm b f (depth + 1)) f (k + 1) [] ?s
        = Some (Inr (JObject ([] @ ms), t, k + 1 + of_nat (sum_list (map (\<lambda>m. node_count (snd m)) ms))))"
      using r False f length_le_nodes(2) [of ms] k h(3) u
      by (intro object_loop_reads [where b = b]) (auto simp: node_count_object simp del: node_count.simps)
    then show ?thesis
      using h sv by (simp add: parse_object_def Let_def skip_ws_starts at_char_def starts_value_def
          add.assoc node_count_object text_of_object del: object_loop.simps node_count.simps text_of.simps)
  qed
qed

lemma reads_leaf:
  assumes "unat depth + height v \<le> unat (pb_max_depth b)" and "node_count v \<le> f" and "node_count v = 1"
    and "\<And>f k t. stops t \<Longrightarrow> \<not> pb_max_depth b < depth \<Longrightarrow> \<not> pb_max_nodes b < k + 1 \<Longrightarrow>
      parse_value nm b (Suc f) depth k (text_of nm v @ t) = Some (Inr (v, t, k + 1))"
  shows "reads b nm (parse_value nm b f depth) v"
proof -
  obtain f' where f: "f = Suc f'" using assms(2,3) by (cases f) auto
  have d: "depth \<le> pb_max_depth b" using assms(1) by (simp add: word_le_nat_alt)
  show ?thesis
    unfolding f reads_def using assms(3,4) parse_value_head(1,2) [OF d, of _ v] by simp
qed

lemma parse_value_reads:
  "node_count v \<le> f \<Longrightarrow> unat depth + height v \<le> unat (pb_max_depth b) \<Longrightarrow> unambiguous v \<Longrightarrow>
   \<forall>n\<in>set_json v. number_ok nm n \<Longrightarrow> reads b nm (parse_value nm b f depth) v"
proof (induction v arbitrary: f depth)
  case (JArray vs)
  obtain f' where f: "f = Suc f'" and f': "sum_list (map node_count vs) \<le> f'" using JArray.prems(1) by (cases f) auto
  have dd: "depth \<le> pb_max_depth b" using JArray.prems(2) by (simp add: word_le_nat_alt)
  have "reads b nm (parse_value nm b f' (depth + 1)) v \<and> starts_value (text_of nm v)" if v: "v \<in> set vs" for v
  proof -
    have "unat depth + Suc (height v) \<le> unat (pb_max_depth b)"
      using v JArray.prems(2) height_container_le(1) [of vs "unat (pb_max_depth b) - unat depth"] by fastforce
    then have "unat (depth + 1) + height v \<le> unat (pb_max_depth b)"
      using depth_step [of depth "height v" "pb_max_depth b"] by simp
    then show ?thesis
      using v JArray.prems(3,4) JArray.IH [OF v] f' member_le_nodes(1) [OF v] starts_value_text [of v nm]
      by (auto simp: unambiguous_container simp del: unambiguous.simps)
  qed
  then show ?case unfolding f by (intro reads_array dd f') simp
next
  case (JObject ms)
  obtain f' where f: "f = Suc f'" and f': "sum_list (map (\<lambda>m. node_count (snd m)) ms) \<le> f'"
    using JObject.prems(1) by (cases f) (auto simp: node_count_object simp del: node_count.simps)
  have dd: "depth \<le> pb_max_depth b" using JObject.prems(2) by (simp add: word_le_nat_alt)
  have "reads b nm (parse_value nm b f' (depth + 1)) v \<and> starts_value (text_of nm v)" if v: "v \<in> snd ` set ms" for v
  proof -
    from v obtain a where m: "(a, v) \<in> set ms" "v \<in> Basic_BNFs.snds (a, v)" by (auto simp: prod_set_defs)
    have "unat depth + Suc (height v) \<le> unat (pb_max_depth b)"
      using v JObject.prems(2) height_container_le(2) [of ms "unat (pb_max_depth b) - unat depth"] by fastforce
    then have "unat (depth + 1) + height v \<le> unat (pb_max_depth b)"
      using depth_step [of depth "height v" "pb_max_depth b"] by simp
    then show ?thesis
      using v m JObject.prems(3,4) JObject.IH [OF m] f' member_le_nodes(2) [OF v] starts_value_text [of v nm]
      by (auto simp: unambiguous_container simp del: unambiguous.simps)
  qed
  then show ?case
    unfolding f using JObject.prems(3) by (intro reads_object dd f') (auto simp: unambiguous_container simp del: unambiguous.simps)
next
  case (JNumber n)
  have st: "is_digit (hd (dump_number nm n)) \<or> hd (dump_number nm n) = CHR ''-''" and ne: "dump_number nm n \<noteq> []"
    using number_end_start [OF number_ok_end, of nm n] JNumber.prems(4) by auto
  show ?case
    by (rule reads_leaf [OF JNumber.prems(2,1)])
      (use JNumber.prems(4) st ne in \<open>auto simp: leaf_def parse_number_dump Let_def is_digit_def quote_char_def\<close>)
next
  case (JString x)
  show ?case
  proof (rule reads_leaf [OF JString.prems(2,1)])
    fix f' k t assume "\<not> pb_max_depth b < depth" "\<not> pb_max_nodes b < k + 1"
    moreover have "hd (quoted x @ t) = quote_char" "quoted x \<noteq> []" by (simp_all add: quoted_def)
    ultimately show "parse_value nm b (Suc f') depth k (text_of nm (JString x) @ t) = Some (Inr (JString x, t, k + 1))"
      by (simp add: leaf_def parse_string_value_def parse_string_raw_quoted Let_def, simp add: quote_char_def)
  qed simp
next
  case JNull
  show ?case
    by (rule reads_leaf [OF JNull.prems(2,1)])
      (auto simp: leaf_def parse_null_def consume_literal_def quote_char_def)
next
  case (JBool x)
  show ?case
    by (rule reads_leaf [OF JBool.prems(2,1)])
      (auto simp: leaf_def parse_bool_def consume_literal_def quote_char_def)
qed

lemma node_count_le_length: "\<forall>n\<in>set_json v. number_ok nm n \<Longrightarrow> node_count v \<le> length (text_of nm v)"
proof (induction v)
  case (JNumber n)
  then show ?case using starts_value_text [of "JNumber n" nm] by (cases "dump_number nm n") (auto simp: starts_value_def)
next
  case (JArray vs)
  then have "\<forall>v\<in>set vs. node_count v \<le> length (text_of nm v)" by auto
  then have "sum_list (map node_count vs) \<le> length (comma_join (map (text_of nm) vs))"
    by (induction vs rule: induct_list012) auto
  then show ?case by simp
next
  case (JObject ms)
  have "node_count v \<le> length (text_of nm v)" if "(a, v) \<in> set ms" for a v
    using JObject.IH [OF that, of v] JObject.prems that by (auto simp: prod_set_defs)
  then have "\<forall>m\<in>set ms. node_count (snd m) \<le> length (entry_text nm m)" by (force simp: entry_text_def)
  then have "sum_list (map (\<lambda>m. node_count (snd m)) ms) \<le> length (comma_join (map (entry_text nm) ms))"
    by (induction ms rule: induct_list012) auto
  then show ?case by (simp add: node_count_object text_of_object del: node_count.simps text_of.simps)
qed (simp_all add: quoted_def)

lemma parse_dump:
  assumes "within_budget b v" and ok: "\<forall>n\<in>set_json v. number_ok nm n"
  shows "parse nm (dump nm v) b = Inr v"
proof -
  note sv = starts_value_text [OF ok]
  have "reads b nm (parse_value nm b (parse_fuel (text_of nm v)) 0) v"
    using assms node_count_le_length [OF ok] by (intro parse_value_reads) (auto simp: within_budget_def parse_fuel_def)
  from readsD [OF this, of 0 "[]"] assms(1)
  have "parse_value nm b (parse_fuel (text_of nm v)) 0 0 (text_of nm v) = Some (Inr (v, [], of_nat (node_count v)))"
    by (simp add: within_budget_def)
  then show ?thesis
    using skip_ws_starts [OF sv] by (simp add: parse_def parse_opt_def dump_text Let_def skip_ws_def)
qed

section \<open>Properties\<close>

text \<open>Numbers for the concrete documents: integers, printed in decimal.\<close>

definition int_ops :: "int num_ops" where
  "int_ops = \<lparr>no_integral = Some, no_to_chars = show_int,
     no_from_chars = (\<lambda>s. Some (if at_char CHR ''-'' s then - int (digits_value (tl s)) else int (digits_value s), length s))\<rparr>"

definition sample_json :: "int json" where
  "sample_json = JObject [(''a'', JArray [JNumber 7, JNumber (- 2), JBool True, JString [CHR 0x0A, quote_char, CHR 0x01]]), (''b'', JNull)]"

lemma number_ok_int_ops: "\<bar>i\<bar> < 10 ^ 15 \<Longrightarrow> number_ok int_ops i"
proof -
  have "is_digit (hd (show_nat (nat i)))" by (rule show_nat_digits [OF hd_in_set [OF show_nat_nonempty]])
  then have "hd (show_nat (nat i)) \<noteq> CHR ''-''" by (auto simp: is_digit_def)
  then show "\<bar>i\<bar> < 10 ^ 15 \<Longrightarrow> number_ok int_ops i"
    by (auto simp: number_ok_def int_ops_def dump_number_def show_int_def at_char_def digits_value_show_nat show_nat_nonempty)
qed

lemma sample_json_within: "within_budget default_budget sample_json" "\<forall>n\<in>set_json sample_json. number_ok int_ops n"
  by (simp_all add: within_budget_def default_budget_def sample_json_def number_ok_int_ops)

text \<open>C32. JSON printing and parsing are inverse: a value whose nesting and node count are within the
  parse budget, whose objects name no key twice and whose numbers the standard library reads back as it
  printed them, is read back from its own dump exactly, whatever bytes its strings hold (quotes,
  backslashes, control characters and raw bytes included).\<close>

theorem json_round_trip:
  assumes "within_budget b v" and "\<forall>n\<in>set_json v. number_ok nm n"
  shows "parse nm (dump nm v) b = Inr v"
  using assms by (rule parse_dump)

theorem json_round_trip_witness:
  "parse int_ops (dump int_ops sample_json) default_budget = Inr sample_json"
  using json_round_trip [OF sample_json_within] .

text \<open>C34. The JSON parser always returns, on any input and under any budget: the recursion never needs more
  fuel than one step per character. What it accepts is bounded and unambiguous: no value nested deeper
  than \<^verbatim>\<open>max_depth\<close>, no more than \<^verbatim>\<open>max_nodes_visited\<close> nodes, no object with a repeated
  key, for every budget below the largest machine integers, where the counters would wrap.\<close>

theorem json_parse_bounded:
  "(\<exists>r. parse_opt nm doc b = Some r) \<and>
   (proper_budget b \<and> parse nm doc b = Inr v \<longrightarrow> within_budget b v)"
  using parse_opt_total [of nm doc b] parse_within_budget [of b nm doc v] by auto

theorem json_parse_bounded_witness:
  "within_budget default_budget sample_json"
  using json_parse_bounded [of int_ops "dump int_ops sample_json" default_budget sample_json]
    parse_dump [OF sample_json_within]
  by (simp add: proper_budget_def default_budget_def)

text \<open>The two checks of \<^verbatim>\<open>has_duplicate_key\<close> decide the same thing.\<close>

lemma duplicate_check_agrees:
  "2 \<le> length ks \<Longrightarrow> pairwise_duplicate ks \<longleftrightarrow> adjacent_find (sort ks)"
  by (simp add: pairwise_duplicate_iff adjacent_find_sorted)

text \<open>A surrogate pair, the JSON spelling of a character outside the basic plane, becomes two three-byte
  sequences, which is not UTF-8.\<close>

lemma surrogate_pair_splits:
  "append_utf8 (append_utf8 [] 0xD83D) 0xDE00 = map char_of [0xED, 0xA0, 0xBD, 0xED, 0xB8, 0x80 :: nat]"
  by (simp add: append_utf8_def char_of_word_def)

end
