(* ===== verification/AppendLog.thy ===== *)
theory AppendLog
  imports Prelude
begin

text \<open>
  The append-only log every durable piece of the engine rides on: the interface of
  \<^verbatim>\<open>rt/append_log_store.hpp\<close> as a locale, the laws its clients rely on, and the in-memory
  reference conformer. Theory FileLog interprets the same locale on the durable one.
\<close>

section \<open>Operations\<close>

text \<open>A log store by its operations, as the C++ concept \<^verbatim>\<open>AppendLogStore\<close> lists them. A write returns
  the sequence number of the new entry; a read takes the sequence number after which to start.\<close>

record 's log_ops =
  lo_append :: "'s \<Rightarrow> string \<Rightarrow> u8 list \<Rightarrow> u64 result \<times> 's"
  lo_read_from :: "'s \<Rightarrow> string \<Rightarrow> u64 \<Rightarrow> u8 list list result"
  lo_last_seq :: "'s \<Rightarrow> string \<Rightarrow> u64"

type_synonym memory_log = "string \<Rightarrow> u8 list list"

definition log_append :: "memory_log \<Rightarrow> string \<Rightarrow> u8 list \<Rightarrow> u64 result \<times> memory_log" where
  "log_append lg i bytes =
     (let entries = lg i @ [bytes] in (Inr (of_nat (length entries)), lg(i := entries)))"

definition log_read_from :: "memory_log \<Rightarrow> string \<Rightarrow> u64 \<Rightarrow> u8 list list result" where
  "log_read_from lg i start = Inr (drop (unat start) (lg i))"

definition log_last_seq :: "memory_log \<Rightarrow> string \<Rightarrow> u64" where
  "log_last_seq lg i = of_nat (length (lg i))"

definition memory_ops :: "memory_log log_ops" where
  "memory_ops = \<lparr>lo_append = log_append, lo_read_from = log_read_from, lo_last_seq = log_last_seq\<rparr>"

section \<open>The contract\<close>

text \<open>
  What a client may rely on, over the entries a store holds per log. A write that reports success has
  appended exactly its entry, at the next sequence number; one that reports an error has appended its
  entry or nothing (a durable store may fail after the bytes are in the file); no other log changes. A
  read that succeeds returns every entry after its start.
\<close>

locale append_log =
  fixes ops :: "'s log_ops"
    and wf :: "'s \<Rightarrow> bool"
    and entries :: "'s \<Rightarrow> string \<Rightarrow> u8 list list"
  assumes append_wf: "wf s \<Longrightarrow> lo_append ops s i b = (r, s') \<Longrightarrow> wf s'"
    and append_ok: "wf s \<Longrightarrow> lo_append ops s i b = (Inr n, s') \<Longrightarrow>
      entries s' = (entries s)(i := entries s i @ [b]) \<and> n = of_nat (Suc (length (entries s i)))"
    and append_error: "wf s \<Longrightarrow> lo_append ops s i b = (Inl e, s') \<Longrightarrow>
      entries s' = entries s \<or> entries s' = (entries s)(i := entries s i @ [b])"
    and read_ok: "wf s \<Longrightarrow> lo_read_from ops s i k = Inr xs \<Longrightarrow> xs = drop (unat k) (entries s i)"
begin

text \<open>History is never rewritten: what a log held it holds at the same place after any write.\<close>

lemma append_extends:
  assumes "wf s" and "lo_append ops s i b = (r, s')"
  shows "\<exists>tail. entries s' j = entries s j @ tail"
proof (cases r)
  case (Inl e)
  then show ?thesis using append_error [of s i b e s'] assms by (cases "j = i") auto
next
  case (Inr n)
  then show ?thesis using append_ok [of s i b n s'] assms by (cases "j = i") auto
qed

lemma append_other:
  assumes "wf s" and "lo_append ops s i b = (r, s')" and "j \<noteq> i"
  shows "entries s' j = entries s j"
  using append_ok [of s i b _ s'] append_error [of s i b _ s'] assms by (cases r) auto

end

text \<open>A store whose operations never fail.\<close>

locale reliable_log = append_log +
  assumes append_total: "wf s \<Longrightarrow> \<exists>n s'. lo_append ops s i b = (Inr n, s')"
    and read_total: "wf s \<Longrightarrow> lo_read_from ops s i k = Inr (drop (unat k) (entries s i))"

interpretation mem: reliable_log memory_ops "\<lambda>s. True" "\<lambda>s. s"
  by unfold_locales (auto simp: memory_ops_def log_append_def log_read_from_def Let_def)

end
