(* ===== verification/FileLog.thy ===== *)
theory FileLog
  imports AppendLog
begin

text \<open>
  The durable append log (\<^verbatim>\<open>rt/append_log_file_store.hpp\<close>, \<^verbatim>\<open>src/rt/append_log_file.cpp\<close>): the
  three on-disk formats, the one scanner that reads, appends and counts with, and the store's
  operations over files as byte strings.

  The operating system's part is explicit: a call carries the faults it meets (\<open>io_faults\<close>), among them
  a write that stops after some bytes, which is also what a crash in the middle of an append leaves. The
  advisory lock of the file makes each operation one step. Version 1 wrote lengths in the byte order of
  the host, here little-endian.
\<close>

unbundle bit_operations_syntax

section \<open>Checksums and framing\<close>

definition crc_step :: "u32 \<Rightarrow> u32" where
  "crc_step crc = drop_bit 1 crc XOR (0xEDB88320 AND (0 - (crc AND 1)))"

definition crc_byte :: "u32 \<Rightarrow> u8 \<Rightarrow> u32" where
  "crc_byte crc b = (crc_step ^^ 8) (crc XOR ucast b)"

definition crc32 :: "u8 list \<Rightarrow> u32" where
  "crc32 bytes = NOT (foldl crc_byte 0xFFFFFFFF bytes)"

text \<open>\<^verbatim>\<open>load_le32(bytes.data() + p)\<close>.\<close>

definition load_le32 :: "u8 list \<Rightarrow> nat \<Rightarrow> u32" where
  "load_le32 bytes p =
     ucast (bytes ! p) OR push_bit 8 (ucast (bytes ! (p + 1)))
     OR push_bit 16 (ucast (bytes ! (p + 2))) OR push_bit 24 (ucast (bytes ! (p + 3)))"

definition file_magic_v3 :: "u8 list" where
  "file_magic_v3 = map byte_of_char ''AELOGv3'' @ [0x0A]"

definition file_magic_v2 :: "u8 list" where
  "file_magic_v2 = map byte_of_char ''AELOGv2'' @ [0x0A]"

abbreviation (input) "magic_size \<equiv> 8 :: nat"
abbreviation (input) "magic_version_at \<equiv> 6 :: nat"
abbreviation (input) "near_magic_min_matches \<equiv> 2 :: nat"
abbreviation (input) "v3_header_size \<equiv> 12 :: nat"
abbreviation (input) "v2_header_size \<equiv> 8 :: nat"
abbreviation (input) "v1_header_size \<equiv> 4 :: nat"
abbreviation (input) "zero_fill_granule \<equiv> 512 :: nat"
abbreviation (input) "v2_resync_budget \<equiv> 67108864 :: nat"

datatype log_tail = Clean | Torn | Corrupt | UnknownFormat

datatype log_format = V1 | V2 | V3

record log_scan =
  ls_format :: log_format
  ls_record_count :: nat
  ls_valid_end :: nat
  ls_tail :: log_tail
  ls_records :: "u8 list list"

definition fresh_scan :: log_scan where
  "fresh_scan = \<lparr>ls_format = V3, ls_record_count = 0, ls_valid_end = 0, ls_tail = Clean, ls_records = []\<rparr>"

definition slice :: "u8 list \<Rightarrow> nat \<Rightarrow> nat \<Rightarrow> u8 list" where
  "slice bytes p n = take n (drop p bytes)"

definition v3_header_crc :: "u8 list \<Rightarrow> nat \<Rightarrow> u32" where
  "v3_header_crc bytes p = crc32 (slice bytes p 8)"

text \<open>Where the zeros at the end of the file begin, not looking before \<open>pos\<close>.\<close>

fun zeros_from :: "u8 list \<Rightarrow> nat \<Rightarrow> nat \<Rightarrow> nat" where
  "zeros_from bytes pos z = (if pos < z \<and> bytes ! (z - 1) = 0 then zeros_from bytes pos (z - 1) else z)"

declare zeros_from.simps [simp del]

definition lost_from :: "u8 list \<Rightarrow> nat \<Rightarrow> nat option" where
  "lost_from bytes pos =
     (let z = zeros_from bytes pos (length bytes)
      in if z = length bytes then None
         else if z = pos then Some pos
         else
           let aligned = (z + zero_fill_granule - 1) div zero_fill_granule * zero_fill_granule
           in if length bytes \<le> aligned then None else Some aligned)"

definition v3_bad_header_is_torn :: "u8 list \<Rightarrow> nat \<Rightarrow> bool" where
  "v3_bad_header_is_torn bytes pos =
     (case lost_from bytes pos of
        None \<Rightarrow> False
      | Some lost \<Rightarrow>
          if pos + v3_header_size \<le> lost then False
          else if pos + 4 \<le> lost then
            length bytes \<le> pos + v3_header_size + unat (load_le32 bytes pos)
          else length bytes - pos < 2 * v3_header_size)"

definition v3_header_at :: "u8 list \<Rightarrow> nat \<Rightarrow> bool" where
  "v3_header_at bytes at =
     (at + v3_header_size \<le> length bytes \<and> v3_header_crc bytes at = load_le32 bytes (at + 8))"

definition v2_record_at :: "u8 list \<Rightarrow> nat \<Rightarrow> bool" where
  "v2_record_at bytes at =
     (if length bytes < at + v2_header_size then False
      else
        let len = unat (load_le32 bytes at)
        in len \<noteq> 0 \<and> len \<le> length bytes - at - v2_header_size \<and>
           crc32 (slice bytes (at + v2_header_size) len) = load_le32 bytes (at + 4))"

function v2_hides_loop :: "u8 list \<Rightarrow> nat \<Rightarrow> nat \<Rightarrow> nat \<Rightarrow> bool" where
  "v2_hides_loop bytes work q end =
     (if q + v2_header_size \<le> end then
        let len = unat (load_le32 bytes q)
        in if len = 0 \<or> end - q - v2_header_size < len then v2_hides_loop bytes work (q + 1) end
           else
             let work = work + len
             in if v2_resync_budget < work then True
                else if crc32 (slice bytes (q + v2_header_size) len) = load_le32 bytes (q + 4) then True
                else v2_hides_loop bytes work (q + 1) end
      else False)"
  by pat_completeness auto
termination by (relation "measure (\<lambda>(bytes, work, q, end). end - q)") auto

declare v2_hides_loop.simps [simp del]

definition v2_hides_a_record :: "u8 list \<Rightarrow> nat \<Rightarrow> nat \<Rightarrow> bool" where
  "v2_hides_a_record bytes from end = v2_hides_loop bytes 0 from end"

section \<open>The scanner\<close>

text \<open>\<^verbatim>\<open>read_magic\<close>: the scan with its format or its tail set, and where records start.\<close>

definition agreeing :: "u8 list \<Rightarrow> nat" where
  "agreeing bytes =
     length (filter (\<lambda>i. i \<noteq> magic_version_at \<and> bytes ! i = file_magic_v3 ! i) [0..<min (length bytes) magic_size])"

definition read_magic :: "u8 list \<Rightarrow> log_scan \<Rightarrow> nat option \<times> log_scan" where
  "read_magic bytes s =
     (let size = length bytes;
          head = take magic_size bytes;
          prefix_v3 = (head = take (length head) file_magic_v3);
          prefix_v2 = (head = take (length head) file_magic_v2);
          zeros = list_all (\<lambda>b. b = 0) head
      in if prefix_v3 \<or> prefix_v2 then
           (if size < magic_size then (None, s\<lparr>ls_tail := Torn\<rparr>)
            else if prefix_v2 \<and> v3_header_at bytes magic_size then (None, s\<lparr>ls_tail := UnknownFormat\<rparr>)
            else (Some magic_size, s\<lparr>ls_format := (if prefix_v3 then V3 else V2), ls_valid_end := magic_size\<rparr>))
         else if zeros then
           (None, s\<lparr>ls_tail := (if list_all (\<lambda>b. b = 0) bytes \<and> size < magic_size + 2 * v3_header_size
                                then Torn else UnknownFormat)\<rparr>)
         else if near_magic_min_matches \<le> agreeing bytes \<or> v3_header_at bytes magic_size
                 \<or> v2_record_at bytes magic_size then
           (None, s\<lparr>ls_tail := UnknownFormat\<rparr>)
         else (Some 0, s\<lparr>ls_format := V1\<rparr>))"

definition header_size :: "log_format \<Rightarrow> nat" where
  "header_size fmt = (case fmt of V1 \<Rightarrow> v1_header_size | V2 \<Rightarrow> v2_header_size | V3 \<Rightarrow> v3_header_size)"

definition unverified_cut_is_torn :: "u8 list \<Rightarrow> log_format \<Rightarrow> nat \<Rightarrow> nat \<Rightarrow> nat \<Rightarrow> bool" where
  "unverified_cut_is_torn bytes fmt pos max_frame header =
     (if max_frame < length bytes - pos then False
      else fmt \<noteq> V2 \<or> \<not> v2_hides_a_record bytes (pos + header) (length bytes))"

text \<open>One turn of the loop before the payload is checked: why it stops, or the length of the frame.\<close>

definition frame_length :: "u8 list \<Rightarrow> log_format \<Rightarrow> nat \<Rightarrow> nat \<Rightarrow> log_tail + nat" where
  "frame_length bytes fmt pos max_frame =
     (let remaining = length bytes - pos; header = header_size fmt; len = unat (load_le32 bytes pos)
      in if remaining < header then Inl Torn
         else
           case fmt of
             V3 \<Rightarrow>
               if v3_header_crc bytes pos \<noteq> load_le32 bytes (pos + 8)
               then Inl (if v3_bad_header_is_torn bytes pos then Torn else Corrupt)
               else if remaining - header < len then Inl Torn
               else Inr len
           | _ \<Rightarrow>
               if remaining - header < len
               then Inl (if unverified_cut_is_torn bytes fmt pos max_frame header then Torn else Corrupt)
               else Inr len)"

definition bad_payload_tail :: "u8 list \<Rightarrow> log_format \<Rightarrow> nat \<Rightarrow> nat \<Rightarrow> nat \<Rightarrow> log_tail" where
  "bad_payload_tail bytes fmt pos max_frame len =
     (let header = header_size fmt;
          torn = (pos + header + len = length bytes \<and> lost_from bytes pos \<noteq> None);
          torn = (torn \<and> (fmt = V2 \<longrightarrow> unverified_cut_is_torn bytes fmt pos max_frame header))
      in if torn then Torn else Corrupt)"

function scan_loop :: "u8 list \<Rightarrow> nat \<Rightarrow> bool \<Rightarrow> log_scan \<Rightarrow> nat \<Rightarrow> nat \<Rightarrow> log_scan" where
  "scan_loop bytes keep_from collect s pos max_frame =
     (if length bytes \<le> pos then s
      else
        case frame_length bytes (ls_format s) pos max_frame of
          Inl t \<Rightarrow> s\<lparr>ls_tail := t\<rparr>
        | Inr len \<Rightarrow>
            (let header = header_size (ls_format s); payload = slice bytes (pos + header) len
             in if ls_format s \<noteq> V1 \<and> crc32 payload \<noteq> load_le32 bytes (pos + 4)
                then s\<lparr>ls_tail := bad_payload_tail bytes (ls_format s) pos max_frame len\<rparr>
                else
                  let n = ls_record_count s + 1; pos' = pos + header + len
                  in scan_loop bytes keep_from collect
                       (s\<lparr>ls_record_count := n,
                          ls_records := (if collect \<and> keep_from < n then ls_records s @ [payload] else ls_records s),
                          ls_valid_end := pos'\<rparr>)
                       pos' (max max_frame (header + len))))"
  by pat_completeness auto
termination
  by (relation "measure (\<lambda>(bytes, keep_from, collect, s, pos, max_frame). length bytes - pos)")
    (auto simp: header_size_def split: log_format.splits)

declare scan_loop.simps [simp del]

definition scan_log :: "u8 list \<Rightarrow> nat \<Rightarrow> bool \<Rightarrow> log_scan" where
  "scan_log bytes keep_from collect =
     (if bytes = [] then fresh_scan
      else case read_magic bytes fresh_scan of
             (None, s) \<Rightarrow> s
           | (Some first, s) \<Rightarrow> scan_loop bytes keep_from collect s first 0)"

section \<open>The store\<close>

record io_faults =
  io_open_fails :: bool
  io_read_fails :: bool
  io_truncate_fails :: bool
  io_write_stops :: "nat option"
  io_undo_fails :: bool
  io_sync_fails :: bool

definition no_faults :: io_faults where
  "no_faults = \<lparr>io_open_fails = False, io_read_fails = False, io_truncate_fails = False,
     io_write_stops = None, io_undo_fails = False, io_sync_fails = False\<rparr>"

datatype append_log_sync = OsBuffer | Disk

text \<open>The files under the store's root, how it syncs, and the faults of the calls to come.\<close>

record file_store =
  fl_files :: "string \<rightharpoonup> u8 list"
  fl_sync :: append_log_sync
  fl_faults :: "io_faults list"

definition next_faults :: "file_store \<Rightarrow> io_faults" where
  "next_faults st = (case fl_faults st of [] \<Rightarrow> no_faults | f # fs \<Rightarrow> f)"

fun has_dotdot :: "string \<Rightarrow> bool" where
  "has_dotdot (a # b # s) = (a = CHR ''.'' \<and> b = CHR ''.'' \<or> has_dotdot (b # s))"
| "has_dotdot s = False"

definition path_for :: "string \<Rightarrow> string result" where
  "path_for i =
     (if i = [] then Inl (Error Contract ''rt.append_log_store.invalid_id'')
      else if (\<exists>c\<in>set i. c = CHR ''/'' \<or> c = CHR 0x5C) \<or> has_dotdot i
      then Inl (Error Contract ''rt.append_log_store.invalid_id'')
      else Inr i)"

definition damage_error :: "log_scan \<Rightarrow> error option" where
  "damage_error s =
     (case ls_tail s of
        Corrupt \<Rightarrow> Some (Error Fatal ''rt.append_log_store.corrupt_record'')
      | UnknownFormat \<Rightarrow> Some (Error Fatal ''rt.append_log_store.unknown_format'')
      | _ \<Rightarrow> None)"

definition open_failed :: error where
  "open_failed = Error Transient ''rt.append_log_store.file_open_failed''"

definition io_failed :: error where
  "io_failed = Error Transient ''rt.append_log_store.file_write_failed''"

text \<open>The bytes one append writes after a file of the scanned shape.\<close>

definition append_frame :: "log_scan \<Rightarrow> u8 list \<Rightarrow> u8 list" where
  "append_frame scan bytes =
     (let fmt = (if ls_valid_end scan = 0 then V3 else ls_format scan);
          magic = (if ls_valid_end scan = 0 then file_magic_v3 else []);
          len = put_u32 (of_nat (length bytes));
          crc = put_u32 (crc32 bytes);
          header = (case fmt of V1 \<Rightarrow> len | V2 \<Rightarrow> len @ crc | V3 \<Rightarrow> len @ crc @ put_u32 (crc32 (len @ crc)))
      in magic @ header @ bytes)"

definition with_file :: "file_store \<Rightarrow> string \<Rightarrow> u8 list \<Rightarrow> file_store" where
  "with_file st p bytes = st\<lparr>fl_files := (fl_files st)(p \<mapsto> bytes)\<rparr>"

definition append_locked ::
  "io_faults \<Rightarrow> file_store \<Rightarrow> string \<Rightarrow> u8 list \<Rightarrow> u8 list \<Rightarrow> u64 result \<times> file_store" where
  "append_locked io st p existing bytes =
     (let scan = scan_log existing 0 False
      in case damage_error scan of
           Some e \<Rightarrow> (Inl e, with_file st p existing)
         | None \<Rightarrow>
             if io_truncate_fails io then (Inl io_failed, with_file st p existing)
             else
               let base = take (ls_valid_end scan) existing; frame = append_frame scan bytes
               in case io_write_stops io of
                    Some k \<Rightarrow>
                      (Inl io_failed, with_file st p (if io_undo_fails io then base @ take k frame else base))
                  | None \<Rightarrow>
                      (if fl_sync st = Disk \<and> io_sync_fails io then Inl io_failed
                       else Inr (of_nat (ls_record_count scan) + 1),
                       with_file st p (base @ frame)))"

definition append_blocking :: "file_store \<Rightarrow> string \<Rightarrow> u8 list \<Rightarrow> u64 result \<times> file_store" where
  "append_blocking st i bytes =
     (let io = next_faults st; st = st\<lparr>fl_faults := tl (fl_faults st)\<rparr>
      in case path_for i of
           Inl e \<Rightarrow> (Inl e, st)
         | Inr p \<Rightarrow>
             if 2 ^ 32 - 1 < length bytes
             then (Inl (Error Contract ''rt.append_log_store.record_too_large''), st)
             else if io_open_fails io then (Inl open_failed, st)
             else
               let existing = (case fl_files st p of None \<Rightarrow> [] | Some f \<Rightarrow> f)
               in if io_read_fails io then (Inl io_failed, with_file st p existing)
                  else append_locked io st p existing bytes)"

definition read_locked :: "file_store \<Rightarrow> string \<Rightarrow> u8 list result" where
  "read_locked st i =
     (case path_for i of
        Inl e \<Rightarrow> Inl e
      | Inr p \<Rightarrow>
          if io_open_fails (next_faults st) then Inl open_failed
          else case fl_files st p of
                 None \<Rightarrow> Inr []
               | Some f \<Rightarrow> if io_read_fails (next_faults st) then Inl io_failed else Inr f)"

definition read_from_blocking :: "file_store \<Rightarrow> string \<Rightarrow> u64 \<Rightarrow> u8 list list result" where
  "read_from_blocking st i from =
     (case read_locked st i of
        Inl e \<Rightarrow> Inl e
      | Inr existing \<Rightarrow>
          (let scan = scan_log existing (unat from) True
           in case damage_error scan of Some e \<Rightarrow> Inl e | None \<Rightarrow> Inr (ls_records scan)))"

definition last_seq_blocking :: "file_store \<Rightarrow> string \<Rightarrow> u64" where
  "last_seq_blocking st i =
     (case read_locked st i of
        Inl e \<Rightarrow> 0
      | Inr existing \<Rightarrow>
          (let scan = scan_log existing 0 False
           in case damage_error scan of Some e \<Rightarrow> 0 | None \<Rightarrow> of_nat (ls_record_count scan)))"

definition file_ops :: "file_store log_ops" where
  "file_ops = \<lparr>lo_append = append_blocking, lo_read_from = read_from_blocking, lo_last_seq = last_seq_blocking\<rparr>"

section \<open>Little-endian words in a file\<close>

lemma put_u32_nth:
  "put_u32 v ! 0 = ucast v" "put_u32 v ! Suc 0 = ucast (drop_bit 8 v)"
  "put_u32 v ! 2 = ucast (drop_bit 16 v)" "put_u32 v ! 3 = ucast (drop_bit 24 v)"
  by (simp_all add: put_u32_def numeral_2_eq_2 numeral_3_eq_3)

lemma bytes_to_word:
  "(ucast (ucast v :: u8) :: u32) OR push_bit 8 (ucast (ucast (drop_bit 8 v) :: u8))
     OR push_bit 16 (ucast (ucast (drop_bit 16 v) :: u8)) OR push_bit 24 (ucast (ucast (drop_bit 24 v) :: u8)) = v"
proof (rule bit_word_eqI)
  fix n assume "n < LENGTH(32)"
  then consider "n < 8" | "8 \<le> n \<and> n < 16" | "16 \<le> n \<and> n < 24" | "24 \<le> n \<and> n < 32" by fastforce
  then show "bit ((ucast (ucast v :: u8) :: u32) OR push_bit 8 (ucast (ucast (drop_bit 8 v) :: u8))
     OR push_bit 16 (ucast (ucast (drop_bit 16 v) :: u8)) OR push_bit 24 (ucast (ucast (drop_bit 24 v) :: u8))) n
     \<longleftrightarrow> bit v n"
    by cases (auto simp: bit_simps)
qed

lemma load_put [simp]: "load_le32 (xs @ put_u32 v @ ys) (length xs) = v"
  by (simp add: load_le32_def nth_append put_u32_nth bytes_to_word numeral_2_eq_2 [symmetric])

lemma load_put_at: "p = length xs \<Longrightarrow> load_le32 (xs @ put_u32 v @ ys) p = v"
  by simp

lemma byte_of_word:
  fixes a b c d :: u8
  defines "w \<equiv> (ucast a :: u32) OR push_bit 8 (ucast b) OR push_bit 16 (ucast c) OR push_bit 24 (ucast d)"
  shows "ucast w = a" "ucast (drop_bit 8 w) = b" "ucast (drop_bit 16 w) = c" "ucast (drop_bit 24 w) = d"
  unfolding w_def by (rule bit_word_eqI; auto simp: bit_simps dest: bit_imp_le_length)+

lemma slice_4: "p + 4 \<le> length bytes \<Longrightarrow> slice bytes p 4 = [bytes ! p, bytes ! (p + 1), bytes ! (p + 2), bytes ! (p + 3)]"
  unfolding slice_def by (rule nth_equalityI) (auto simp: less_Suc_eq numeral_2_eq_2 numeral_3_eq_3 eval_nat_numeral)

lemma put_load: "p + 4 \<le> length bytes \<Longrightarrow> put_u32 (load_le32 bytes p) = slice bytes p 4"
  by (simp add: slice_4 put_u32_def load_le32_def byte_of_word del: drop_bit_or)

section \<open>The current format\<close>

definition header3 :: "u8 list \<Rightarrow> u8 list" where
  "header3 b = put_u32 (of_nat (length b)) @ put_u32 (crc32 b)"

definition frame3 :: "u8 list \<Rightarrow> u8 list" where
  "frame3 b = header3 b @ put_u32 (crc32 (header3 b)) @ b"

definition enc3 :: "u8 list list \<Rightarrow> u8 list" where
  "enc3 rs = file_magic_v3 @ concat (map frame3 rs)"

definition small :: "u8 list \<Rightarrow> bool" where
  "small b \<longleftrightarrow> length b < 2 ^ 32"

lemma length_header3 [simp]: "length (header3 b) = 8"
  by (simp add: header3_def)

lemma length_frame3 [simp]: "length (frame3 b) = 12 + length b"
  by (simp add: frame3_def)

lemma length_magic [simp]: "length file_magic_v3 = 8" "length file_magic_v2 = 8"
  by (simp_all add: file_magic_v3_def file_magic_v2_def)

lemma magic_distinct [simp]: "file_magic_v3 \<noteq> file_magic_v2"
  by (simp add: file_magic_v3_def file_magic_v2_def codec_simps)

lemma slice_append: "p = length xs \<Longrightarrow> n = length ys \<Longrightarrow> slice (xs @ ys @ zs) p n = ys"
  by (simp add: slice_def)

lemma unat_len: "small b \<Longrightarrow> unat (of_nat (length b) :: u32) = length b"
  by (simp add: small_def unat_of_nat_small32)

text \<open>The three fields of a header that is in the file, and its payload.\<close>

lemma header3_fields:
  assumes "bytes = pre @ header3 b @ put_u32 (crc32 (header3 b)) @ rest"
  shows "load_le32 bytes (length pre) = of_nat (length b)"
    and "load_le32 bytes (length pre + 4) = crc32 b"
    and "load_le32 bytes (length pre + 8) = crc32 (header3 b)"
    and "v3_header_crc bytes (length pre) = crc32 (header3 b)"
proof -
  show "load_le32 bytes (length pre) = of_nat (length b)"
    using load_put [of pre "of_nat (length b)"] by (simp add: assms header3_def)
  show "load_le32 bytes (length pre + 4) = crc32 b"
    using load_put [of "pre @ put_u32 (of_nat (length b))" "crc32 b"] by (simp add: assms header3_def)
  show "load_le32 bytes (length pre + 8) = crc32 (header3 b)"
    using load_put [of "pre @ header3 b" "crc32 (header3 b)"] by (simp add: assms)
  show "v3_header_crc bytes (length pre) = crc32 (header3 b)"
    by (simp add: assms v3_header_crc_def slice_append)
qed

text \<open>Why a scan of a current log stops at a position, if it does.\<close>

definition stop3 :: "u8 list \<Rightarrow> nat \<Rightarrow> nat \<Rightarrow> log_tail option" where
  "stop3 bytes pos mf =
     (if length bytes \<le> pos then Some Clean
      else case frame_length bytes V3 pos mf of
             Inl t \<Rightarrow> Some t
           | Inr len \<Rightarrow>
               if crc32 (slice bytes (pos + 12) len) \<noteq> load_le32 bytes (pos + 4)
               then Some (bad_payload_tail bytes V3 pos mf len) else None)"

lemma frame_at:
  assumes "bytes = pre @ frame3 b @ rest" and "small b"
  shows "frame_length bytes V3 (length pre) mf = Inr (length b)"
    and "slice bytes (length pre + 12) (length b) = b"
    and "load_le32 bytes (length pre + 4) = crc32 b"
proof -
  have e: "bytes = pre @ header3 b @ put_u32 (crc32 (header3 b)) @ (b @ rest)"
    by (simp add: assms frame3_def)
  note h = header3_fields [OF e]
  show "frame_length bytes V3 (length pre) mf = Inr (length b)"
    using h unat_len [OF assms(2)] by (simp add: frame_length_def header_size_def Let_def assms(1))
  show "slice bytes (length pre + 12) (length b) = b"
    using slice_append [of _ "pre @ header3 b @ put_u32 (crc32 (header3 b))" _ b rest] by (simp add: e)
  show "load_le32 bytes (length pre + 4) = crc32 b" by (rule h(2))
qed

text \<open>A frame cut short anywhere but at its ends is torn.\<close>

lemma torn_frame_stops:
  assumes "bytes = pre @ take k (frame3 b)" and "small b" and "0 < k" and "k < length (frame3 b)"
  shows "stop3 bytes (length pre) mf = Some Torn"
proof (cases "k < 12")
  case True
  then show ?thesis using assms by (simp add: stop3_def frame_length_def header_size_def)
next
  case False
  then have e: "bytes = pre @ header3 b @ put_u32 (crc32 (header3 b)) @ take (k - 12) b"
    by (simp add: assms(1) frame3_def)
  have "\<not> length b < k - 12" and "k - 12 < length b" using assms(4) False by simp_all
  then show ?thesis
    using header3_fields [OF e] unat_len [OF assms(2)] False
    by (simp add: stop3_def frame_length_def header_size_def Let_def assms(1))
qed

definition max_frames :: "nat \<Rightarrow> u8 list list \<Rightarrow> nat" where
  "max_frames mf rs = foldl (\<lambda>m r. max m (12 + length r)) mf rs"

lemma max_frames_simps [simp]:
  "max_frames mf [] = mf" "max_frames mf (r # rs) = max_frames (max mf (12 + length r)) rs"
  by (simp_all add: max_frames_def)

definition scan3 :: "nat \<Rightarrow> bool \<Rightarrow> u8 list list \<Rightarrow> log_tail \<Rightarrow> log_scan" where
  "scan3 kf c rs t = \<lparr>ls_format = V3, ls_record_count = length rs, ls_valid_end = length (enc3 rs), ls_tail = t,
     ls_records = (if c then drop kf rs else [])\<rparr>"

lemma enc3_snoc: "enc3 (rs @ [r]) = enc3 rs @ frame3 r"
  by (simp add: enc3_def)

lemma drop_snoc: "drop kf (rs @ [r]) = (if kf < Suc (length rs) then drop kf rs @ [r] else drop kf rs)"
  by simp

lemma scan_loop_step3:
  assumes "bytes = enc3 rs @ frame3 r @ rest" and "small r"
  shows "scan_loop bytes kf c (scan3 kf c rs Clean) (length (enc3 rs)) mf
    = scan_loop bytes kf c (scan3 kf c (rs @ [r]) Clean) (length (enc3 (rs @ [r]))) (max mf (12 + length r))"
  using frame_at(1) [OF assms, of mf] frame_at(2,3) [OF assms]
  by (subst scan_loop.simps)
    (simp add: scan3_def header_size_def Let_def enc3_snoc assms(1) drop_snoc add.assoc)

lemma scan_loop_frames:
  assumes "bytes = enc3 (rs @ rs') @ rest" and "\<forall>r\<in>set rs'. small r"
  shows "scan_loop bytes kf c (scan3 kf c rs Clean) (length (enc3 rs)) mf
    = scan_loop bytes kf c (scan3 kf c (rs @ rs') Clean) (length (enc3 (rs @ rs'))) (max_frames mf rs')"
  using assms
proof (induction rs' arbitrary: rs mf)
  case (Cons r rs')
  have "bytes = enc3 rs @ frame3 r @ (concat (map frame3 rs') @ rest)" using Cons.prems(1) by (simp add: enc3_def)
  from scan_loop_step3 [OF this] Cons.prems(2)
  have "scan_loop bytes kf c (scan3 kf c rs Clean) (length (enc3 rs)) mf
    = scan_loop bytes kf c (scan3 kf c (rs @ [r]) Clean) (length (enc3 (rs @ [r]))) (max mf (12 + length r))" by simp
  also have "\<dots> = scan_loop bytes kf c (scan3 kf c ((rs @ [r]) @ rs') Clean) (length (enc3 ((rs @ [r]) @ rs')))
      (max_frames (max mf (12 + length r)) rs')"
    using Cons.prems by (intro Cons.IH) simp_all
  finally show ?case by simp
qed simp

lemma scan_loop_stop3:
  assumes "stop3 bytes (length (enc3 rs)) mf = Some t"
  shows "scan_loop bytes kf c (scan3 kf c rs Clean) (length (enc3 rs)) mf = scan3 kf c rs t"
  using assms
  by (subst scan_loop.simps)
    (auto simp: stop3_def scan3_def header_size_def Let_def split: if_splits sum.splits)

lemma read_magic_v3:
  "read_magic (file_magic_v3 @ rest) fresh_scan = (Some 8, scan3 kf c [] Clean)"
  by (simp add: read_magic_def fresh_scan_def scan3_def enc3_def)

lemma scan_log_stop:
  assumes "bytes = enc3 rs @ rest" and "\<forall>r\<in>set rs. small r"
    and "stop3 bytes (length (enc3 rs)) (max_frames 0 rs) = Some t"
  shows "scan_log bytes kf c = scan3 kf c rs t"
proof -
  have "bytes \<noteq> []" using assms(1) by (auto simp: enc3_def dest: arg_cong [of _ _ length])
  moreover have "read_magic bytes fresh_scan = (Some 8, scan3 kf c [] Clean)"
    using read_magic_v3 [of "concat (map frame3 rs) @ rest"] by (simp add: assms(1) enc3_def)
  moreover have "scan_loop bytes kf c (scan3 kf c [] Clean) 8 0 = scan3 kf c rs t"
    using scan_loop_frames [of bytes "[]" rs rest kf c 0] scan_loop_stop3 [OF assms(3), of kf c] assms(1,2)
    by (simp add: enc3_def)
  ultimately show ?thesis by (simp add: scan_log_def)
qed

text \<open>Where a scan goes on, there is a whole frame: the fields it checked determine the bytes.\<close>

lemma slice_split: "slice bytes p (m + n) = slice bytes p m @ slice bytes (p + m) n"
  by (simp add: slice_def take_add add.commute)

lemma no_stop_frame:
  assumes "stop3 (pre @ rest) (length pre) mf = None"
  shows "\<exists>b rest'. rest = frame3 b @ rest' \<and> small b"
proof -
  let ?f = "pre @ rest" and ?p = "length pre"
  define len where "len = unat (load_le32 ?f ?p)"
  define b where "b = slice ?f (?p + 12) len"
  have ne: "12 \<le> length rest" and h: "v3_header_crc ?f ?p = load_le32 ?f (?p + 8)"
    and l: "len \<le> length rest - 12" and c: "crc32 b = load_le32 ?f (?p + 4)"
    using assms
    by (auto simp: stop3_def frame_length_def header_size_def Let_def len_def b_def split: if_splits)
  have lb: "length b = len" using ne l by (simp add: b_def slice_def)
  have "small b" using unsigned_less [of "load_le32 ?f ?p"] by (simp add: small_def lb len_def)
  have "slice ?f ?p 4 = put_u32 (of_nat (length b))"
    using put_load [of ?p ?f] ne by (simp add: lb len_def)
  moreover have "slice ?f (?p + 4) 4 = put_u32 (crc32 b)" using put_load [of "?p + 4" ?f] ne c by simp
  ultimately have h8: "slice ?f ?p 8 = header3 b" using slice_split [of ?f ?p 4 4] by (simp add: header3_def)
  have "slice ?f (?p + 8) 4 = put_u32 (crc32 (header3 b))"
    using put_load [of "?p + 8" ?f] ne h h8 by (simp add: v3_header_crc_def)
  moreover have "slice ?f ?p (8 + (4 + len)) = slice ?f ?p 8 @ slice ?f (?p + 8) 4 @ b"
    unfolding b_def using slice_split [of ?f ?p 8 "4 + len"] slice_split [of ?f "?p + 8" 4 len]
    by (simp add: add.assoc)
  ultimately have "slice ?f ?p (8 + (4 + len)) = frame3 b" using h8 by (simp add: frame3_def)
  moreover have "rest = slice ?f ?p (8 + (4 + len)) @ drop (8 + (4 + len)) rest" by (simp add: slice_def)
  ultimately show ?thesis using \<open>small b\<close> by metis
qed

lemma decompose_from:
  "bytes = enc3 rs @ rest \<Longrightarrow> \<forall>r\<in>set rs. small r \<Longrightarrow>
   \<exists>rs' rest' t. bytes = enc3 rs' @ rest' \<and> (\<forall>r\<in>set rs'. small r) \<and>
     stop3 bytes (length (enc3 rs')) (max_frames 0 rs') = Some t"
proof (induction "length rest" arbitrary: rs rest rule: less_induct)
  case less
  show ?case
  proof (cases "stop3 bytes (length (enc3 rs)) (max_frames 0 rs)")
    case None
    then obtain b rest' where r: "rest = frame3 b @ rest'" "small b"
      using no_stop_frame [of "enc3 rs" rest] less.prems(1) by blast
    then show ?thesis
      using less.hyps [of rest' "rs @ [b]"] less.prems by (simp add: enc3_snoc)
  next
    case (Some t)
    then show ?thesis using less.prems by blast
  qed
qed

lemma decompose:
  assumes "take 8 bytes = file_magic_v3"
  obtains rs rest t where "bytes = enc3 rs @ rest" and "\<forall>r\<in>set rs. small r"
    and "stop3 bytes (length (enc3 rs)) (max_frames 0 rs) = Some t"
  using decompose_from [of bytes "[]" "drop 8 bytes"] append_take_drop_id [of 8 bytes] assms
  by (auto simp: enc3_def)

section \<open>What a log file holds\<close>

text \<open>A log created by this version, read as it stands: intact records, then at most a torn tail.\<close>

definition log_holds :: "u8 list \<Rightarrow> u8 list list \<Rightarrow> bool" where
  "log_holds f rs \<longleftrightarrow>
     (\<forall>r\<in>set rs. small r) \<and>
     (rs = [] \<and> length f < 8 \<and> f = take (length f) file_magic_v3 \<or>
      (\<exists>rest t. f = enc3 rs @ rest \<and> stop3 f (length (enc3 rs)) (max_frames 0 rs) = Some t \<and> t \<in> {Clean, Torn}))"

definition v3_file :: "u8 list \<Rightarrow> bool" where
  "v3_file f \<longleftrightarrow> take 8 f = take (length f) file_magic_v3"

definition read_records :: "u8 list \<Rightarrow> nat \<Rightarrow> u8 list list result" where
  "read_records f k =
     (let scan = scan_log f k True
      in case damage_error scan of Some e \<Rightarrow> Inl e | None \<Rightarrow> Inr (ls_records scan))"

lemma scan_log_short:
  assumes "length f < 8" and "f = take (length f) file_magic_v3"
  shows "scan_log f kf c = fresh_scan\<lparr>ls_tail := (if f = [] then Clean else Torn)\<rparr>"
  using assms by (auto simp: scan_log_def read_magic_def Let_def fresh_scan_def)

lemma log_holds_scan:
  assumes "log_holds f rs"
  obtains t where "t \<in> {Clean, Torn}"
    "scan_log f kf c = (if length f < 8 then fresh_scan\<lparr>ls_tail := t\<rparr> else scan3 kf c rs t)"
    "length f < 8 \<Longrightarrow> rs = []" "8 \<le> length f \<Longrightarrow> \<exists>rest. f = enc3 rs @ rest"
proof (cases "length f < 8")
  case True
  then have "\<nexists>rest. f = enc3 rs @ rest" by (auto simp: enc3_def)
  with assms have "rs = []" "f = take (length f) file_magic_v3" by (auto simp: log_holds_def)
  with True show thesis using that [of "if f = [] then Clean else Torn"] by (simp add: scan_log_short)
next
  case False
  with assms obtain rest t where "f = enc3 rs @ rest" "t \<in> {Clean, Torn}"
    "stop3 f (length (enc3 rs)) (max_frames 0 rs) = Some t" "\<forall>r\<in>set rs. small r"
    by (auto simp: log_holds_def)
  with False show thesis using that [of t] scan_log_stop [of f rs rest t kf c] by auto
qed

lemma log_holds_read:
  assumes "log_holds f rs" shows "read_records f k = Inr (drop k rs)"
  by (rule log_holds_scan [OF assms, of k True])
    (auto simp: read_records_def damage_error_def fresh_scan_def scan3_def Let_def split: if_splits)

lemma v3_file_holds:
  assumes "v3_file f" and "read_records f 0 = Inr rs"
  shows "log_holds f rs"
proof (cases "length f < 8")
  case True
  then have "f = take (length f) file_magic_v3" using assms(1) by (simp add: v3_file_def)
  moreover from this True assms(2) have "rs = []"
    by (cases "f = []") (auto simp: read_records_def scan_log_short damage_error_def fresh_scan_def Let_def)
  ultimately show ?thesis using True by (simp add: log_holds_def)
next
  case False
  then have "take 8 f = file_magic_v3" using assms(1) by (simp add: v3_file_def)
  then obtain rs' rest t where d: "f = enc3 rs' @ rest" "\<forall>r\<in>set rs'. small r"
    "stop3 f (length (enc3 rs')) (max_frames 0 rs') = Some t" by (rule decompose)
  from scan_log_stop [OF d, of 0 True] assms(2) have "rs = rs'" "t \<in> {Clean, Torn}"
    by (auto simp: read_records_def scan3_def damage_error_def split: log_tail.splits)
  with d show ?thesis by (auto simp: log_holds_def)
qed

lemma log_holds_v3: "log_holds f rs \<Longrightarrow> v3_file f"
  by (auto simp: log_holds_def v3_file_def enc3_def)

lemma log_holds_enc3: "\<forall>r\<in>set rs. small r \<Longrightarrow> log_holds (enc3 rs) rs"
  by (auto simp: log_holds_def stop3_def)

lemma log_holds_torn:
  assumes "\<forall>r\<in>set rs. small r" and "small b" and "k < length (frame3 b)"
  shows "log_holds (enc3 rs @ take k (frame3 b)) rs"
proof (cases "k = 0")
  case True then show ?thesis using assms log_holds_enc3 by simp
next
  case False
  then show ?thesis
    using assms torn_frame_stops [of "enc3 rs @ take k (frame3 b)" "enc3 rs" k b "max_frames 0 rs"]
    by (auto simp: log_holds_def)
qed

section \<open>Appending\<close>

lemma append_frame_fresh: "ls_valid_end s = 0 \<Longrightarrow> append_frame s b = file_magic_v3 @ frame3 b"
  by (simp add: append_frame_def Let_def frame3_def header3_def)

lemma append_frame_v3: "ls_valid_end s \<noteq> 0 \<Longrightarrow> ls_format s = V3 \<Longrightarrow> append_frame s b = frame3 b"
  by (simp add: append_frame_def Let_def frame3_def header3_def)

text \<open>What a file is after an append was cut off after \<open>k\<close> bytes.\<close>

lemma log_holds_cut:
  assumes "\<forall>r\<in>set rs. small r" and "small b"
  shows "log_holds (enc3 rs @ take k (frame3 b)) rs \<or> log_holds (enc3 rs @ take k (frame3 b)) (rs @ [b])"
  using assms log_holds_torn [OF assms, of k] log_holds_enc3 [of "rs @ [b]"]
  by (cases "k < length (frame3 b)") (simp_all add: enc3_snoc)

lemma log_holds_cut_fresh:
  assumes "small b"
  shows "log_holds (take k (file_magic_v3 @ frame3 b)) [] \<or> log_holds (take k (file_magic_v3 @ frame3 b)) [b]"
proof (cases "k < 8")
  case True
  then show ?thesis by (simp add: log_holds_def)
next
  case False
  then show ?thesis using log_holds_cut [of "[]" b "k - 8"] assms by (simp add: enc3_def)
qed

lemma append_locked_holds:
  assumes "log_holds f rs" and "small b" and "append_locked io st p f b = (r, st')"
  obtains f' where "st' = with_file st p f'" and "log_holds f' rs \<or> log_holds f' (rs @ [b])"
    and "\<And>n. r = Inr n \<Longrightarrow> log_holds f' (rs @ [b]) \<and> n = of_nat (Suc (length rs))"
proof -
  have sm: "\<forall>r\<in>set rs. small r" using assms(1) by (simp add: log_holds_def)
  obtain t where t: "t \<in> {Clean, Torn}"
    and sc: "scan_log f 0 False = (if length f < 8 then fresh_scan\<lparr>ls_tail := t\<rparr> else scan3 0 False rs t)"
    and short: "length f < 8 \<Longrightarrow> rs = []" and long: "8 \<le> length f \<Longrightarrow> \<exists>rest. f = enc3 rs @ rest"
    using log_holds_scan [OF assms(1), of 0 False] by metis
  define scan where "scan = scan_log f 0 False"
  define base where "base = take (ls_valid_end scan) f"
  have nd: "damage_error scan = None" and cnt: "ls_record_count scan = length rs"
    using t sc short by (auto simp: scan_def damage_error_def fresh_scan_def scan3_def)
  have bf: "log_holds base rs \<and> base @ append_frame scan b = enc3 (rs @ [b]) \<and>
      (\<forall>k. log_holds (base @ take k (append_frame scan b)) rs \<or> log_holds (base @ take k (append_frame scan b)) (rs @ [b]))"
  proof (cases "length f < 8")
    case True
    then have "scan = fresh_scan\<lparr>ls_tail := t\<rparr>" and rs: "rs = []" using sc short by (simp_all add: scan_def)
    then have "base = []" and "append_frame scan b = file_magic_v3 @ frame3 b"
      by (simp_all add: base_def append_frame_fresh fresh_scan_def)
    then show ?thesis using rs log_holds_cut_fresh [OF assms(2)] by (simp add: enc3_def log_holds_def)
  next
    case False
    then obtain rest where f: "f = enc3 rs @ rest" and "scan = scan3 0 False rs t" using sc long by (auto simp: scan_def)
    then have "base = enc3 rs" and "append_frame scan b = frame3 b"
      by (simp_all add: base_def append_frame_v3 scan3_def enc3_def)
    then show ?thesis using log_holds_cut [OF sm assms(2)] log_holds_enc3 [OF sm] by (simp add: enc3_snoc)
  qed
  have full: "log_holds (base @ append_frame scan b) (rs @ [b])"
    using bf sm assms(2) log_holds_enc3 [of "rs @ [b]"] by simp
  have "\<exists>f'. st' = with_file st p f' \<and> (log_holds f' rs \<or> log_holds f' (rs @ [b])) \<and>
      (\<forall>n. r = Inr n \<longrightarrow> log_holds f' (rs @ [b]) \<and> n = of_nat (Suc (length rs)))"
  proof (cases "io_truncate_fails io")
    case True
    then show ?thesis
      using assms(1,3) nd by (auto simp: append_locked_def Let_def scan_def intro!: exI [of _ f])
  next
    case False
    then show ?thesis
      using assms(3) nd bf full cnt
      by (auto simp: append_locked_def Let_def scan_def base_def add.commute split: option.splits if_splits)
  qed
  then show thesis using that by blast
qed

definition file_wf :: "file_store \<Rightarrow> bool" where
  "file_wf st \<longleftrightarrow> (\<forall>p f. fl_files st p = Some f \<longrightarrow> v3_file f \<and> is_ok (read_records f 0))"

definition file_entries :: "file_store \<Rightarrow> string \<Rightarrow> u8 list list" where
  "file_entries st i =
     (case path_for i of
        Inl e \<Rightarrow> []
      | Inr p \<Rightarrow> (case fl_files st p of None \<Rightarrow> []
                 | Some f \<Rightarrow> (case read_records f 0 of Inl e \<Rightarrow> [] | Inr rs \<Rightarrow> rs)))"

lemma path_for_id: "path_for i = Inr p \<Longrightarrow> p = i"
  by (simp add: path_for_def split: if_splits)

definition file_bytes :: "file_store \<Rightarrow> string \<Rightarrow> u8 list" where
  "file_bytes st p = (case fl_files st p of None \<Rightarrow> [] | Some f \<Rightarrow> f)"

lemma log_holds_Nil: "log_holds [] []"
  by (simp add: log_holds_def)

lemma file_wf_holds:
  assumes "file_wf st" and "path_for i = Inr p"
  shows "log_holds (file_bytes st p) (file_entries st i)"
proof (cases "fl_files st p")
  case None
  then show ?thesis using assms by (simp add: file_bytes_def file_entries_def log_holds_Nil)
next
  case (Some f)
  then have v: "v3_file f" and "is_ok (read_records f 0)" using assms(1) by (auto simp: file_wf_def)
  then obtain rs where "read_records f 0 = Inr rs" by auto
  with v show ?thesis using Some assms v3_file_holds by (simp add: file_bytes_def file_entries_def)
qed

lemma file_wf_update:
  assumes "file_wf st" and "log_holds f rs"
  shows "file_wf (with_file st p f)"
  using assms log_holds_v3 [OF assms(2)] log_holds_read [OF assms(2), of 0]
  by (simp add: file_wf_def with_file_def)

lemma file_entries_update:
  assumes "path_for i = Inr p" and "log_holds f rs"
  shows "file_entries (with_file st p f) = (file_entries st)(i := rs)"
proof
  fix j
  show "file_entries (with_file st p f) j = ((file_entries st)(i := rs)) j"
    using assms log_holds_read [OF assms(2), of 0] path_for_id [OF assms(1)] path_for_id [of j]
    by (auto simp: file_entries_def with_file_def split: sum.splits)
qed

lemma faults_frame [simp]:
  "file_wf (st\<lparr>fl_faults := x\<rparr>) = file_wf st" "file_entries (st\<lparr>fl_faults := x\<rparr>) = file_entries st"
  "file_bytes (st\<lparr>fl_faults := x\<rparr>) = file_bytes st"
  by (auto simp: file_wf_def file_entries_def file_bytes_def fun_eq_iff split: sum.splits)

text \<open>Every way an append can end: no effect on the files, or the file of its log rewritten so that it
  holds what it held, or that and the new record; and only the latter on success.\<close>

lemma append_blocking_cases:
  assumes "file_wf st" and "append_blocking st i b = (r, st')"
  obtains (none) e where "r = Inl e" "file_wf st'" "file_entries st' = file_entries st"
  | (kept) e where "r = Inl e" "file_wf st'" "file_entries st' = (file_entries st)(i := file_entries st i)"
  | (added) "file_wf st'" "file_entries st' = (file_entries st)(i := file_entries st i @ [b])"
      "\<And>n. r = Inr n \<Longrightarrow> n = of_nat (Suc (length (file_entries st i)))"
proof -
  let ?st = "st\<lparr>fl_faults := tl (fl_faults st)\<rparr>" and ?io = "next_faults st"
  consider (early) e where "r = Inl e" "st' = ?st"
    | (read) p where "path_for i = Inr p" "r = Inl io_failed" "st' = with_file ?st p (file_bytes ?st p)"
    | (main) p where "path_for i = Inr p" "small b" "append_locked ?io ?st p (file_bytes ?st p) b = (r, st')"
  proof (cases "path_for i")
    case (Inl e)
    then show thesis using that(1) assms(2) by (auto simp: append_blocking_def Let_def)
  next
    case (Inr p)
    have *: "append_blocking st i b =
       (if 2 ^ 32 - 1 < length b then (Inl (Error Contract ''rt.append_log_store.record_too_large''), ?st)
        else if io_open_fails ?io then (Inl open_failed, ?st)
        else if io_read_fails ?io then (Inl io_failed, with_file ?st p (file_bytes ?st p))
        else append_locked ?io ?st p (file_bytes ?st p) b)"
      using Inr by (simp add: append_blocking_def Let_def file_bytes_def)
    show thesis
    proof (cases "2 ^ 32 - 1 < length b \<or> io_open_fails ?io")
      case True
      then obtain e where "append_blocking st i b = (Inl e, ?st)" using * by (metis (full_types))
      then show thesis using that(1) assms(2) by simp
    next
      case False
      then have "small b" by (simp add: small_def)
      with False show thesis using that(2,3) [OF Inr] * assms(2) by (cases "io_read_fails ?io") simp_all
    qed
  qed
  then show thesis
  proof cases
    case early
    then show thesis using none assms(1) by simp
  next
    case read
    have "log_holds (file_bytes ?st p) (file_entries ?st i)"
      using assms(1) read(1) by (intro file_wf_holds) simp_all
    from file_wf_update [OF _ this, of ?st p] file_entries_update [OF read(1) this, of ?st] read assms(1)
    show thesis using kept by simp
  next
    case main
    have "log_holds (file_bytes ?st p) (file_entries ?st i)"
      using assms(1) main(1) by (intro file_wf_holds) simp_all
    from append_locked_holds [OF this main(2,3)] obtain f' where f': "st' = with_file ?st p f'"
      "log_holds f' (file_entries st i) \<or> log_holds f' (file_entries st i @ [b])"
      "\<And>n. r = Inr n \<Longrightarrow> log_holds f' (file_entries st i @ [b]) \<and> n = of_nat (Suc (length (file_entries st i)))"
      by auto
    note up = file_wf_update [of ?st f' _ p] file_entries_update [OF main(1), of f' _ ?st]
    show thesis
    proof (cases "log_holds f' (file_entries st i @ [b])")
      case True
      then show thesis using added up(1) [OF _ True] up(2) [OF True] f' assms(1) by simp
    next
      case False
      then have h: "log_holds f' (file_entries st i)" and "\<nexists>n. r = Inr n" using f' by auto
      then obtain e where "r = Inl e" by (cases r) auto
      then show thesis using kept up(1) [OF _ h] up(2) [OF h] f'(1) assms(1) by simp
    qed
  qed
qed

lemma read_blocking_entries:
  assumes "file_wf st" and "read_from_blocking st i k = Inr xs"
  shows "xs = drop (unat k) (file_entries st i)"
proof -
  from assms(2) obtain p where p: "path_for i = Inr p" and "read_records (file_bytes st p) (unat k) = Inr xs"
    by (auto simp: read_from_blocking_def read_locked_def read_records_def file_bytes_def Let_def
        split: sum.splits if_splits option.splits)
  with log_holds_read [OF file_wf_holds [OF assms(1) p]] show ?thesis by simp
qed

lemma file_ops_simps [simp]:
  "lo_append file_ops = append_blocking" "lo_read_from file_ops = read_from_blocking"
  by (simp_all add: file_ops_def)

interpretation disk: append_log file_ops file_wf file_entries
proof (unfold_locales, unfold file_ops_simps)
  fix s i b r s' assume "file_wf s" "append_blocking s i b = (r, s')"
  then show "file_wf s'" by (rule append_blocking_cases)
next
  fix s i b n s' assume "file_wf s" "append_blocking s i b = (Inr n, s')"
  then show "file_entries s' = (file_entries s)(i := file_entries s i @ [b]) \<and> n = of_nat (Suc (length (file_entries s i)))"
    by (rule append_blocking_cases) simp_all
next
  fix s i b e s' assume "file_wf s" "append_blocking s i b = (Inl e, s')"
  then show "file_entries s' = file_entries s \<or> file_entries s' = (file_entries s)(i := file_entries s i @ [b])"
    by (rule append_blocking_cases) simp_all
next
  fix s i k xs assume "file_wf s" "read_from_blocking s i k = Inr xs"
  then show "xs = drop (unat k) (file_entries s i)" by (rule read_blocking_entries)
qed

section \<open>Damage\<close>

text \<open>The checksum step is a bijection of the register, so a change of one byte changes the checksum.\<close>

lemma xor_cancel: "x XOR m = y XOR m \<Longrightarrow> x = y" "m XOR x = m XOR y \<Longrightarrow> x = y" for x y m :: "'a::len word"
proof -
  have "x = y" if "\<And>n. bit (x XOR m) n \<longleftrightarrow> bit (y XOR m) n"
    using that by (intro bit_word_eqI) (auto simp: bit_xor_iff)
  then show "x XOR m = y XOR m \<Longrightarrow> x = y" "m XOR x = m XOR y \<Longrightarrow> x = y" by (simp_all add: xor.commute)
qed

lemma ucast_byte_inj: "(ucast x :: u32) = ucast y \<Longrightarrow> x = y" for x y :: u8
proof (rule bit_word_eqI)
  fix n assume "(ucast x :: u32) = ucast y" and n: "n < LENGTH(8)"
  then have "bit (ucast x :: u32) n \<longleftrightarrow> bit (ucast y :: u32) n" by simp
  then show "bit x n \<longleftrightarrow> bit y n" using n by (simp add: bit_ucast_iff)
qed

lemma crc_step_alt: "crc_step z = drop_bit 1 z XOR (if bit z 0 then 0xEDB88320 else 0)"
proof -
  have "z AND 1 = of_bool (bit z 0)" by (simp add: and_one_eq mod_2_eq_odd bit_0)
  then show ?thesis by (simp add: crc_step_def)
qed

lemma crc_step_inj: "crc_step x = crc_step y \<Longrightarrow> x = y"
proof -
  assume e: "crc_step x = crc_step y"
  have top: "bit (crc_step z) 31 \<longleftrightarrow> bit z 0" for z
    by (auto simp: crc_step_alt bit_simps dest: bit_imp_le_length)
  have z: "bit x 0 \<longleftrightarrow> bit y 0" using top e by metis
  then have d: "drop_bit 1 x = drop_bit 1 y" using e by (intro xor_cancel(1) [of "drop_bit 1 x" "if bit y 0 then 0xEDB88320 else 0"]) (simp add: crc_step_alt)
  have "bit x n \<longleftrightarrow> bit y n" for n
  proof (cases n)
    case (Suc m)
    have "bit (drop_bit 1 x) m \<longleftrightarrow> bit (drop_bit 1 y) m" using d by simp
    then show ?thesis using Suc by (simp add: bit_drop_bit_eq)
  qed (use z in simp)
  then show "x = y" by (intro bit_word_eqI) simp
qed

lemma crc_steps_inj: "(crc_step ^^ n) x = (crc_step ^^ n) y \<Longrightarrow> x = y"
  by (induction n arbitrary: x y) (auto dest: crc_step_inj)

lemma crc_byte_inj: "crc_byte c a = crc_byte d b \<Longrightarrow> c XOR ucast a = d XOR ucast b"
  by (simp add: crc_byte_def crc_steps_inj)

lemma crc_fold_inj: "foldl crc_byte c bs = foldl crc_byte d bs \<Longrightarrow> c = d"
proof (induction bs arbitrary: c d)
  case (Cons b bs)
  then have "crc_byte c b = crc_byte d b" by simp
  then have "c XOR ucast b = d XOR ucast b" by (rule crc_byte_inj)
  then show ?case by (rule xor_cancel(1))
qed simp

lemma crc32_one_byte:
  assumes "x \<noteq> y" shows "crc32 (as @ x # bs) \<noteq> crc32 (as @ y # bs)"
proof
  let ?c = "foldl crc_byte 0xFFFFFFFF as"
  assume "crc32 (as @ x # bs) = crc32 (as @ y # bs)"
  then have "foldl crc_byte (crc_byte ?c x) bs = foldl crc_byte (crc_byte ?c y) bs" by (simp add: crc32_def)
  then have "crc_byte ?c x = crc_byte ?c y" by (rule crc_fold_inj)
  then have "?c XOR ucast x = ?c XOR ucast y" by (rule crc_byte_inj)
  then show False using assms xor_cancel(2) ucast_byte_inj by metis
qed

text \<open>A payload whose checksum fails, in a frame that is not the last, is damage.\<close>

lemma bad_payload_stops:
  assumes "bytes = pre @ header3 r @ put_u32 (crc32 (header3 r)) @ r' @ rest" and "small r"
    and "length r' = length r" and "crc32 r' \<noteq> crc32 r" and "rest \<noteq> []"
  shows "stop3 bytes (length pre) mf = Some Corrupt"
proof -
  note h = header3_fields [OF assms(1)]
  have "frame_length bytes V3 (length pre) mf = Inr (length r)"
    using h unat_len [OF assms(2)] assms(3)
    by (simp add: frame_length_def header_size_def Let_def assms(1))
  moreover have "slice bytes (length pre + 12) (length r) = r'"
    using slice_append [of _ "pre @ header3 r @ put_u32 (crc32 (header3 r))" "length r" r' rest] assms(3)
    by (simp add: assms(1))
  moreover have "length pre + 12 + length r \<noteq> length bytes" using assms(3,5) by (simp add: assms(1))
  ultimately show ?thesis
    using h assms(4) by (simp add: stop3_def bad_payload_tail_def header_size_def Let_def assms(1))
qed

lemma damaged_frame:
  assumes "j < length r"
  shows "(enc3 (rs1 @ r # rs2))[length (enc3 rs1) + 12 + j := y]
    = enc3 rs1 @ header3 r @ put_u32 (crc32 (header3 r)) @ r[j := y] @ concat (map frame3 rs2)"
proof -
  let ?h = "header3 r @ put_u32 (crc32 (header3 r))"
  have "enc3 (rs1 @ r # rs2) = (enc3 rs1 @ ?h) @ r @ concat (map frame3 rs2)"
    by (simp add: enc3_def frame3_def)
  moreover have "length (enc3 rs1) + 12 + j = length (enc3 rs1 @ ?h) + j" by simp
  ultimately show ?thesis
    using assms by (simp only: list_update_append list_update_length length_append) (simp add: list_update_append1)
qed

section \<open>Properties\<close>

text \<open>A store with one log of two records, and the faults of a crash ten bytes into an append.\<close>

definition demo_log :: "io_faults list \<Rightarrow> file_store" where
  "demo_log faults = \<lparr>fl_files = [''a'' \<mapsto> enc3 [[1, 2], [3]]], fl_sync = OsBuffer, fl_faults = faults\<rparr>"

definition crash_after :: "nat \<Rightarrow> io_faults" where
  "crash_after k = no_faults\<lparr>io_write_stops := Some k, io_undo_fails := True\<rparr>"

lemma demo_small: "\<forall>r\<in>set [[1, 2], [3 :: u8]]. small r"
  by (simp add: small_def)

lemma demo_log_wf: "file_wf (demo_log faults)"
  using log_holds_enc3 [OF demo_small] log_holds_v3 [OF log_holds_enc3 [OF demo_small]] log_holds_read [OF log_holds_enc3 [OF demo_small], of 0]
  by (simp add: file_wf_def demo_log_def)

text \<open>C3. The durable log implements the append-only contract under every fault of the operating system: in a
  store whose files are logs of the current format (possibly with a torn tail), an append that reports
  success has added exactly its record, at the next sequence number; one that reports an error -- a write
  cut off after any number of bytes and not undone included -- has added its record or nothing; no other
  log changes, and every later successful read returns all records after its start, in order.\<close>

theorem file_log_append_atomic:
  assumes "file_wf st" and "append_blocking st i b = (r, st')"
  shows "file_wf st' \<and>
    (file_entries st' = file_entries st \<or> file_entries st' = (file_entries st)(i := file_entries st i @ [b])) \<and>
    (\<forall>n. r = Inr n \<longrightarrow> file_entries st' = (file_entries st)(i := file_entries st i @ [b])
         \<and> n = of_nat (Suc (length (file_entries st i)))) \<and>
    (\<forall>j k xs. read_from_blocking st' j k = Inr xs \<longrightarrow> xs = drop (unat k) (file_entries st' j))"
proof -
  have wf: "file_wf st'" using disk.append_wf [of st i b r st'] assms by simp
  have "r = Inr n \<Longrightarrow> file_entries st' = (file_entries st)(i := file_entries st i @ [b])
         \<and> n = of_nat (Suc (length (file_entries st i)))" for n
    using disk.append_ok [of st i b n st'] assms by simp
  moreover have "r = Inl e \<Longrightarrow> file_entries st' = file_entries st
      \<or> file_entries st' = (file_entries st)(i := file_entries st i @ [b])" for e
    using disk.append_error [of st i b e st'] assms by simp
  ultimately show ?thesis using wf read_blocking_entries [OF wf] by (cases r) auto
qed

theorem file_log_append_atomic_witness:
  "file_entries (snd (append_blocking (demo_log [crash_after 10]) ''a'' [7])) = file_entries (demo_log [])
   \<or> file_entries (snd (append_blocking (demo_log [crash_after 10]) ''a'' [7]))
     = (file_entries (demo_log []))(''a'' := file_entries (demo_log []) ''a'' @ [[7]])"
proof -
  have "file_entries (demo_log [crash_after 10]) = file_entries (demo_log [])"
    by (auto simp: file_entries_def demo_log_def fun_eq_iff split: sum.splits)
  then show ?thesis
    using file_log_append_atomic [OF demo_log_wf, of "[crash_after 10]" "''a''" "[7]"]
    by (cases "append_blocking (demo_log [crash_after 10]) ''a'' [7]") (metis snd_conv)
qed

text \<open>Crash recovery: when an append was cut off after any proper part of its frame, the next reader sees
  exactly the records before it, and the next append lands where the torn frame began: the file becomes,
  byte for byte, the encoding of the old records and the new one, at the next sequence number.\<close>

theorem torn_append_recovers:
  assumes "\<forall>r\<in>set rs. length r < 2 ^ 32" and "length b < 2 ^ 32" and "length c < 2 ^ 32"
    and "k < length (frame3 b)"
  shows "read_records (enc3 rs @ take k (frame3 b)) 0 = Inr rs \<and>
    append_locked no_faults st p (enc3 rs @ take k (frame3 b)) c
      = (Inr (of_nat (length rs) + 1), with_file st p (enc3 (rs @ [c])))"
proof -
  have h: "log_holds (enc3 rs @ take k (frame3 b)) rs"
    using assms log_holds_torn [of rs b k] by (simp add: small_def)
  have "length (enc3 rs @ take k (frame3 b)) \<ge> 8" by (simp add: enc3_def)
  then obtain t where "t \<in> {Clean, Torn}" "scan_log (enc3 rs @ take k (frame3 b)) 0 False = scan3 0 False rs t"
    using log_holds_scan [OF h, of 0 False] by (metis not_less)
  then show ?thesis
    using log_holds_read [OF h, of 0]
    by (auto simp: append_locked_def Let_def damage_error_def no_faults_def scan3_def append_frame_v3 enc3_def
        add.commute)
qed

theorem torn_append_recovers_witness:
  "read_records (enc3 [[1, 2]] @ take 13 (frame3 [3, 4])) 0 = Inr [[1, 2]]"
  using torn_append_recovers [of "[[1, 2]]" "[3, 4]" "[5]" 13 "demo_log []" "''a''"] by simp

text \<open>Damage is never silent and never written over: when any single byte of the payload of a record other
  than the last is changed, every read of the log fails with \<^verbatim>\<open>corrupt_record\<close> and an append refuses
  and leaves the file as it is, instead of truncating the records behind the damage.\<close>

theorem payload_damage_detected:
  assumes "\<forall>x\<in>set (rs1 @ r # rs2). length x < 2 ^ 32" and "rs2 \<noteq> []" and "j < length r" and "y \<noteq> r ! j"
  shows "let f = (enc3 (rs1 @ r # rs2))[length (enc3 rs1) + 12 + j := y];
             damage = Error Fatal ''rt.append_log_store.corrupt_record''
         in read_records f k = Inl damage \<and> append_locked io st p f b = (Inl damage, with_file st p f)"
proof -
  define f where "f = (enc3 (rs1 @ r # rs2))[length (enc3 rs1) + 12 + j := y]"
  have f: "f = enc3 rs1 @ header3 r @ put_u32 (crc32 (header3 r)) @ r[j := y] @ concat (map frame3 rs2)"
    unfolding f_def by (rule damaged_frame [OF assms(3)])
  have c: "crc32 (r[j := y]) \<noteq> crc32 r"
    using crc32_one_byte [of y "r ! j" "take j r" "drop (Suc j) r"] assms(3,4)
    by (simp add: id_take_nth_drop [symmetric] upd_conv_take_nth_drop)
  have ne: "concat (map frame3 rs2) \<noteq> []"
    using assms(2) by (cases rs2) (auto dest: arg_cong [of _ _ length])
  have "stop3 f (length (enc3 rs1)) mf = Some Corrupt" for mf
    using assms(1) by (intro bad_payload_stops [OF f _ _ c ne]) (simp_all add: small_def)
  then have "scan_log f kf c = scan3 kf c rs1 Corrupt" for kf c
    using f assms(1) by (intro scan_log_stop) (auto simp: small_def)
  then show ?thesis
    by (simp add: f_def [symmetric] read_records_def append_locked_def damage_error_def scan3_def Let_def)
qed

theorem payload_damage_detected_witness:
  "read_records ((enc3 [[1, 2], [3]])[8 + 12 + 1 := 9]) 0 = Inl (Error Fatal ''rt.append_log_store.corrupt_record'')"
  using payload_damage_detected [of "[]" "[1, 2]" "[[3]]" 1 9 0 no_faults "demo_log []" "''a''" "[]"]
  by (simp add: Let_def enc3_def)

end
