(* ===== verification/Worktree.thy ===== *)
theory Worktree
  imports Sha256 Json FileLog
begin

text \<open>
  The worktree's vocabulary and its stores: content-addressed trees and blobs
  (\<^verbatim>\<open>core/worktree_types.hpp\<close>), refs with their history (\<^verbatim>\<open>core/worktree_ref_store.hpp\<close>) and
  sub-worktrees (\<^verbatim>\<open>core/worktree_sub.hpp\<close>). A ref is a log of JSON entries (theories AppendLog, FileLog
  and Json), and the lemmas about refs are proved once, for every store with the laws of \<open>append_log\<close>.

  The digest function is an argument: it is chosen per platform, and the engine's own for POSIX is
  \<open>compute_digest\<close> of theory Sha256. So are the conversions of JSON numbers, which no entry of a ref has.
\<close>

section \<open>Trees and blobs (core/worktree_types.hpp)\<close>

type_synonym digest_fn = "u8 list \<Rightarrow> digest result"

record tree_entry =
  te_name :: string
  te_digest :: digest
  te_is_tree :: bool

type_synonym tree = "tree_entry list"

record worktree_ref =
  wr_name :: string
  wr_tree_digest :: digest

definition encode_entry :: "tree_entry \<Rightarrow> u8 list" where
  "encode_entry e = put_str (te_name e) @ put_str (te_digest e) @ [if te_is_tree e then 1 else 0]"

definition canonical_tree_bytes :: "tree \<Rightarrow> u8 list" where
  "canonical_tree_bytes t = put_u32 (of_nat (length t)) @ concat (map encode_entry t)"

record object_store =
  os_blobs :: "digest \<rightharpoonup> u8 list"
  os_trees :: "digest \<rightharpoonup> tree"

definition empty_object_store :: object_store where
  "empty_object_store = \<lparr>os_blobs = Map.empty, os_trees = Map.empty\<rparr>"

definition put_blob :: "digest_fn \<Rightarrow> object_store \<Rightarrow> u8 list \<Rightarrow> digest result \<times> object_store" where
  "put_blob dig st bytes =
     (case dig bytes of
        Inl e \<Rightarrow> (Inl e, st)
      | Inr d \<Rightarrow> (Inr d, case os_blobs st d of
                    None \<Rightarrow> st\<lparr>os_blobs := (os_blobs st)(d \<mapsto> bytes)\<rparr>
                  | Some b \<Rightarrow> st))"

definition get_blob :: "object_store \<Rightarrow> digest \<Rightarrow> u8 list result" where
  "get_blob st d = (case os_blobs st d of
     None \<Rightarrow> Inl (Error Contract ''worktree.blob_not_found'') | Some b \<Rightarrow> Inr b)"

definition blob_size :: "object_store \<Rightarrow> digest \<Rightarrow> u64 result" where
  "blob_size st d = (case os_blobs st d of
     None \<Rightarrow> Inl (Error Contract ''worktree.blob_not_found'') | Some b \<Rightarrow> Inr (of_nat (length b)))"

text \<open>\<^verbatim>\<open>std::ranges::sort\<close> by name; the order of entries of one name, which no writer produces, is not
  specified by the code and is the original one here.\<close>

definition sort_tree :: "tree \<Rightarrow> tree" where
  "sort_tree t = sort_key te_name t"

definition put_tree :: "digest_fn \<Rightarrow> object_store \<Rightarrow> tree \<Rightarrow> digest result \<times> object_store" where
  "put_tree dig st t =
     (case dig (canonical_tree_bytes (sort_tree t)) of
        Inl e \<Rightarrow> (Inl e, st)
      | Inr d \<Rightarrow> (Inr d, st\<lparr>os_trees := (os_trees st)(d \<mapsto> sort_tree t)\<rparr>))"

definition get_tree :: "object_store \<Rightarrow> digest \<Rightarrow> tree result" where
  "get_tree st d = (case os_trees st d of
     None \<Rightarrow> Inl (Error Contract ''worktree.tree_not_found'') | Some t \<Rightarrow> Inr t)"

section \<open>Refs and turns (core/worktree_ref_store.hpp)\<close>

definition ref_moved_to_json :: "digest \<Rightarrow> 'n json" where
  "ref_moved_to_json d = JObject [(''tree_digest'', JString d)]"

definition ref_moved_from_json :: "'n json \<Rightarrow> digest result" where
  "ref_moved_from_json v =
     (case json_find v ''tree_digest'' of
        Some (JString d) \<Rightarrow> Inr d
      | _ \<Rightarrow> Inl (Error Contract ''worktree.ref_entry_malformed''))"

definition encode_ref_moved :: "'n num_ops \<Rightarrow> digest \<Rightarrow> u8 list" where
  "encode_ref_moved nm d = map byte_of_char (dump nm (ref_moved_to_json d))"

definition decode_ref_moved :: "'n num_ops \<Rightarrow> u8 list \<Rightarrow> digest result" where
  "decode_ref_moved nm bytes =
     (case parse nm (map char_of_byte bytes) default_budget of
        Inl e \<Rightarrow> Inl e | Inr v \<Rightarrow> ref_moved_from_json v)"

definition ref_log_id :: "string \<Rightarrow> string" where
  "ref_log_id name = name @ '':ref''"

definition commit_ref_impl ::
  "'s log_ops \<Rightarrow> 'n num_ops \<Rightarrow> 's \<Rightarrow> string \<Rightarrow> digest \<Rightarrow> (worktree_ref \<times> u64) result \<times> 's" where
  "commit_ref_impl ops nm st name d =
     (case lo_append ops st (ref_log_id name) (encode_ref_moved nm d) of
        (Inl e, st') \<Rightarrow> (Inl e, st')
      | (Inr n, st') \<Rightarrow> (Inr (\<lparr>wr_name = name, wr_tree_digest = d\<rparr>, n), st'))"

definition commit_ref :: "'s log_ops \<Rightarrow> 'n num_ops \<Rightarrow> 's \<Rightarrow> string \<Rightarrow> digest \<Rightarrow> worktree_ref result \<times> 's" where
  "commit_ref ops nm st name d =
     (case commit_ref_impl ops nm st name d of
        (Inl e, st') \<Rightarrow> (Inl e, st') | (Inr (r, n), st') \<Rightarrow> (Inr r, st'))"

definition read_ref :: "'s log_ops \<Rightarrow> 'n num_ops \<Rightarrow> 's \<Rightarrow> string \<Rightarrow> worktree_ref option result" where
  "read_ref ops nm st name =
     (case lo_read_from ops st (ref_log_id name) 0 of
        Inl e \<Rightarrow> Inl e
      | Inr raw \<Rightarrow>
          if raw = [] then Inr None
          else (case decode_ref_moved nm (last raw) of
                  Inl e \<Rightarrow> Inl e
                | Inr d \<Rightarrow> Inr (Some \<lparr>wr_name = name, wr_tree_digest = d\<rparr>)))"

record turn_commit =
  tc_ref :: worktree_ref
  tc_turn :: u64

definition commit_turn :: "'s log_ops \<Rightarrow> 'n num_ops \<Rightarrow> 's \<Rightarrow> string \<Rightarrow> digest \<Rightarrow> turn_commit result \<times> 's" where
  "commit_turn ops nm st name d =
     (case commit_ref_impl ops nm st name d of
        (Inl e, st') \<Rightarrow> (Inl e, st')
      | (Inr (r, n), st') \<Rightarrow> (Inr \<lparr>tc_ref = r, tc_turn = n\<rparr>, st'))"

definition turn_digest_at :: "'s log_ops \<Rightarrow> 'n num_ops \<Rightarrow> 's \<Rightarrow> string \<Rightarrow> u64 \<Rightarrow> digest result" where
  "turn_digest_at ops nm st name turn =
     (if turn = 0 then Inl (Error Contract ''worktree.turn_not_found'')
      else
        case lo_read_from ops st (ref_log_id name) (turn - 1) of
          Inl e \<Rightarrow> Inl e
        | Inr tail \<Rightarrow>
            if tail = [] then Inl (Error Contract ''worktree.turn_not_found'')
            else decode_ref_moved nm (hd tail))"

definition rewind_to_turn :: "'s log_ops \<Rightarrow> 'n num_ops \<Rightarrow> 's \<Rightarrow> string \<Rightarrow> u64 \<Rightarrow> turn_commit result \<times> 's" where
  "rewind_to_turn ops nm st name turn =
     (case turn_digest_at ops nm st name turn of
        Inl e \<Rightarrow> (Inl e, st)
      | Inr d \<Rightarrow> commit_turn ops nm st name d)"

section \<open>Sub-worktrees (core/sharing_mode.hpp, core/worktree_sub.hpp)\<close>

datatype sharing_mode = SharedMode | BranchMode | ReadonlyMode | ScratchMode

record sub_worktree =
  sw_name :: string
  sw_backing_ref_name :: string
  sw_mode :: sharing_mode
  sw_pinned_digest :: digest
  sw_base_digest :: digest

definition empty_tree_digest :: "digest_fn \<Rightarrow> digest result" where
  "empty_tree_digest dig = dig (canonical_tree_bytes [])"

definition create_sub_worktree ::
  "digest_fn \<Rightarrow> 's log_ops \<Rightarrow> 'n num_ops \<Rightarrow> 's \<Rightarrow> worktree_ref \<Rightarrow> string \<Rightarrow> sharing_mode
   \<Rightarrow> sub_worktree result \<times> 's" where
  "create_sub_worktree dig ops nm st parent child_name mode =
     (case mode of
        SharedMode \<Rightarrow>
          (Inr \<lparr>sw_name = child_name, sw_backing_ref_name = wr_name parent, sw_mode = mode,
                sw_pinned_digest = [], sw_base_digest = []\<rparr>, st)
      | BranchMode \<Rightarrow>
          (case commit_ref ops nm st child_name (wr_tree_digest parent) of
             (Inl e, st') \<Rightarrow> (Inl e, st')
           | (Inr r, st') \<Rightarrow>
               (Inr \<lparr>sw_name = child_name, sw_backing_ref_name = wr_name r, sw_mode = mode,
                     sw_pinned_digest = [], sw_base_digest = wr_tree_digest parent\<rparr>, st'))
      | ScratchMode \<Rightarrow>
          (case empty_tree_digest dig of
             Inl e \<Rightarrow> (Inl e, st)
           | Inr d \<Rightarrow>
               (case commit_ref ops nm st child_name d of
                  (Inl e, st') \<Rightarrow> (Inl e, st')
                | (Inr r, st') \<Rightarrow>
                    (Inr \<lparr>sw_name = child_name, sw_backing_ref_name = wr_name r, sw_mode = mode,
                          sw_pinned_digest = [], sw_base_digest = []\<rparr>, st')))
      | ReadonlyMode \<Rightarrow>
          (Inr \<lparr>sw_name = child_name, sw_backing_ref_name = [], sw_mode = mode,
                sw_pinned_digest = wr_tree_digest parent, sw_base_digest = []\<rparr>, st))"

definition read_sub_worktree ::
  "'s log_ops \<Rightarrow> 'n num_ops \<Rightarrow> 's \<Rightarrow> sub_worktree \<Rightarrow> worktree_ref option result" where
  "read_sub_worktree ops nm st sub =
     (if sw_mode sub = ReadonlyMode
      then Inr (Some \<lparr>wr_name = sw_name sub, wr_tree_digest = sw_pinned_digest sub\<rparr>)
      else read_ref ops nm st (sw_backing_ref_name sub))"

definition write_sub_worktree ::
  "'s log_ops \<Rightarrow> 'n num_ops \<Rightarrow> 's \<Rightarrow> sub_worktree \<Rightarrow> digest \<Rightarrow> worktree_ref result \<times> 's" where
  "write_sub_worktree ops nm st sub d =
     (if sw_mode sub = ReadonlyMode
      then (Inl (Error Policy ''worktree.readonly_write_rejected''), st)
      else commit_ref ops nm st (sw_backing_ref_name sub) d)"

section \<open>Trees are canonical\<close>

text \<open>The bytes a digest is computed over determine the tree.\<close>

definition encodable :: "tree \<Rightarrow> bool" where
  "encodable t \<longleftrightarrow> length t < 2 ^ 32 \<and> (\<forall>e\<in>set t. length (te_name e) < 2 ^ 32 \<and> length (te_digest e) < 2 ^ 32)"

lemma encode_entry_append_inj:
  assumes "encode_entry e @ xs = encode_entry f @ ys"
    and "length (te_name e) < 2 ^ 32" "length (te_digest e) < 2 ^ 32"
    and "length (te_name f) < 2 ^ 32" "length (te_digest f) < 2 ^ 32"
  shows "e = f \<and> xs = ys"
proof -
  let ?flag = "\<lambda>e. if te_is_tree e then 1 else 0 :: u8"
  have a: "te_name e = te_name f \<and> put_str (te_digest e) @ ?flag e # xs = put_str (te_digest f) @ ?flag f # ys"
    using assms by (intro put_str_append_inj) (simp_all add: encode_entry_def)
  then have b: "te_digest e = te_digest f \<and> ?flag e # xs = ?flag f # ys"
    using assms by (intro put_str_append_inj) auto
  then have "te_is_tree e = te_is_tree f" by (auto split: if_splits)
  with a b show ?thesis by simp
qed

lemma encode_entries_inj:
  "length t = length u \<Longrightarrow> concat (map encode_entry t) = concat (map encode_entry u) \<Longrightarrow>
   \<forall>e\<in>set t \<union> set u. length (te_name e) < 2 ^ 32 \<and> length (te_digest e) < 2 ^ 32 \<Longrightarrow> t = u"
proof (induction t u rule: list_induct2)
  case (Cons e t f u)
  have "e = f \<and> concat (map encode_entry t) = concat (map encode_entry u)"
    using Cons.prems by (intro encode_entry_append_inj) auto
  with Cons show ?case by auto
qed simp

lemma canonical_tree_bytes_inj:
  assumes "canonical_tree_bytes t = canonical_tree_bytes u" and "encodable t" and "encodable u"
  shows "t = u"
proof -
  have "(of_nat (length t) :: u32) = of_nat (length u)"
    and c: "concat (map encode_entry t) = concat (map encode_entry u)"
    using assms(1) by (simp_all add: canonical_tree_bytes_def append_eq_append_conv codec_simps)
  then have "length t = length u" using assms(2,3) by (metis encodable_def unat_of_nat_small32)
  with c assms(2,3) show ?thesis by (intro encode_entries_inj) (auto simp: encodable_def)
qed

lemma sort_tree_unique:
  assumes "set t = set u" and "distinct (map te_name t)" and "distinct (map te_name u)"
  shows "sort_tree t = sort_tree u"
proof -
  have "map te_name (sort_tree t) = map te_name (sort_tree u)"
    using assms
    by (intro sorted_distinct_set_unique) (simp_all add: sort_tree_def distinct_map)
  moreover have "inj_on te_name (set (sort_tree t) \<union> set (sort_tree u))"
    using assms by (simp add: sort_tree_def distinct_map)
  ultimately show ?thesis by (rule map_inj_on)
qed

lemma sort_tree_idem [simp]: "sort_tree (sort_tree t) = sort_tree t"
  by (simp add: sort_tree_def sort_key_id_if_sorted)

lemma encodable_sort_tree [simp]: "encodable (sort_tree t) = encodable t"
  by (simp add: encodable_def sort_tree_def)

section \<open>Log entries of refs\<close>

lemma decode_encode_ref_moved: "decode_ref_moved nm (encode_ref_moved nm d) = Inr d"
proof -
  have "within_budget default_budget (ref_moved_to_json d)"
    by (simp add: within_budget_def default_budget_def ref_moved_to_json_def)
  then have "parse nm (dump nm (ref_moved_to_json d)) default_budget = Inr (ref_moved_to_json d)"
    by (rule parse_dump) (simp add: ref_moved_to_json_def)
  then show ?thesis
    by (simp only: decode_ref_moved_def encode_ref_moved_def map_char_of_byte sum.case)
      (simp add: ref_moved_from_json_def ref_moved_to_json_def)
qed

lemma ref_log_id_inj [simp]: "ref_log_id a = ref_log_id b \<longleftrightarrow> a = b"
  by (simp add: ref_log_id_def)

section \<open>Refs over any append log\<close>

text \<open>The operations that write refs, as steps: a commit of either kind, a rewind, the creation of a
  sub-worktree and a write through one. Failed steps are steps too.\<close>

datatype ref_op =
    CommitRef string digest
  | CommitTurn string digest
  | RewindTurn string u64
  | CreateSub worktree_ref string sharing_mode
  | WriteSub sub_worktree digest

fun ref_step :: "digest_fn \<Rightarrow> 's log_ops \<Rightarrow> 'n num_ops \<Rightarrow> ref_op \<Rightarrow> 's \<Rightarrow> 's" where
  "ref_step dig ops nm (CommitRef name d) st = snd (commit_ref ops nm st name d)"
| "ref_step dig ops nm (CommitTurn name d) st = snd (commit_turn ops nm st name d)"
| "ref_step dig ops nm (RewindTurn name t) st = snd (rewind_to_turn ops nm st name t)"
| "ref_step dig ops nm (CreateSub parent child mode) st = snd (create_sub_worktree dig ops nm st parent child mode)"
| "ref_step dig ops nm (WriteSub sub d) st = snd (write_sub_worktree ops nm st sub d)"

definition ref_run :: "digest_fn \<Rightarrow> 's log_ops \<Rightarrow> 'n num_ops \<Rightarrow> ref_op list \<Rightarrow> 's \<Rightarrow> 's" where
  "ref_run dig ops nm rs st = fold (ref_step dig ops nm) rs st"

text \<open>Every one of them writes at most one entry, to the log of one ref.\<close>

fun ref_target :: "ref_op \<Rightarrow> string" where
  "ref_target (CommitRef name d) = name"
| "ref_target (CommitTurn name d) = name"
| "ref_target (RewindTurn name t) = name"
| "ref_target (CreateSub parent child mode) = child"
| "ref_target (WriteSub sub d) = sw_backing_ref_name sub"

lemma commit_state:
  "snd (commit_ref_impl ops nm st name d) = snd (lo_append ops st (ref_log_id name) (encode_ref_moved nm d))"
  "snd (commit_ref ops nm st name d) = snd (lo_append ops st (ref_log_id name) (encode_ref_moved nm d))"
  "snd (commit_turn ops nm st name d) = snd (lo_append ops st (ref_log_id name) (encode_ref_moved nm d))"
  by (auto simp: commit_ref_impl_def commit_ref_def commit_turn_def split: prod.splits sum.splits)

lemma commit_result:
  "fst (commit_ref ops nm st name d) = Inr r \<longleftrightarrow>
     r = \<lparr>wr_name = name, wr_tree_digest = d\<rparr> \<and> is_ok (fst (lo_append ops st (ref_log_id name) (encode_ref_moved nm d)))"
  "fst (commit_turn ops nm st name d) = Inr tc \<longleftrightarrow>
     tc_ref tc = \<lparr>wr_name = name, wr_tree_digest = d\<rparr> \<and>
     fst (lo_append ops st (ref_log_id name) (encode_ref_moved nm d)) = Inr (tc_turn tc)"
  by (auto simp: commit_ref_impl_def commit_ref_def commit_turn_def split: prod.splits sum.splits)

lemma ref_step_cases:
  "ref_step dig ops nm op st = st \<or>
   (\<exists>d. ref_step dig ops nm op st = snd (lo_append ops st (ref_log_id (ref_target op)) (encode_ref_moved nm d)))"
proof (cases op)
  case (RewindTurn name t)
  then show ?thesis
    by (cases "turn_digest_at ops nm st name t") (auto simp: rewind_to_turn_def commit_state)
next
  case (CreateSub parent child mode)
  have "snd (case commit_ref ops nm st child d of (Inl e, st') \<Rightarrow> (Inl e, st') | (Inr r, st') \<Rightarrow> (Inr (f r), st'))
      = snd (commit_ref ops nm st child d)" for d and f :: "worktree_ref \<Rightarrow> sub_worktree"
    by (auto split: prod.splits sum.splits)
  then show ?thesis
    using CreateSub by (auto simp: create_sub_worktree_def commit_state split: sharing_mode.splits sum.splits)
next
  case (WriteSub sub d)
  then show ?thesis by (auto simp: write_sub_worktree_def commit_state)
qed (auto simp: commit_state)

text \<open>The digests a ref has been moved to, in order, in a store with these entries.\<close>

definition ref_history :: "'n num_ops \<Rightarrow> (string \<Rightarrow> u8 list list) \<Rightarrow> string \<Rightarrow> digest list \<Rightarrow> bool" where
  "ref_history nm entries name ds \<longleftrightarrow> entries (ref_log_id name) = map (encode_ref_moved nm) ds"

locale ref_log = append_log +
  fixes nm :: "'n num_ops"
begin

lemma step_extends:
  assumes "wf s" shows "wf (ref_step dig ops nm op s) \<and> (\<exists>tail. entries (ref_step dig ops nm op s) j = entries s j @ tail)"
proof (cases "ref_step dig ops nm op s = s")
  case True
  then show ?thesis using assms by simp
next
  case False
  then obtain d where d: "ref_step dig ops nm op s = snd (lo_append ops s (ref_log_id (ref_target op)) (encode_ref_moved nm d))"
    using ref_step_cases [of dig ops nm op s] by blast
  obtain r s' where "lo_append ops s (ref_log_id (ref_target op)) (encode_ref_moved nm d) = (r, s')"
    by (cases "lo_append ops s (ref_log_id (ref_target op)) (encode_ref_moved nm d)")
  with d show ?thesis using append_wf [OF assms] append_extends [OF assms] by auto
qed

lemma run_extends:
  "wf s \<Longrightarrow> wf (ref_run dig ops nm rs s) \<and> (\<exists>tail. entries (ref_run dig ops nm rs s) j = entries s j @ tail)"
proof (induction rs arbitrary: s)
  case (Cons op rs)
  from step_extends [OF Cons.prems, of dig op j] obtain tail
    where "wf (ref_step dig ops nm op s)" "entries (ref_step dig ops nm op s) j = entries s j @ tail" by blast
  with Cons.IH [of "ref_step dig ops nm op s"] show ?case by (auto simp: ref_run_def)
qed (simp add: ref_run_def)

lemma turn_digest_entry:
  assumes "wf s" and "turn_digest_at ops nm s name t = Inr d"
  shows "t \<noteq> 0 \<and> unat t \<le> length (entries s (ref_log_id name)) \<and>
    decode_ref_moved nm (entries s (ref_log_id name) ! (unat t - 1)) = Inr d"
proof -
  from assms(2) obtain xs where t: "t \<noteq> 0" and r: "lo_read_from ops s (ref_log_id name) (t - 1) = Inr xs"
    and xs: "xs \<noteq> []" "decode_ref_moved nm (hd xs) = Inr d"
    by (auto simp: turn_digest_at_def split: if_splits sum.splits)
  have u: "unat (t - 1) = unat t - 1" "0 < unat t" using t by (simp_all add: unat_minus_one unat_gt_0)
  have "xs = drop (unat t - 1) (entries s (ref_log_id name))" using read_ok [OF assms(1) r] u by simp
  then show ?thesis using xs t u by (auto simp: hd_drop_conv_nth)
qed

lemma read_ref_last:
  assumes "wf s" and "ref_history nm (entries s) name ds" and "read_ref ops nm s name = Inr r"
  shows "r = (if ds = [] then None else Some \<lparr>wr_name = name, wr_tree_digest = last ds\<rparr>)"
proof -
  from assms(3) obtain raw where raw: "lo_read_from ops s (ref_log_id name) 0 = Inr raw"
    by (auto simp: read_ref_def split: sum.splits)
  have "raw = map (encode_ref_moved nm) ds" using read_ok [OF assms(1) raw] assms(2) by (simp add: ref_history_def)
  with assms(3) raw show ?thesis by (auto simp: read_ref_def last_map decode_encode_ref_moved split: if_splits)
qed

lemma commit_turn_history:
  assumes "wf s" and "ref_history nm (entries s) name ds" and "commit_turn ops nm s name d = (Inr tc, s')"
  shows "wf s' \<and> ref_history nm (entries s') name (ds @ [d]) \<and> tc_ref tc = \<lparr>wr_name = name, wr_tree_digest = d\<rparr>
    \<and> tc_turn tc = of_nat (Suc (length ds)) \<and> (\<forall>j. j \<noteq> ref_log_id name \<longrightarrow> entries s' j = entries s j)"
proof -
  obtain n where a: "lo_append ops s (ref_log_id name) (encode_ref_moved nm d) = (Inr n, s')"
    and tc: "tc_turn tc = n" "tc_ref tc = \<lparr>wr_name = name, wr_tree_digest = d\<rparr>"
    using assms(3) commit_result(2) [of ops nm s name d tc] commit_state(3) [of ops nm s name d]
    by (cases "lo_append ops s (ref_log_id name) (encode_ref_moved nm d)") auto
  show ?thesis
    using append_wf [OF assms(1) a] append_ok [OF assms(1) a] assms(2) tc by (auto simp: ref_history_def)
qed

lemma rewind_history:
  assumes "wf s" and "ref_history nm (entries s) name ds" and "rewind_to_turn ops nm s name t = (Inr tc, s')"
  shows "0 < unat t \<and> unat t \<le> length ds \<and> wf s' \<and> ref_history nm (entries s') name (ds @ [ds ! (unat t - 1)])
    \<and> tc_turn tc = of_nat (Suc (length ds))"
proof -
  from assms(3) obtain d where d: "turn_digest_at ops nm s name t = Inr d"
    and c: "commit_turn ops nm s name d = (Inr tc, s')"
    by (auto simp: rewind_to_turn_def split: sum.splits)
  note e = turn_digest_entry [OF assms(1) d]
  have t: "0 < unat t" "unat t \<le> length ds" using e assms(2) by (simp_all add: ref_history_def unat_gt_0)
  then have "unat t - 1 < length ds" by linarith
  with e assms(2) have "d = ds ! (unat t - 1)" by (simp add: ref_history_def decode_encode_ref_moved)
  with t commit_turn_history [OF assms(1,2) c] show ?thesis by simp
qed

end

interpretation disk_refs: ref_log file_ops file_wf file_entries nm for nm :: "'n num_ops"
  by unfold_locales

interpretation mem_refs: ref_log memory_ops "\<lambda>s. True" "\<lambda>s. s" nm for nm :: "'n num_ops"
  by unfold_locales

section \<open>Refs in memory\<close>

lemma memory_ops_simps [simp]:
  "lo_append memory_ops lg i b = (Inr (of_nat (Suc (length (lg i)))), lg(i := lg i @ [b]))"
  "lo_read_from memory_ops lg i k = Inr (drop (unat k) (lg i))"
  by (simp_all add: memory_ops_def log_append_def log_read_from_def)

lemma commit_ref_memory:
  "commit_ref memory_ops nm lg name d =
     (Inr \<lparr>wr_name = name, wr_tree_digest = d\<rparr>, lg(ref_log_id name := lg (ref_log_id name) @ [encode_ref_moved nm d]))"
  by (simp add: commit_ref_def commit_ref_impl_def)

lemma commit_turn_memory:
  "commit_turn memory_ops nm lg name d =
     (Inr \<lparr>tc_ref = \<lparr>wr_name = name, wr_tree_digest = d\<rparr>, tc_turn = of_nat (Suc (length (lg (ref_log_id name))))\<rparr>,
      lg(ref_log_id name := lg (ref_log_id name) @ [encode_ref_moved nm d]))"
  by (simp add: commit_turn_def commit_ref_impl_def)

lemma read_ref_memory_commit [simp]:
  "read_ref memory_ops nm (lg(ref_log_id name := es @ [encode_ref_moved nm d])) name
     = Inr (Some \<lparr>wr_name = name, wr_tree_digest = d\<rparr>)"
  by (simp add: read_ref_def decode_encode_ref_moved)

lemma read_ref_memory_other [simp]:
  "a \<noteq> name \<Longrightarrow> read_ref memory_ops nm (lg(ref_log_id name := es)) a = read_ref memory_ops nm lg a"
  by (simp add: read_ref_def)

lemma turn_digest_memory:
  assumes "ref_history nm lg name ds" and "i < length ds" and "length ds < 2 ^ 64"
  shows "turn_digest_at memory_ops nm lg name (of_nat (Suc i)) = Inr (ds ! i)"
proof -
  have u: "unat (of_nat i :: u64) = i" "unat (of_nat (Suc i) :: u64) = Suc i"
    using assms(2,3) by (simp_all add: unsigned_of_nat take_bit_nat_eq_self del: of_nat_Suc)
  then have "(of_nat (Suc i) :: u64) \<noteq> 0" by (metis nat.distinct(1) unsigned_0)
  moreover have "(of_nat (Suc i) :: u64) - 1 = of_nat i" by simp
  ultimately show ?thesis
    using assms(1,2) u by (simp add: turn_digest_at_def ref_history_def drop_map hd_map hd_drop_conv_nth decode_encode_ref_moved
        del: of_nat_Suc)
qed

fun write_all :: "'n num_ops \<Rightarrow> sub_worktree \<Rightarrow> digest list \<Rightarrow> memory_log \<Rightarrow> memory_log" where
  "write_all nm sub [] lg = lg"
| "write_all nm sub (d # ds) lg = write_all nm sub ds (snd (write_sub_worktree memory_ops nm lg sub d))"

lemma write_all_readonly: "sw_mode sub = ReadonlyMode \<Longrightarrow> write_all nm sub ds lg = lg"
  by (induction ds) (simp_all add: write_sub_worktree_def)

lemma write_all_backing:
  assumes "sw_mode sub \<noteq> ReadonlyMode"
  shows "read_ref memory_ops nm (write_all nm sub ds lg) (sw_backing_ref_name sub) =
      (if ds = [] then read_ref memory_ops nm lg (sw_backing_ref_name sub)
       else Inr (Some \<lparr>wr_name = sw_backing_ref_name sub, wr_tree_digest = last ds\<rparr>))"
    and "a \<noteq> sw_backing_ref_name sub \<Longrightarrow>
      read_ref memory_ops nm (write_all nm sub ds lg) a = read_ref memory_ops nm lg a"
  using assms by (induction ds arbitrary: lg) (simp_all add: write_sub_worktree_def commit_ref_memory)

section \<open>Properties\<close>

text \<open>C20. A committed turn is permanent, on the durable store and under every fault of the operating system:
  after a successful turn commit and any later sequence of commits, rewinds, sub-worktree creations and
  writes on any refs, failed ones included, the turn number the commit returned still names the digest
  that was committed, and so does every earlier turn number: a later read of a turn that succeeds returns
  the same digest as before.\<close>

theorem committed_turn_permanent:
  assumes "file_wf st" and "length (file_entries st (ref_log_id name)) < 2 ^ 64 - 1"
    and "commit_turn file_ops nm st name d = (Inr tc, st1)" and "st2 = ref_run dig file_ops nm rs st1"
  shows "file_wf st2 \<and>
    (\<forall>x. turn_digest_at file_ops nm st2 name (tc_turn tc) = Inr x \<longrightarrow> x = d) \<and>
    (\<forall>a t x y. turn_digest_at file_ops nm st1 a t = Inr x \<longrightarrow> turn_digest_at file_ops nm st2 a t = Inr y \<longrightarrow> y = x)"
proof -
  let ?n = "length (file_entries st (ref_log_id name))"
  obtain n where a: "append_blocking st (ref_log_id name) (encode_ref_moved nm d) = (Inr n, st1)" and n: "tc_turn tc = n"
    using assms(3) commit_result(2) [of file_ops nm st name d tc] commit_state(3) [of file_ops nm st name d]
    by (cases "append_blocking st (ref_log_id name) (encode_ref_moved nm d)") auto
  have wf1: "file_wf st1" using disk.append_wf [OF assms(1)] a by simp
  have e: "file_entries st1 (ref_log_id name) = file_entries st (ref_log_id name) @ [encode_ref_moved nm d]"
    and "n = of_nat (Suc ?n)"
    using disk.append_ok [OF assms(1)] a by simp_all
  then have u: "unat (tc_turn tc) = Suc ?n"
    using assms(2) n by (simp add: unsigned_of_nat take_bit_nat_eq_self del: of_nat_Suc)
  have ext: "\<exists>tail. file_entries st2 j = file_entries st1 j @ tail" and wf2: "file_wf st2" for j
    using disk_refs.run_extends [OF wf1, of dig nm rs j] assms(4) by auto
  have "x = d" if x: "turn_digest_at file_ops nm st2 name (tc_turn tc) = Inr x" for x
    using disk_refs.turn_digest_entry [OF wf2 x] ext [of "ref_log_id name"] e u
    by (auto simp: nth_append decode_encode_ref_moved)
  moreover have "y = x" if x: "turn_digest_at file_ops nm st1 a t = Inr x"
    and y: "turn_digest_at file_ops nm st2 a t = Inr y" for a t x y
  proof -
    note ex = disk_refs.turn_digest_entry [OF wf1 x]
    then have "unat t - 1 < length (file_entries st1 (ref_log_id a))" 
      using unat_gt_0 [of t] by linarith
    with ex disk_refs.turn_digest_entry [OF wf2 y] ext [of "ref_log_id a"] show ?thesis
      by (auto simp: nth_append)
  qed
  ultimately show ?thesis using wf2 by blast
qed

theorem committed_turn_permanent_witness:
  "\<exists>tc st1. commit_turn file_ops int_ops (demo_log []) ''m'' ''d1'' = (Inr tc, st1) \<and>
     file_wf (ref_run (\<lambda>b. Inr []) file_ops int_ops [CommitRef ''m'' ''d2'', RewindTurn ''m'' 1] st1)"
proof -
  let ?st = "demo_log []"
  have p: "path_for (ref_log_id ''m'') = Inr (ref_log_id ''m'')" by (simp add: path_for_def ref_log_id_def)
  have e: "file_entries ?st (ref_log_id ''m'') = []" using p by (simp add: file_entries_def demo_log_def ref_log_id_def)
  have "length (encode_ref_moved int_ops ''d1'') < 2 ^ 32 - 1"
    by (simp add: encode_ref_moved_def dump_text ref_moved_to_json_def text_of_object entry_text_def quoted_def
        escaped_def unescaped_def quote_char_def backslash_def del: text_of.simps(6))
  then have "\<exists>n st1. append_blocking ?st (ref_log_id ''m'') (encode_ref_moved int_ops ''d1'') = (Inr n, st1)"
    using p by (simp add: append_blocking_def append_locked_def Let_def next_faults_def demo_log_def no_faults_def
        scan_log_def fresh_scan_def damage_error_def ref_log_id_def)
  then obtain n st1 where "append_blocking ?st (ref_log_id ''m'') (encode_ref_moved int_ops ''d1'') = (Inr n, st1)" by blast
  then have c: "commit_turn file_ops int_ops ?st ''m'' ''d1''
      = (Inr \<lparr>tc_ref = \<lparr>wr_name = ''m'', wr_tree_digest = ''d1''\<rparr>, tc_turn = n\<rparr>, st1)"
    by (simp add: commit_turn_def commit_ref_impl_def)
  show ?thesis
    using c committed_turn_permanent [OF demo_log_wf _ c refl, of "\<lambda>b. Inr []" "[CommitRef ''m'' ''d2'', RewindTurn ''m'' 1]"] e
    by auto
qed

text \<open>Rewinding is a reassignment, never an edit of history: rewinding a ref to any retained turn succeeds,
  makes that turn's digest the ref's current one, records the rewind as the next turn, and leaves every
  earlier turn naming the digest it named.\<close>

theorem rewind_restores_turn:
  assumes "ref_history nm lg name ds" and "i < length ds" and "length ds < 2 ^ 64 - 1"
  shows "\<exists>tc lg'. rewind_to_turn memory_ops nm lg name (of_nat (Suc i)) = (Inr tc, lg') \<and>
    tc_turn tc = of_nat (Suc (length ds)) \<and>
    read_ref memory_ops nm lg' name = Inr (Some \<lparr>wr_name = name, wr_tree_digest = ds ! i\<rparr>) \<and>
    (\<forall>j < length ds. turn_digest_at memory_ops nm lg' name (of_nat (Suc j)) = Inr (ds ! j)) \<and>
    turn_digest_at memory_ops nm lg' name (tc_turn tc) = Inr (ds ! i)"
proof -
  let ?lg = "lg(ref_log_id name := lg (ref_log_id name) @ [encode_ref_moved nm (ds ! i)])"
  have h: "ref_history nm ?lg name (ds @ [ds ! i])" using assms(1) by (simp add: ref_history_def)
  have l: "length (ds @ [ds ! i]) < 2 ^ 64" using assms(3) by simp
  have n: "length (lg (ref_log_id name)) = length ds" using assms(1) by (simp add: ref_history_def)
  have "turn_digest_at memory_ops nm lg name (of_nat (Suc i)) = Inr (ds ! i)"
    using assms(3) by (intro turn_digest_memory [OF assms(1,2)]) simp
  moreover have "turn_digest_at memory_ops nm ?lg name (of_nat (Suc j)) = Inr (ds ! j)" if "j < length ds" for j
    using turn_digest_memory [OF h _ l, of j] that by (simp add: nth_append del: of_nat_Suc)
  moreover have "turn_digest_at memory_ops nm ?lg name (of_nat (Suc (length ds))) = Inr (ds ! i)"
    using turn_digest_memory [OF h _ l, of "length ds"] by (simp del: of_nat_Suc)
  ultimately show ?thesis by (simp add: rewind_to_turn_def commit_turn_memory n del: of_nat_Suc)
qed

theorem rewind_restores_turn_witness:
  "\<exists>tc lg'. rewind_to_turn memory_ops int_ops
      (\<lambda>i. if i = ref_log_id ''m'' then map (encode_ref_moved int_ops) [''d1'', ''d2''] else []) ''m'' (of_nat (Suc 0)) = (Inr tc, lg')
    \<and> read_ref memory_ops int_ops lg' ''m'' = Inr (Some \<lparr>wr_name = ''m'', wr_tree_digest = ''d1''\<rparr>)"
proof -
  have "ref_history int_ops (\<lambda>i. if i = ref_log_id ''m'' then map (encode_ref_moved int_ops) [''d1'', ''d2''] else []) ''m'' [''d1'', ''d2'']"
    by (simp add: ref_history_def)
  from rewind_restores_turn [OF this, of 0] show ?thesis by auto
qed

text \<open>The sharing mode decides who sees a sub-worktree's writes. Whatever is written through a branch, a
  scratch or a readonly sub-worktree of another name, the parent's ref is unchanged; writes through a
  shared one are the parent's. Reading the sub-worktree back returns the last write; with none it returns
  what the mode starts from: the parent's tree for a branch, the empty tree for scratch. A readonly
  sub-worktree always shows the tree the parent had at creation.\<close>

theorem sub_worktree_isolation:
  assumes "create_sub_worktree dig memory_ops nm lg parent child mode = (Inr sub, lg1)"
    and "child \<noteq> wr_name parent" and "lg2 = write_all nm sub ds lg1"
  shows "read_ref memory_ops nm lg2 (wr_name parent) =
      (if mode = SharedMode \<and> ds \<noteq> [] then Inr (Some \<lparr>wr_name = wr_name parent, wr_tree_digest = last ds\<rparr>)
       else read_ref memory_ops nm lg (wr_name parent)) \<and>
    read_sub_worktree memory_ops nm lg2 sub =
      (case mode of
         SharedMode \<Rightarrow> read_ref memory_ops nm lg2 (wr_name parent)
       | BranchMode \<Rightarrow> Inr (Some \<lparr>wr_name = child, wr_tree_digest = (if ds = [] then wr_tree_digest parent else last ds)\<rparr>)
       | ScratchMode \<Rightarrow>
           Inr (Some \<lparr>wr_name = child,
             wr_tree_digest = (if ds = [] then (case empty_tree_digest dig of Inr d \<Rightarrow> d | Inl e \<Rightarrow> []) else last ds)\<rparr>)
       | ReadonlyMode \<Rightarrow> Inr (Some \<lparr>wr_name = child, wr_tree_digest = wr_tree_digest parent\<rparr>))"
proof (cases mode)
  case SharedMode
  then show ?thesis using assms write_all_backing(1) [of sub nm ds lg1] write_all_backing(2) [of sub "wr_name parent" nm ds lg1]
    by (auto simp: create_sub_worktree_def read_sub_worktree_def)
next
  case BranchMode
  then show ?thesis using assms write_all_backing(1) [of sub nm ds lg1] write_all_backing(2) [of sub "wr_name parent" nm ds lg1]
    by (auto simp: create_sub_worktree_def read_sub_worktree_def commit_ref_memory)
next
  case ReadonlyMode
  then show ?thesis using assms write_all_readonly [of sub nm ds lg1]
    by (auto simp: create_sub_worktree_def read_sub_worktree_def)
next
  case ScratchMode
  then show ?thesis using assms write_all_backing(1) [of sub nm ds lg1] write_all_backing(2) [of sub "wr_name parent" nm ds lg1]
    by (auto simp: create_sub_worktree_def read_sub_worktree_def commit_ref_memory split: sum.splits)
qed

theorem sub_worktree_isolation_witness:
  "\<exists>sub lg1. create_sub_worktree (\<lambda>b. Inr ''e'') memory_ops int_ops (\<lambda>i. []) \<lparr>wr_name = ''p'', wr_tree_digest = ''d''\<rparr> ''c'' BranchMode
      = (Inr sub, lg1) \<and>
    read_ref memory_ops int_ops (write_all int_ops sub [''x'', ''y''] lg1) ''p'' = Inr None \<and>
    read_sub_worktree memory_ops int_ops (write_all int_ops sub [''x'', ''y''] lg1) sub
      = Inr (Some \<lparr>wr_name = ''c'', wr_tree_digest = ''y''\<rparr>)"
proof -
  obtain sub lg1 where c: "create_sub_worktree (\<lambda>b. Inr ''e'') memory_ops int_ops (\<lambda>i. [])
      \<lparr>wr_name = ''p'', wr_tree_digest = ''d''\<rparr> ''c'' BranchMode = (Inr sub, lg1)"
    by (simp add: create_sub_worktree_def commit_ref_memory)
  from sub_worktree_isolation [OF c _ refl, of "[''x'', ''y'']"] c show ?thesis by (auto simp: read_ref_def)
qed

text \<open>A tree's digest is computed over bytes that name exactly one tree, whatever order its entries were
  given in: two lists of entries without repeated names are stored under the same bytes if and only if
  they have the same entries (names, digests and kinds), for fields and counts that fit 32 bits; and a
  stored tree is read back with exactly its entries, sorted.\<close>

theorem tree_addressing_canonical:
  assumes "distinct (map te_name t)" and "distinct (map te_name u)" and "encodable t" and "encodable u"
  shows "(canonical_tree_bytes (sort_tree t) = canonical_tree_bytes (sort_tree u) \<longleftrightarrow> set t = set u) \<and>
    (set t = set u \<longrightarrow> put_tree dig st t = put_tree dig st u) \<and>
    (\<forall>d st'. put_tree dig st t = (Inr d, st') \<longrightarrow> get_tree st' d = Inr (sort_tree t) \<and> set (sort_tree t) = set t)"
proof -
  have "set t = set u" if "canonical_tree_bytes (sort_tree t) = canonical_tree_bytes (sort_tree u)"
  proof -
    have "sort_tree t = sort_tree u" using that assms(3,4) by (intro canonical_tree_bytes_inj) simp_all
    then show ?thesis by (metis set_sort sort_tree_def)
  qed
  moreover have "sort_tree t = sort_tree u" if "set t = set u" using that assms by (intro sort_tree_unique)
  ultimately show ?thesis by (auto simp: put_tree_def get_tree_def sort_tree_def split: sum.splits)
qed

theorem tree_addressing_canonical_witness:
  "put_tree compute_digest empty_object_store [\<lparr>te_name = ''b'', te_digest = ''1'', te_is_tree = False\<rparr>, \<lparr>te_name = ''a'', te_digest = ''2'', te_is_tree = True\<rparr>]
   = put_tree compute_digest empty_object_store [\<lparr>te_name = ''a'', te_digest = ''2'', te_is_tree = True\<rparr>, \<lparr>te_name = ''b'', te_digest = ''1'', te_is_tree = False\<rparr>]"
  using tree_addressing_canonical [of
      "[\<lparr>te_name = ''b'', te_digest = ''1'', te_is_tree = False\<rparr>, \<lparr>te_name = ''a'', te_digest = ''2'', te_is_tree = True\<rparr>]"
      "[\<lparr>te_name = ''a'', te_digest = ''2'', te_is_tree = True\<rparr>, \<lparr>te_name = ''b'', te_digest = ''1'', te_is_tree = False\<rparr>]" compute_digest empty_object_store]
  by (auto simp: encodable_def)

end
