(* ===== verification/WorktreeMerge.thy ===== *)
theory WorktreeMerge
  imports Worktree
begin

text \<open>
  The three-way merge of a branch back into its parent (\<^verbatim>\<open>core/worktree_merge.hpp\<close>). The recursion
  into subtrees carries fuel, since nothing in the code bounds the depth of a tree; the lemmas show that
  the depth of the branch's tree is enough. Other writers of the ref store may act before
  every one of its ref operations, also between the last read of the parent and the commit, which nothing
  in the code joins into one step.
\<close>

section \<open>Merging trees\<close>

record merge_conflict =
  mc_path :: string
  mc_base :: "tree_entry option"
  mc_ours :: "tree_entry option"
  mc_theirs :: "tree_entry option"

record merge_result =
  mr_tree_digest :: digest
  mr_conflicts :: "merge_conflict list"

definition merged_as :: "digest \<Rightarrow> merge_result" where
  "merged_as d = \<lparr>mr_tree_digest = d, mr_conflicts = []\<rparr>"

definition tree_entries_equal :: "tree_entry option \<Rightarrow> tree_entry option \<Rightarrow> bool" where
  "tree_entries_equal a b =
     (case (a, b) of
        (None, None) \<Rightarrow> True
      | (Some x, Some y) \<Rightarrow> te_digest x = te_digest y \<and> te_is_tree x = te_is_tree y
      | _ \<Rightarrow> False)"

text \<open>Building a map with \<^verbatim>\<open>emplace\<close> keeps the first entry of a name.\<close>

definition find_entry :: "tree \<Rightarrow> string \<Rightarrow> tree_entry option" where
  "find_entry t n = List.find (\<lambda>e. te_name e = n) t"

definition all_names :: "tree \<Rightarrow> tree \<Rightarrow> tree \<Rightarrow> string list" where
  "all_names b o' t = sort (remdups (map te_name (b @ o' @ t)))"

type_synonym merged = "(merge_result result \<times> object_store) option"
type_synonym merge_fn = "digest option \<Rightarrow> digest \<Rightarrow> digest \<Rightarrow> string \<Rightarrow> object_store \<Rightarrow> merged"

definition keep :: "tree_entry option \<Rightarrow> tree_entry list \<Rightarrow> tree_entry list" where
  "keep e entries = (case e of None \<Rightarrow> entries | Some x \<Rightarrow> entries @ [x])"

text \<open>One name: the entry to keep, if any, or the conflicts to report. \<open>sub\<close> merges a subtree.\<close>

definition merge_name :: "merge_fn \<Rightarrow> tree_entry option \<Rightarrow> tree_entry option \<Rightarrow> tree_entry option \<Rightarrow> string \<Rightarrow> string
    \<Rightarrow> object_store \<Rightarrow> ((tree_entry option + merge_conflict list) result \<times> object_store) option" where
  "merge_name sub b o' t path_prefix name st =
     (if tree_entries_equal o' t then Some (Inr (Inl o'), st)
      else if tree_entries_equal o' b then Some (Inr (Inl t), st)
      else if tree_entries_equal t b then Some (Inr (Inl o'), st)
      else if o' \<noteq> None \<and> t \<noteq> None \<and> te_is_tree (the o') \<and> te_is_tree (the t) then
        (let sub_base = (if b \<noteq> None \<and> te_is_tree (the b) then Some (te_digest (the b)) else None)
         in case sub sub_base (te_digest (the o')) (te_digest (the t)) (path_prefix @ name @ ''/'') st of
              None \<Rightarrow> None
            | Some (Inl e, st') \<Rightarrow> Some (Inl e, st')
            | Some (Inr r, st') \<Rightarrow>
                Some (Inr (if mr_conflicts r \<noteq> [] then Inr (mr_conflicts r)
                           else Inl (Some \<lparr>te_name = name, te_digest = mr_tree_digest r, te_is_tree = True\<rparr>)), st'))
      else Some (Inr (Inr [\<lparr>mc_path = path_prefix @ name, mc_base = b, mc_ours = o', mc_theirs = t\<rparr>]), st))"

text \<open>The loop over the names of one level.\<close>

fun merge_names :: "merge_fn \<Rightarrow> tree \<Rightarrow> tree \<Rightarrow> tree \<Rightarrow> string \<Rightarrow> string list
    \<Rightarrow> tree_entry list \<Rightarrow> merge_conflict list \<Rightarrow> object_store
    \<Rightarrow> ((tree_entry list \<times> merge_conflict list) result \<times> object_store) option" where
  "merge_names sub bt ot tt path_prefix [] entries conflicts st = Some (Inr (entries, conflicts), st)"
| "merge_names sub bt ot tt path_prefix (name # names) entries conflicts st =
     (case merge_name sub (find_entry bt name) (find_entry ot name) (find_entry tt name) path_prefix name st of
        None \<Rightarrow> None
      | Some (Inl e, st') \<Rightarrow> Some (Inl e, st')
      | Some (Inr (Inl kept), st') \<Rightarrow> merge_names sub bt ot tt path_prefix names (keep kept entries) conflicts st'
      | Some (Inr (Inr cs), st') \<Rightarrow> merge_names sub bt ot tt path_prefix names entries (conflicts @ cs) st')"

text \<open>One level, once the three digests differ pairwise: load, merge, store.\<close>

definition merge_level :: "digest_fn \<Rightarrow> merge_fn \<Rightarrow> digest option \<Rightarrow> digest \<Rightarrow> digest \<Rightarrow> string \<Rightarrow> object_store \<Rightarrow> merged" where
  "merge_level dig sub base ours theirs path_prefix st =
     (case (case base of Some d \<Rightarrow> get_tree st d | None \<Rightarrow> Inr []) of
        Inl e \<Rightarrow> Some (Inl e, st)
      | Inr bt \<Rightarrow>
          (case get_tree st ours of
             Inl e \<Rightarrow> Some (Inl e, st)
           | Inr ot \<Rightarrow>
               (case get_tree st theirs of
                  Inl e \<Rightarrow> Some (Inl e, st)
                | Inr tt \<Rightarrow>
                    (case merge_names sub bt ot tt path_prefix (all_names bt ot tt) [] [] st of
                       None \<Rightarrow> None
                     | Some (Inl e, st') \<Rightarrow> Some (Inl e, st')
                     | Some (Inr (entries, conflicts), st') \<Rightarrow>
                         if conflicts \<noteq> []
                         then Some (Inr \<lparr>mr_tree_digest = [], mr_conflicts = conflicts\<rparr>, st')
                         else
                           case put_tree dig st' entries of
                             (Inl e, st'') \<Rightarrow> Some (Inl e, st'')
                           | (Inr d, st'') \<Rightarrow> Some (Inr (merged_as d), st'')))))"

primrec merge_subtrees :: "digest_fn \<Rightarrow> nat \<Rightarrow> merge_fn" where
  "merge_subtrees dig 0 base ours theirs path_prefix st = None"
| "merge_subtrees dig (Suc f) base ours theirs path_prefix st =
     (if ours = theirs then Some (Inr (merged_as ours), st)
      else if base = Some ours then Some (Inr (merged_as theirs), st)
      else if base = Some theirs then Some (Inr (merged_as ours), st)
      else merge_level dig (merge_subtrees dig f) base ours theirs path_prefix st)"

definition merge_trees :: "digest_fn \<Rightarrow> nat \<Rightarrow> object_store \<Rightarrow> digest \<Rightarrow> digest \<Rightarrow> digest \<Rightarrow> merged" where
  "merge_trees dig f st base ours theirs = merge_subtrees dig f (Some base) ours theirs [] st"

section \<open>Merging a branch into its parent\<close>

record branch_merge_outcome =
  bo_parent_ref :: "worktree_ref option"
  bo_conflicts :: "merge_conflict list"

text \<open>Where other writers may act in an attempt: before the parent's ref is read, before the branch's ref is
  read, while the trees are merged, and between the second read of the parent and the commit.\<close>

datatype merge_point = BeforeParentRead | BeforeBranchRead | WhileMerging | BeforeCommit

type_synonym 's writers = "merge_point \<Rightarrow> 's \<Rightarrow> 's"

text \<open>The part after the trees are merged: read the parent again, compare, commit.\<close>

definition commit_merge ::
  "'s log_ops \<Rightarrow> 'n num_ops \<Rightarrow> ('s \<Rightarrow> 's) \<Rightarrow> 's \<Rightarrow> worktree_ref \<Rightarrow> digest \<Rightarrow> branch_merge_outcome result \<times> 's" where
  "commit_merge ops nm racing rs expected d =
     (case read_ref ops nm rs (wr_name expected) of
        Inl e \<Rightarrow> (Inl e, rs)
      | Inr live \<Rightarrow>
          if live = None \<or> wr_tree_digest (the live) \<noteq> wr_tree_digest expected
          then (Inl (Error Transient ''worktree.merge_stale_parent''), rs)
          else
            case commit_ref ops nm (racing rs) (wr_name expected) d of
              (Inl e, rs') \<Rightarrow> (Inl e, rs')
            | (Inr r, rs') \<Rightarrow> (Inr \<lparr>bo_parent_ref = Some r, bo_conflicts = []\<rparr>, rs'))"

definition merge_branch_into_parent ::
  "digest_fn \<Rightarrow> nat \<Rightarrow> 's log_ops \<Rightarrow> 'n num_ops \<Rightarrow> 's writers \<Rightarrow> object_store \<Rightarrow> 's \<Rightarrow> sub_worktree \<Rightarrow> worktree_ref
   \<Rightarrow> (branch_merge_outcome result \<times> object_store \<times> 's) option" where
  "merge_branch_into_parent dig f ops nm others st rs0 branch expected =
     (if sw_mode branch \<noteq> BranchMode
      then Some (Inl (Error Contract ''worktree.merge_requires_branch_mode''), st, rs0)
      else
        let rs = others BeforeBranchRead rs0
        in case read_ref ops nm rs (sw_backing_ref_name branch) of
          Inl e \<Rightarrow> Some (Inl e, st, rs)
        | Inr None \<Rightarrow> Some (Inl (Error Contract ''worktree.merge_branch_ref_missing''), st, rs)
        | Inr (Some branch_ref) \<Rightarrow>
            (case merge_trees dig f st (sw_base_digest branch) (wr_tree_digest branch_ref) (wr_tree_digest expected) of
               None \<Rightarrow> None
             | Some (Inl e, st') \<Rightarrow> Some (Inl e, st', others WhileMerging rs)
             | Some (Inr m, st') \<Rightarrow>
                 if mr_conflicts m \<noteq> []
                 then Some (Inr \<lparr>bo_parent_ref = None, bo_conflicts = mr_conflicts m\<rparr>, st', others WhileMerging rs)
                 else
                   case commit_merge ops nm (others BeforeCommit) (others WhileMerging rs) expected (mr_tree_digest m) of
                     (r, rs') \<Rightarrow> Some (r, st', rs')))"

text \<open>The attempts left, and what the parent is expected to be, if it has been read. \<open>others k\<close> is what
  other writers do in the attempt with \<open>k\<close> left.\<close>

primrec retry_loop ::
  "digest_fn \<Rightarrow> nat \<Rightarrow> 's log_ops \<Rightarrow> 'n num_ops \<Rightarrow> (nat \<Rightarrow> 's writers) \<Rightarrow> sub_worktree \<Rightarrow> string
   \<Rightarrow> nat \<Rightarrow> worktree_ref option \<Rightarrow> object_store \<Rightarrow> 's \<Rightarrow> (branch_merge_outcome result \<times> object_store \<times> 's) option" where
  "retry_loop dig f ops nm others branch parent 0 expected st rs =
     Some (Inl (Error Resource ''worktree.merge_retries_exhausted''), st, rs)"
| "retry_loop dig f ops nm others branch parent (Suc k) expected st rs0 =
     (let rs = (case expected of Some r \<Rightarrow> rs0 | None \<Rightarrow> others k BeforeParentRead rs0)
      in case (case expected of Some r \<Rightarrow> Inr (Some r) | None \<Rightarrow> read_ref ops nm rs parent) of
        Inl e \<Rightarrow> Some (Inl e, st, rs)
      | Inr None \<Rightarrow> Some (Inl (Error Contract ''worktree.merge_parent_missing''), st, rs)
      | Inr (Some r) \<Rightarrow>
          (case merge_branch_into_parent dig f ops nm (others k) st rs branch r of
             None \<Rightarrow> None
           | Some (Inr outcome, st', rs') \<Rightarrow> Some (Inr outcome, st', rs')
           | Some (Inl e, st', rs') \<Rightarrow>
               if code e \<noteq> ''worktree.merge_stale_parent'' then Some (Inl e, st', rs')
               else retry_loop dig f ops nm others branch parent k None st' rs'))"

definition retry_merge_branch_into_parent ::
  "digest_fn \<Rightarrow> nat \<Rightarrow> 's log_ops \<Rightarrow> 'n num_ops \<Rightarrow> (nat \<Rightarrow> 's writers) \<Rightarrow> object_store \<Rightarrow> 's \<Rightarrow> sub_worktree \<Rightarrow> worktree_ref
   \<Rightarrow> int \<Rightarrow> (branch_merge_outcome result \<times> object_store \<times> 's) option" where
  "retry_merge_branch_into_parent dig f ops nm others st rs branch initial max_attempts =
     (if max_attempts < 1 then Some (Inl (Error Contract ''worktree.merge_retry_bad_max_attempts''), st, rs)
      else retry_loop dig f ops nm others branch (wr_name initial) (nat max_attempts) (Some initial) st rs)"

section \<open>What a tree holds\<close>

text \<open>The blob a path of names leads to from a tree digest, and from an entry.\<close>

fun files :: "object_store \<Rightarrow> digest \<Rightarrow> string list \<Rightarrow> digest option" where
  "files st d [] = None"
| "files st d (n # p) =
     (case os_trees st d of
        None \<Rightarrow> None
      | Some t \<Rightarrow>
          (case find_entry t n of
             None \<Rightarrow> None
           | Some e \<Rightarrow>
               if te_is_tree e then files st (te_digest e) p
               else if p = [] then Some (te_digest e) else None))"

definition entry_files :: "object_store \<Rightarrow> tree_entry option \<Rightarrow> string list \<Rightarrow> digest option" where
  "entry_files st eo p =
     (case eo of
        None \<Rightarrow> None
      | Some e \<Rightarrow>
          if te_is_tree e then files st (te_digest e) p else if p = [] then Some (te_digest e) else None)"

definition base_files :: "object_store \<Rightarrow> digest option \<Rightarrow> string list \<Rightarrow> digest option" where
  "base_files st base p = (case base of None \<Rightarrow> None | Some d \<Rightarrow> files st d p)"

lemma files_Cons: "os_trees st d = Some t \<Longrightarrow> files st d (n # p) = entry_files st (find_entry t n) p"
  by (simp add: entry_files_def split: option.splits)

lemma entries_equal_files: "tree_entries_equal a b \<Longrightarrow> entry_files st a p = entry_files st b p"
  by (auto simp: tree_entries_equal_def entry_files_def split: option.splits)

text \<open>The three-way rule for one path: what one side left alone, the other decides.\<close>

definition agrees :: "'a \<Rightarrow> 'a \<Rightarrow> 'a \<Rightarrow> 'a \<Rightarrow> bool" where
  "agrees b o' t m \<longleftrightarrow> o' = t \<and> m = o' \<or> o' = b \<and> m = t \<or> t = b \<and> m = o'"

text \<open>Trees are stored under their digest, and the digest function tells trees apart.\<close>

definition collision_free :: "digest_fn \<Rightarrow> bool" where
  "collision_free dig \<longleftrightarrow>
     (\<forall>t u d. dig (canonical_tree_bytes t) = Inr d \<longrightarrow> dig (canonical_tree_bytes u) = Inr d \<longrightarrow> t = u)"

definition store_ok :: "digest_fn \<Rightarrow> object_store \<Rightarrow> bool" where
  "store_ok dig st \<longleftrightarrow> (\<forall>d t. os_trees st d = Some t \<longrightarrow> dig (canonical_tree_bytes t) = Inr d)"

definition grows :: "object_store \<Rightarrow> object_store \<Rightarrow> bool" where
  "grows st st' \<longleftrightarrow> os_trees st \<subseteq>\<^sub>m os_trees st'"

lemma grows_refl [simp]: "grows st st"
  by (simp add: grows_def)

lemma grows_trans [trans]: "grows a b \<Longrightarrow> grows b c \<Longrightarrow> grows a c"
  by (auto simp: grows_def intro: map_le_trans)

lemma grows_tree: "grows st st' \<Longrightarrow> os_trees st d = Some t \<Longrightarrow> os_trees st' d = Some t"
  by (auto simp: grows_def map_le_def dom_def)

lemma put_tree_grows:
  assumes "collision_free dig" and "store_ok dig st" and "put_tree dig st t = (Inr d, st')"
  shows "store_ok dig st' \<and> grows st st' \<and> os_trees st' d = Some (sort_tree t)"
proof -
  have d: "dig (canonical_tree_bytes (sort_tree t)) = Inr d"
    and st': "st' = st\<lparr>os_trees := (os_trees st)(d \<mapsto> sort_tree t)\<rparr>"
    using assms(3) by (auto simp: put_tree_def split: sum.splits)
  have "u = sort_tree t" if "os_trees st d = Some u" for u
    using that d assms(1,2) by (auto simp: store_ok_def collision_free_def)
  then show ?thesis
    using assms(2) d by (auto simp: st' grows_def map_le_def dom_def store_ok_def)
qed

lemma find_entry_Some: "find_entry t n = Some e \<Longrightarrow> e \<in> set t \<and> te_name e = n"
  by (auto simp: find_entry_def find_Some_iff)

lemma find_entry_None: "find_entry t n = None \<longleftrightarrow> n \<notin> te_name ` set t"
  by (auto simp: find_entry_def find_None_iff)

lemma find_entry_distinct: "distinct (map te_name t) \<Longrightarrow> e \<in> set t \<Longrightarrow> find_entry t (te_name e) = Some e"
  by (induction t) (auto simp: find_entry_def rev_image_eqI)

lemma find_entry_sort:
  assumes "distinct (map te_name t)" shows "find_entry (sort_tree t) n = find_entry t n"
proof (cases "find_entry t n")
  case None
  then have "find_entry (sort_tree t) n = None" by (simp add: find_entry_None sort_tree_def)
  with None show ?thesis by simp
next
  case (Some e)
  have "distinct (map te_name (sort_tree t))" using assms by (simp add: sort_tree_def distinct_map)
  moreover have "e \<in> set (sort_tree t)" "te_name e = n" using find_entry_Some [OF Some] by (simp_all add: sort_tree_def)
  ultimately show ?thesis using Some find_entry_distinct by metis
qed

lemma find_entry_append: "find_entry (t @ u) n = (case find_entry t n of None \<Rightarrow> find_entry u n | Some e \<Rightarrow> Some e)"
  by (induction t) (simp_all add: find_entry_def)

section \<open>The merge of one level\<close>

text \<open>What a merge of three trees promises of its result, in every later store.\<close>

definition merges :: "digest_fn \<Rightarrow> object_store \<Rightarrow> digest option \<Rightarrow> digest \<Rightarrow> digest \<Rightarrow> digest \<Rightarrow> bool" where
  "merges dig st base ours theirs d \<longleftrightarrow>
     (\<forall>st' p. grows st st' \<longrightarrow> agrees (base_files st' base p) (files st' ours p) (files st' theirs p) (files st' d p))"

text \<open>A conflict is a real fork: the two sides differ from each other and from the ancestor, and they are
  not both directories.\<close>

definition genuine :: "merge_conflict \<Rightarrow> bool" where
  "genuine c \<longleftrightarrow>
     \<not> tree_entries_equal (mc_ours c) (mc_theirs c) \<and> \<not> tree_entries_equal (mc_ours c) (mc_base c) \<and>
     \<not> tree_entries_equal (mc_theirs c) (mc_base c) \<and>
     \<not> (mc_ours c \<noteq> None \<and> mc_theirs c \<noteq> None \<and> te_is_tree (the (mc_ours c)) \<and> te_is_tree (the (mc_theirs c)))"

definition sound_merge :: "digest_fn \<Rightarrow> merge_fn \<Rightarrow> bool" where
  "sound_merge dig sub \<longleftrightarrow>
     (\<forall>base ours theirs pp st r st'. store_ok dig st \<longrightarrow> sub base ours theirs pp st = Some (Inr r, st') \<longrightarrow>
        store_ok dig st' \<and> grows st st' \<and> (\<forall>c\<in>set (mr_conflicts r). genuine c) \<and>
        (mr_conflicts r = [] \<longrightarrow> merges dig st' base ours theirs (mr_tree_digest r)))"

lemma sound_mergeD:
  assumes "sound_merge dig sub" and "store_ok dig st" and "sub base ours theirs pp st = Some (Inr r, st')"
  shows "store_ok dig st'" "grows st st'" "\<forall>c\<in>set (mr_conflicts r). genuine c"
    "mr_conflicts r = [] \<Longrightarrow> merges dig st' base ours theirs (mr_tree_digest r)"
  using assms unfolding sound_merge_def by blast+

definition name_ok :: "object_store \<Rightarrow> tree_entry option \<Rightarrow> tree_entry option \<Rightarrow> tree_entry option \<Rightarrow> tree_entry option \<Rightarrow> bool" where
  "name_ok st b o' t k \<longleftrightarrow>
     (\<forall>st' p. grows st st' \<longrightarrow> agrees (entry_files st' b p) (entry_files st' o' p) (entry_files st' t p) (entry_files st' k p))"

lemma name_ok_kept:
  "tree_entries_equal o' t \<Longrightarrow> name_ok st b o' t o'"
  "tree_entries_equal o' b \<Longrightarrow> name_ok st b o' t t"
  "tree_entries_equal t b \<Longrightarrow> name_ok st b o' t o'"
  using entries_equal_files by (simp_all add: name_ok_def agrees_def)

lemma name_ok_subtree:
  assumes "merges dig st (if b \<noteq> None \<and> te_is_tree (the b) then Some (te_digest (the b)) else None)
      (te_digest x) (te_digest y) d" and "te_is_tree x" and "te_is_tree y"
  shows "name_ok st b (Some x) (Some y) (Some \<lparr>te_name = n, te_digest = d, te_is_tree = True\<rparr>)"
  unfolding name_ok_def
proof (intro allI impI)
  fix st' p assume g: "grows st st'"
  show "agrees (entry_files st' b p) (entry_files st' (Some x) p) (entry_files st' (Some y) p)
      (entry_files st' (Some \<lparr>te_name = n, te_digest = d, te_is_tree = True\<rparr>) p)"
  proof (cases "p = []")
    case True
    then show ?thesis using assms(2,3) by (simp add: entry_files_def agrees_def)
  next
    case False
    then have "entry_files st' b p = base_files st' (if b \<noteq> None \<and> te_is_tree (the b) then Some (te_digest (the b)) else None) p"
      by (auto simp: entry_files_def base_files_def split: option.splits)
    then show ?thesis
      using assms g unfolding merges_def by (simp add: entry_files_def)
  qed
qed

lemma merge_name_cases:
  assumes "merge_name sub b o' t pp name st = Some (Inr x, st')"
  obtains (kept) k where "x = Inl k" "st' = st" "k \<in> {o', t}" "name_ok st b o' t k"
    | (sub) u v r where "o' = Some u" "t = Some v" "te_is_tree u" "te_is_tree v"
        "sub (if b \<noteq> None \<and> te_is_tree (the b) then Some (te_digest (the b)) else None) (te_digest u) (te_digest v)
          (pp @ name @ ''/'') st = Some (Inr r, st')"
        "x = (if mr_conflicts r \<noteq> [] then Inr (mr_conflicts r)
              else Inl (Some \<lparr>te_name = name, te_digest = mr_tree_digest r, te_is_tree = True\<rparr>))"
    | (fork) "st' = st" "x = Inr [\<lparr>mc_path = pp @ name, mc_base = b, mc_ours = o', mc_theirs = t\<rparr>]"
        "genuine \<lparr>mc_path = pp @ name, mc_base = b, mc_ours = o', mc_theirs = t\<rparr>"
proof -
  consider "tree_entries_equal o' t" | "\<not> tree_entries_equal o' t" "tree_entries_equal o' b"
    | "\<not> tree_entries_equal o' t" "\<not> tree_entries_equal o' b" "tree_entries_equal t b"
    | "\<not> tree_entries_equal o' t" "\<not> tree_entries_equal o' b" "\<not> tree_entries_equal t b" by blast
  then show thesis
  proof cases
    case 4
    show thesis
    proof (cases "o' \<noteq> None \<and> t \<noteq> None \<and> te_is_tree (the o') \<and> te_is_tree (the t)")
      case True
      then obtain u v where uv: "o' = Some u" "t = Some v" "te_is_tree u" "te_is_tree v" by auto
      then show thesis
        using sub [OF uv] 4 assms by (auto simp: merge_name_def Let_def split: option.splits sum.splits prod.splits)
    next
      case False
      have g: "genuine \<lparr>mc_path = pp @ name, mc_base = b, mc_ours = o', mc_theirs = t\<rparr>"
        using 4 False by (simp add: genuine_def)
      have "merge_name sub b o' t pp name st
          = Some (Inr (Inr [\<lparr>mc_path = pp @ name, mc_base = b, mc_ours = o', mc_theirs = t\<rparr>]), st)"
        unfolding merge_name_def by (simp only: 4 False if_False)
      with assms show thesis using fork g by simp
    qed
  qed (use assms kept name_ok_kept in \<open>auto simp: merge_name_def\<close>)
qed

lemma merge_name_sound:
  assumes "sound_merge dig sub" and "store_ok dig st"
    and "merge_name sub b o' t pp name st = Some (Inr x, st')"
    and "o' \<noteq> None \<Longrightarrow> te_name (the o') = name" and "t \<noteq> None \<Longrightarrow> te_name (the t) = name"
  shows "store_ok dig st' \<and> grows st st' \<and>
    (case x of Inl k \<Rightarrow> (k \<noteq> None \<longrightarrow> te_name (the k) = name) \<and> name_ok st' b o' t k
     | Inr cs \<Rightarrow> cs \<noteq> [] \<and> (\<forall>c\<in>set cs. genuine c))"
  using assms(3)
proof (cases rule: merge_name_cases)
  case kept
  then show ?thesis using assms(2,4,5) by auto
next
  case (sub u v r)
  note d = sound_mergeD [OF assms(1,2) sub(5)]
  show ?thesis
  proof (cases "mr_conflicts r = []")
    case True
    then show ?thesis using d(1,2) sub(6) name_ok_subtree [OF d(4) sub(3,4)] by (simp add: sub(1,2))
  next
    case False
    then show ?thesis using d(1,2,3) sub(6) by simp
  qed
next
  case fork
  then show ?thesis using assms(2) by simp
qed

lemma name_ok_grows: "grows st st' \<Longrightarrow> name_ok st b o' t k \<Longrightarrow> name_ok st' b o' t k"
  unfolding name_ok_def using grows_trans by blast

text \<open>The loop: what it keeps per name, the names it keeps, and that conflicts only accumulate.\<close>

definition level_ok :: "object_store \<Rightarrow> tree \<Rightarrow> tree \<Rightarrow> tree \<Rightarrow> string list \<Rightarrow> tree_entry list \<Rightarrow> bool" where
  "level_ok st bt ot tt names new \<longleftrightarrow>
     distinct (map te_name new) \<and> te_name ` set new \<subseteq> set names \<and>
     (\<forall>n\<in>set names. name_ok st (find_entry bt n) (find_entry ot n) (find_entry tt n) (find_entry new n))"

lemma find_entry_name: "find_entry t n \<noteq> None \<Longrightarrow> te_name (the (find_entry t n)) = n"
  using find_entry_Some by fastforce

lemma level_ok_Cons:
  assumes "level_ok st bt ot tt names new" and "name \<notin> set names" and "k \<noteq> None \<Longrightarrow> te_name (the k) = name"
    and "name_ok st (find_entry bt name) (find_entry ot name) (find_entry tt name) k"
  shows "level_ok st bt ot tt (name # names) (keep k [] @ new)"
proof -
  have k: "find_entry (keep k []) n = (if n = name then k else None)" for n
    using assms(3) by (cases k) (auto simp: keep_def find_entry_def)
  have new: "find_entry new name = None" using assms(1,2) by (auto simp: level_ok_def find_entry_None)
  have "find_entry (keep k [] @ new) n = (if n = name then k else find_entry new n)" for n
    using new by (auto simp: find_entry_append k split: option.splits)
  moreover have "distinct (map te_name (keep k [] @ new))"
    using assms(1,2,3) by (cases k) (auto simp: keep_def level_ok_def)
  ultimately show ?thesis
    using assms new by (cases k) (auto simp: level_ok_def keep_def)
qed

lemma keep_append: "keep k entries = entries @ keep k []"
  by (simp add: keep_def split: option.splits)

lemma merge_names_sound:
  assumes sub: "sound_merge dig sub"
  shows "merge_names sub bt ot tt pp names es cs st = Some (Inr (es', cs'), st') \<Longrightarrow> store_ok dig st \<Longrightarrow> distinct names \<Longrightarrow>
    store_ok dig st' \<and> grows st st' \<and> (\<exists>new more. es' = es @ new \<and> cs' = cs @ more \<and> (\<forall>c\<in>set more. genuine c) \<and>
      (more = [] \<longrightarrow> level_ok st' bt ot tt names new))"
proof (induction names arbitrary: es cs st)
  case Nil
  then show ?case by (auto simp: level_ok_def)
next
  case (Cons name names)
  let ?b = "find_entry bt name" and ?o = "find_entry ot name" and ?t = "find_entry tt name"
  from Cons.prems(1) obtain x st1 where m: "merge_name sub ?b ?o ?t pp name st = Some (Inr x, st1)"
    by (auto split: option.splits prod.splits sum.splits)
  note s1 = merge_name_sound [OF sub Cons.prems(2) m find_entry_name find_entry_name]
  show ?case
  proof (cases x)
    case (Inl k)
    with Cons.prems(1) m have "merge_names sub bt ot tt pp names (keep k es) cs st1 = Some (Inr (es', cs'), st')" by simp
    from Cons.IH [OF this] s1 Cons.prems(3) obtain new more where n: "store_ok dig st'" "grows st1 st'"
      "es' = keep k es @ new" "cs' = cs @ more" "\<forall>c\<in>set more. genuine c" "more = [] \<longrightarrow> level_ok st' bt ot tt names new" by auto
    have "level_ok st' bt ot tt (name # names) (keep k [] @ new)" if "more = []"
      using n(6) that s1 Inl Cons.prems(3) name_ok_grows [OF n(2)] by (intro level_ok_Cons) auto
    moreover have "es' = es @ (keep k [] @ new)" using n(3) keep_append [of k es] by simp
    ultimately show ?thesis using n(1,2,4,5) s1 grows_trans by blast
  next
    case (Inr c)
    with Cons.prems(1) m have "merge_names sub bt ot tt pp names es (cs @ c) st1 = Some (Inr (es', cs'), st')" by simp
    from Cons.IH [OF this] s1 Cons.prems(3) obtain new more where n: "store_ok dig st'" "grows st1 st'"
      "es' = es @ new" "cs' = (cs @ c) @ more" "\<forall>c\<in>set more. genuine c" by auto
    then show ?thesis using s1 Inr grows_trans by (intro conjI exI [of _ new] exI [of _ "c @ more"]) auto
  qed
qed

lemma all_names_set: "set (all_names bt ot tt) = te_name ` (set bt \<union> set ot \<union> set tt)"
  by (auto simp: all_names_def)

lemma distinct_all_names: "distinct (all_names bt ot tt)"
  by (simp add: all_names_def)

lemma level_files:
  assumes "level_ok st bt ot tt (all_names bt ot tt) new" and "grows st st'"
    and base: "\<And>n p. base_files st' base (n # p) = entry_files st' (find_entry bt n) p"
    and "os_trees st' ours = Some ot" and "os_trees st' theirs = Some tt" and "os_trees st' d = Some (sort_tree new)"
  shows "agrees (base_files st' base p) (files st' ours p) (files st' theirs p) (files st' d p)"
proof (cases p)
  case Nil
  then show ?thesis by (simp add: agrees_def)
next
  case (Cons n q)
  have new: "find_entry (sort_tree new) n = find_entry new n"
    using assms(1) by (intro find_entry_sort) (simp add: level_ok_def)
  show ?thesis
  proof (cases "n \<in> set (all_names bt ot tt)")
    case True
    then have "name_ok st (find_entry bt n) (find_entry ot n) (find_entry tt n) (find_entry new n)"
      using assms(1) by (simp add: level_ok_def)
    then show ?thesis
      using assms(2) by (simp add: Cons base files_Cons [OF assms(4)] files_Cons [OF assms(5)] files_Cons [OF assms(6)] new
          name_ok_def del: files.simps)
  next
    case False
    then have "find_entry ot n = None" "find_entry tt n = None" "find_entry new n = None"
      using assms(1) by (auto simp: level_ok_def all_names_set find_entry_None)
    then show ?thesis
      by (simp add: Cons files_Cons [OF assms(4)] files_Cons [OF assms(5)] files_Cons [OF assms(6)] new
          agrees_def entry_files_def del: files.simps)
  qed
qed

lemma get_tree_Inr: "get_tree st d = Inr t \<longleftrightarrow> os_trees st d = Some t"
  by (auto simp: get_tree_def split: option.splits)

lemma merge_level_sound:
  assumes "collision_free dig" and "sound_merge dig sub" and "store_ok dig st"
    and "merge_level dig sub base ours theirs pp st = Some (Inr r, st')"
  shows "store_ok dig st' \<and> grows st st' \<and> (\<forall>c\<in>set (mr_conflicts r). genuine c) \<and>
    (mr_conflicts r = [] \<longrightarrow> merges dig st' base ours theirs (mr_tree_digest r))"
proof -
  from assms(4) obtain bt ot tt es cs st1 where
      b: "(case base of Some d \<Rightarrow> get_tree st d | None \<Rightarrow> Inr []) = Inr bt"
    and o': "os_trees st ours = Some ot" and t: "os_trees st theirs = Some tt"
    and m: "merge_names sub bt ot tt pp (all_names bt ot tt) [] [] st = Some (Inr (es, cs), st1)"
    and r: "cs \<noteq> [] \<and> r = \<lparr>mr_tree_digest = [], mr_conflicts = cs\<rparr> \<and> st' = st1 \<or>
      cs = [] \<and> (\<exists>d. put_tree dig st1 es = (Inr d, st') \<and> r = merged_as d)"
    by (auto simp: merge_level_def get_tree_Inr [symmetric] split: sum.splits option.splits prod.splits if_splits)
  from merge_names_sound [OF assms(2) m assms(3) distinct_all_names]
  have s1: "store_ok dig st1" "grows st st1" "\<forall>c\<in>set cs. genuine c"
    and lv: "cs = [] \<Longrightarrow> level_ok st1 bt ot tt (all_names bt ot tt) es" by auto
  show ?thesis
  proof (cases "cs = []")
    case False
    then show ?thesis using r s1 by auto
  next
    case True
    then obtain d where p: "put_tree dig st1 es = (Inr d, st')" and rd: "r = merged_as d" using r by auto
    note pt = put_tree_grows [OF assms(1) s1(1) p]
    have "agrees (base_files st2 base q) (files st2 ours q) (files st2 theirs q) (files st2 d q)"
      if g: "grows st' st2" for st2 q
    proof (rule level_files [OF lv [OF True]])
      have g2: "grows st st2" and g1: "grows st1 st2" using s1(2) pt g grows_trans by blast+
      show "grows st1 st2" by (rule g1)
      show "os_trees st2 ours = Some ot" "os_trees st2 theirs = Some tt" using grows_tree [OF g2] o' t by auto
      show "os_trees st2 d = Some (sort_tree es)" using grows_tree [OF g] pt by blast
      show "base_files st2 base (n # p) = entry_files st2 (find_entry bt n) p" for n p
        using b grows_tree [OF g2]
        by (cases base) (auto simp: base_files_def get_tree_Inr files_Cons entry_files_def find_entry_def simp del: files.simps)
    qed
    then show ?thesis using pt s1(2) grows_trans rd by (auto simp: merged_as_def merges_def)
  qed
qed

lemma merges_fast:
  "merges dig st base d d d" "merges dig st (Some ours) ours theirs theirs" "merges dig st (Some theirs) ours theirs ours"
  by (simp_all add: merges_def agrees_def base_files_def)

lemma merge_subtrees_sound: "collision_free dig \<Longrightarrow> sound_merge dig (merge_subtrees dig f)"
proof (induction f)
  case 0 then show ?case by (simp add: sound_merge_def)
next
  case (Suc f)
  note lv = merge_level_sound [OF Suc.prems Suc.IH [OF Suc.prems]]
  show ?case
    unfolding sound_merge_def
  proof (intro allI impI)
    fix base ours theirs pp st r st'
    assume s: "store_ok dig st" and m: "merge_subtrees dig (Suc f) base ours theirs pp st = Some (Inr r, st')"
    show "store_ok dig st' \<and> grows st st' \<and> (\<forall>c\<in>set (mr_conflicts r). genuine c) \<and>
        (mr_conflicts r = [] \<longrightarrow> merges dig st' base ours theirs (mr_tree_digest r))"
      using m s lv [OF s, of base ours theirs pp r st'] merges_fast
      by (auto simp: merged_as_def split: if_splits)
  qed
qed

section \<open>Termination\<close>

text \<open>Every tree reachable from a digest is in the store, within a depth.\<close>

primrec depth_within :: "object_store \<Rightarrow> nat \<Rightarrow> digest \<Rightarrow> bool" where
  "depth_within st 0 d = False"
| "depth_within st (Suc n) d =
     (case os_trees st d of
        None \<Rightarrow> False | Some t \<Rightarrow> list_all (\<lambda>e. te_is_tree e \<longrightarrow> depth_within st n (te_digest e)) t)"

lemma depth_within_grows: "grows st st' \<Longrightarrow> depth_within st n d \<Longrightarrow> depth_within st' n d"
  by (induction n arbitrary: d) (auto simp: list_all_iff dest: grows_tree split: option.splits)

definition total_on :: "digest_fn \<Rightarrow> merge_fn \<Rightarrow> object_store \<Rightarrow> digest \<Rightarrow> bool" where
  "total_on dig sub st ours \<longleftrightarrow>
     (\<forall>st' base theirs pp. grows st st' \<longrightarrow> store_ok dig st' \<longrightarrow> sub base ours theirs pp st' \<noteq> None)"

lemma merge_names_total:
  assumes "sound_merge dig sub" and "\<forall>e\<in>set ot. te_is_tree e \<longrightarrow> total_on dig sub st0 (te_digest e)"
  shows "grows st0 st \<Longrightarrow> store_ok dig st \<Longrightarrow> merge_names sub bt ot tt pp names es cs st \<noteq> None"
proof (induction names arbitrary: es cs st)
  case (Cons name names)
  let ?m = "merge_name sub (find_entry bt name) (find_entry ot name) (find_entry tt name) pp name st"
  have "?m \<noteq> None"
  proof (cases "find_entry ot name")
    case (Some e)
    then have "e \<in> set ot" using find_entry_Some by blast
    then have "te_is_tree e \<Longrightarrow> sub b (te_digest e) t q st \<noteq> None" for b t q
      using assms(2) Cons.prems by (simp add: total_on_def)
    with Some show ?thesis
      by (auto simp: merge_name_def Let_def simp del: not_None_eq split: option.splits prod.splits sum.splits)
  qed (auto simp: merge_name_def)
  then obtain r st1 where m: "?m = Some (r, st1)" by auto
  show ?case
  proof (cases r)
    case (Inr x)
    have "store_ok dig st1 \<and> grows st st1"
      using merge_name_sound [OF assms(1) Cons.prems(2) m [unfolded Inr] find_entry_name find_entry_name] by blast
    with Cons.IH Cons.prems(1) grows_trans have "merge_names sub bt ot tt pp names es' cs' st1 \<noteq> None" for es' cs' by blast
    then show ?thesis using m Inr by (cases x) auto
  qed (use m in simp)
qed simp

lemma merge_subtrees_total:
  assumes "collision_free dig"
  shows "depth_within st f ours \<Longrightarrow> total_on dig (merge_subtrees dig f) st ours"
proof (induction f arbitrary: ours)
  case (Suc f)
  show ?case
    unfolding total_on_def
  proof (intro allI impI)
    fix st' base theirs pp assume g: "grows st st'" and ok: "store_ok dig st'"
    obtain ot where ot: "os_trees st ours = Some ot" and e: "\<forall>e\<in>set ot. te_is_tree e \<longrightarrow> total_on dig (merge_subtrees dig f) st (te_digest e)"
      using Suc by (auto simp: list_all_iff split: option.splits)
    have "get_tree st' ours = Inr ot" using grows_tree [OF g ot] by (simp add: get_tree_Inr)
    moreover have "merge_names (merge_subtrees dig f) bt ot tt pp (all_names bt ot tt) [] [] st' \<noteq> None" for bt tt
      using merge_names_total [OF merge_subtrees_sound [OF assms] e g ok] .
    ultimately have "merge_level dig (merge_subtrees dig f) base ours theirs pp st' \<noteq> None"
      by (auto simp: merge_level_def simp del: not_None_eq split: sum.splits option.splits prod.splits)
    then show "merge_subtrees dig (Suc f) base ours theirs pp st' \<noteq> None" by simp
  qed
qed simp

section \<open>Branches\<close>

lemma commit_merge_memory:
  assumes "commit_merge memory_ops nm racing rs expected d = (Inr out, rs')"
  shows "\<exists>parent. read_ref memory_ops nm rs (wr_name expected) = Inr (Some parent) \<and>
    wr_tree_digest parent = wr_tree_digest expected \<and> bo_conflicts out = [] \<and>
    bo_parent_ref out = Some \<lparr>wr_name = wr_name expected, wr_tree_digest = d\<rparr> \<and>
    rs' = (racing rs)(ref_log_id (wr_name expected) := racing rs (ref_log_id (wr_name expected)) @ [encode_ref_moved nm d])"
  using assms by (auto simp: commit_merge_def commit_ref_memory split: sum.splits if_splits)

lemma commit_merge_stale:
  "commit_merge memory_ops nm racing rs expected d = (Inl e, rs') \<Longrightarrow> rs' = rs"
  by (auto simp: commit_merge_def commit_ref_memory split: sum.splits if_splits)

text \<open>The ref stores that other writers alone can make of one.\<close>

inductive by_others :: "(nat \<Rightarrow> 's writers) \<Rightarrow> 's \<Rightarrow> 's \<Rightarrow> bool" for others :: "nat \<Rightarrow> 's writers" and rs :: 's where
  start: "by_others others rs rs"
| act: "by_others others rs rs1 \<Longrightarrow> by_others others rs (others k point rs1)"

lemma by_others_trans: "by_others others a b \<Longrightarrow> by_others others b c \<Longrightarrow> by_others others a c"
  by (rotate_tac 1, induction rule: by_others.induct) (auto intro: by_others.intros)

text \<open>What a committed merge says: \<open>live\<close> is the ref store when the parent is read for the last time and \<open>then'\<close>
  the one the commit finds.\<close>

definition merge_committed ::
  "'n num_ops \<Rightarrow> object_store \<Rightarrow> memory_log \<Rightarrow> memory_log \<Rightarrow> digest \<Rightarrow> digest \<Rightarrow> string \<Rightarrow> branch_merge_outcome \<Rightarrow> memory_log \<Rightarrow> bool" where
  "merge_committed nm st live then' base ours parent out rs' \<longleftrightarrow>
     (\<exists>theirs m. read_ref memory_ops nm live parent = Inr (Some theirs) \<and>
        bo_parent_ref out = Some \<lparr>wr_name = parent, wr_tree_digest = m\<rparr> \<and>
        rs' = then'(ref_log_id parent := then' (ref_log_id parent) @ [encode_ref_moved nm m]) \<and>
        (\<forall>p. agrees (files st base p) (files st ours p) (files st (wr_tree_digest theirs) p) (files st m p)))"

lemma merge_branch_outcome:
  assumes "collision_free dig" and "store_ok dig st"
    and "merge_branch_into_parent dig f memory_ops nm others st rs0 branch expected = Some (Inr out, st', rs')"
  shows "\<exists>b rs. rs = others BeforeBranchRead rs0 \<and> read_ref memory_ops nm rs (sw_backing_ref_name branch) = Inr (Some b) \<and>
    (if bo_conflicts out = []
     then merge_committed nm st' (others WhileMerging rs) (others BeforeCommit (others WhileMerging rs)) (sw_base_digest branch)
            (wr_tree_digest b) (wr_name expected) out rs'
     else bo_parent_ref out = None \<and> rs' = others WhileMerging rs \<and> (\<forall>c\<in>set (bo_conflicts out). genuine c))"
proof -
  define rs where "rs = others BeforeBranchRead rs0"
  from assms(3) obtain b m where b: "read_ref memory_ops nm rs (sw_backing_ref_name branch) = Inr (Some b)"
    and m: "merge_trees dig f st (sw_base_digest branch) (wr_tree_digest b) (wr_tree_digest expected) = Some (Inr m, st')"
    and out: "mr_conflicts m \<noteq> [] \<and> out = \<lparr>bo_parent_ref = None, bo_conflicts = mr_conflicts m\<rparr> \<and> rs' = others WhileMerging rs \<or>
      mr_conflicts m = [] \<and>
        commit_merge memory_ops nm (others BeforeCommit) (others WhileMerging rs) expected (mr_tree_digest m) = (Inr out, rs')"
    by (auto simp: merge_branch_into_parent_def Let_def rs_def split: if_splits sum.splits option.splits prod.splits)
  note d = sound_mergeD [OF merge_subtrees_sound [OF assms(1)] assms(2) m [unfolded merge_trees_def]]
  show ?thesis
  proof (cases "mr_conflicts m = []")
    case False
    then show ?thesis using b out d(3) rs_def by auto
  next
    case True
    define live where "live = others WhileMerging rs"
    from True out obtain parent where p: "read_ref memory_ops nm live (wr_name expected) = Inr (Some parent)"
      "wr_tree_digest parent = wr_tree_digest expected" "bo_conflicts out = []"
      "bo_parent_ref out = Some \<lparr>wr_name = wr_name expected, wr_tree_digest = mr_tree_digest m\<rparr>"
      "rs' = (others BeforeCommit live)(ref_log_id (wr_name expected) :=
         others BeforeCommit live (ref_log_id (wr_name expected)) @ [encode_ref_moved nm (mr_tree_digest m)])"
      unfolding live_def using commit_merge_memory by blast
    have "agrees (files st' (sw_base_digest branch) q) (files st' (wr_tree_digest b) q)
        (files st' (wr_tree_digest parent) q) (files st' (mr_tree_digest m) q)" for q
      using d(4) [OF True] grows_refl by (simp add: merges_def base_files_def p(2))
    with b p show ?thesis unfolding live_def rs_def by (auto simp: merge_committed_def)
  qed
qed

lemma merge_branch_stale:
  assumes "merge_branch_into_parent dig f memory_ops nm (others k) st rs0 branch expected = Some (Inl e, st', rs')"
  shows "by_others others rs0 rs'"
  using assms
  by (auto simp: merge_branch_into_parent_def Let_def split: if_splits sum.splits option.splits prod.splits
      dest!: commit_merge_stale intro: by_others.intros)

text \<open>The object store only ever gains trees that a merge stored, whatever its outcome.\<close>

lemma put_tree_store: "store_ok dig st \<Longrightarrow> store_ok dig (snd (put_tree dig st t))"
  by (auto simp: put_tree_def store_ok_def split: sum.splits)

definition keeps_store :: "digest_fn \<Rightarrow> merge_fn \<Rightarrow> bool" where
  "keeps_store dig sub \<longleftrightarrow>
     (\<forall>base ours theirs pp st r st'. store_ok dig st \<longrightarrow> sub base ours theirs pp st = Some (r, st') \<longrightarrow> store_ok dig st')"

lemma keeps_storeD: "keeps_store dig sub \<Longrightarrow> store_ok dig st \<Longrightarrow> sub base ours theirs pp st = Some (r, st') \<Longrightarrow> store_ok dig st'"
  unfolding keeps_store_def by blast

lemma merge_name_store:
  assumes "keeps_store dig sub" and "store_ok dig st" and "merge_name sub b o' t pp name st = Some (x, st')"
  shows "store_ok dig st'"
  using assms(2,3) keeps_storeD [OF assms(1,2)]
  by (auto simp: merge_name_def Let_def split: if_splits option.splits prod.splits sum.splits)

lemma merge_names_store:
  assumes "keeps_store dig sub"
  shows "store_ok dig st \<Longrightarrow> merge_names sub bt ot tt pp names es cs st = Some (x, st') \<Longrightarrow> store_ok dig st'"
proof (induction names arbitrary: es cs st)
  case (Cons name names)
  from Cons.prems(2) obtain y st1 where m: "merge_name sub (find_entry bt name) (find_entry ot name) (find_entry tt name) pp name st = Some (y, st1)"
    by (auto split: option.splits)
  have "store_ok dig st1" by (rule merge_name_store [OF assms Cons.prems(1) m])
  with Cons.prems(2) m show ?case by (auto intro: Cons.IH split: sum.splits)
qed simp

lemma merge_subtrees_store: "keeps_store dig (merge_subtrees dig f)"
proof (induction f)
  case (Suc f)
  have lv: "store_ok dig st'" if "store_ok dig st"
    and "merge_level dig (merge_subtrees dig f) base ours theirs pp st = Some (r, st')" for base ours theirs pp st r st'
    using that merge_names_store [OF Suc that(1)] put_tree_store
    by (auto simp: merge_level_def split: sum.splits option.splits prod.splits if_splits) (metis snd_conv)+
  show ?case unfolding keeps_store_def using lv by (auto split: if_splits)
qed (simp add: keeps_store_def)

lemma merge_branch_store:
  assumes "store_ok dig st" and "merge_branch_into_parent dig f ops nm others st rs branch expected = Some (r, st', rs')"
  shows "store_ok dig st'"
  using assms keeps_storeD [OF merge_subtrees_store assms(1)]
  by (auto simp: merge_branch_into_parent_def merge_trees_def Let_def split: if_splits sum.splits option.splits prod.splits)

lemma read_ref_name: "read_ref memory_ops nm rs n = Inr (Some r) \<Longrightarrow> wr_name r = n"
  by (auto simp: read_ref_def split: if_splits sum.splits)

lemma retry_outcome:
  "retry_loop dig f memory_ops nm others branch parent n expected st rs = Some (Inr out, st', rs') \<Longrightarrow>
   store_ok dig st \<Longrightarrow> (\<And>r. expected = Some r \<Longrightarrow> wr_name r = parent) \<Longrightarrow>
   \<exists>k st0 rs0 r. store_ok dig st0 \<and> wr_name r = parent \<and> by_others others rs rs0 \<and>
     merge_branch_into_parent dig f memory_ops nm (others k) st0 rs0 branch r = Some (Inr out, st', rs')"
proof (induction n arbitrary: expected st rs)
  case (Suc k)
  define rs0 where "rs0 = (case expected of Some r \<Rightarrow> rs | None \<Rightarrow> others k BeforeParentRead rs)"
  have o: "by_others others rs rs0" by (auto simp: rs0_def split: option.split intro: by_others.intros)
  from Suc.prems(1) obtain r where e: "(case expected of Some r \<Rightarrow> Inr (Some r) | None \<Rightarrow> read_ref memory_ops nm rs0 parent) = Inr (Some r)"
    unfolding retry_loop.simps Let_def rs0_def [symmetric] by (auto split: sum.splits option.splits)
  have name: "wr_name r = parent" using e Suc.prems(3) read_ref_name by (cases expected) auto
  from Suc.prems(1) e obtain x st1 rs1 where m: "merge_branch_into_parent dig f memory_ops nm (others k) st rs0 branch r = Some (x, st1, rs1)"
    unfolding retry_loop.simps Let_def rs0_def [symmetric] by (auto split: option.splits)
  show ?case
  proof (cases x)
    case (Inl err)
    then have l: "retry_loop dig f memory_ops nm others branch parent k None st1 rs1 = Some (Inr out, st', rs')"
      using Suc.prems(1) e m unfolding retry_loop.simps Let_def rs0_def [symmetric] by (auto split: if_splits)
    have o1: "by_others others rs rs1" by (rule by_others_trans [OF o merge_branch_stale [where others = others, OF m [unfolded Inl]]])
    from Suc.IH [OF l merge_branch_store [OF Suc.prems(2) m]] obtain k' st0 rs2 r' where q: "store_ok dig st0" "wr_name r' = parent"
      "by_others others rs1 rs2" "merge_branch_into_parent dig f memory_ops nm (others k') st0 rs2 branch r' = Some (Inr out, st', rs')"
      by auto
    from by_others_trans [OF o1 q(3)] q show ?thesis by blast
  next
    case (Inr o')
    then have "merge_branch_into_parent dig f memory_ops nm (others k) st rs0 branch r = Some (Inr out, st', rs')"
      using Suc.prems(1) e m unfolding retry_loop.simps Let_def rs0_def [symmetric] by auto
    with Suc.prems(2) name o show ?thesis by blast
  qed
qed simp

section \<open>Properties\<close>

text \<open>Four small trees, a digest function that knows them, and a store that holds three.\<close>

definition demo_tree :: "string \<Rightarrow> string \<Rightarrow> tree" where
  "demo_tree x y = [\<lparr>te_name = ''a'', te_digest = x, te_is_tree = False\<rparr>, \<lparr>te_name = ''b'', te_digest = y, te_is_tree = False\<rparr>]"

definition demo_digest :: digest_fn where
  "demo_digest bytes =
     (if bytes = canonical_tree_bytes (demo_tree ''1'' ''2'') then Inr ''base''
      else if bytes = canonical_tree_bytes (demo_tree ''3'' ''2'') then Inr ''ours''
      else if bytes = canonical_tree_bytes (demo_tree ''1'' ''4'') then Inr ''theirs''
      else if bytes = canonical_tree_bytes (demo_tree ''3'' ''4'') then Inr ''merged''
      else Inl (Error Fatal ''worktree.digest_failed''))"

definition demo_store :: object_store where
  "demo_store = \<lparr>os_blobs = Map.empty, os_trees = [''base'' \<mapsto> demo_tree ''1'' ''2'', ''ours'' \<mapsto> demo_tree ''3'' ''2'', ''theirs'' \<mapsto> demo_tree ''1'' ''4'']\<rparr>"

lemma length_canonical_ge:
  "length t \<le> length (canonical_tree_bytes t)"
  "e \<in> set t \<Longrightarrow> length (te_name e) + length (te_digest e) \<le> length (canonical_tree_bytes t)"
proof -
  have "length t \<le> length (concat (map encode_entry t)) \<and>
      (\<forall>e\<in>set t. length (te_name e) + length (te_digest e) \<le> length (concat (map encode_entry t)))"
    by (induction t) (auto simp: encode_entry_def)
  then show "length t \<le> length (canonical_tree_bytes t)"
    "e \<in> set t \<Longrightarrow> length (te_name e) + length (te_digest e) \<le> length (canonical_tree_bytes t)"
    by (auto simp: canonical_tree_bytes_def)
qed

lemma encodable_short: "length (canonical_tree_bytes t) < 2 ^ 32 \<Longrightarrow> encodable t"
  using length_canonical_ge(1) [of t] length_canonical_ge(2) [of _ t] by (fastforce simp: encodable_def)

lemma demo_bytes_inj:
  assumes "length x = 1" and "length y = 1" and "canonical_tree_bytes t = canonical_tree_bytes (demo_tree x y)"
  shows "t = demo_tree x y"
proof (rule canonical_tree_bytes_inj [OF assms(3)])
  show "encodable (demo_tree x y)" using assms(1,2) by (simp add: encodable_def demo_tree_def)
  show "encodable t"
    using assms by (intro encodable_short) (simp add: canonical_tree_bytes_def demo_tree_def encode_entry_def)
qed

lemma demo_tree_eq: "demo_tree x y = demo_tree x' y' \<longleftrightarrow> x = x' \<and> y = y'"
  by (simp add: demo_tree_def)

lemma demo_digest_tree:
  "demo_digest (canonical_tree_bytes t) = Inr d \<longleftrightarrow>
     t = demo_tree ''1'' ''2'' \<and> d = ''base'' \<or> t = demo_tree ''3'' ''2'' \<and> d = ''ours'' \<or>
     t = demo_tree ''1'' ''4'' \<and> d = ''theirs'' \<or> t = demo_tree ''3'' ''4'' \<and> d = ''merged''"
proof -
  have i: "canonical_tree_bytes t = canonical_tree_bytes (demo_tree x y) \<longleftrightarrow> t = demo_tree x y"
    if "length x = 1" "length y = 1" for t x y
    using demo_bytes_inj [OF that] by auto
  show ?thesis by (auto simp: demo_digest_def i demo_tree_eq)
qed

lemma demo_collision_free: "collision_free demo_digest"
  by (auto simp: collision_free_def demo_digest_tree)

lemma demo_store_ok: "store_ok demo_digest demo_store"
  by (auto simp: store_ok_def demo_store_def demo_digest_tree split: if_splits)

lemma demo_sorted: "sort_tree (demo_tree x y) = demo_tree x y"
proof -
  have "(''a'' :: string) \<le> ''b''" by code_simp
  then show ?thesis by (simp add: sort_tree_def demo_tree_def sort_key_id_if_sorted)
qed

lemma demo_names: "all_names (demo_tree a b) (demo_tree c d) (demo_tree e f) = [''a'', ''b'']"
proof -
  have "sort [''a'', ''b'' :: string] = [''a'', ''b'']" by code_simp
  then show ?thesis by (simp add: all_names_def demo_tree_def)
qed

lemma demo_merge:
  "merge_trees demo_digest (Suc f) demo_store ''base'' ''ours'' ''theirs''
   = Some (Inr (merged_as ''merged''), demo_store\<lparr>os_trees := (os_trees demo_store)(''merged'' \<mapsto> demo_tree ''3'' ''4'')\<rparr>)"
proof -
  have g: "get_tree demo_store ''base'' = Inr (demo_tree ''1'' ''2'')" "get_tree demo_store ''ours'' = Inr (demo_tree ''3'' ''2'')"
    "get_tree demo_store ''theirs'' = Inr (demo_tree ''1'' ''4'')"
    by (simp_all add: get_tree_def demo_store_def)
  have "merge_names (merge_subtrees demo_digest f) (demo_tree ''1'' ''2'') (demo_tree ''3'' ''2'') (demo_tree ''1'' ''4'') []
      [''a'', ''b''] [] [] demo_store = Some (Inr (demo_tree ''3'' ''4'', []), demo_store)"
    by (simp add: merge_name_def find_entry_def demo_tree_def tree_entries_equal_def keep_def)
  moreover have "put_tree demo_digest demo_store (demo_tree ''3'' ''4'')
      = (Inr ''merged'', demo_store\<lparr>os_trees := (os_trees demo_store)(''merged'' \<mapsto> demo_tree ''3'' ''4'')\<rparr>)"
    using demo_digest_tree [of "demo_tree ''3'' ''4''" "''merged''"] by (simp add: put_tree_def demo_sorted)
  ultimately show ?thesis by (simp add: merge_trees_def merge_level_def g demo_names)
qed

text \<open>C1. A merge without conflicts applies exactly the three-way rule to every file path, at any depth: where
  both sides have the same file (or none) it stays; where one side left the ancestor's file alone, the
  other side's change, addition or deletion is taken; no path both sides changed differently is ever
  resolved. When conflicts are reported, each is a real fork: the sides differ from each other and from
  the ancestor and are not both directories. (Trees are told apart by their digests.)\<close>

theorem merge_trees_three_way:
  assumes "collision_free dig" and "store_ok dig st" and "merge_trees dig f st base ours theirs = Some (Inr r, st')"
  shows "(mr_conflicts r = [] \<longrightarrow>
      (\<forall>p. agrees (files st' base p) (files st' ours p) (files st' theirs p) (files st' (mr_tree_digest r) p))) \<and>
    (\<forall>c\<in>set (mr_conflicts r). genuine c)"
  using sound_mergeD [OF merge_subtrees_sound [OF assms(1)] assms(2) assms(3) [unfolded merge_trees_def]]
  by (auto simp: merges_def base_files_def)

theorem merge_trees_three_way_witness:
  "\<exists>st'. merge_trees demo_digest 1 demo_store ''base'' ''ours'' ''theirs'' = Some (Inr (merged_as ''merged''), st') \<and>
     (\<forall>p. agrees (files st' ''base'' p) (files st' ''ours'' p) (files st' ''theirs'' p) (files st' ''merged'' p))"
  using merge_trees_three_way [OF demo_collision_free demo_store_ok demo_merge [of 0]] demo_merge [of 0]
  by (auto simp: merged_as_def)

text \<open>A merge ends: with as many levels of recursion as the branch's tree is deep, for any ancestor and any
  parent tree, it returns a merged tree, its conflicts or an error of the store.\<close>

theorem merge_trees_terminates:
  assumes "collision_free dig" and "store_ok dig st" and "depth_within st f ours"
  shows "\<exists>r st'. merge_trees dig f st base ours theirs = Some (r, st')"
  using merge_subtrees_total [OF assms(1,3)] assms(2) grows_refl by (fastforce simp: total_on_def merge_trees_def)

theorem merge_trees_terminates_witness:
  "\<exists>r st'. merge_trees demo_digest 1 demo_store ''theirs'' ''ours'' ''base'' = Some (r, st')"
  by (rule merge_trees_terminates [OF demo_collision_free demo_store_ok]) (simp add: demo_store_def demo_tree_def)

text \<open>C21. What a retried merge of a branch does to the refs while other writers act before every one of its ref operations. Up
  to its commit it changes no ref itself: the ref store is then what the other writers made of the one it started from, and a
  retry that reports conflicts leaves it there. A retry that reports success appends one entry to the parent's log, on top of
  everything the other writers appended. The entry names the three-way merge of the branch's tree, its ancestor and the tree
  the parent's ref named when it was read for the last time; so when no writer moves the parent between that read and the
  commit, the tree the parent named at the commit is merged and no update is lost. A move in that window is not noticed.\<close>

theorem branch_merge_no_lost_update:
  assumes "collision_free dig" and "store_ok dig st"
    and "retry_merge_branch_into_parent dig f memory_ops nm others st rs branch initial n = Some (Inr out, st', rs')"
  shows "\<exists>b rs0. by_others others rs rs0 \<and> read_ref memory_ops nm rs0 (sw_backing_ref_name branch) = Inr (Some b) \<and>
    (if bo_conflicts out = []
     then \<exists>k live then'. live = others k WhileMerging rs0 \<and> then' = others k BeforeCommit live \<and>
       merge_committed nm st' live then' (sw_base_digest branch) (wr_tree_digest b) (wr_name initial) out rs' \<and>
       (then' (ref_log_id (wr_name initial)) = live (ref_log_id (wr_name initial)) \<longrightarrow>
          merge_committed nm st' then' then' (sw_base_digest branch) (wr_tree_digest b) (wr_name initial) out rs')
     else bo_parent_ref out = None \<and> by_others others rs rs')"
proof -
  have "retry_loop dig f memory_ops nm others branch (wr_name initial) (nat n) (Some initial) st rs = Some (Inr out, st', rs')"
    using assms(3) by (auto simp: retry_merge_branch_into_parent_def split: if_splits)
  from retry_outcome [OF this assms(2)] obtain k st0 rs0 r where s: "store_ok dig st0" and r: "wr_name r = wr_name initial"
    and o: "by_others others rs rs0"
    and m: "merge_branch_into_parent dig f memory_ops nm (others k) st0 rs0 branch r = Some (Inr out, st', rs')" by auto
  define rs1 where "rs1 = others k BeforeBranchRead rs0"
  have o1: "by_others others rs rs1" unfolding rs1_def using o by (rule by_others.act)
  have same: "read_ref memory_ops nm a p = read_ref memory_ops nm c p" if "a (ref_log_id p) = c (ref_log_id p)" for a c p
    using that by (simp add: read_ref_def memory_ops_def log_read_from_def)
  from merge_branch_outcome [OF assms(1) s m] obtain b where b: "read_ref memory_ops nm rs1 (sw_backing_ref_name branch) = Inr (Some b)"
    "if bo_conflicts out = []
     then merge_committed nm st' (others k WhileMerging rs1) (others k BeforeCommit (others k WhileMerging rs1)) (sw_base_digest branch)
            (wr_tree_digest b) (wr_name initial) out rs'
     else bo_parent_ref out = None \<and> rs' = others k WhileMerging rs1" unfolding rs1_def r by (auto split: if_splits)
  show ?thesis
  proof (cases "bo_conflicts out = []")
    case False
    with b o1 show ?thesis by (auto intro: by_others.act)
  next
    case True
    define live then' where "live = others k WhileMerging rs1" and "then' = others k BeforeCommit live"
    have c: "merge_committed nm st' live then' (sw_base_digest branch) (wr_tree_digest b) (wr_name initial) out rs'"
      using b(2) True by (simp add: live_def then'_def)
    moreover have "merge_committed nm st' then' then' (sw_base_digest branch) (wr_tree_digest b) (wr_name initial) out rs'"
      if "then' (ref_log_id (wr_name initial)) = live (ref_log_id (wr_name initial))"
      using c same [of then' "wr_name initial" live] that by (simp add: merge_committed_def)
    ultimately show ?thesis using b(1) o1 True unfolding live_def then'_def by (auto intro!: exI [of _ b] exI [of _ rs1])
  qed
qed

definition demo_branch :: sub_worktree where
  "demo_branch = \<lparr>sw_name = ''c'', sw_backing_ref_name = ''c'', sw_mode = BranchMode, sw_pinned_digest = [], sw_base_digest = ''base''\<rparr>"

definition demo_refs :: memory_log where
  "demo_refs = (\<lambda>i. [])(ref_log_id ''c'' := [] @ [encode_ref_moved int_ops ''ours''], ref_log_id ''p'' := [] @ [encode_ref_moved int_ops ''theirs''])"

lemma demo_retry:
  "retry_merge_branch_into_parent demo_digest 1 memory_ops int_ops (\<lambda>k point rs. rs) demo_store demo_refs demo_branch
     \<lparr>wr_name = ''p'', wr_tree_digest = ''theirs''\<rparr> 1
   = Some (Inr \<lparr>bo_parent_ref = Some \<lparr>wr_name = ''p'', wr_tree_digest = ''merged''\<rparr>, bo_conflicts = []\<rparr>,
       demo_store\<lparr>os_trees := (os_trees demo_store)(''merged'' \<mapsto> demo_tree ''3'' ''4'')\<rparr>,
       demo_refs(ref_log_id ''p'' := demo_refs (ref_log_id ''p'') @ [encode_ref_moved int_ops ''merged'']))"
proof -
  have "read_ref memory_ops int_ops demo_refs ''c'' = Inr (Some \<lparr>wr_name = ''c'', wr_tree_digest = ''ours''\<rparr>)"
    "read_ref memory_ops int_ops demo_refs ''p'' = Inr (Some \<lparr>wr_name = ''p'', wr_tree_digest = ''theirs''\<rparr>)"
    by (simp_all add: demo_refs_def read_ref_def decode_encode_ref_moved)
  then show ?thesis
    using demo_merge [of 0]
    by (simp add: retry_merge_branch_into_parent_def merge_branch_into_parent_def commit_merge_def commit_ref_memory
        demo_branch_def merged_as_def Let_def)
qed

theorem branch_merge_no_lost_update_witness:
  "\<exists>rs0 b. read_ref memory_ops int_ops rs0 ''c'' = Inr (Some b) \<and>
     merge_committed int_ops (demo_store\<lparr>os_trees := (os_trees demo_store)(''merged'' \<mapsto> demo_tree ''3'' ''4'')\<rparr>) rs0 rs0
       ''base'' (wr_tree_digest b) ''p''
       \<lparr>bo_parent_ref = Some \<lparr>wr_name = ''p'', wr_tree_digest = ''merged''\<rparr>, bo_conflicts = []\<rparr>
       (demo_refs(ref_log_id ''p'' := demo_refs (ref_log_id ''p'') @ [encode_ref_moved int_ops ''merged'']))"
  using branch_merge_no_lost_update [OF demo_collision_free demo_store_ok demo_retry]
  by (auto simp: demo_branch_def)

text \<open>The window between the last read and the commit: a writer moves the parent there, the retry reports success, and its merge,
  made without that writer's tree, is what the parent names; the writer's entry is only left in the log.\<close>

definition racing_writer :: "nat \<Rightarrow> memory_log writers" where
  "racing_writer k point rs =
     (if point = BeforeCommit then rs(ref_log_id ''p'' := rs (ref_log_id ''p'') @ [encode_ref_moved int_ops ''raced'']) else rs)"

lemma racing_move_overwritten:
  "\<exists>st' rs'. retry_merge_branch_into_parent demo_digest 1 memory_ops int_ops racing_writer demo_store demo_refs demo_branch
     \<lparr>wr_name = ''p'', wr_tree_digest = ''theirs''\<rparr> 1
   = Some (Inr \<lparr>bo_parent_ref = Some \<lparr>wr_name = ''p'', wr_tree_digest = ''merged''\<rparr>, bo_conflicts = []\<rparr>, st', rs') \<and>
     rs' (ref_log_id ''p'') = map (encode_ref_moved int_ops) [''theirs'', ''raced'', ''merged'']"
proof -
  have "read_ref memory_ops int_ops demo_refs ''c'' = Inr (Some \<lparr>wr_name = ''c'', wr_tree_digest = ''ours''\<rparr>)"
    "read_ref memory_ops int_ops demo_refs ''p'' = Inr (Some \<lparr>wr_name = ''p'', wr_tree_digest = ''theirs''\<rparr>)"
    "demo_refs (ref_log_id ''p'') = [encode_ref_moved int_ops ''theirs'']"
    by (simp_all add: demo_refs_def read_ref_def decode_encode_ref_moved)
  then show ?thesis
    using demo_merge [of 0]
    by (simp add: retry_merge_branch_into_parent_def merge_branch_into_parent_def commit_merge_def commit_ref_memory
        demo_branch_def merged_as_def Let_def racing_writer_def)
qed

end
