(* ===== verification/WorktreeDiff.thy ===== *)
theory WorktreeDiff
  imports WorktreeMerge
begin

text \<open>
  The two-way diff of worktrees and the staleness note of shared ones:
  \<^verbatim>\<open>include/agentengine/core/worktree_diff.hpp\<close>. The walk over two trees is proved to report exactly
  the files that differ, at the path a reader reaches them by.
\<close>

section \<open>Operations\<close>

datatype tree_diff_kind = Added | Removed | Modified

record tree_diff_entry =
  td_path :: string
  td_kind :: tree_diff_kind

type_synonym tree_diff = "tree_diff_entry list"

text \<open>The code pushes entries to an output vector and stops at the first error; the model returns the
  entries pushed. \<^const>\<open>None\<close> is fuel that ran out.\<close>

type_synonym walked = "tree_diff_entry list result option"

fun walk_all :: "('a \<Rightarrow> walked) \<Rightarrow> 'a list \<Rightarrow> walked" where
  "walk_all f [] = Some (Inr [])"
| "walk_all f (x # xs) =
     (case f x of
        None \<Rightarrow> None
      | Some (Inl e) \<Rightarrow> Some (Inl e)
      | Some (Inr ys) \<Rightarrow>
          (case walk_all f xs of
             None \<Rightarrow> None
           | Some (Inl e) \<Rightarrow> Some (Inl e)
           | Some (Inr zs) \<Rightarrow> Some (Inr (ys @ zs))))"

primrec collect_leaves_as :: "object_store \<Rightarrow> nat \<Rightarrow> digest \<Rightarrow> bool \<Rightarrow> string \<Rightarrow> tree_diff_kind \<Rightarrow> walked" where
  "collect_leaves_as st 0 d is_tree path k =
     (if is_tree then None else Some (Inr [\<lparr>td_path = path, td_kind = k\<rparr>]))"
| "collect_leaves_as st (Suc f) d is_tree path k =
     (if is_tree then
        (case get_tree st d of
           Inl e \<Rightarrow> Some (Inl e)
         | Inr t \<Rightarrow> walk_all (\<lambda>e. collect_leaves_as st f (te_digest e) (te_is_tree e) (path @ ''/'' @ te_name e) k) t)
      else Some (Inr [\<lparr>td_path = path, td_kind = k\<rparr>]))"

definition diff_names :: "tree \<Rightarrow> tree \<Rightarrow> string list" where
  "diff_names old new = sort (remdups (map te_name (old @ new)))"

text \<open>One name: \<open>sub\<close> diffs two subtrees, \<open>leaves\<close> collects everything under an entry.\<close>

definition diff_name ::
  "(digest \<Rightarrow> digest \<Rightarrow> string \<Rightarrow> walked) \<Rightarrow> (tree_entry \<Rightarrow> string \<Rightarrow> tree_diff_kind \<Rightarrow> walked)
    \<Rightarrow> tree_entry option \<Rightarrow> tree_entry option \<Rightarrow> string \<Rightarrow> walked" where
  "diff_name sub leaves oe ne path =
     (case (oe, ne) of
        (None, None) \<Rightarrow> Some (Inr [])
      | (Some x, None) \<Rightarrow> leaves x path Removed
      | (None, Some y) \<Rightarrow> leaves y path Added
      | (Some x, Some y) \<Rightarrow>
          if te_digest x = te_digest y \<and> te_is_tree x = te_is_tree y then Some (Inr [])
          else if te_is_tree x \<and> te_is_tree y then sub (te_digest x) (te_digest y) (path @ ''/'')
          else if \<not> te_is_tree x \<and> \<not> te_is_tree y then Some (Inr [\<lparr>td_path = path, td_kind = Modified\<rparr>])
          else walk_all (\<lambda>(e, k). leaves e path k) [(x, Removed), (y, Added)])"

primrec diff_subtrees :: "object_store \<Rightarrow> nat \<Rightarrow> digest \<Rightarrow> digest \<Rightarrow> string \<Rightarrow> walked" where
  "diff_subtrees st 0 old_digest new_digest path_prefix =
     (if old_digest = new_digest then Some (Inr []) else None)"
| "diff_subtrees st (Suc f) old_digest new_digest path_prefix =
     (if old_digest = new_digest then Some (Inr [])
      else case get_tree st old_digest of
             Inl e \<Rightarrow> Some (Inl e)
           | Inr old \<Rightarrow>
               (case get_tree st new_digest of
                  Inl e \<Rightarrow> Some (Inl e)
                | Inr new \<Rightarrow>
                    walk_all (\<lambda>name. diff_name (diff_subtrees st f)
                        (\<lambda>e. collect_leaves_as st f (te_digest e) (te_is_tree e))
                        (find_entry old name) (find_entry new name) (path_prefix @ name))
                      (diff_names old new)))"

definition diff_trees :: "object_store \<Rightarrow> nat \<Rightarrow> digest \<Rightarrow> digest \<Rightarrow> tree_diff result option" where
  "diff_trees st f old_digest new_digest =
     (case diff_subtrees st f old_digest new_digest [] of
        None \<Rightarrow> None
      | Some (Inl e) \<Rightarrow> Some (Inl e)
      | Some (Inr changes) \<Rightarrow> Some (Inr (sort_key td_path changes)))"

definition kind_count :: "tree_diff_kind \<Rightarrow> tree_diff \<Rightarrow> nat" where
  "kind_count k diff = length (filter (\<lambda>c. td_kind c = k) diff)"

fun join_parts :: "string list \<Rightarrow> string" where
  "join_parts [] = []"
| "join_parts [p] = p"
| "join_parts (p # q # ps) = p @ '', '' @ join_parts (q # ps)"

definition part :: "nat \<Rightarrow> string \<Rightarrow> string list" where
  "part n what = (if n = 0 then [] else [show_nat n @ what])"

definition summarize_diff :: "tree_diff \<Rightarrow> string" where
  "summarize_diff diff =
     (if diff = [] then ''no changes''
      else
        let parts = part (kind_count Modified diff) '' modified'' @ part (kind_count Added diff) '' added''
                    @ part (kind_count Removed diff) '' removed''
        in show_nat (length diff) @ '' file'' @ (if length diff = 1 then [] else ''s'') @ '' changed''
           @ (if parts = [] then [] else '' ('' @ join_parts parts @ '')''))"

record staleness_note =
  sn_last_read_digest :: digest
  sn_current_digest :: digest
  sn_diff :: tree_diff

definition note_stale :: "staleness_note \<Rightarrow> bool" where
  "note_stale n = (sn_last_read_digest n \<noteq> sn_current_digest n)"

definition check_shared_staleness ::
  "'s log_ops \<Rightarrow> 'n num_ops \<Rightarrow> object_store \<Rightarrow> nat \<Rightarrow> 's \<Rightarrow> sub_worktree \<Rightarrow> digest \<Rightarrow> staleness_note result option" where
  "check_shared_staleness ops nm st f rs shared last_read =
     (if sw_mode shared \<noteq> SharedMode then Some (Inl (Error Contract ''worktree.staleness_requires_shared_mode''))
      else case read_sub_worktree ops nm rs shared of
             Inl e \<Rightarrow> Some (Inl e)
           | Inr None \<Rightarrow> Some (Inl (Error Contract ''worktree.staleness_ref_missing''))
           | Inr (Some current) \<Rightarrow>
               if wr_tree_digest current = last_read
               then Some (Inr \<lparr>sn_last_read_digest = last_read, sn_current_digest = wr_tree_digest current, sn_diff = []\<rparr>)
               else (case diff_trees st f last_read (wr_tree_digest current) of
                       None \<Rightarrow> None
                     | Some (Inl e) \<Rightarrow> Some (Inl e)
                     | Some (Inr d) \<Rightarrow>
                         Some (Inr \<lparr>sn_last_read_digest = last_read, sn_current_digest = wr_tree_digest current, sn_diff = d\<rparr>)))"

section \<open>What a diff is\<close>

text \<open>How a file changed from one content to another, and the printed form of a path of names.\<close>

definition file_change :: "digest option \<Rightarrow> digest option \<Rightarrow> tree_diff_kind option" where
  "file_change old new =
     (case (old, new) of
        (Some x, None) \<Rightarrow> Some Removed
      | (None, Some y) \<Rightarrow> Some Added
      | (Some x, Some y) \<Rightarrow> if x = y then None else Some Modified
      | (None, None) \<Rightarrow> None)"

fun path_under :: "string \<Rightarrow> string list \<Rightarrow> string" where
  "path_under path [] = path"
| "path_under path (n # p) = path_under (path @ ''/'' @ n) p"

fun join_path :: "string list \<Rightarrow> string" where
  "join_path [] = []"
| "join_path (n # p) = path_under n p"

lemma path_under_append: "path_under (a @ b) p = a @ path_under b p"
  by (induction p arbitrary: b) simp_all

lemma path_under_join: "p \<noteq> [] \<Longrightarrow> path_under path p = path @ ''/'' @ join_path p"
proof (cases p)
  case (Cons n q)
  then show ?thesis using path_under_append [of "path @ ''/''" n q] by simp
qed simp

text \<open>The names of a stored tree are distinct.\<close>

definition names_distinct :: "object_store \<Rightarrow> bool" where
  "names_distinct st \<longleftrightarrow> (\<forall>d t. os_trees st d = Some t \<longrightarrow> distinct (map te_name t))"

lemma walk_all_Inr:
  assumes "walk_all f xs = Some (Inr ys)"
  shows "\<exists>g. (\<forall>x\<in>set xs. f x = Some (Inr (g x))) \<and> set ys = (\<Union>x\<in>set xs. set (g x))"
proof -
  have "(\<forall>x\<in>set xs. \<exists>zs. f x = Some (Inr zs)) \<and> set ys = (\<Union>x\<in>set xs. set (projr (the (f x))))"
    using assms by (induction xs arbitrary: ys) (auto split: option.splits sum.splits)
  then show ?thesis by (intro exI [of _ "\<lambda>x. projr (the (f x))"]) fastforce
qed

lemma walk_all_total: "\<forall>x\<in>set xs. \<exists>ys. f x = Some (Inr ys) \<Longrightarrow> \<exists>zs. walk_all f xs = Some (Inr zs)"
  by (induction xs) fastforce+

lemma get_tree_InrD: "get_tree st d = Inr t \<Longrightarrow> os_trees st d = Some t"
  by (simp add: get_tree_def split: option.splits)

lemma walk_all_pair:
  "walk_all f [x, y] = Some (Inr zs) \<Longrightarrow> \<exists>xs ys. f x = Some (Inr xs) \<and> f y = Some (Inr ys) \<and> zs = xs @ ys"
  by (auto split: option.splits sum.splits)

lemma entry_files_None [simp]: "entry_files st None p = None"
  by (simp add: entry_files_def)

text \<open>Collecting reports every file under an entry.\<close>

lemma tree_files_dom:
  assumes t: "os_trees st d = Some t" and "distinct (map te_name t)"
  shows "dom (files st d) = (\<Union>c\<in>set t. (#) (te_name c) ` dom (entry_files st (Some c)))"
proof (rule set_eqI)
  fix p show "p \<in> dom (files st d) \<longleftrightarrow> p \<in> (\<Union>c\<in>set t. (#) (te_name c) ` dom (entry_files st (Some c)))"
  proof (cases p)
    case (Cons n q)
    have "c \<in> set t \<and> te_name c = n \<longleftrightarrow> find_entry t n = Some c" for c
      using find_entry_distinct [OF assms(2)] find_entry_Some by blast
    then have "p \<in> (\<Union>c\<in>set t. (#) (te_name c) ` dom (entry_files st (Some c)))
        \<longleftrightarrow> (\<exists>c. find_entry t n = Some c \<and> entry_files st (Some c) q \<noteq> None)"
      unfolding Cons by (auto simp: dom_def image_iff) metis+
    also have "\<dots> \<longleftrightarrow> entry_files st (find_entry t n) q \<noteq> None" by (cases "find_entry t n") simp_all
    finally show ?thesis using files_Cons [OF t, of n q] by (simp add: Cons dom_def)
  qed auto
qed

lemma entry_files_blob: "\<not> te_is_tree e \<Longrightarrow> dom (entry_files st (Some e)) = {[]}"
  by (auto simp: entry_files_def split: if_splits)

lemma entry_files_tree: "te_is_tree e \<Longrightarrow> entry_files st (Some e) = files st (te_digest e)"
  by (simp add: fun_eq_iff entry_files_def)

lemma collect_leaves_set:
  assumes "names_distinct st"
  shows "collect_leaves_as st f (te_digest e) (te_is_tree e) path k = Some (Inr xs) \<Longrightarrow>
    set xs = (\<lambda>p. \<lparr>td_path = path_under path p, td_kind = k\<rparr>) ` dom (entry_files st (Some e))"
proof (induction f arbitrary: e path xs)
  case 0
  then show ?case by (auto simp: entry_files_blob split: if_splits)
next
  case (Suc f)
  show ?case
  proof (cases "te_is_tree e")
    case False
    then show ?thesis using Suc.prems by (auto simp: entry_files_blob)
  next
    case True
    then obtain t where t: "os_trees st (te_digest e) = Some t"
      and w: "walk_all (\<lambda>c. collect_leaves_as st f (te_digest c) (te_is_tree c) (path @ ''/'' @ te_name c) k) t = Some (Inr xs)"
      using Suc.prems by (auto simp: get_tree_def split: option.splits)
    then obtain g where g: "\<And>c. c \<in> set t \<Longrightarrow>
        collect_leaves_as st f (te_digest c) (te_is_tree c) (path @ ''/'' @ te_name c) k = Some (Inr (g c))"
      and xs: "set xs = (\<Union>c\<in>set t. set (g c))" using walk_all_Inr [OF w] by blast
    have d: "distinct (map te_name t)" using assms t by (auto simp: names_distinct_def)
    show ?thesis
      by (simp add: xs entry_files_tree [OF True] tree_files_dom [OF t d] image_UN image_image Suc.IH [OF g])
  qed
qed

text \<open>The changes between two entries, as entries at their paths.\<close>

definition changed :: "(string list \<Rightarrow> digest option) \<Rightarrow> (string list \<Rightarrow> digest option) \<Rightarrow> (string list \<times> tree_diff_kind) set" where
  "changed old new = {(p, k). file_change (old p) (new p) = Some k}"

definition changes_at :: "string \<Rightarrow> (string list \<Rightarrow> digest option) \<Rightarrow> (string list \<Rightarrow> digest option) \<Rightarrow> tree_diff_entry set" where
  "changes_at path old new = (\<lambda>(p, k). \<lparr>td_path = path_under path p, td_kind = k\<rparr>) ` changed old new"

definition changes :: "string \<Rightarrow> (string list \<Rightarrow> digest option) \<Rightarrow> (string list \<Rightarrow> digest option) \<Rightarrow> tree_diff_entry set" where
  "changes pre old new = (\<lambda>(p, k). \<lparr>td_path = pre @ join_path p, td_kind = k\<rparr>) ` changed old new"

definition diffs :: "object_store \<Rightarrow> (digest \<Rightarrow> digest \<Rightarrow> string \<Rightarrow> walked) \<Rightarrow> bool" where
  "diffs st sub \<longleftrightarrow> (\<forall>old new pre xs. sub old new pre = Some (Inr xs) \<longrightarrow> set xs = changes pre (files st old) (files st new))"

lemma file_change_simps [simp]:
  "file_change z z = None" "file_change None (Some y) = Some Added" "file_change (Some x) None = Some Removed"
  by (simp_all add: file_change_def split: option.splits)

lemma changed_same [simp]: "changed old old = {}"
  by (simp add: changed_def)

lemma changed_added: "changed (\<lambda>p. None) new = (\<lambda>p. (p, Added)) ` dom new"
  by (auto simp: changed_def file_change_def split: option.splits)

lemma changed_removed: "changed old (\<lambda>p. None) = (\<lambda>p. (p, Removed)) ` dom old"
  by (auto simp: changed_def file_change_def split: option.splits)

lemma changed_disjoint:
  "dom old \<inter> dom new = {} \<Longrightarrow> changed old new = (\<lambda>p. (p, Removed)) ` dom old \<union> (\<lambda>p. (p, Added)) ` dom new"
  by (force simp: changed_def file_change_def dom_def split: option.splits if_splits)

lemma changed_by_name:
  assumes "old [] = None" and "new [] = None"
  shows "changed old new = (\<Union>n. (\<lambda>(p, k). (n # p, k)) ` changed (\<lambda>p. old (n # p)) (\<lambda>p. new (n # p)))"
proof (rule set_eqI)
  fix x show "x \<in> changed old new \<longleftrightarrow> x \<in> (\<Union>n. (\<lambda>(p, k). (n # p, k)) ` changed (\<lambda>p. old (n # p)) (\<lambda>p. new (n # p)))"
    using assms by (cases x; cases "fst x") (auto simp: changed_def)
qed

lemma changes_under:
  assumes "old [] = None" and "new [] = None"
  shows "changes (path @ ''/'') old new = changes_at path old new"
proof -
  have "p \<noteq> []" if "(p, k) \<in> changed old new" for p k using that assms by (auto simp: changed_def)
  then show ?thesis unfolding changes_def changes_at_def
    by (intro image_cong) (auto simp: path_under_join)
qed

lemma changes_by_name:
  assumes "old [] = None" and "new [] = None"
  shows "changes pre old new = (\<Union>n. changes_at (pre @ n) (\<lambda>p. old (n # p)) (\<lambda>p. new (n # p)))"
  unfolding changes_def changed_by_name [of old new, OF assms] changes_at_def
  by (simp add: image_UN image_image case_prod_unfold path_under_append)

lemma changed_entries:
  assumes "te_digest x \<noteq> te_digest y" and "\<not> te_is_tree x" and "\<not> te_is_tree y"
  shows "changed (entry_files st (Some x)) (entry_files st (Some y)) = {([], Modified)}"
  using assms by (auto simp: changed_def entry_files_def file_change_def split: if_splits)

lemma diff_name_set:
  assumes "names_distinct st" and sub: "diffs st sub"
    and d: "diff_name sub (\<lambda>e. collect_leaves_as st f (te_digest e) (te_is_tree e)) oe ne path = Some (Inr xs)"
  shows "set xs = changes_at path (entry_files st oe) (entry_files st ne)"
proof -
  note leaves = collect_leaves_set [OF assms(1), of f]
  have none: "entry_files st None = (\<lambda>p. None)" by (simp add: fun_eq_iff)
  consider (neither) "oe = None" "ne = None" | (removed) x where "oe = Some x" "ne = None"
    | (added) y where "oe = None" "ne = Some y" | (both) x y where "oe = Some x" "ne = Some y" by (cases oe; cases ne) auto
  then show ?thesis
  proof cases
    case neither
    then show ?thesis using d by (simp add: diff_name_def changes_at_def)
  next
    case removed
    then show ?thesis using d leaves [of x path Removed xs]
      by (simp add: diff_name_def changes_at_def none changed_removed image_image)
  next
    case added
    then show ?thesis using d leaves [of y path Added xs]
      by (simp add: diff_name_def changes_at_def none changed_added image_image)
  next
    case (both x y)
    consider (same) "te_digest x = te_digest y" "te_is_tree x = te_is_tree y"
      | (trees) "te_digest x \<noteq> te_digest y" "te_is_tree x" "te_is_tree y"
      | (blobs) "te_digest x \<noteq> te_digest y" "\<not> te_is_tree x" "\<not> te_is_tree y"
      | (mixed) "te_is_tree x \<noteq> te_is_tree y" by blast
    then show ?thesis
    proof cases
      case same
      then have "entry_files st oe = entry_files st ne" using both by (simp add: fun_eq_iff entry_files_def)
      then show ?thesis using d both same by (simp add: diff_name_def changes_at_def)
    next
      case trees
      then show ?thesis
        using d both sub changes_under [of "files st (te_digest x)" "files st (te_digest y)" path]
        by (simp add: diff_name_def diffs_def entry_files_tree)
    next
      case blobs
      then show ?thesis using d both by (auto simp: diff_name_def changes_at_def changed_entries)
    next
      case mixed
      then have w: "walk_all (\<lambda>(e, k). collect_leaves_as st f (te_digest e) (te_is_tree e) path k) [(x, Removed), (y, Added)]
          = Some (Inr xs)" using d both by (auto simp: diff_name_def simp del: walk_all.simps split: if_splits)
      obtain xs1 xs2 where c: "collect_leaves_as st f (te_digest x) (te_is_tree x) path Removed = Some (Inr xs1)"
        "collect_leaves_as st f (te_digest y) (te_is_tree y) path Added = Some (Inr xs2)" "xs = xs1 @ xs2"
        using walk_all_pair [OF w] by auto
      have "dom (entry_files st (Some x)) \<inter> dom (entry_files st (Some y)) = {}"
        using mixed by (cases "te_is_tree x") (auto simp: entry_files_blob entry_files_tree)
      then show ?thesis
        using leaves [OF c(1)] leaves [OF c(2)] c(3) both
        by (simp add: changes_at_def changed_disjoint image_Un image_image)
    qed
  qed
qed

lemma diff_subtrees_set:
  assumes "names_distinct st"
  shows "diffs st (diff_subtrees st f)"
proof (induction f)
  case 0
  then show ?case by (auto simp: diffs_def changes_def)
next
  case (Suc f)
  show ?case
    unfolding diffs_def
  proof (intro allI impI)
    fix old new pre xs assume d: "diff_subtrees st (Suc f) old new pre = Some (Inr xs)"
    show "set xs = changes pre (files st old) (files st new)"
    proof (cases "old = new")
      case True
      then show ?thesis using d by (simp add: changes_def)
    next
      case False
      then obtain ot nt where ot: "os_trees st old = Some ot" and nt: "os_trees st new = Some nt"
        and w: "walk_all (\<lambda>name. diff_name (diff_subtrees st f) (\<lambda>e. collect_leaves_as st f (te_digest e) (te_is_tree e))
             (find_entry ot name) (find_entry nt name) (pre @ name)) (diff_names ot nt) = Some (Inr xs)"
        using d by (auto simp: get_tree_def split: option.splits)
      obtain g where g: "\<And>n. n \<in> set (diff_names ot nt) \<Longrightarrow>
          set (g n) = changes_at (pre @ n) (entry_files st (find_entry ot n)) (entry_files st (find_entry nt n))"
        and xs: "set xs = (\<Union>n\<in>set (diff_names ot nt). set (g n))"
        using walk_all_Inr [OF w] diff_name_set [OF assms Suc.IH] by metis
      have "changes_at (pre @ n) (entry_files st (find_entry ot n)) (entry_files st (find_entry nt n)) = {}"
        if "n \<notin> set (diff_names ot nt)" for n
      proof -
        have "find_entry ot n = None" "find_entry nt n = None" using that by (auto simp: diff_names_def find_entry_None)
        then show ?thesis by (simp add: changes_at_def)
      qed
      then have "set xs = (\<Union>n. changes_at (pre @ n) (entry_files st (find_entry ot n)) (entry_files st (find_entry nt n)))"
        unfolding xs using g by fast
      also have "\<dots> = changes pre (files st old) (files st new)"
        using changes_by_name [of "files st old" "files st new" pre]
        by (simp only: files.simps(1) files_Cons [OF ot] files_Cons [OF nt])
      finally show ?thesis .
    qed
  qed
qed

section \<open>Enough fuel\<close>

definition present :: "object_store \<Rightarrow> nat \<Rightarrow> tree_entry \<Rightarrow> bool" where
  "present st f e \<longleftrightarrow> (te_is_tree e \<longrightarrow> depth_within st f (te_digest e))"

lemma depth_within_present:
  "depth_within st (Suc f) d \<longleftrightarrow> (\<exists>t. os_trees st d = Some t \<and> (\<forall>c\<in>set t. present st f c))"
  by (auto simp: present_def list_all_iff split: option.splits)

lemma collect_leaves_total:
  "present st f e \<Longrightarrow>
    \<exists>xs. collect_leaves_as st f (te_digest e) (te_is_tree e) path k = Some (Inr xs)"
proof (induction f arbitrary: e path)
  case (Suc f)
  show ?case
  proof (cases "te_is_tree e")
    case True
    then obtain t where t: "os_trees st (te_digest e) = Some t"
      and c: "\<forall>c\<in>set t. present st f c"
      using Suc.prems unfolding present_def depth_within_present by blast
    have "\<exists>xs. walk_all (\<lambda>c. collect_leaves_as st f (te_digest c) (te_is_tree c) (path @ ''/'' @ te_name c) k) t = Some (Inr xs)"
      using c Suc.IH by (intro walk_all_total) blast
    then show ?thesis using True t by (simp add: get_tree_def)
  qed simp
qed (auto simp: present_def)

lemma diff_subtrees_total:
  "depth_within st f old \<Longrightarrow> depth_within st f new \<Longrightarrow> \<exists>xs. diff_subtrees st f old new pre = Some (Inr xs)"
proof (induction f arbitrary: old new pre)
  case (Suc f)
  obtain ot nt where t: "os_trees st old = Some ot" "os_trees st new = Some nt"
    and o: "\<forall>c\<in>set ot. present st f c" and n: "\<forall>c\<in>set nt. present st f c"
    using Suc.prems unfolding depth_within_present by blast
  have "\<exists>xs. diff_name (diff_subtrees st f) (\<lambda>e. collect_leaves_as st f (te_digest e) (te_is_tree e))
      (find_entry ot name) (find_entry nt name) path = Some (Inr xs)" for name path
  proof -
    have x: "find_entry ot name = Some x \<Longrightarrow> present st f x" for x
      using o find_entry_Some by blast
    have y: "find_entry nt name = Some y \<Longrightarrow> present st f y" for y
      using n find_entry_Some by blast
    show ?thesis
    proof (cases "find_entry ot name"; cases "find_entry nt name")
      fix x y assume xy: "find_entry ot name = Some x" "find_entry nt name = Some y"
      have "\<exists>xs. walk_all (\<lambda>(e, k). collect_leaves_as st f (te_digest e) (te_is_tree e) path k) [(x, Removed), (y, Added)] = Some (Inr xs)"
        using x [OF xy(1)] y [OF xy(2)] collect_leaves_total by (intro walk_all_total) auto
      then show ?thesis
        using xy x [OF xy(1)] y [OF xy(2)] Suc.IH by (simp add: diff_name_def present_def del: walk_all.simps)
    qed (use x y collect_leaves_total in \<open>auto simp: diff_name_def\<close>)
  qed
  then have "\<exists>xs. walk_all (\<lambda>name. diff_name (diff_subtrees st f) (\<lambda>e. collect_leaves_as st f (te_digest e) (te_is_tree e))
      (find_entry ot name) (find_entry nt name) (pre @ name)) (diff_names ot nt) = Some (Inr xs)"
    by (intro walk_all_total) blast
  then show ?case using t by (simp add: get_tree_def)
qed simp

section \<open>Properties\<close>

definition demo_nested :: object_store where
  "demo_nested = \<lparr>os_blobs = Map.empty, os_trees =
     [''old'' \<mapsto> [\<lparr>te_name = ''a'', te_digest = ''1'', te_is_tree = False\<rparr>, \<lparr>te_name = ''d'', te_digest = ''sub'', te_is_tree = True\<rparr>],
      ''new'' \<mapsto> [\<lparr>te_name = ''a'', te_digest = ''2'', te_is_tree = False\<rparr>],
      ''sub'' \<mapsto> [\<lparr>te_name = ''x'', te_digest = ''3'', te_is_tree = False\<rparr>]]\<rparr>"

text \<open>C36. The diff of two worktrees is exact: with fuel for the depth of both trees it returns, and the entries it
  lists are, in path order, exactly the files that one tree has and the other has not, or has with other
  content, each with the kind of its change, directories walked to their files.\<close>

theorem diff_trees_exact:
  assumes "names_distinct st" and "depth_within st f old" and "depth_within st f new"
  shows "\<exists>diff. diff_trees st f old new = Some (Inr diff) \<and> sorted (map td_path diff) \<and>
    set diff = {\<lparr>td_path = join_path p, td_kind = k\<rparr> | p k. file_change (files st old p) (files st new p) = Some k}"
proof -
  obtain xs where xs: "diff_subtrees st f old new [] = Some (Inr xs)" using diff_subtrees_total [OF assms(2,3)] by blast
  then have "set xs = changes [] (files st old) (files st new)"
    using diff_subtrees_set [OF assms(1)] by (simp add: diffs_def)
  then have "set (sort_key td_path xs)
      = {\<lparr>td_path = join_path p, td_kind = k\<rparr> | p k. file_change (files st old p) (files st new p) = Some k}"
    by (auto simp: changes_def changed_def)
  then show ?thesis using xs by (simp add: diff_trees_def)
qed

theorem diff_trees_exact_witness:
  "\<exists>diff. diff_trees demo_nested 2 ''old'' ''new'' = Some (Inr diff) \<and> set diff =
     {\<lparr>td_path = join_path p, td_kind = k\<rparr> | p k. file_change (files demo_nested ''old'' p) (files demo_nested ''new'' p) = Some k}"
proof -
  have "names_distinct demo_nested" by (auto simp: names_distinct_def demo_nested_def split: if_splits)
  moreover have "depth_within demo_nested 2 ''old''" "depth_within demo_nested 2 ''new''"
    by (simp_all add: demo_nested_def numeral_2_eq_2)
  ultimately show ?thesis using diff_trees_exact [of demo_nested 2 "''old''" "''new''"] by blast
qed

end
