(* ===== verification/WorktreeMount.thy ===== *)
theory WorktreeMount
  imports WorktreeDiff CapabilitySets
begin

text \<open>
  Mounts: \<^verbatim>\<open>include/agentengine/core/worktree_mount.hpp\<close>. A guest reads and writes files of a
  worktree through a mount and a bound capability; a write that would exceed the capability's quota is
  refused before the ref moves. A failed merge files both versions of every conflict under the parent's
  conflicts ref. Proved: a write changes exactly the one path, which the capability covers, in exactly
  the mount's ref, and a read returns what was written; the evidence of conflicts is kept.
\<close>

section \<open>Paths\<close>

record mount =
  mt_mount_id :: string
  mt_ref_name :: string
  mt_subtree_path :: string

definition path_malformed :: "'a result" where
  "path_malformed = Inl (Error Contract ''worktree.mount_path_malformed'')"

fun split_loop :: "string \<Rightarrow> string \<Rightarrow> string list \<Rightarrow> string list result" where
  "split_loop current [] segments =
     (if current = [] then path_malformed else Inr (segments @ [current]))"
| "split_loop current (c # path) segments =
     (if c \<noteq> CHR ''/'' then split_loop (current @ [c]) path segments
      else if current = [] then path_malformed
      else split_loop [] path (segments @ [current]))"

definition split_mount_path :: "string \<Rightarrow> string list result" where
  "split_mount_path path =
     (if path = [] then Inr []
      else if hd path = CHR ''/'' then Inl (Error Contract ''worktree.mount_path_absolute'')
      else case split_loop [] path [] of
             Inl e \<Rightarrow> Inl e
           | Inr segments \<Rightarrow>
               if list_ex (\<lambda>seg. seg = ''.'' \<or> seg = ''..'') segments then path_malformed else Inr segments)"

definition combined_mount_segments :: "mount \<Rightarrow> string \<Rightarrow> string list result" where
  "combined_mount_segments m guest_path =
     (case (if mt_subtree_path m = [] then Inr [] else split_mount_path (mt_subtree_path m)) of
        Inl e \<Rightarrow> Inl e
      | Inr sub \<Rightarrow>
          (case split_mount_path guest_path of
             Inl e \<Rightarrow> Inl e
           | Inr guest \<Rightarrow>
               if sub @ guest = [] then Inl (Error Contract ''worktree.mount_path_is_root'') else Inr (sub @ guest)))"

section \<open>Trees along a path\<close>

definition ensure_empty_tree :: "digest_fn \<Rightarrow> object_store \<Rightarrow> digest result \<times> object_store" where
  "ensure_empty_tree dig st = put_tree dig st []"

text \<open>The two walks are called with a non-empty path only (the first segment of an empty one would be
  undefined behaviour); the model's value there is unreachable.\<close>

definition no_segments :: "'a result" where
  "no_segments = Inl (Error Fatal ''unreachable'')"

fun resolve_entry_at_path :: "object_store \<Rightarrow> digest \<Rightarrow> string list \<Rightarrow> tree_entry result" where
  "resolve_entry_at_path st d [] = no_segments"
| "resolve_entry_at_path st d (head # rest) =
     (case get_tree st d of
        Inl e \<Rightarrow> Inl e
      | Inr t \<Rightarrow>
          (case find_entry t head of
             None \<Rightarrow> Inl (Error Contract ''worktree.mount_path_not_found'')
           | Some entry \<Rightarrow>
               if rest = [] then Inr entry
               else if \<not> te_is_tree entry then Inl (Error Contract ''worktree.mount_path_not_a_directory'')
               else resolve_entry_at_path st (te_digest entry) rest))"

fun set_entry :: "tree_entry \<Rightarrow> tree \<Rightarrow> tree" where
  "set_entry new [] = [new]"
| "set_entry new (e # es) = (if te_name e = te_name new then new # es else e # set_entry new es)"

fun set_entry_at_path ::
  "digest_fn \<Rightarrow> object_store \<Rightarrow> digest \<Rightarrow> string list \<Rightarrow> digest \<Rightarrow> bool \<Rightarrow> digest result \<times> object_store" where
  "set_entry_at_path dig st d [] leaf_digest leaf_is_tree = (no_segments, st)"
| "set_entry_at_path dig st d (head # rest) leaf_digest leaf_is_tree =
     (case get_tree st d of
        Inl e \<Rightarrow> (Inl e, st)
      | Inr t \<Rightarrow>
          if rest = []
          then put_tree dig st (set_entry \<lparr>te_name = head, te_digest = leaf_digest, te_is_tree = leaf_is_tree\<rparr> t)
          else
            (case (case find_entry t head of
                     Some entry \<Rightarrow>
                       (if te_is_tree entry then Inr (te_digest entry)
                        else Inl (Error Contract ''worktree.mount_write_type_conflict''), st)
                   | None \<Rightarrow> ensure_empty_tree dig st) of
               (Inl e, st1) \<Rightarrow> (Inl e, st1)
             | (Inr child, st1) \<Rightarrow>
                 (case set_entry_at_path dig st1 child rest leaf_digest leaf_is_tree of
                    (Inl e, st2) \<Rightarrow> (Inl e, st2)
                  | (Inr new_child, st2) \<Rightarrow>
                      put_tree dig st2 (set_entry \<lparr>te_name = head, te_digest = new_child, te_is_tree = True\<rparr> t))))"

definition resolve_subtree_digest :: "object_store \<Rightarrow> digest \<Rightarrow> string \<Rightarrow> digest result" where
  "resolve_subtree_digest st root subtree_path =
     (if subtree_path = [] then Inr root
      else case split_mount_path subtree_path of
             Inl e \<Rightarrow> Inl e
           | Inr segments \<Rightarrow>
               if segments = [] then Inr root
               else (case resolve_entry_at_path st root segments of
                       Inl e \<Rightarrow> Inl e
                     | Inr entry \<Rightarrow>
                         if te_is_tree entry then Inr (te_digest entry)
                         else Inl (Error Fatal ''worktree.mount_subtree_not_a_directory'')))"

text \<open>Bytes and files under a tree; \<^const>\<open>None\<close> is fuel that ran out.\<close>

fun usage_loop :: "object_store \<Rightarrow> (digest \<Rightarrow> (u64 \<times> u32) result option) \<Rightarrow> tree \<Rightarrow> u64 \<Rightarrow> u32
    \<Rightarrow> (u64 \<times> u32) result option" where
  "usage_loop st sub [] bytes fcount = Some (Inr (bytes, fcount))"
| "usage_loop st sub (e # es) bytes fcount =
     (if te_is_tree e then
        (case sub (te_digest e) of
           None \<Rightarrow> None
         | Some (Inl err) \<Rightarrow> Some (Inl err)
         | Some (Inr (b, n)) \<Rightarrow> usage_loop st sub es (bytes + b) (fcount + n))
      else
        (case blob_size st (te_digest e) of
           Inl err \<Rightarrow> Some (Inl err)
         | Inr sz \<Rightarrow> usage_loop st sub es (bytes + sz) (fcount + 1)))"

primrec subtree_usage :: "object_store \<Rightarrow> nat \<Rightarrow> digest \<Rightarrow> (u64 \<times> u32) result option" where
  "subtree_usage st 0 d = None"
| "subtree_usage st (Suc f) d =
     (case get_tree st d of Inl e \<Rightarrow> Some (Inl e) | Inr t \<Rightarrow> usage_loop st (subtree_usage st f) t 0 0)"

section \<open>Reading and writing\<close>

definition authorize_mount_read :: "mount \<Rightarrow> fs_read \<Rightarrow> string \<Rightarrow> unit result" where
  "authorize_mount_read m held guest_path =
     (if fr_mount_id held \<noteq> mt_mount_id m then Inl (Error Policy ''worktree.mount_capability_mismatch'')
      else if \<not> path_prefix_covers (fr_path_prefix held) guest_path
      then Inl (Error Policy ''worktree.mount_path_outside_capability'')
      else Inr ())"

definition read_blob_within_size_cap :: "object_store \<Rightarrow> fs_read \<Rightarrow> digest \<Rightarrow> u8 list result" where
  "read_blob_within_size_cap st held d =
     (case get_blob st d of
        Inl e \<Rightarrow> Inl e
      | Inr bytes \<Rightarrow>
          (case limit (fr_size_cap_bytes held) of
             None \<Rightarrow> Inr bytes
           | Some cap \<Rightarrow>
               if cap < of_nat (length bytes) then Inl (Error Policy ''worktree.mount_read_exceeds_size_cap'') else Inr bytes))"

definition mount_read ::
  "'s log_ops \<Rightarrow> 'n num_ops \<Rightarrow> object_store \<Rightarrow> 's \<Rightarrow> mount \<Rightarrow> fs_read \<Rightarrow> string \<Rightarrow> u8 list result" where
  "mount_read ops nm st rs m held guest_path =
     (case authorize_mount_read m held guest_path of
        Inl e \<Rightarrow> Inl e
      | Inr u \<Rightarrow>
          (case combined_mount_segments m guest_path of
             Inl e \<Rightarrow> Inl e
           | Inr segments \<Rightarrow>
               (case read_ref ops nm rs (mt_ref_name m) of
                  Inl e \<Rightarrow> Inl e
                | Inr None \<Rightarrow> Inl (Error Contract ''worktree.mount_ref_missing'')
                | Inr (Some ref) \<Rightarrow>
                    (case resolve_entry_at_path st (wr_tree_digest ref) segments of
                       Inl e \<Rightarrow> Inl e
                     | Inr entry \<Rightarrow>
                         if te_is_tree entry then Inl (Error Contract ''worktree.mount_read_is_directory'')
                         else read_blob_within_size_cap st held (te_digest entry)))))"

text \<open>The quota check on the candidate tree: an error, or nothing to object.\<close>

definition check_quota :: "object_store \<Rightarrow> nat \<Rightarrow> mount \<Rightarrow> fs_write \<Rightarrow> digest \<Rightarrow> unit result option" where
  "check_quota st f m held new_root =
     (if is_unbounded (fw_quota_bytes held) \<and> is_unbounded (fw_file_count_cap held) then Some (Inr ())
      else case resolve_subtree_digest st new_root (mt_subtree_path m) of
             Inl e \<Rightarrow> Some (Inl e)
           | Inr d \<Rightarrow>
               (case subtree_usage st f d of
                  None \<Rightarrow> None
                | Some (Inl e) \<Rightarrow> Some (Inl e)
                | Some (Inr (bytes, fcount)) \<Rightarrow>
                    Some (if (case limit (fw_quota_bytes held) of None \<Rightarrow> False | Some q \<Rightarrow> q < bytes)
                          then Inl (Error Resource ''worktree.mount_write_quota_exceeded'')
                          else if (case limit (fw_file_count_cap held) of None \<Rightarrow> False | Some n \<Rightarrow> n < ucast fcount)
                          then Inl (Error Resource ''worktree.mount_write_file_count_exceeded'')
                          else Inr ())))"

type_synonym 's mount_state = "object_store \<times> 's"

definition commit_write ::
  "'s log_ops \<Rightarrow> 'n num_ops \<Rightarrow> nat \<Rightarrow> object_store \<Rightarrow> 's \<Rightarrow> mount \<Rightarrow> fs_write \<Rightarrow> digest \<Rightarrow> digest
    \<Rightarrow> ((worktree_ref \<times> digest) result \<times> 's mount_state) option" where
  "commit_write ops nm f st rs m held new_root blob =
     (case check_quota st f m held new_root of
        None \<Rightarrow> None
      | Some (Inl e) \<Rightarrow> Some (Inl e, st, rs)
      | Some (Inr u) \<Rightarrow>
          (case commit_ref ops nm rs (mt_ref_name m) new_root of
             (Inl e, rs') \<Rightarrow> Some (Inl e, st, rs')
           | (Inr r, rs') \<Rightarrow> Some (Inr (r, blob), st, rs')))"

definition mount_write_with_blob ::
  "digest_fn \<Rightarrow> 's log_ops \<Rightarrow> 'n num_ops \<Rightarrow> nat \<Rightarrow> object_store \<Rightarrow> 's \<Rightarrow> mount \<Rightarrow> fs_write \<Rightarrow> string \<Rightarrow> u8 list
    \<Rightarrow> ((worktree_ref \<times> digest) result \<times> 's mount_state) option" where
  "mount_write_with_blob dig ops nm f st rs m held guest_path content =
     (if fw_mount_id held \<noteq> mt_mount_id m
      then Some (Inl (Error Policy ''worktree.mount_capability_mismatch''), st, rs)
      else if \<not> path_prefix_covers (fw_path_prefix held) guest_path
      then Some (Inl (Error Policy ''worktree.mount_path_outside_capability''), st, rs)
      else case combined_mount_segments m guest_path of
             Inl e \<Rightarrow> Some (Inl e, st, rs)
           | Inr segments \<Rightarrow>
               (case read_ref ops nm rs (mt_ref_name m) of
                  Inl e \<Rightarrow> Some (Inl e, st, rs)
                | Inr None \<Rightarrow> Some (Inl (Error Contract ''worktree.mount_ref_missing''), st, rs)
                | Inr (Some ref) \<Rightarrow>
                    (case put_blob dig st content of
                       (Inl e, st1) \<Rightarrow> Some (Inl e, st1, rs)
                     | (Inr blob, st1) \<Rightarrow>
                         (case set_entry_at_path dig st1 (wr_tree_digest ref) segments blob False of
                            (Inl e, st2) \<Rightarrow> Some (Inl e, st2, rs)
                          | (Inr new_root, st2) \<Rightarrow> commit_write ops nm f st2 rs m held new_root blob))))"

definition mount_write ::
  "digest_fn \<Rightarrow> 's log_ops \<Rightarrow> 'n num_ops \<Rightarrow> nat \<Rightarrow> object_store \<Rightarrow> 's \<Rightarrow> mount \<Rightarrow> fs_write \<Rightarrow> string \<Rightarrow> u8 list
    \<Rightarrow> (worktree_ref result \<times> 's mount_state) option" where
  "mount_write dig ops nm f st rs m held guest_path content =
     (case mount_write_with_blob dig ops nm f st rs m held guest_path content of
        None \<Rightarrow> None
      | Some (Inl e, s) \<Rightarrow> Some (Inl e, s)
      | Some (Inr (r, blob), s) \<Rightarrow> Some (Inr r, s))"

section \<open>Evidence of conflicts\<close>

definition conflicts_ref_name :: "string \<Rightarrow> string" where
  "conflicts_ref_name parent = parent @ '':conflicts''"

definition sanitize_agent :: "string \<Rightarrow> string" where
  "sanitize_agent agent = map (\<lambda>c. if c = CHR ''/'' then CHR ''_'' else c) agent"

text \<open>The segments a version is filed under: those of the path, the last with the agent appended.\<close>

fun conflict_segments :: "string \<Rightarrow> string \<Rightarrow> string \<Rightarrow> string list" where
  "conflict_segments agent current [] = [current @ ''.'' @ sanitize_agent agent]"
| "conflict_segments agent current (c # path) =
     (if c = CHR ''/'' then current # conflict_segments agent [] path
      else conflict_segments agent (current @ [c]) path)"

definition apply_one :: "digest_fn \<Rightarrow> string \<Rightarrow> string \<Rightarrow> tree_entry option \<Rightarrow> digest \<times> object_store \<Rightarrow> (digest \<times> object_store) result \<times> object_store" where
  "apply_one dig path agent side s =
     (case side of
        None \<Rightarrow> (Inr s, snd s)
      | Some e \<Rightarrow>
          (case set_entry_at_path dig (snd s) (fst s) (conflict_segments agent [] path) (te_digest e) (te_is_tree e) of
             (Inl err, st) \<Rightarrow> (Inl err, st)
           | (Inr root, st) \<Rightarrow> (Inr (root, st), st)))"

fun apply_conflicts ::
  "digest_fn \<Rightarrow> string \<Rightarrow> string \<Rightarrow> merge_conflict list \<Rightarrow> digest \<times> object_store \<Rightarrow> digest result \<times> object_store" where
  "apply_conflicts dig ours_agent branch_name [] s = (Inr (fst s), snd s)"
| "apply_conflicts dig ours_agent branch_name (c # cs) s =
     (case apply_one dig (mc_path c) ours_agent (mc_ours c) s of
        (Inl e, st) \<Rightarrow> (Inl e, st)
      | (Inr s1, _) \<Rightarrow>
          (case apply_one dig (mc_path c) branch_name (mc_theirs c) s1 of
             (Inl e, st) \<Rightarrow> (Inl e, st)
           | (Inr s2, _) \<Rightarrow> apply_conflicts dig ours_agent branch_name cs s2))"

definition commit_evidence ::
  "'s log_ops \<Rightarrow> 'n num_ops \<Rightarrow> 's \<Rightarrow> string \<Rightarrow> digest result \<times> object_store \<Rightarrow> unit result \<times> 's mount_state" where
  "commit_evidence ops nm rs ref_name s =
     (case s of
        (Inl e, st) \<Rightarrow> (Inl e, st, rs)
      | (Inr root, st) \<Rightarrow>
          (case commit_ref ops nm rs ref_name root of
             (Inl e, rs') \<Rightarrow> (Inl e, st, rs') | (Inr r, rs') \<Rightarrow> (Inr (), st, rs')))"

definition materialize_merge_conflicts ::
  "digest_fn \<Rightarrow> 's log_ops \<Rightarrow> 'n num_ops \<Rightarrow> object_store \<Rightarrow> 's \<Rightarrow> string \<Rightarrow> string \<Rightarrow> sub_worktree \<Rightarrow> merge_conflict list
    \<Rightarrow> unit result \<times> 's mount_state" where
  "materialize_merge_conflicts dig ops nm st rs parent ours_agent branch conflicts =
     (if conflicts = [] then (Inr (), st, rs)
      else case read_ref ops nm rs (conflicts_ref_name parent) of
             Inl e \<Rightarrow> (Inl e, st, rs)
           | Inr existing \<Rightarrow>
               (case (case existing of Some r \<Rightarrow> (Inr (wr_tree_digest r), st) | None \<Rightarrow> ensure_empty_tree dig st) of
                  (Inl e, st1) \<Rightarrow> (Inl e, st1, rs)
                | (Inr root, st1) \<Rightarrow>
                    commit_evidence ops nm rs (conflicts_ref_name parent)
                      (apply_conflicts dig ours_agent (sw_name branch) conflicts (root, st1))))"

definition conflicts_mount :: "string \<Rightarrow> mount" where
  "conflicts_mount parent = \<lparr>mt_mount_id = ''/conflicts/'' @ parent, mt_ref_name = conflicts_ref_name parent, mt_subtree_path = []\<rparr>"

section \<open>A capability's path confines\<close>

lemma split_loop_slash:
  "split_loop current (a @ CHR ''/'' # b) segments =
     (case split_loop current a segments of Inl e \<Rightarrow> Inl e | Inr s \<Rightarrow> split_loop [] b s)"
  by (induction current a segments rule: split_loop.induct) (auto simp: path_malformed_def)

lemma split_loop_extends: "split_loop current path segments = Inr s \<Longrightarrow> \<exists>t. s = segments @ t"
  by (induction current path segments rule: split_loop.induct) (auto simp: path_malformed_def split: if_splits)

lemma split_loop_trailing: "split_loop current (a @ ''/'') segments \<noteq> Inr s"
  using split_loop_slash [of current a "[]" segments] by (auto simp: path_malformed_def split: sum.splits)

lemma split_mount_path_InrD:
  assumes "split_mount_path path = Inr s" and "path \<noteq> []"
  shows "split_loop [] path [] = Inr s"
  using assms by (auto simp: split_mount_path_def path_malformed_def split: if_splits sum.splits)

text \<open>What a path prefix covers lies below it, segment by segment.\<close>

lemma covered_segments:
  assumes "path_prefix_covers pre path" and "split_mount_path pre = Inr ps" and "split_mount_path path = Inr gs"
  shows "prefix ps gs"
proof (cases "pre = []")
  case True
  then show ?thesis using assms(2) by (simp add: split_mount_path_def)
next
  case False
  then have pre: "split_loop [] pre [] = Inr ps" using split_mount_path_InrD [OF assms(2)] by simp
  then have "last pre \<noteq> CHR ''/''"
    using split_loop_trailing [of "[]" "butlast pre" "[]" ps] append_butlast_last_id [OF False] by metis
  then consider "path = pre" | rest where "path = pre @ CHR ''/'' # rest"
  proof -
    have sw: "starts_with pre path" using assms(1) by (auto simp: path_prefix_covers_def starts_with_def split: if_splits)
    then obtain z where z: "path = pre @ z" by (auto simp: starts_with_prefix prefix_def)
    have "z = [] \<or> hd z = CHR ''/''"
      using assms(1) False \<open>last pre \<noteq> CHR ''/''\<close> z
      by (cases z) (auto simp: path_prefix_covers_def nth_append split: if_splits)
    then show thesis using z that by (cases z) auto
  qed
  then show ?thesis
  proof cases
    case 1
    then show ?thesis using assms by simp
  next
    case (2 rest)
    then have "split_loop [] path [] = Inr gs" using split_mount_path_InrD [OF assms(3)] by simp
    then have "split_loop [] rest ps = Inr gs" using pre by (simp add: 2 split_loop_slash)
    then show ?thesis using split_loop_extends by (auto simp: prefix_def)
  qed
qed

lemma combined_below:
  assumes "path_prefix_covers pre path" and "combined_mount_segments m path = Inr segs" and "split_mount_path pre = Inr ps"
  shows "\<exists>root. split_mount_path (mt_subtree_path m) = Inr root \<and> prefix (root @ ps) segs"
  using assms covered_segments [OF assms(1,3)]
  by (auto simp: combined_mount_segments_def split_mount_path_def [of "[]"] split: if_splits sum.splits)

section \<open>Setting one entry\<close>

lemma find_set_entry: "find_entry (set_entry e t) n = (if n = te_name e then Some e else find_entry t n)"
  by (induction t) (auto simp: find_entry_def)

lemma set_entry_names: "te_name ` set (set_entry e t) = insert (te_name e) (te_name ` set t)"
  by (induction t) auto

lemma set_entry_distinct: "distinct (map te_name t) \<Longrightarrow> distinct (map te_name (set_entry e t))"
proof (induction t)
  case (Cons x t)
  then show ?case using set_entry_names [of e t] by (auto simp flip: set_map)
qed simp

text \<open>The state of a store between the steps of a write.\<close>

definition sound_store :: "digest_fn \<Rightarrow> object_store \<Rightarrow> bool" where
  "sound_store dig st \<longleftrightarrow> store_ok dig st \<and> names_distinct st"

lemma put_tree_sound:
  assumes "collision_free dig" and "sound_store dig st" and "distinct (map te_name t)" and "put_tree dig st t = (Inr d, st')"
  shows "sound_store dig st' \<and> grows st st' \<and> os_trees st' d = Some (sort_tree t) \<and> os_blobs st' = os_blobs st"
proof -
  have g: "store_ok dig st' \<and> grows st st' \<and> os_trees st' d = Some (sort_tree t)"
    using put_tree_grows [OF assms(1) _ assms(4)] assms(2) by (simp add: sound_store_def)
  have st': "st' = st\<lparr>os_trees := (os_trees st)(d \<mapsto> sort_tree t)\<rparr>"
    using assms(4) by (auto simp: put_tree_def split: sum.splits)
  have "names_distinct st'"
    using assms(2,3) by (auto simp: st' names_distinct_def sound_store_def sort_tree_def distinct_map split: if_splits)
  with g show ?thesis by (simp add: sound_store_def st')
qed

lemma put_level:
  assumes "collision_free dig" and "sound_store dig st" and t: "os_trees st d = Some t"
    and "put_tree dig st (set_entry e t) = (Inr d', st')"
  shows "sound_store dig st' \<and> grows st st' \<and> os_blobs st' = os_blobs st \<and>
    (\<forall>st'' n p. grows st' st'' \<longrightarrow>
       files st'' d' (n # p) = (if n = te_name e then entry_files st'' (Some e) p else files st'' d (n # p)))"
proof -
  have dt: "distinct (map te_name t)" using assms(2) t by (auto simp: sound_store_def names_distinct_def)
  note s = put_tree_sound [OF assms(1,2) set_entry_distinct [OF dt] assms(4)]
  have "files st'' d' (n # p) = (if n = te_name e then entry_files st'' (Some e) p else files st'' d (n # p))"
    if g: "grows st' st''" for st'' n p
  proof -
    have "os_trees st'' d' = Some (sort_tree (set_entry e t))" "os_trees st'' d = Some t"
      using s g t grows_tree grows_trans by blast+
    then show ?thesis
      by (simp add: files_Cons find_entry_sort [OF set_entry_distinct [OF dt]] find_set_entry del: files.simps)
  qed
  with s show ?thesis by blast
qed

text \<open>What a write leaves at every path: below the path written, the new entry; elsewhere, what was there.\<close>

definition written :: "object_store \<Rightarrow> digest \<Rightarrow> string list \<Rightarrow> tree_entry \<Rightarrow> string list \<Rightarrow> digest option" where
  "written st d segs e p = (if prefix segs p then entry_files st (Some e) (drop (length segs) p) else files st d p)"

definition writes :: "digest_fn \<Rightarrow> object_store \<Rightarrow> digest \<Rightarrow> string list \<Rightarrow> tree_entry \<Rightarrow> digest \<Rightarrow> object_store \<Rightarrow> bool" where
  "writes dig st d segs e d' st' \<longleftrightarrow>
     sound_store dig st' \<and> grows st st' \<and> os_blobs st' = os_blobs st \<and>
     (\<forall>st'' p. grows st' st'' \<longrightarrow> files st'' d' p = written st'' d segs e p)"

lemma entry_files_name [simp]:
  "entry_files st (Some \<lparr>te_name = n, te_digest = d, te_is_tree = b\<rparr>) p
   = (if b then files st d p else if p = [] then Some d else None)"
  by (simp add: entry_files_def)

lemma writes_leaf:
  assumes "collision_free dig" and "sound_store dig st" and "os_trees st d = Some t"
    and "put_tree dig st (set_entry e t) = (Inr d', st')" and "te_name e = head"
  shows "writes dig st d [head] e d' st'"
proof -
  note l = put_level [OF assms(1-4)]
  have "files st'' d' p = written st'' d [head] e p" if "grows st' st''" for st'' p
    using l that assms(5) by (cases p) (auto simp: written_def)
  with l show ?thesis by (simp add: writes_def)
qed

lemma writes_below:
  assumes "collision_free dig" and "sound_store dig st" and t: "os_trees st d = Some t"
    and w: "writes dig st1 c rest e new_child st2" and g: "grows st st1" and b: "os_blobs st1 = os_blobs st"
    and c: "\<And>st'' q. grows st1 st'' \<Longrightarrow> files st'' c q = entry_files st'' (find_entry t head) q \<or> rest = q"
    and p: "put_tree dig st2 (set_entry \<lparr>te_name = head, te_digest = new_child, te_is_tree = True\<rparr> t) = (Inr d', st')"
  shows "writes dig st d (head # rest) e d' st'"
proof -
  have s2: "sound_store dig st2" and g2: "grows st1 st2" and b2: "os_blobs st2 = os_blobs st1"
    using w by (simp_all add: writes_def)
  have t2: "os_trees st2 d = Some t" using g g2 t grows_tree by blast
  note l = put_level [OF assms(1) s2 t2 p]
  have "files st'' d' p = written st'' d (head # rest) e p" if g': "grows st' st''" for st'' p
  proof (cases p)
    case (Cons n q)
    have "grows st2 st''" using l g' grows_trans by blast
    then have nc: "files st'' new_child q = written st'' c rest e q" and c1: "grows st1 st''"
      using w g2 grows_trans by (auto simp: writes_def)
    have "files st'' d (head # q) = entry_files st'' (find_entry t head) q"
      using files_Cons grows_tree [OF \<open>grows st2 st''\<close> t2] by blast
    then show ?thesis using l g' nc c [OF c1, of q] by (auto simp: Cons written_def)
  qed (use l g' in \<open>simp add: written_def\<close>)
  with l g g2 b b2 show ?thesis by (auto simp: writes_def intro: grows_trans)
qed

lemma depth_within_mono: "depth_within st n d \<Longrightarrow> n \<le> m \<Longrightarrow> depth_within st m d"
proof (induction n arbitrary: d m)
  case (Suc n)
  then show ?case by (cases m) (auto simp: list_all_iff split: option.splits)
qed simp

lemma level_depth:
  assumes "put_tree dig st (set_entry e t) = (Inr d', st')" and "sound_store dig st'" and "grows st st'"
    and "os_trees st' d' = Some (sort_tree (set_entry e t))"
    and "list_all (\<lambda>e. te_is_tree e \<longrightarrow> depth_within st n (te_digest e)) t"
    and "te_is_tree e \<longrightarrow> depth_within st n (te_digest e)"
  shows "depth_within st' (Suc n) d'"
proof -
  have "x = e \<or> x \<in> set t" if "x \<in> set (set_entry e t)" for x
    using that by (induction t) (auto split: if_splits)
  then show ?thesis using assms depth_within_grows [OF assms(3)] by (fastforce simp: list_all_iff sort_tree_def)
qed

text \<open>The subtree a walk descends into.\<close>

definition descends :: "digest_fn \<Rightarrow> object_store \<Rightarrow> digest \<Rightarrow> tree \<Rightarrow> string \<Rightarrow> digest \<Rightarrow> object_store \<Rightarrow> bool" where
  "descends dig st d t head c st1 \<longleftrightarrow>
     sound_store dig st1 \<and> grows st st1 \<and> os_blobs st1 = os_blobs st \<and>
     (\<forall>st'' q. grows st1 st'' \<longrightarrow> files st'' c q = entry_files st'' (find_entry t head) q) \<and>
     (\<forall>n. depth_within st (Suc n) d \<longrightarrow> depth_within st1 (max n 1) c)"

lemma descends_existing:
  assumes "sound_store dig st" and "os_trees st d = Some t" and "find_entry t head = Some e" and "te_is_tree e"
  shows "descends dig st d t head (te_digest e) st"
  using assms find_entry_Some [OF assms(3)] depth_within_mono
  by (fastforce simp: descends_def entry_files_def list_all_iff)

lemma descends_empty:
  assumes "collision_free dig" and "sound_store dig st" and "find_entry t head = None"
    and "ensure_empty_tree dig st = (Inr c, st1)"
  shows "descends dig st d t head c st1"
proof -
  have s: "sound_store dig st1 \<and> grows st st1 \<and> os_trees st1 c = Some [] \<and> os_blobs st1 = os_blobs st"
    using put_tree_sound [OF assms(1,2), of "[]"] assms(4) by (simp add: sort_tree_def ensure_empty_tree_def)
  have "files st'' c q = None" if "grows st1 st''" for st'' q
    using s that grows_tree [of st1 st'' c "[]"] by (cases q) (auto simp: find_entry_def)
  moreover have "depth_within st1 (max n 1) c" for n
    using s depth_within_mono [of st1 1 c "max n 1"] by simp
  ultimately show ?thesis using s assms(3) by (simp add: descends_def)
qed

lemma set_entry_at_path_ConsE:
  assumes "collision_free dig" and "sound_store dig st"
    and "set_entry_at_path dig st d (head # rest) leaf_digest leaf_is_tree = (Inr d', st')"
  obtains (leaf) t where "os_trees st d = Some t" "rest = []"
      "put_tree dig st (set_entry \<lparr>te_name = head, te_digest = leaf_digest, te_is_tree = leaf_is_tree\<rparr> t) = (Inr d', st')"
  | (below) t c st1 new_child st2 where "os_trees st d = Some t" "rest \<noteq> []" "descends dig st d t head c st1"
      "set_entry_at_path dig st1 c rest leaf_digest leaf_is_tree = (Inr new_child, st2)"
      "put_tree dig st2 (set_entry \<lparr>te_name = head, te_digest = new_child, te_is_tree = True\<rparr> t) = (Inr d', st')"
proof -
  obtain t where t: "os_trees st d = Some t" using assms(3) by (auto simp: get_tree_def split: option.splits)
  show thesis
  proof (cases "rest = []")
    case True
    then show ?thesis using assms(3) t by (intro leaf [OF t]) (simp_all add: get_tree_def)
  next
    case False
    show ?thesis
    proof (cases "find_entry t head")
      case None
      then show ?thesis using assms(3) t False descends_empty [OF assms(1,2) None, where d = d]
        by (auto simp: get_tree_def split: sum.splits prod.splits intro!: below [OF t False])
    next
      case (Some e)
      then show ?thesis using assms(3) t False descends_existing [OF assms(2) t Some]
        by (auto simp: get_tree_def split: sum.splits prod.splits if_splits intro!: below [OF t False])
    qed
  qed
qed

lemma set_entry_at_path_writes:
  assumes cf: "collision_free dig"
  shows "sound_store dig st \<Longrightarrow> set_entry_at_path dig st d segs leaf_digest leaf_is_tree = (Inr d', st') \<Longrightarrow>
    \<exists>n. writes dig st d segs \<lparr>te_name = n, te_digest = leaf_digest, te_is_tree = leaf_is_tree\<rparr> d' st'"
proof (induction segs arbitrary: st d d' st')
  case (Cons head rest)
  from cf Cons.prems show ?case
  proof (cases rule: set_entry_at_path_ConsE)
    case (leaf t)
    then show ?thesis using writes_leaf [OF cf Cons.prems(1) leaf(1,3)] by auto
  next
    case (below t c st1 new_child st2)
    then have "sound_store dig st1" "grows st st1" "os_blobs st1 = os_blobs st"
      and c: "\<And>st'' q. grows st1 st'' \<Longrightarrow> files st'' c q = entry_files st'' (find_entry t head) q"
      by (simp_all add: descends_def)
    then show ?thesis
      using Cons.IH [OF _ below(4)] writes_below [OF cf Cons.prems(1) below(1) _ _ _ _ below(5)] by blast
  qed
qed (simp add: no_segments_def)

lemma set_entry_at_path_depth:
  assumes cf: "collision_free dig"
  shows "sound_store dig st \<Longrightarrow> set_entry_at_path dig st d segs leaf_digest False = (Inr d', st') \<Longrightarrow>
    depth_within st n d \<Longrightarrow> depth_within st' (max n (length segs)) d'"
proof (induction segs arbitrary: st d d' st' n)
  case (Cons head rest)
  obtain k where n: "n = Suc k" using Cons.prems(3) by (cases n) auto
  from cf Cons.prems(1,2) show ?case
  proof (cases rule: set_entry_at_path_ConsE)
    case (leaf t)
    have "distinct (map te_name t)" using Cons.prems(1) leaf(1) by (auto simp: sound_store_def names_distinct_def)
    note s = put_tree_sound [OF cf Cons.prems(1) set_entry_distinct [OF this] leaf(3)]
    have "depth_within st' (Suc k) d'"
      using Cons.prems(3) leaf s by (intro level_depth [OF leaf(3)]) (simp_all add: n)
    then show ?thesis using leaf n by simp
  next
    case (below t c st1 new_child st2)
    let ?m = "max k (length rest)"
    have s1: "sound_store dig st1" and g: "grows st st1" and c: "depth_within st1 (max k 1) c"
      using below(3) Cons.prems(3) n by (auto simp: descends_def)
    obtain e where w: "writes dig st1 c rest e new_child st2"
      using set_entry_at_path_writes [OF cf s1 below(4)] by blast
    then have s2: "sound_store dig st2" and g2: "grows st st2" using g by (auto simp: writes_def intro: grows_trans)
    have "depth_within st2 (max (max k 1) (length rest)) new_child" by (rule Cons.IH [OF s1 below(4) c])
    moreover have "max (max k 1) (length rest) = ?m" using below(2) by (cases rest) auto
    ultimately have nc: "depth_within st2 ?m new_child" by simp
    have dt: "distinct (map te_name t)" using Cons.prems(1) below(1) by (auto simp: sound_store_def names_distinct_def)
    note s = put_tree_sound [OF cf s2 set_entry_distinct [OF dt] below(5)]
    have "list_all (\<lambda>e. te_is_tree e \<longrightarrow> depth_within st2 ?m (te_digest e)) t"
      using Cons.prems(3) below(1) depth_within_grows [OF g2] depth_within_mono [of st2 k _ ?m] by (auto simp: n list_all_iff)
    then have "depth_within st' (Suc ?m) d'"
      using s nc by (intro level_depth [OF below(5)]) simp_all
    then show ?thesis by (simp add: n)
  qed
qed (simp add: no_segments_def)

section \<open>Quota accounting returns\<close>

lemma usage_loop_total:
  "\<forall>e\<in>set es. te_is_tree e \<longrightarrow> sub (te_digest e) \<noteq> None \<Longrightarrow> usage_loop st sub es bytes fcount \<noteq> None"
  by (induction st sub es bytes fcount rule: usage_loop.induct) (auto split: sum.splits option.splits)

lemma subtree_usage_total: "depth_within st f d \<Longrightarrow> subtree_usage st f d \<noteq> None"
proof (induction f arbitrary: d)
  case (Suc f)
  then obtain t where "os_trees st d = Some t" and "\<forall>e\<in>set t. te_is_tree e \<longrightarrow> depth_within st f (te_digest e)"
    by (auto simp: list_all_iff split: option.splits)
  then show ?case using Suc.IH usage_loop_total by (simp add: get_tree_def)
qed simp

lemma resolve_entry_depth:
  "depth_within st f d \<Longrightarrow> resolve_entry_at_path st d segs = Inr e \<Longrightarrow> te_is_tree e \<Longrightarrow> depth_within st f (te_digest e)"
proof (induction st d segs arbitrary: f rule: resolve_entry_at_path.induct)
  case (2 st d head rest)
  obtain k where f: "f = Suc k" using "2.prems"(1) by (cases f) auto
  obtain t x where t: "os_trees st d = Some t" and x: "find_entry t head = Some x"
    using "2.prems"(2) by (auto simp: get_tree_def split: option.splits)
  have k: "te_is_tree x \<Longrightarrow> depth_within st k (te_digest x)"
    using "2.prems"(1) t find_entry_Some [OF x] by (auto simp: f list_all_iff)
  show ?case
  proof (cases "rest = []")
    case True
    then show ?thesis using "2.prems" t x k depth_within_mono [of st k _ f] by (auto simp: get_tree_def f)
  next
    case False
    then have "depth_within st k (te_digest e)"
      using "2.IH" [of t x k] "2.prems" t x k by (auto simp: get_tree_def split: if_splits)
    then show ?thesis using depth_within_mono [of st k _ f] f by simp
  qed
qed (simp add: no_segments_def)

lemma check_quota_total:
  assumes "depth_within st f d" shows "check_quota st f m held d \<noteq> None"
proof -
  have "depth_within st f c" if "resolve_subtree_digest st d (mt_subtree_path m) = Inr c" for c
    using that assms resolve_entry_depth
    by (auto simp: resolve_subtree_digest_def split: if_splits sum.splits)
  then show ?thesis
    using subtree_usage_total by (fastforce simp: check_quota_def split: sum.splits option.splits)
qed

section \<open>Quota accounting is exact\<close>

text \<open>The files of a tree are its paths with content. What the recursive count computes is, in the machine's 64 and 32 bits,
  the sum of their lengths and their number.\<close>

definition file_paths :: "object_store \<Rightarrow> digest \<Rightarrow> string list set" where
  "file_paths st d = {p. files st d p \<noteq> None}"

definition blob_length :: "object_store \<Rightarrow> digest \<Rightarrow> nat" where
  "blob_length st b = (case os_blobs st b of None \<Rightarrow> 0 | Some c \<Rightarrow> length c)"

definition file_bytes :: "object_store \<Rightarrow> digest \<Rightarrow> nat" where
  "file_bytes st d = (\<Sum>p\<in>file_paths st d. blob_length st (the (files st d p)))"

definition entry_paths :: "object_store \<Rightarrow> tree_entry \<Rightarrow> string list set" where
  "entry_paths st e = (if te_is_tree e then file_paths st (te_digest e) else {[]})"

definition entry_bytes :: "object_store \<Rightarrow> tree_entry \<Rightarrow> nat" where
  "entry_bytes st e = (if te_is_tree e then file_bytes st (te_digest e) else blob_length st (te_digest e))"

lemma entry_sum: "entry_bytes st e = (\<Sum>p\<in>entry_paths st e. blob_length st (the (entry_files st (Some e) p)))"
  by (simp add: entry_bytes_def entry_paths_def file_bytes_def entry_files_def)

lemma level_paths:
  assumes "os_trees st d = Some t" and "distinct (map te_name t)"
  shows "file_paths st d = (\<Union>e\<in>set t. (#) (te_name e) ` entry_paths st e)"
proof (intro set_eqI iffI)
  fix p assume "p \<in> file_paths st d"
  then obtain n q where p: "p = n # q" and f: "files st d p \<noteq> None" by (cases p) (auto simp: file_paths_def)
  then have "entry_files st (find_entry t n) q \<noteq> None" using files_Cons [OF assms(1), of n q] by simp
  then obtain e where e: "find_entry t n = Some e" and q: "entry_files st (Some e) q \<noteq> None"
    by (cases "find_entry t n") (auto simp: entry_files_def)
  then have "q \<in> entry_paths st e" by (auto simp: entry_files_def entry_paths_def file_paths_def split: if_splits)
  with find_entry_Some [OF e] p show "p \<in> (\<Union>e\<in>set t. (#) (te_name e) ` entry_paths st e)" by auto
next
  fix p assume "p \<in> (\<Union>e\<in>set t. (#) (te_name e) ` entry_paths st e)"
  then obtain e q where e: "e \<in> set t" "p = te_name e # q" "q \<in> entry_paths st e" by auto
  then have "files st d p = entry_files st (Some e) q"
    using files_Cons [OF assms(1)] find_entry_distinct [OF assms(2) e(1)] by (simp del: files.simps)
  then show "p \<in> file_paths st d" using e(3) by (auto simp: file_paths_def entry_paths_def entry_files_def split: if_splits)
qed

lemma level_sums:
  assumes t: "os_trees st d = Some t" and dt: "distinct (map te_name t)" and fin: "\<And>e. e \<in> set t \<Longrightarrow> finite (entry_paths st e)"
  shows "finite (file_paths st d)" and "file_bytes st d = sum_list (map (entry_bytes st) t)"
    and "card (file_paths st d) = sum_list (map (card \<circ> entry_paths st) t)"
proof -
  let ?A = "\<lambda>e. (#) (te_name e) ` entry_paths st e"
  note u = level_paths [OF t dt]
  have f: "finite (?A e)" if "e \<in> set t" for e using fin [OF that] by simp
  show "finite (file_paths st d)" unfolding u using f by auto
  have inj: "inj_on te_name (set t)" and d: "distinct t" using dt by (simp_all add: distinct_map)
  then have disj: "\<forall>a\<in>set t. \<forall>b\<in>set t. a \<noteq> b \<longrightarrow> ?A a \<inter> ?A b = {}" by (auto dest: inj_onD)
  have "blob_length st (the (files st d (te_name e # q))) = blob_length st (the (entry_files st (Some e) q))" if "e \<in> set t" for e q
    using files_Cons [OF t] find_entry_distinct [OF dt that] by (simp del: files.simps)
  then have "(\<Sum>p\<in>?A e. blob_length st (the (files st d p))) = entry_bytes st e" if "e \<in> set t" for e
    using that unfolding entry_sum by (simp add: sum.reindex)
  then have "file_bytes st d = (\<Sum>e\<in>set t. entry_bytes st e)"
    unfolding file_bytes_def u using f disj by (subst sum.UNION_disjoint) auto
  then show "file_bytes st d = sum_list (map (entry_bytes st) t)" using d by (simp add: sum_list_distinct_conv_sum_set)
  have "card (file_paths st d) = (\<Sum>e\<in>set t. card (?A e))" unfolding u using f disj by (intro card_UN_disjoint) auto
  then show "card (file_paths st d) = sum_list (map (card \<circ> entry_paths st) t)"
    using d by (simp add: sum_list_distinct_conv_sum_set card_image)
qed

lemma usage_loop_sums:
  assumes "usage_loop st sub es bytes fcount = Some (Inr (b, n))"
    and "\<And>e x y. e \<in> set es \<Longrightarrow> te_is_tree e \<Longrightarrow> sub (te_digest e) = Some (Inr (x, y)) \<Longrightarrow>
      finite (file_paths st (te_digest e)) \<and> x = of_nat (file_bytes st (te_digest e)) \<and> y = of_nat (card (file_paths st (te_digest e)))"
  shows "b = bytes + of_nat (sum_list (map (entry_bytes st) es)) \<and> n = fcount + of_nat (sum_list (map (card \<circ> entry_paths st) es)) \<and>
    (\<forall>e\<in>set es. finite (entry_paths st e))"
  using assms
proof (induction st sub es bytes fcount rule: usage_loop.induct)
  case (2 st sub e es bytes fcount)
  show ?case
  proof (cases "te_is_tree e")
    case True
    with "2.prems"(1) obtain x y where x: "sub (te_digest e) = Some (Inr (x, y))"
      "usage_loop st sub es (bytes + x) (fcount + y) = Some (Inr (b, n))" by (auto split: option.splits sum.splits)
    from "2.IH"(1) [OF True x(1) refl refl x(2)] "2.prems"(2) x(1) True show ?thesis
      by (auto simp: entry_bytes_def entry_paths_def)
  next
    case False
    with "2.prems"(1) obtain sz where x: "blob_size st (te_digest e) = Inr sz"
      "usage_loop st sub es (bytes + sz) (fcount + 1) = Some (Inr (b, n))" by (auto split: sum.splits)
    from x(1) have "sz = of_nat (blob_length st (te_digest e))" by (auto simp: blob_size_def blob_length_def split: option.splits)
    with "2.IH"(2) [OF False x(1) x(2)] "2.prems"(2) False show ?thesis by (auto simp: entry_bytes_def entry_paths_def)
  qed
qed simp

lemma subtree_usage_exact:
  assumes "names_distinct st"
  shows "subtree_usage st f d = Some (Inr (b, n)) \<Longrightarrow>
    finite (file_paths st d) \<and> b = of_nat (file_bytes st d) \<and> n = of_nat (card (file_paths st d))"
proof (induction f arbitrary: d b n)
  case (Suc f)
  then obtain t where t: "os_trees st d = Some t" and u: "usage_loop st (subtree_usage st f) t 0 0 = Some (Inr (b, n))"
    by (auto simp: get_tree_def split: option.splits sum.splits)
  have dt: "distinct (map te_name t)" using assms t by (auto simp: names_distinct_def)
  from usage_loop_sums [OF u] Suc.IH have s: "b = of_nat (sum_list (map (entry_bytes st) t))"
    "n = of_nat (sum_list (map (card \<circ> entry_paths st) t))" "\<And>e. e \<in> set t \<Longrightarrow> finite (entry_paths st e)" by auto
  from level_sums [OF t dt s(3)] s(1, 2) show ?case by simp
qed simp

lemma resolve_files:
  "resolve_entry_at_path st d segs = Inr e \<Longrightarrow> te_is_tree e \<Longrightarrow> files st d (segs @ p) = files st (te_digest e) p"
proof (induction st d segs rule: resolve_entry_at_path.induct)
  case (2 st d head rest)
  obtain t x where t: "os_trees st d = Some t" and x: "find_entry t head = Some x"
    using "2.prems"(1) by (auto simp: get_tree_def split: option.splits)
  show ?case
  proof (cases "rest = []")
    case True
    then show ?thesis using "2.prems" t x by (auto simp: get_tree_def)
  next
    case False
    then show ?thesis using "2.IH" [of t x] "2.prems" t x by (auto simp: get_tree_def split: if_splits)
  qed
qed (simp add: no_segments_def)

text \<open>The quota of a mount, stated over the files below its root \<open>segs\<close> in a tree.\<close>

definition mounted_files :: "object_store \<Rightarrow> digest \<Rightarrow> string list \<Rightarrow> string list set" where
  "mounted_files st d segs = {p. files st d (segs @ p) \<noteq> None}"

definition mounted_bytes :: "object_store \<Rightarrow> digest \<Rightarrow> string list \<Rightarrow> nat" where
  "mounted_bytes st d segs = (\<Sum>p\<in>mounted_files st d segs. blob_length st (the (files st d (segs @ p))))"

definition within_quota :: "object_store \<Rightarrow> digest \<Rightarrow> string list \<Rightarrow> fs_write \<Rightarrow> bool" where
  "within_quota st d segs held \<longleftrightarrow>
     (case limit (fw_quota_bytes held) of
        None \<Rightarrow> True | Some q \<Rightarrow> finite (mounted_files st d segs) \<and> mounted_bytes st d segs mod 2 ^ 64 \<le> unat q) \<and>
     (case limit (fw_file_count_cap held) of
        None \<Rightarrow> True | Some n \<Rightarrow> finite (mounted_files st d segs) \<and> card (mounted_files st d segs) mod 2 ^ 32 \<le> unat n)"

lemma resolve_subtree_mounted:
  assumes "resolve_subtree_digest st d path = Inr c" and "split_mount_path path = Inr segs"
  shows "mounted_files st d segs = file_paths st c" and "mounted_bytes st d segs = file_bytes st c"
proof -
  have "files st d (segs @ p) = files st c p" for p
  proof (cases "path = [] \<or> segs = []")
    case True
    then show ?thesis using assms by (auto simp: resolve_subtree_digest_def split_mount_path_def split: if_splits)
  next
    case False
    with assms obtain e where "resolve_entry_at_path st d segs = Inr e" "te_is_tree e" "c = te_digest e"
      by (auto simp: resolve_subtree_digest_def split: if_splits sum.splits)
    then show ?thesis using resolve_files by simp
  qed
  then show "mounted_files st d segs = file_paths st c" "mounted_bytes st d segs = file_bytes st c"
    by (simp_all add: mounted_files_def mounted_bytes_def file_paths_def file_bytes_def)
qed

lemma check_quota_within:
  assumes "names_distinct st" and "split_mount_path (mt_subtree_path m) = Inr segs" and "check_quota st f m held d = Some (Inr ())"
  shows "within_quota st d segs held"
proof (cases "is_unbounded (fw_quota_bytes held) \<and> is_unbounded (fw_file_count_cap held)")
  case True
  then show ?thesis by (cases "fw_quota_bytes held"; cases "fw_file_count_cap held") (simp_all add: within_quota_def)
next
  case False
  with assms(3) obtain c b n where c: "resolve_subtree_digest st d (mt_subtree_path m) = Inr c" "subtree_usage st f c = Some (Inr (b, n))"
    "case limit (fw_quota_bytes held) of None \<Rightarrow> True | Some q \<Rightarrow> b \<le> q"
    "case limit (fw_file_count_cap held) of None \<Rightarrow> True | Some k \<Rightarrow> ucast n \<le> k"
    by (auto simp: check_quota_def split: if_splits sum.splits option.splits prod.splits)
  note u = subtree_usage_exact [OF assms(1) c(2)] and r = resolve_subtree_mounted [OF c(1) assms(2)]
  have "unat b = file_bytes st c mod 2 ^ 64" "unat (ucast n :: u64) = card (file_paths st c) mod 2 ^ 32"
    using u by (simp_all add: unat_of_nat unsigned_ucast_eq take_bit_eq_mod)
  then show ?thesis using c(3, 4) u by (auto simp: within_quota_def r word_le_nat_alt split: option.splits)
qed

section \<open>Properties\<close>

lemma put_blob_sound:
  assumes "put_blob dig st content = (Inr blob, st1)"
  shows "os_trees st1 = os_trees st \<and> os_blobs st1 blob = Some (case os_blobs st blob of None \<Rightarrow> content | Some b \<Rightarrow> b)"
  using assms by (auto simp: put_blob_def split: sum.splits option.splits)

lemma sound_store_trees: "os_trees st' = os_trees st \<Longrightarrow> sound_store dig st' = sound_store dig st"
  by (simp add: sound_store_def store_ok_def names_distinct_def)

lemma same_trees_files: "os_trees st' = os_trees st \<Longrightarrow> depth_within st' n d = depth_within st n d"
  by (induction n arbitrary: d) (simp_all add: list_all_iff split: option.splits)

lemma files_resolve:
  "files st d p = Some b \<Longrightarrow> \<exists>e. resolve_entry_at_path st d p = Inr e \<and> \<not> te_is_tree e \<and> te_digest e = b"
proof (induction p arbitrary: d)
  case (Cons n p)
  then show ?case by (cases "p = []") (auto simp: get_tree_def split: option.splits if_splits)
qed simp

lemma mount_write_cases:
  assumes "mount_write dig memory_ops nm f st rs m held path content = out"
  obtains (refused) e st' where "out = Some (Inl e, st', rs)"
  | (reached) segs old blob st1 new_root st2 where
      "fw_mount_id held = mt_mount_id m" "path_prefix_covers (fw_path_prefix held) path"
      "combined_mount_segments m path = Inr segs" "read_ref memory_ops nm rs (mt_ref_name m) = Inr (Some old)"
      "put_blob dig st content = (Inr blob, st1)"
      "set_entry_at_path dig st1 (wr_tree_digest old) segs blob False = (Inr new_root, st2)"
      "out = (case check_quota st2 f m held new_root of
                None \<Rightarrow> None
              | Some (Inl e) \<Rightarrow> Some (Inl e, st2, rs)
              | Some (Inr u) \<Rightarrow> Some (Inr \<lparr>wr_name = mt_ref_name m, wr_tree_digest = new_root\<rparr>, st2,
                  rs(ref_log_id (mt_ref_name m) := rs (ref_log_id (mt_ref_name m)) @ [encode_ref_moved nm new_root])))"
proof (cases "fw_mount_id held = mt_mount_id m \<and> path_prefix_covers (fw_path_prefix held) path")
  case False
  then show ?thesis using assms refused by (auto simp: mount_write_def mount_write_with_blob_def split: if_splits)
next
  case True
  then show ?thesis
    using assms refused reached
    by (fastforce simp: mount_write_def mount_write_with_blob_def commit_write_def commit_ref_memory
        split: sum.splits option.splits prod.splits)
qed

lemma written_blob:
  "written st d segs \<lparr>te_name = n, te_digest = blob, te_is_tree = False\<rparr> p
   = (if p = segs then Some blob else if prefix segs p then None else files st d p)"
  by (auto simp: written_def prefix_def)

lemma mount_write_tree:
  assumes "collision_free dig" and "sound_store dig st" and "put_blob dig st content = (Inr blob, st1)"
    and "set_entry_at_path dig st1 old segs blob False = (Inr new_root, st2)"
  shows "sound_store dig st2 \<and> grows st st2 \<and> os_blobs st2 = os_blobs st1 \<and>
      files st2 new_root = (\<lambda>p. if p = segs then Some blob else if prefix segs p then None else files st2 old p)"
    and "depth_within st n old \<Longrightarrow> depth_within st2 (max n (length segs)) new_root"
proof -
  have t: "os_trees st1 = os_trees st" using put_blob_sound [OF assms(3)] by simp
  then have s1: "sound_store dig st1" using sound_store_trees assms(2) by blast
  obtain k where "writes dig st1 old segs \<lparr>te_name = k, te_digest = blob, te_is_tree = False\<rparr> new_root st2"
    using set_entry_at_path_writes [OF assms(1) s1 assms(4)] by blast
  then show "sound_store dig st2 \<and> grows st st2 \<and> os_blobs st2 = os_blobs st1 \<and>
      files st2 new_root = (\<lambda>p. if p = segs then Some blob else if prefix segs p then None else files st2 old p)"
    using t by (auto simp: writes_def written_blob grows_def fun_eq_iff)
  show "depth_within st2 (max n (length segs)) new_root" if "depth_within st n old"
    using set_entry_at_path_depth [OF assms(1) s1 assms(4), of n] that same_trees_files [OF t] by simp
qed

text \<open>What a successful write through a mount promises.\<close>

definition confined_write ::
  "'n num_ops \<Rightarrow> memory_log \<Rightarrow> mount \<Rightarrow> fs_write \<Rightarrow> string \<Rightarrow> worktree_ref \<Rightarrow> object_store \<Rightarrow> memory_log \<Rightarrow> bool" where
  "confined_write nm rs m held path r st' rs' \<longleftrightarrow>
     fw_mount_id held = mt_mount_id m \<and> path_prefix_covers (fw_path_prefix held) path \<and>
     (\<exists>root segs old blob.
        split_mount_path (mt_subtree_path m) = Inr root \<and> combined_mount_segments m path = Inr segs \<and> prefix root segs \<and>
        (\<forall>ps. split_mount_path (fw_path_prefix held) = Inr ps \<longrightarrow> prefix (root @ ps) segs) \<and>
        read_ref memory_ops nm rs (mt_ref_name m) = Inr (Some old) \<and>
        read_ref memory_ops nm rs' (mt_ref_name m) = Inr (Some r) \<and>
        (\<forall>n. n \<noteq> mt_ref_name m \<longrightarrow> read_ref memory_ops nm rs' n = read_ref memory_ops nm rs n) \<and>
        files st' (wr_tree_digest r) =
          (\<lambda>p. if p = segs then Some blob else if prefix segs p then None else files st' (wr_tree_digest old) p) \<and>
        within_quota st' (wr_tree_digest r) root held)"

lemma combined_root:
  "combined_mount_segments m path = Inr segs \<Longrightarrow> \<exists>root. split_mount_path (mt_subtree_path m) = Inr root \<and> prefix root segs"
  by (auto simp: combined_mount_segments_def split_mount_path_def [of "[]"] split: if_splits sum.splits)

text \<open>Whatever the ref store, a refused write leaves it alone, unless it was the commit that failed.\<close>

lemma mount_write_refused:
  "mount_write dig ops nm f st rs m held path content = Some (Inl e, st', rs') \<Longrightarrow>
   rs' = rs \<or> (\<exists>d. commit_ref ops nm rs (mt_ref_name m) d = (Inl e, rs'))"
  by (auto simp: mount_write_def mount_write_with_blob_def commit_write_def
      split: if_splits sum.splits option.splits prod.splits)

definition demo_mount :: mount where
  "demo_mount = \<lparr>mt_mount_id = ''/work'', mt_ref_name = ''p'', mt_subtree_path = []\<rparr>"

definition demo_held :: fs_write where
  "demo_held = \<lparr>fw_mount_id = ''/work'', fw_path_prefix = [], fw_quota_bytes = Unbounded, fw_file_count_cap = Unbounded\<rparr>"

definition mount_digest :: digest_fn where
  "mount_digest bytes = (if bytes = [7] then Inr ''3'' else demo_digest bytes)"

definition mount_refs :: memory_log where
  "mount_refs = (\<lambda>i. [])(ref_log_id ''p'' := [] @ [encode_ref_moved int_ops ''base''])"

lemma mount_digest_tree: "mount_digest (canonical_tree_bytes t) = demo_digest (canonical_tree_bytes t)"
proof -
  have "4 \<le> length (canonical_tree_bytes t)" by (simp add: canonical_tree_bytes_def)
  then have "canonical_tree_bytes t \<noteq> [7]" by auto
  then show ?thesis by (simp add: mount_digest_def)
qed

lemma mount_collision_free: "collision_free mount_digest"
  using demo_collision_free by (simp add: collision_free_def mount_digest_tree)

lemma mount_sound: "sound_store mount_digest demo_store"
  using demo_store_ok
  by (auto simp: sound_store_def store_ok_def mount_digest_tree names_distinct_def demo_store_def demo_tree_def split: if_splits)

lemma mount_ref: "read_ref memory_ops int_ops mount_refs ''p'' = Inr (Some \<lparr>wr_name = ''p'', wr_tree_digest = ''base''\<rparr>)"
  by (simp add: mount_refs_def read_ref_def decode_encode_ref_moved)

lemma demo_segments: "combined_mount_segments demo_mount ''a'' = Inr [''a'']"
  by (simp add: combined_mount_segments_def demo_mount_def split_mount_path_def)

lemma demo_mount_write:
  "mount_write mount_digest memory_ops int_ops 1 demo_store mount_refs demo_mount demo_held ''a'' [7] =
     Some (Inr \<lparr>wr_name = ''p'', wr_tree_digest = ''ours''\<rparr>,
       demo_store\<lparr>os_blobs := [''3'' \<mapsto> [7]], os_trees := os_trees demo_store\<rparr>,
       mount_refs(ref_log_id ''p'' := mount_refs (ref_log_id ''p'') @ [encode_ref_moved int_ops ''ours'']))"
proof -
  let ?st = "demo_store\<lparr>os_blobs := [''3'' \<mapsto> [7 :: u8]]\<rparr>"
  have b: "put_blob mount_digest demo_store [7] = (Inr ''3'', ?st)"
    by (simp add: put_blob_def mount_digest_def demo_store_def)
  have e: "set_entry \<lparr>te_name = ''a'', te_digest = ''3'', te_is_tree = False\<rparr> (demo_tree ''1'' ''2'') = demo_tree ''3'' ''2''"
    by (simp add: demo_tree_def)
  have "put_tree mount_digest ?st (demo_tree ''3'' ''2'') = (Inr ''ours'', ?st)"
    using demo_digest_tree [of "demo_tree ''3'' ''2''" "''ours''"]
    by (simp add: put_tree_def demo_sorted mount_digest_tree demo_store_def fun_upd_twist)
  then have "set_entry_at_path mount_digest ?st ''base'' [''a''] ''3'' False = (Inr ''ours'', ?st)"
    by (simp add: get_tree_def demo_store_def e)
  then show ?thesis
    using mount_ref demo_segments b
    by (simp add: mount_write_def mount_write_with_blob_def commit_write_def commit_ref_memory check_quota_def
        demo_held_def demo_mount_def path_prefix_covers_def starts_with_def)
qed

text \<open>C30. A guest write is confined and within its quota. Over the in-memory ref store, with fuel for the depth of the
  mounted tree and the length of the path, it returns; when it is refused no ref moves; when it succeeds, the capability
  names the mount and covers the path, only the mount's ref moved, and its new tree is the old one with the new file at the
  written path and nothing below that path; the path lies in the mounted subtree and, segment by segment, below the
  capability's prefix. In the new tree the lengths of all the files below the mount's root add up to at most the capability's
  byte quota and their number is at most its file cap, counted in 64 and 32 bits as the code does. Over any other ref store a
  refused write changes nothing there either, unless the refusal is the failure of the commit itself.\<close>

theorem mount_write_confined:
  assumes "collision_free dig" and "sound_store dig st"
    and "\<And>old. read_ref memory_ops nm rs (mt_ref_name m) = Inr (Some old) \<Longrightarrow> depth_within st f (wr_tree_digest old)"
    and "\<And>segs. combined_mount_segments m path = Inr segs \<Longrightarrow> length segs \<le> f"
  shows "(\<exists>res st' rs'. mount_write dig memory_ops nm f st rs m held path content = Some (res, st', rs') \<and>
      (case res of Inl e \<Rightarrow> rs' = rs | Inr r \<Rightarrow> confined_write nm rs m held path r st' rs')) \<and>
    (case mount_write dig ops nm f st any m held path content of
       Some (Inl e, st', any') \<Rightarrow> any' = any \<or> (\<exists>d. commit_ref ops nm any (mt_ref_name m) d = (Inl e, any'))
     | _ \<Rightarrow> True)"
proof (intro conjI)
  let ?out = "mount_write dig memory_ops nm f st rs m held path content"
  have "?out = ?out" ..
  then show "\<exists>res st' rs'. ?out = Some (res, st', rs') \<and>
      (case res of Inl e \<Rightarrow> rs' = rs | Inr r \<Rightarrow> confined_write nm rs m held path r st' rs')"
  proof (cases rule: mount_write_cases)
    case (refused e st')
    then show ?thesis by simp
  next
    case (reached segs old blob st1 new_root st2)
    note tr = mount_write_tree [OF assms(1,2) reached(5,6)]
    have "depth_within st2 f new_root"
      using tr(2) assms(3) [OF reached(4)] assms(4) [OF reached(3)] by (metis max.absorb1)
    then obtain q where q: "check_quota st2 f m held new_root = Some q" using check_quota_total by blast
    show ?thesis
    proof (cases q)
      case (Inl e)
      then show ?thesis using reached(7) q by simp
    next
      case (Inr u)
      obtain root where root: "split_mount_path (mt_subtree_path m) = Inr root" "prefix root segs"
        using combined_root [OF reached(3)] by blast
      have "names_distinct st2" using tr(1) by (simp add: sound_store_def)
      from check_quota_within [OF this root(1)] q Inr have "within_quota st2 new_root root held" by simp
      moreover have "prefix (root @ ps) segs" if "split_mount_path (fw_path_prefix held) = Inr ps" for ps
        using combined_below [OF reached(2,3) that] root(1) by auto
      ultimately show ?thesis using reached q Inr tr(1) root by (auto simp: confined_write_def)
    qed
  qed
next
  show "case mount_write dig ops nm f st any m held path content of
       Some (Inl e, st', any') \<Rightarrow> any' = any \<or> (\<exists>d. commit_ref ops nm any (mt_ref_name m) d = (Inl e, any'))
     | _ \<Rightarrow> True"
    by (auto split: option.split sum.split prod.split dest: mount_write_refused)
qed

theorem mount_write_confined_witness:
  "\<exists>st' rs'. confined_write int_ops mount_refs demo_mount demo_held ''a'' \<lparr>wr_name = ''p'', wr_tree_digest = ''ours''\<rparr> st' rs' \<and>
     within_quota st' ''ours'' [] demo_held"
proof -
  have "depth_within demo_store 1 ''base''" by (simp add: demo_store_def demo_tree_def)
  then obtain st' rs' where c: "confined_write int_ops mount_refs demo_mount demo_held ''a'' \<lparr>wr_name = ''p'', wr_tree_digest = ''ours''\<rparr> st' rs'"
    using mount_write_confined [OF mount_collision_free mount_sound, of int_ops mount_refs demo_mount 1 "''a''" demo_held "[7]" mount_refs memory_ops]
      mount_ref demo_segments demo_mount_write
    by (auto simp: demo_mount_def)
  moreover from c have "within_quota st' ''ours'' [] demo_held"
    by (auto simp: confined_write_def demo_mount_def split_mount_path_def)
  ultimately show ?thesis by blast
qed

text \<open>A file written through a mount reads back: after a successful write, reading the same path through
  the mount with a capability that covers it returns the content, or the size-cap refusal when
  the content is longer than the capability allows.\<close>

theorem mount_write_read_back:
  assumes "collision_free dig" and "sound_store dig st" and "\<And>d b. os_blobs st d = Some b \<Longrightarrow> dig content = Inr d \<Longrightarrow> b = content"
    and "mount_write dig memory_ops nm f st rs m held path content = Some (Inr r, st', rs')"
    and "fr_mount_id rheld = mt_mount_id m" and "path_prefix_covers (fr_path_prefix rheld) path"
  shows "mount_read memory_ops nm st' rs' m rheld path =
    (case limit (fr_size_cap_bytes rheld) of
       None \<Rightarrow> Inr content
     | Some cap \<Rightarrow> if cap < of_nat (length content) then Inl (Error Policy ''worktree.mount_read_exceeds_size_cap'') else Inr content)"
  using assms(4)
proof (cases rule: mount_write_cases)
  case (reached segs old blob st1 new_root st2)
  note tr = mount_write_tree(1) [OF assms(1,2) reached(5,6)]
  have r: "r = \<lparr>wr_name = mt_ref_name m, wr_tree_digest = new_root\<rparr>" "st' = st2"
    and rs': "rs' = rs(ref_log_id (mt_ref_name m) := rs (ref_log_id (mt_ref_name m)) @ [encode_ref_moved nm new_root])"
    using reached(7) by (auto split: option.splits sum.splits)
  have "files st2 new_root segs = Some blob" using tr by simp
  then obtain e where e: "resolve_entry_at_path st2 new_root segs = Inr e" "\<not> te_is_tree e" "te_digest e = blob"
    using files_resolve by blast
  have "dig content = Inr blob" using reached(5) by (auto simp: put_blob_def split: sum.splits)
  then have "os_blobs st2 blob = Some content"
    using tr put_blob_sound [OF reached(5)] assms(3) by (auto split: option.splits)
  then show ?thesis
    using assms(5,6) reached(3) e
    by (simp add: mount_read_def authorize_mount_read_def rs' r read_blob_within_size_cap_def get_blob_def split: option.splits)
qed simp

theorem mount_write_read_back_witness:
  "mount_read memory_ops int_ops (demo_store\<lparr>os_blobs := [''3'' \<mapsto> [7]], os_trees := os_trees demo_store\<rparr>)
     (mount_refs(ref_log_id ''p'' := mount_refs (ref_log_id ''p'') @ [encode_ref_moved int_ops ''ours''])) demo_mount
     \<lparr>fr_mount_id = ''/work'', fr_path_prefix = ''a'', fr_size_cap_bytes = Unbounded\<rparr> ''a'' = Inr [7]"
  using mount_write_read_back [OF mount_collision_free mount_sound _ demo_mount_write,
      of "\<lparr>fr_mount_id = ''/work'', fr_path_prefix = ''a'', fr_size_cap_bytes = Unbounded\<rparr>"]
  by (simp add: demo_store_def demo_mount_def path_prefix_covers_def starts_with_def)

section \<open>Evidence of conflicts is kept\<close>

text \<open>The entries filed, in order, and a tree's files with one of them laid over.\<close>

definition side_evidence :: "string \<Rightarrow> string \<Rightarrow> tree_entry option \<Rightarrow> (string list \<times> tree_entry) list" where
  "side_evidence path agent side = (case side of None \<Rightarrow> [] | Some e \<Rightarrow> [(conflict_segments agent [] path, e)])"

definition evidence :: "string \<Rightarrow> string \<Rightarrow> merge_conflict list \<Rightarrow> (string list \<times> tree_entry) list" where
  "evidence ours_agent branch_name cs = concat (map (\<lambda>c. side_evidence (mc_path c) ours_agent (mc_ours c) @
     side_evidence (mc_path c) branch_name (mc_theirs c)) cs)"

definition overlay :: "object_store \<Rightarrow> (string list \<Rightarrow> digest option) \<Rightarrow> string list \<times> tree_entry \<Rightarrow> string list \<Rightarrow> digest option" where
  "overlay st F x p = (if prefix (fst x) p then entry_files st (Some (snd x)) (drop (length (fst x)) p) else F p)"

definition filed :: "digest_fn \<Rightarrow> object_store \<Rightarrow> digest \<Rightarrow> (string list \<times> tree_entry) list \<Rightarrow> digest \<Rightarrow> object_store \<Rightarrow> bool" where
  "filed dig st root xs root' st' \<longleftrightarrow>
     sound_store dig st' \<and> grows st st' \<and>
     (\<forall>st''. grows st' st'' \<longrightarrow> files st'' root' = foldl (overlay st'') (files st'' root) xs)"

lemma filed_trans:
  assumes "filed dig st root xs root1 st1" and "filed dig st1 root1 ys root2 st2"
  shows "filed dig st root (xs @ ys) root2 st2"
  using assms grows_trans by (fastforce simp: filed_def)

lemma apply_one_filed:
  assumes "collision_free dig" and "sound_store dig st" and "apply_one dig path agent side (root, st) = (Inr (root', st'), x)"
  shows "filed dig st root (side_evidence path agent side) root' st'"
proof (cases side)
  case None
  then show ?thesis using assms by (simp add: apply_one_def filed_def side_evidence_def)
next
  case (Some e)
  then have "set_entry_at_path dig st root (conflict_segments agent [] path) (te_digest e) (te_is_tree e) = (Inr root', st')"
    using assms(3) by (auto simp: apply_one_def split: prod.splits sum.splits)
  from set_entry_at_path_writes [OF assms(1,2) this] obtain k
    where w: "writes dig st root (conflict_segments agent [] path)
      \<lparr>te_name = k, te_digest = te_digest e, te_is_tree = te_is_tree e\<rparr> root' st'" by blast
  have "entry_files s (Some \<lparr>te_name = k, te_digest = te_digest e, te_is_tree = te_is_tree e\<rparr>) = entry_files s (Some e)" for s
    by (auto simp: entry_files_def fun_eq_iff)
  then show ?thesis
    using w Some by (auto simp: filed_def writes_def written_def overlay_def side_evidence_def fun_eq_iff)
qed

lemma apply_conflicts_filed:
  assumes cf: "collision_free dig"
  shows "sound_store dig st \<Longrightarrow> apply_conflicts dig ours_agent branch_name cs (root, st) = (Inr root', st') \<Longrightarrow>
    filed dig st root (evidence ours_agent branch_name cs) root' st'"
proof (induction cs arbitrary: root st)
  case Nil
  then show ?case by (simp add: filed_def evidence_def)
next
  case (Cons c cs)
  from Cons.prems(2) obtain root1 st1 x root2 st2 y
    where a: "apply_one dig (mc_path c) ours_agent (mc_ours c) (root, st) = (Inr (root1, st1), x)"
      and b: "apply_one dig (mc_path c) branch_name (mc_theirs c) (root1, st1) = (Inr (root2, st2), y)"
      and r: "apply_conflicts dig ours_agent branch_name cs (root2, st2) = (Inr root', st')"
    by (auto split: prod.splits sum.splits)
  have fa: "filed dig st root (side_evidence (mc_path c) ours_agent (mc_ours c)) root1 st1"
    by (rule apply_one_filed [OF cf Cons.prems(1) a])
  then have "sound_store dig st1" by (simp add: filed_def)
  note fb = apply_one_filed [OF cf this b]
  then have "sound_store dig st2" by (simp add: filed_def)
  note fr = Cons.IH [OF this r]
  show ?case using filed_trans [OF filed_trans [OF fa fb] fr] by (simp add: evidence_def)
qed

lemma foldl_overlay_kept:
  "\<forall>x\<in>set xs. \<not> prefix (fst x) p \<Longrightarrow> foldl (overlay st) F xs p = F p"
  by (induction xs arbitrary: F) (simp_all add: overlay_def)

definition ident_digest :: digest_fn where
  "ident_digest bytes = (if length bytes < 2 ^ 32 then Inr (map char_of_byte bytes) else Inl (Error Fatal ''worktree.digest_failed''))"

lemma ident_collision_free: "collision_free ident_digest"
proof -
  have "t = u" if "ident_digest (canonical_tree_bytes t) = Inr d" "ident_digest (canonical_tree_bytes u) = Inr d" for t u d
  proof (rule canonical_tree_bytes_inj)
    show "encodable t" "encodable u" using that by (auto simp: ident_digest_def intro!: encodable_short split: if_splits)
    have "map char_of_byte (canonical_tree_bytes t) = map char_of_byte (canonical_tree_bytes u)"
      using that by (auto simp: ident_digest_def split: if_splits)
    then show "canonical_tree_bytes t = canonical_tree_bytes u"
      by (metis (no_types, lifting) byte_of_char_of_byte map_idI map_map comp_apply)
  qed
  then show ?thesis by (auto simp: collision_free_def)
qed

definition demo_conflict :: merge_conflict where
  "demo_conflict = \<lparr>mc_path = ''f'', mc_base = None,
     mc_ours = Some \<lparr>te_name = ''f'', te_digest = ''1'', te_is_tree = False\<rparr>,
     mc_theirs = Some \<lparr>te_name = ''f'', te_digest = ''2'', te_is_tree = False\<rparr>\<rparr>"

text \<open>Both versions of every conflict are retained: when the evidence of a failed merge is filed, exactly the
  parent's conflicts ref moves; every entry filed is found below its path, sides that are directories with their
  whole content, unless a later entry of the same merge was filed at or above it; and everything
  earlier merges filed elsewhere is still there.\<close>

theorem conflict_evidence_retained:
  assumes "collision_free dig" and "sound_store dig st" and "cs \<noteq> []"
    and "materialize_merge_conflicts dig memory_ops nm st rs parent ours_agent branch cs = (Inr (), st', rs')"
  shows "\<exists>r. read_ref memory_ops nm rs' (conflicts_ref_name parent) = Inr (Some r) \<and>
    (\<forall>n. n \<noteq> conflicts_ref_name parent \<longrightarrow> read_ref memory_ops nm rs' n = read_ref memory_ops nm rs n) \<and>
    (\<forall>xs segs e ys q. evidence ours_agent (sw_name branch) cs = xs @ (segs, e) # ys \<longrightarrow>
       (\<forall>y\<in>set ys. \<not> prefix (fst y) (segs @ q)) \<longrightarrow> files st' (wr_tree_digest r) (segs @ q) = entry_files st' (Some e) q) \<and>
    (\<forall>p old. read_ref memory_ops nm rs (conflicts_ref_name parent) = Inr (Some old) \<longrightarrow>
       (\<forall>x\<in>set (evidence ours_agent (sw_name branch) cs). \<not> prefix (fst x) p) \<longrightarrow>
       files st' (wr_tree_digest r) p = files st' (wr_tree_digest old) p)"
proof -
  let ?n = "conflicts_ref_name parent" and ?ev = "evidence ours_agent (sw_name branch) cs"
  from assms(3,4) obtain existing root st1 where ex: "read_ref memory_ops nm rs ?n = Inr existing"
    and st1: "(case existing of Some r \<Rightarrow> (Inr (wr_tree_digest r), st) | None \<Rightarrow> ensure_empty_tree dig st) = (Inr root, st1)"
    and ce: "commit_evidence memory_ops nm rs ?n (apply_conflicts dig ours_agent (sw_name branch) cs (root, st1)) = (Inr (), st', rs')"
    by (auto simp: materialize_merge_conflicts_def split: sum.splits prod.splits)
  obtain root' where ap: "apply_conflicts dig ours_agent (sw_name branch) cs (root, st1) = (Inr root', st')"
    and rs': "rs' = rs(ref_log_id ?n := rs (ref_log_id ?n) @ [encode_ref_moved nm root'])"
    using ce by (cases "apply_conflicts dig ours_agent (sw_name branch) cs (root, st1)")
      (auto simp: commit_evidence_def commit_ref_memory split: sum.splits)
  have s1: "sound_store dig st1"
    using st1 assms(2) put_tree_sound [OF assms(1,2), of "[]" root st1]
    by (auto simp: ensure_empty_tree_def split: option.splits)
  have f: "files st' root' = foldl (overlay st') (files st' root) ?ev"
    using apply_conflicts_filed [OF assms(1) s1 ap] by (simp add: filed_def)
  have "files st' root' (segs @ q) = entry_files st' (Some e) q"
    if "?ev = xs @ (segs, e) # ys" "\<forall>y\<in>set ys. \<not> prefix (fst y) (segs @ q)" for xs segs e ys q
    using that foldl_overlay_kept [of ys "segs @ q" st'] by (simp add: f overlay_def)
  moreover have "files st' root' p = files st' (wr_tree_digest old) p"
    if "existing = Some old" "\<forall>x\<in>set ?ev. \<not> prefix (fst x) p" for p old
    using that st1 foldl_overlay_kept [of ?ev p st'] by (simp add: f)
  ultimately show ?thesis using ex by (auto simp: rs')
qed

theorem conflict_evidence_retained_witness:
  "\<exists>st' rs' r. materialize_merge_conflicts ident_digest memory_ops int_ops empty_object_store (\<lambda>i. []) ''run'' ''lead''
       demo_branch [demo_conflict] = (Inr (), st', rs') \<and>
     read_ref memory_ops int_ops rs' ''run:conflicts'' = Inr (Some r) \<and>
     files st' (wr_tree_digest r) [''f.lead''] = Some ''1''"
proof -
  have "read_ref memory_ops int_ops (\<lambda>i. []) (conflicts_ref_name ''run'') = Inr None" by (simp add: read_ref_def)
  moreover have "sort [''f.lead'', ''f.c'' :: string] = [''f.c'', ''f.lead'']" by code_simp
  ultimately obtain st' rs' where m: "materialize_merge_conflicts ident_digest memory_ops int_ops empty_object_store (\<lambda>i. []) ''run'' ''lead''
       demo_branch [demo_conflict] = (Inr (), st', rs')"
    by (simp add: materialize_merge_conflicts_def ensure_empty_tree_def put_tree_def ident_digest_def canonical_tree_bytes_def
        sort_tree_def apply_one_def demo_conflict_def demo_branch_def empty_object_store_def get_tree_def encode_entry_def
        commit_evidence_def commit_ref_memory sanitize_agent_def)
  have "sound_store ident_digest empty_object_store"
    by (simp add: sound_store_def store_ok_def names_distinct_def empty_object_store_def)
  from conflict_evidence_retained [OF ident_collision_free this _ m]
  obtain r where "read_ref memory_ops int_ops rs' (conflicts_ref_name ''run'') = Inr (Some r)"
    and "\<forall>xs segs e ys q. evidence ''lead'' ''c'' [demo_conflict] = xs @ (segs, e) # ys \<longrightarrow>
       (\<forall>y\<in>set ys. \<not> prefix (fst y) (segs @ q)) \<longrightarrow> files st' (wr_tree_digest r) (segs @ q) = entry_files st' (Some e) q"
    by (auto simp: demo_branch_def)
  moreover have "evidence ''lead'' ''c'' [demo_conflict] = [] @ ([''f.lead''], \<lparr>te_name = ''f'', te_digest = ''1'', te_is_tree = False\<rparr>) #
      [([''f.c''], \<lparr>te_name = ''f'', te_digest = ''2'', te_is_tree = False\<rparr>)]"
    by (simp add: evidence_def side_evidence_def demo_conflict_def sanitize_agent_def)
  ultimately have "files st' (wr_tree_digest r) ([''f.lead''] @ []) = Some ''1''" by fastforce
  then show ?thesis using m \<open>read_ref memory_ops int_ops rs' (conflicts_ref_name ''run'') = Inr (Some r)\<close>
    by (auto simp: conflicts_ref_name_def)
qed

end
