(* ===== verification/WorkflowGraph.thy ===== *)
theory WorkflowGraph
  imports CapabilitySets Worktree
begin

text \<open>
  Workflows as data: \<^verbatim>\<open>include/agentengine/workflow/graph.hpp\<close>. The records of the graph, the one
  validator that the C++ builder and the declarative loader share, the two checks that a graph can
  be run, and the builder. The validator is proved to accept exactly the graphs a declarative
  specification calls well formed, its worklist search to compute the reachable executors.
\<close>

section \<open>The graph\<close>

datatype edge_kind = Direct | FanOut | FanIn | SwitchCase | MultiSelection | Chain | SwitchDefault

datatype executor_kind = AgentExec | FunctionExec | SubWorkflowExec | RequestPort

record executor =
  ex_id :: string
  ex_kind :: executor_kind
  ex_input_type :: string
  ex_output_type :: string
  ex_worktree_mode :: sharing_mode
  ex_capability_ceiling :: "capability list"
  ex_batch :: bool

text \<open>The comparison of executors leaves the capability ceiling out, as the source says.\<close>

definition executor_eq :: "executor \<Rightarrow> executor \<Rightarrow> bool" where
  "executor_eq a b =
     (ex_id a = ex_id b \<and> ex_kind a = ex_kind b \<and> ex_input_type a = ex_input_type b \<and>
      ex_output_type a = ex_output_type b \<and> ex_worktree_mode a = ex_worktree_mode b \<and> ex_batch a = ex_batch b)"

datatype edge_failure_kind = OnFail | OnPropagate | OnRetry | OnFallback

record failure_policy =
  fp_kind :: edge_failure_kind
  fp_attempts :: u32
  fp_fallback :: string

definition default_policy :: failure_policy where
  "default_policy = \<lparr>fp_kind = OnFail, fp_attempts = 0, fp_fallback = []\<rparr>"

record edge =
  ed_from :: string
  ed_to :: string
  ed_kind :: edge_kind
  ed_case_label :: string
  ed_on_failure :: failure_policy

record termination_bound =
  tb_max_rounds :: "u32 option"
  tb_deadline_ms :: "u64 option"
  tb_token_budget :: "u64 option"
  tb_max_stalls :: "u32 option"
  tb_max_resets :: "u32 option"

definition bound_any :: "termination_bound \<Rightarrow> bool" where
  "bound_any b =
     (tb_max_rounds b \<noteq> None \<or> tb_deadline_ms b \<noteq> None \<or> tb_token_budget b \<noteq> None \<or>
      tb_max_stalls b \<noteq> None \<or> tb_max_resets b \<noteq> None)"

record workflow =
  wf_id :: string
  wf_description :: string
  wf_version :: "string option"
  wf_executors :: "executor list"
  wf_edges :: "edge list"
  wf_start :: string
  wf_output_selection :: "string list"
  wf_bound :: termination_bound

definition wf_find :: "workflow \<Rightarrow> string \<Rightarrow> executor option" where
  "wf_find w i = List.find (\<lambda>e. ex_id e = i) (wf_executors w)"

section \<open>The validator\<close>

text \<open>\<^verbatim>\<open>validate_workflow\<close> is a sequence of checks, each of which returns from the function when it
  fails: the result is the first failure.\<close>

fun first_failure :: "unit result list \<Rightarrow> unit result" where
  "first_failure [] = Inr ()"
| "first_failure (Inl e # rs) = Inl e"
| "first_failure (Inr u # rs) = first_failure rs"

definition refuse_if :: "bool \<Rightarrow> string \<Rightarrow> unit result" where
  "refuse_if c why = (if c then Inl (Error Contract why) else Inr ())"

fun check_ids :: "executor list \<Rightarrow> unit result" where
  "check_ids [] = Inr ()"
| "check_ids (e # es) = first_failure
     [refuse_if (ex_id e = []) ''workflow.empty_executor_id'',
      refuse_if (CHR ''/'' \<in> set (ex_id e)) ''workflow.executor_id_contains_slash'',
      refuse_if (ex_id e \<in> set (map ex_id es)) ''workflow.duplicate_executor_id'',
      check_ids es]"

definition check_ports :: "executor \<Rightarrow> unit result" where
  "check_ports e = refuse_if (ex_input_type e = [] \<or> ex_output_type e = []) ''workflow.untyped_port''"

definition check_batch :: "executor \<Rightarrow> unit result" where
  "check_batch e = refuse_if (ex_batch e \<and> ex_kind e \<noteq> FunctionExec) ''validate.batch_on_non_function''"

definition labelled :: "edge \<Rightarrow> bool" where
  "labelled e = (ed_kind e = SwitchCase \<or> ed_kind e = MultiSelection)"

text \<open>The failure policy of one edge out of \<open>src\<close>.\<close>

definition check_policy :: "workflow \<Rightarrow> executor \<Rightarrow> failure_policy \<Rightarrow> unit result" where
  "check_policy w src pol =
     (let retrying = (fp_kind pol = OnRetry); recovering = (fp_kind pol = OnFallback)
      in first_failure
        [refuse_if (retrying \<and> fp_attempts pol = 0) ''workflow.retry_attempts_required'',
         refuse_if (\<not> retrying \<and> fp_attempts pol \<noteq> 0) ''workflow.unexpected_retry_attempts'',
         refuse_if (recovering \<and> fp_fallback pol = []) ''workflow.fallback_target_required'',
         refuse_if (\<not> recovering \<and> fp_fallback pol \<noteq> []) ''workflow.unexpected_fallback_target'',
         if recovering then
           (case wf_find w (fp_fallback pol) of
              None \<Rightarrow> refuse_if True ''workflow.unknown_fallback_target''
            | Some recovery \<Rightarrow>
                refuse_if (ex_output_type src \<noteq> ex_input_type recovery) ''workflow.fallback_type_mismatch'')
         else Inr ()])"

definition check_edge :: "workflow \<Rightarrow> edge \<Rightarrow> unit result" where
  "check_edge w e =
     (case wf_find w (ed_from e) of
        None \<Rightarrow> refuse_if True ''workflow.unknown_edge_endpoint''
      | Some src \<Rightarrow>
          (case wf_find w (ed_to e) of
             None \<Rightarrow> refuse_if True ''workflow.unknown_edge_endpoint''
           | Some dst \<Rightarrow> first_failure
               [refuse_if (ex_output_type src \<noteq> ex_input_type dst) ''workflow.edge_type_mismatch'',
                refuse_if (labelled e \<and> ed_case_label e = []) ''workflow.missing_case_label'',
                refuse_if (\<not> labelled e \<and> ed_case_label e \<noteq> []) ''workflow.unexpected_case_label'',
                check_policy w src (ed_on_failure e)]))"

text \<open>Default cases: the inner loop visits every edge, and looks for a second default among the later
  ones only.\<close>

definition is_case_of :: "edge \<Rightarrow> edge \<Rightarrow> bool" where
  "is_case_of e f = (ed_from f = ed_from e \<and> ed_kind f = SwitchCase)"

definition is_default_of :: "edge \<Rightarrow> edge \<Rightarrow> bool" where
  "is_default_of e f = (ed_from f = ed_from e \<and> ed_kind f = SwitchDefault)"

fun check_defaults :: "edge list \<Rightarrow> edge list \<Rightarrow> unit result" where
  "check_defaults all_edges [] = Inr ()"
| "check_defaults all_edges (e # es) = first_failure
     [if ed_kind e \<noteq> SwitchDefault then Inr ()
      else first_failure
        [refuse_if (list_ex (is_default_of e) es) ''workflow.duplicate_switch_default'',
         refuse_if (\<not> list_ex (is_case_of e) all_edges) ''workflow.switch_default_without_cases''],
      check_defaults all_edges es]"

definition same_policy :: "edge \<Rightarrow> edge \<Rightarrow> bool" where
  "same_policy e f =
     (fp_kind (ed_on_failure e) = fp_kind (ed_on_failure f) \<and>
      fp_attempts (ed_on_failure e) = fp_attempts (ed_on_failure f))"

fun check_conflicts :: "edge list \<Rightarrow> unit result" where
  "check_conflicts [] = Inr ()"
| "check_conflicts (e # es) = first_failure
     [refuse_if (list_ex (\<lambda>f. ed_from f = ed_from e \<and> \<not> same_policy e f) es) ''workflow.conflicting_failure_policy'',
      check_conflicts es]"

text \<open>Reachability: \<open>reachable\<close> is both the result and the work list, scanned by the index \<open>i\<close>.\<close>

definition visit :: "string \<Rightarrow> string list \<Rightarrow> string list" where
  "visit target reachable = (if target \<in> set reachable then reachable else reachable @ [target])"

definition visit_edge :: "string \<Rightarrow> edge \<Rightarrow> string list \<Rightarrow> string list" where
  "visit_edge current e reachable =
     (if ed_from e \<noteq> current then reachable
      else
        let reachable = visit (ed_to e) reachable
        in if fp_kind (ed_on_failure e) = OnFallback then visit (fp_fallback (ed_on_failure e)) reachable
           else reachable)"

definition edge_targets :: "edge list \<Rightarrow> string set" where
  "edge_targets es = ed_to ` set es \<union> (\<lambda>e. fp_fallback (ed_on_failure e)) ` set es"

text \<open>What bounds the loop: a visited name moves from the targets not yet seen to the list.\<close>

lemma visit_count:
  assumes "finite T" and "target \<in> T"
  shows "card (T - set (visit target r)) + length (visit target r) = card (T - set r) + length r"
proof (cases "target \<in> set r")
  case False
  then have "Suc (card (T - set r - {target})) = card (T - set r)"
    using assms by (intro card_Suc_Diff1) auto
  moreover have "T - set (r @ [target]) = T - set r - {target}" by auto
  ultimately show ?thesis using False by (simp only: visit_def if_False length_append) simp
qed (simp add: visit_def)

lemma visit_edge_count:
  assumes "finite T" and "ed_to e \<in> T" and "fp_fallback (ed_on_failure e) \<in> T"
  shows "card (T - set (visit_edge c e r)) + length (visit_edge c e r) = card (T - set r) + length r"
  unfolding visit_edge_def Let_def
  using visit_count [OF assms(1,2), of r] visit_count [OF assms(1,3), of "visit (ed_to e) r"] by simp

lemma visit_edges_count:
  assumes "finite T" and "edge_targets es \<subseteq> T"
  shows "card (T - set (fold (visit_edge c) es r)) + length (fold (visit_edge c) es r)
    = card (T - set r) + length r"
  using assms(2)
proof (induction es arbitrary: r)
  case (Cons e es)
  then have "ed_to e \<in> T" "fp_fallback (ed_on_failure e) \<in> T" "edge_targets es \<subseteq> T"
    by (auto simp: edge_targets_def)
  then show ?case
    using Cons.IH [of "visit_edge c e r"] visit_edge_count [OF assms(1), of e c r] by simp
qed simp

lemma finite_edge_targets [simp]: "finite (edge_targets es)"
  by (simp add: edge_targets_def)

function reach_loop :: "edge list \<Rightarrow> string list \<Rightarrow> nat \<Rightarrow> string list" where
  "reach_loop es reachable i =
     (if i < length reachable then reach_loop es (fold (visit_edge (reachable ! i)) es reachable) (i + 1)
      else reachable)"
  by pat_completeness auto
termination
proof (relation "measure (\<lambda>(es, r, i). card (edge_targets es - set r) + length r - i)")
  show "((es, fold (visit_edge (r ! i)) es r, i + 1), (es, r, i))
      \<in> measure (\<lambda>(es, r, i). card (edge_targets es - set r) + length r - i)" if "i < length r" for es r i
    using that visit_edges_count [OF finite_edge_targets subset_refl, of es "r ! i" r] by simp
qed simp

declare reach_loop.simps [simp del]

definition check_reachable :: "workflow \<Rightarrow> unit result" where
  "check_reachable w =
     (let reachable = reach_loop (wf_edges w) [wf_start w] 0
      in refuse_if (list_ex (\<lambda>e. ex_id e \<notin> set reachable) (wf_executors w)) ''workflow.unreachable_executor'')"

definition validate_workflow :: "workflow \<Rightarrow> unit result" where
  "validate_workflow w = first_failure
     [refuse_if (wf_id w = []) ''workflow.no_id'',
      refuse_if (wf_executors w = []) ''workflow.no_executors'',
      check_ids (wf_executors w),
      first_failure (map check_ports (wf_executors w)),
      first_failure (map check_batch (wf_executors w)),
      refuse_if (wf_start w = []) ''workflow.no_start'',
      refuse_if (wf_find w (wf_start w) = None) ''workflow.unknown_start'',
      first_failure (map (\<lambda>s. refuse_if (wf_find w s = None) ''workflow.unknown_output_selection'')
        (wf_output_selection w)),
      first_failure (map (check_edge w) (wf_edges w)),
      check_defaults (wf_edges w) (wf_edges w),
      check_conflicts (wf_edges w),
      refuse_if (\<not> bound_any (wf_bound w)) ''workflow.unbounded'',
      refuse_if (tb_max_rounds (wf_bound w) = Some 0) ''workflow.zero_max_rounds'',
      check_reachable w]"

section \<open>Whether a graph can be run\<close>

definition check_workflow_executable :: "workflow \<Rightarrow> unit result" where
  "check_workflow_executable w = first_failure
     (map (\<lambda>e. refuse_if (ex_kind e = AgentExec \<or> ex_kind e = SubWorkflowExec) ''workflow.executor_kind_unsupported'')
       (wf_executors w))"

text \<open>The overload that sees the contexts: of a context it reads the granted capabilities only. A missing
  context grants none.\<close>

definition ceiling_unmet :: "unit result" where
  "ceiling_unmet = Inl (Error Policy ''workflow.agent_capability_ceiling_unmet'')"

definition check_agent_ceiling :: "executor \<Rightarrow> capability_set option \<Rightarrow> unit result" where
  "check_agent_ceiling e caps =
     (if ex_kind e \<noteq> AgentExec then Inr ()
      else case caps of
             None \<Rightarrow> if ex_capability_ceiling e = [] then Inr () else ceiling_unmet
           | Some held \<Rightarrow>
               first_failure (map (\<lambda>c. if contains held c then Inr () else ceiling_unmet) (ex_capability_ceiling e)))"

definition context_at :: "capability_set option list \<Rightarrow> nat \<Rightarrow> capability_set option" where
  "context_at contexts i = (if i < length contexts then contexts ! i else None)"

definition check_workflow_executable_in :: "workflow \<Rightarrow> capability_set option list \<Rightarrow> unit result" where
  "check_workflow_executable_in w contexts = first_failure
     (map (\<lambda>i. check_agent_ceiling (wf_executors w ! i) (context_at contexts i)) [0..<length (wf_executors w)])"

section \<open>The builder\<close>

text \<open>A typed executor: its two C++ message types are represented by their declared names, which a
  type has by construction. A \<^verbatim>\<open>connect\<close> whose \<^verbatim>\<open>static_assert\<close> fails does not compile: \<^const>\<open>None\<close>.\<close>

record typed_executor =
  tx_id :: string
  tx_kind :: executor_kind
  tx_in :: string
  tx_out :: string
  tx_worktree_mode :: sharing_mode
  tx_capability_ceiling :: "capability list"

definition describe :: "typed_executor \<Rightarrow> executor" where
  "describe t = \<lparr>ex_id = tx_id t, ex_kind = tx_kind t, ex_input_type = tx_in t, ex_output_type = tx_out t,
     ex_worktree_mode = tx_worktree_mode t, ex_capability_ceiling = tx_capability_ceiling t, ex_batch = False\<rparr>"

definition unbounded_run :: termination_bound where
  "unbounded_run = \<lparr>tb_max_rounds = None, tb_deadline_ms = None, tb_token_budget = None,
     tb_max_stalls = None, tb_max_resets = None\<rparr>"

definition new_builder :: "string \<Rightarrow> workflow" where
  "new_builder i = \<lparr>wf_id = i, wf_description = [], wf_version = None, wf_executors = [], wf_edges = [],
     wf_start = [], wf_output_selection = [], wf_bound = unbounded_run\<rparr>"

definition builder_add :: "typed_executor \<Rightarrow> workflow \<Rightarrow> workflow" where
  "builder_add t b = b\<lparr>wf_executors := wf_executors b @ [describe t]\<rparr>"

definition push_edge ::
  "typed_executor \<Rightarrow> typed_executor \<Rightarrow> edge_kind \<Rightarrow> string \<Rightarrow> failure_policy \<Rightarrow> workflow \<Rightarrow> workflow" where
  "push_edge src dst k label pol b =
     b\<lparr>wf_edges := wf_edges b @ [\<lparr>ed_from = tx_id src, ed_to = tx_id dst, ed_kind = k,
                                   ed_case_label = label, ed_on_failure = pol\<rparr>]\<rparr>"

definition builder_connect ::
  "typed_executor \<Rightarrow> typed_executor \<Rightarrow> edge_kind \<Rightarrow> string \<Rightarrow> failure_policy \<Rightarrow> workflow \<Rightarrow> workflow option" where
  "builder_connect src dst k label pol b =
     (if tx_out src = tx_in dst then Some (push_edge src dst k label pol b) else None)"

definition connect_case ::
  "typed_executor \<Rightarrow> typed_executor \<Rightarrow> string \<Rightarrow> failure_policy \<Rightarrow> workflow \<Rightarrow> workflow option" where
  "connect_case src dst label pol = builder_connect src dst SwitchCase label pol"

definition connect_default :: "typed_executor \<Rightarrow> typed_executor \<Rightarrow> failure_policy \<Rightarrow> workflow \<Rightarrow> workflow option" where
  "connect_default src dst pol = builder_connect src dst SwitchDefault [] pol"

definition start_at :: "string \<Rightarrow> workflow \<Rightarrow> workflow" where
  "start_at i b = b\<lparr>wf_start := i\<rparr>"

definition select_output :: "string \<Rightarrow> workflow \<Rightarrow> workflow" where
  "select_output i b = b\<lparr>wf_output_selection := wf_output_selection b @ [i]\<rparr>"

definition max_rounds :: "u32 \<Rightarrow> workflow \<Rightarrow> workflow" where
  "max_rounds n b = b\<lparr>wf_bound := (wf_bound b)\<lparr>tb_max_rounds := Some n\<rparr>\<rparr>"

definition deadline_ms :: "u64 \<Rightarrow> workflow \<Rightarrow> workflow" where
  "deadline_ms n b = b\<lparr>wf_bound := (wf_bound b)\<lparr>tb_deadline_ms := Some n\<rparr>\<rparr>"

definition token_budget :: "u64 \<Rightarrow> workflow \<Rightarrow> workflow" where
  "token_budget n b = b\<lparr>wf_bound := (wf_bound b)\<lparr>tb_token_budget := Some n\<rparr>\<rparr>"

definition max_stalls :: "u32 \<Rightarrow> workflow \<Rightarrow> workflow" where
  "max_stalls n b = b\<lparr>wf_bound := (wf_bound b)\<lparr>tb_max_stalls := Some n\<rparr>\<rparr>"

definition max_resets :: "u32 \<Rightarrow> workflow \<Rightarrow> workflow" where
  "max_resets n b = b\<lparr>wf_bound := (wf_bound b)\<lparr>tb_max_resets := Some n\<rparr>\<rparr>"

definition builder_description :: "string \<Rightarrow> workflow \<Rightarrow> workflow" where
  "builder_description d b = b\<lparr>wf_description := d\<rparr>"

definition builder_version :: "string \<Rightarrow> workflow \<Rightarrow> workflow" where
  "builder_version v b = b\<lparr>wf_version := Some v\<rparr>"

definition build :: "workflow \<Rightarrow> workflow result" where
  "build b = (case validate_workflow b of Inl e \<Rightarrow> Inl e | Inr u \<Rightarrow> Inr b)"

section \<open>The checks one by one\<close>

lemma first_failure_ok: "first_failure rs = Inr u \<longleftrightarrow> (\<forall>r\<in>set rs. r = Inr ())"
  by (induction rs rule: first_failure.induct) auto

lemma refuse_if_ok [simp]: "refuse_if c why = Inr u \<longleftrightarrow> \<not> c"
  by (simp add: refuse_if_def)

lemma check_ids_ok:
  "check_ids es = Inr u \<longleftrightarrow> distinct (map ex_id es) \<and> (\<forall>e\<in>set es. ex_id e \<noteq> [] \<and> CHR ''/'' \<notin> set (ex_id e))"
  by (induction es) (auto simp: first_failure_ok)

lemma check_defaults_ok:
  "check_defaults all_edges es = Inr u \<longleftrightarrow>
     (\<forall>n. length (filter (\<lambda>e. ed_from e = n \<and> ed_kind e = SwitchDefault) es) \<le> 1) \<and>
     (\<forall>e\<in>set es. ed_kind e = SwitchDefault \<longrightarrow> (\<exists>f\<in>set all_edges. is_case_of e f))"
proof (induction es)
  case (Cons e es)
  have "\<not> list_ex (is_default_of e) es
      \<longleftrightarrow> length (filter (\<lambda>f. ed_from f = ed_from e \<and> ed_kind f = SwitchDefault) es) = 0"
    by (auto simp: list_ex_iff is_default_of_def filter_empty_conv)
  then show ?case
    using Cons by (auto simp: first_failure_ok list_ex_iff)
qed simp

lemma same_policy_sym: "same_policy e f \<Longrightarrow> same_policy f e"
  by (simp add: same_policy_def)

lemma check_conflicts_ok:
  "check_conflicts es = Inr u \<longleftrightarrow> (\<forall>e\<in>set es. \<forall>f\<in>set es. ed_from e = ed_from f \<longrightarrow> same_policy e f)"
proof (induction es)
  case (Cons e es)
  have "same_policy e e" by (simp add: same_policy_def)
  with Cons show ?case by (auto simp: first_failure_ok list_ex_iff dest: same_policy_sym)
qed simp

section \<open>Reachability\<close>

text \<open>One step of control, successful or recovering.\<close>

definition links :: "edge list \<Rightarrow> (string \<times> string) set" where
  "links es = {(a, b). \<exists>e\<in>set es. ed_from e = a \<and>
     (b = ed_to e \<or> fp_kind (ed_on_failure e) = OnFallback \<and> b = fp_fallback (ed_on_failure e))}"

lemma set_visit [simp]: "set (visit t r) = insert t (set r)"
  by (auto simp: visit_def)

lemma set_visit_edges: "set (fold (visit_edge c) es r) = set r \<union> links es `` {c}"
proof (induction es arbitrary: r)
  case (Cons e es)
  have "set (visit_edge c e r) = set r \<union> links [e] `` {c}"
    by (auto simp: visit_edge_def Let_def links_def)
  with Cons show ?case by (auto simp: links_def)
qed (simp add: links_def)

lemma visit_edges_extend: "\<exists>t. fold (visit_edge c) es r = r @ t"
proof (induction es arbitrary: r)
  case (Cons e es)
  have "\<exists>t. visit_edge c e r = r @ t" by (simp add: visit_edge_def visit_def Let_def)
  with Cons show ?case by (metis append_assoc fold_simps(2))
qed simp

lemma reach_loop_sound: "set (reach_loop es r i) \<subseteq> (links es)\<^sup>* `` set r"
proof (induction es r i rule: reach_loop.induct)
  case (1 es r i)
  show ?case
  proof (cases "i < length r")
    case True
    then have "set (fold (visit_edge (r ! i)) es r) \<subseteq> (links es)\<^sup>* `` set r"
      by (auto simp: set_visit_edges)
    then have "(links es)\<^sup>* `` set (fold (visit_edge (r ! i)) es r) \<subseteq> (links es)\<^sup>* `` set r"
      by (metis (no_types, lifting) Image_mono relcomp_Image rtrancl_idemp_self_comp subset_refl)
    with 1 True show ?thesis by (simp add: reach_loop.simps [of es r i])
  qed (auto simp: reach_loop.simps [of es r i])
qed

lemma reach_loop_closed:
  assumes "\<forall>j<i. links es `` {r ! j} \<subseteq> set r" and "i \<le> length r"
  shows "set r \<subseteq> set (reach_loop es r i) \<and> links es `` set (reach_loop es r i) \<subseteq> set (reach_loop es r i)"
  using assms
proof (induction es r i rule: reach_loop.induct)
  case (1 es r i)
  show ?case
  proof (cases "i < length r")
    case True
    let ?r = "fold (visit_edge (r ! i)) es r"
    obtain t where t: "?r = r @ t" using visit_edges_extend by blast
    have "links es `` {?r ! j} \<subseteq> set ?r" if "j < i + 1" for j
    proof (cases "j = i")
      case True
      then have "?r ! j = r ! i" using \<open>i < length r\<close> by (simp add: t nth_append)
      then show ?thesis using set_visit_edges [of "r ! i" es r] by auto
    next
      case False
      then have "?r ! j = r ! j" and "links es `` {r ! j} \<subseteq> set r"
        using that True "1.prems"(1) by (simp_all add: t nth_append)
      then show ?thesis by (auto simp: t)
    qed
    then have "set ?r \<subseteq> set (reach_loop es ?r (i + 1)) \<and>
        links es `` set (reach_loop es ?r (i + 1)) \<subseteq> set (reach_loop es ?r (i + 1))"
      using "1.IH" [OF True] True t by simp
    then show ?thesis using True by (auto simp: reach_loop.simps [of es r i] t)
  next
    case False
    have "links es `` {x} \<subseteq> set r" if "x \<in> set r" for x
      using that False "1.prems" by (auto simp: in_set_conv_nth)
    with False show ?thesis by (auto simp: reach_loop.simps [of es r i])
  qed
qed

lemma reach_loop_exact: "set (reach_loop es [s] 0) = (links es)\<^sup>* `` {s}"
proof
  show "set (reach_loop es [s] 0) \<subseteq> (links es)\<^sup>* `` {s}" using reach_loop_sound [of es "[s]" 0] by simp
  let ?R = "set (reach_loop es [s] 0)"
  have c: "s \<in> ?R" "links es `` ?R \<subseteq> ?R" using reach_loop_closed [of 0 es "[s]"] by simp_all
  have "x \<in> ?R" if "(s, x) \<in> (links es)\<^sup>*" for x
    using that by induction (use c in auto)
  then show "(links es)\<^sup>* `` {s} \<subseteq> ?R" by auto
qed

section \<open>Properties\<close>

text \<open>What a workflow has to be, without an algorithm. A name is declared when an executor carries it.\<close>

definition declared :: "workflow \<Rightarrow> string \<Rightarrow> executor \<Rightarrow> bool" where
  "declared w i x \<longleftrightarrow> x \<in> set (wf_executors w) \<and> ex_id x = i"

definition executor_ok :: "executor \<Rightarrow> bool" where
  "executor_ok x \<longleftrightarrow> ex_id x \<noteq> [] \<and> CHR ''/'' \<notin> set (ex_id x) \<and> ex_input_type x \<noteq> [] \<and> ex_output_type x \<noteq> []
     \<and> (ex_batch x \<longrightarrow> ex_kind x = FunctionExec)"

text \<open>A branch from one executor to another joins equal message types.\<close>

definition typed_branch :: "workflow \<Rightarrow> string \<Rightarrow> string \<Rightarrow> bool" where
  "typed_branch w a b \<longleftrightarrow> (\<exists>x y. declared w a x \<and> declared w b y \<and> ex_output_type x = ex_input_type y)"

definition edge_ok :: "workflow \<Rightarrow> edge \<Rightarrow> bool" where
  "edge_ok w e \<longleftrightarrow> typed_branch w (ed_from e) (ed_to e) \<and> (labelled e \<longleftrightarrow> ed_case_label e \<noteq> []) \<and>
     (fp_kind (ed_on_failure e) = OnRetry \<longleftrightarrow> fp_attempts (ed_on_failure e) \<noteq> 0) \<and>
     (fp_kind (ed_on_failure e) = OnFallback \<longleftrightarrow> fp_fallback (ed_on_failure e) \<noteq> []) \<and>
     (fp_kind (ed_on_failure e) = OnFallback \<longrightarrow> typed_branch w (ed_from e) (fp_fallback (ed_on_failure e)))"

definition defaults_ok :: "edge list \<Rightarrow> bool" where
  "defaults_ok es \<longleftrightarrow> (\<forall>n. length (filter (\<lambda>e. ed_from e = n \<and> ed_kind e = SwitchDefault) es) \<le> 1) \<and>
     (\<forall>e\<in>set es. ed_kind e = SwitchDefault \<longrightarrow> (\<exists>f\<in>set es. is_case_of e f))"

definition policies_agree :: "edge list \<Rightarrow> bool" where
  "policies_agree es \<longleftrightarrow> (\<forall>e\<in>set es. \<forall>f\<in>set es. ed_from e = ed_from f \<longrightarrow> same_policy e f)"

definition well_formed :: "workflow \<Rightarrow> bool" where
  "well_formed w \<longleftrightarrow>
     wf_id w \<noteq> [] \<and> distinct (map ex_id (wf_executors w)) \<and> (\<forall>x\<in>set (wf_executors w). executor_ok x) \<and>
     (\<forall>i\<in>set (wf_start w # wf_output_selection w). \<exists>x. declared w i x) \<and>
     (\<forall>e\<in>set (wf_edges w). edge_ok w e) \<and> defaults_ok (wf_edges w) \<and> policies_agree (wf_edges w) \<and>
     bound_any (wf_bound w) \<and> tb_max_rounds (wf_bound w) \<noteq> Some 0 \<and>
     (\<forall>x\<in>set (wf_executors w). (wf_start w, ex_id x) \<in> (links (wf_edges w))\<^sup>*)"

lemma wf_find_declared:
  assumes "distinct (map ex_id (wf_executors w))"
  shows "wf_find w i = Some x \<longleftrightarrow> declared w i x"
proof
  show "wf_find w i = Some x \<Longrightarrow> declared w i x"
    by (auto simp: wf_find_def declared_def find_Some_iff)
  assume d: "declared w i x"
  then obtain y where y: "wf_find w i = Some y"
    by (cases "wf_find w i") (auto simp: wf_find_def declared_def find_None_iff)
  then have "y \<in> set (wf_executors w)" "ex_id y = i" by (auto simp: wf_find_def find_Some_iff)
  with d assms have "y = x" by (auto simp: declared_def distinct_map dest: inj_onD)
  with y show "wf_find w i = Some x" by simp
qed

lemma wf_find_None: "wf_find w i = None \<longleftrightarrow> (\<nexists>x. declared w i x)"
  by (auto simp: wf_find_def declared_def find_None_iff)

lemma typed_branch_find:
  assumes "distinct (map ex_id (wf_executors w))" and "declared w a src"
  shows "typed_branch w a b \<longleftrightarrow> (\<exists>y. wf_find w b = Some y \<and> ex_output_type src = ex_input_type y)"
  using assms(2) by (auto simp: typed_branch_def simp flip: wf_find_declared [OF assms(1)])

lemma check_policy_ok:
  assumes "distinct (map ex_id (wf_executors w))" and "declared w a src"
  shows "check_policy w src pol = Inr u \<longleftrightarrow>
     (fp_kind pol = OnRetry \<longleftrightarrow> fp_attempts pol \<noteq> 0) \<and> (fp_kind pol = OnFallback \<longleftrightarrow> fp_fallback pol \<noteq> []) \<and>
     (fp_kind pol = OnFallback \<longrightarrow> typed_branch w a (fp_fallback pol))"
  using typed_branch_find [OF assms]
  by (auto simp: check_policy_def Let_def first_failure_ok split: option.splits)

lemma check_edge_ok:
  assumes "distinct (map ex_id (wf_executors w))"
  shows "check_edge w e = Inr u \<longleftrightarrow> edge_ok w e"
proof (cases "wf_find w (ed_from e)")
  case None
  then have "\<not> edge_ok w e" by (simp add: edge_ok_def typed_branch_def wf_find_None)
  with None show ?thesis by (simp add: check_edge_def)
next
  case (Some src)
  then have d: "declared w (ed_from e) src" using wf_find_declared [OF assms] by simp
  show ?thesis
    using Some by (auto simp: check_edge_def edge_ok_def first_failure_ok typed_branch_find [OF assms d] check_policy_ok [OF assms d] split: option.splits)
qed

lemma check_reachable_ok:
  "check_reachable w = Inr u \<longleftrightarrow> (\<forall>x\<in>set (wf_executors w). (wf_start w, ex_id x) \<in> (links (wf_edges w))\<^sup>*)"
  by (auto simp: check_reachable_def Let_def list_ex_iff reach_loop_exact)

lemma validate_iff: "validate_workflow w = Inr () \<longleftrightarrow> well_formed w"
proof -
  have "(check_ids (wf_executors w) = Inr () \<and> (\<forall>x\<in>set (wf_executors w). check_ports x = Inr () \<and> check_batch x = Inr ()))
     \<longleftrightarrow> distinct (map ex_id (wf_executors w)) \<and> (\<forall>x\<in>set (wf_executors w). executor_ok x)"
    by (auto simp: check_ids_ok check_ports_def check_batch_def executor_ok_def)
  moreover have "wf_start w \<noteq> [] \<and> wf_executors w \<noteq> []"
    if "\<forall>x\<in>set (wf_executors w). executor_ok x" "declared w (wf_start w) x" for x
    using that by (auto simp: declared_def executor_ok_def)
  ultimately show ?thesis
    unfolding validate_workflow_def well_formed_def first_failure_ok
    by (auto simp: first_failure_ok wf_find_None check_edge_ok check_defaults_ok check_conflicts_ok
        defaults_ok_def policies_agree_def check_reachable_ok)
qed

text \<open>C22. The shared validator accepts exactly the well-formed graphs: names declared once and free of
  separators, every edge and every recovery branch joining equal message types, labels and failure
  policies where they belong and only there, at most one default per switch, a bound, and every executor
  reachable from the start along edges and recovery branches.\<close>

theorem validate_workflow_exact: "validate_workflow w = Inr () \<longleftrightarrow> well_formed w"
  by (rule validate_iff)

end
