(* ===== verification/ReviewPoints.thy ===== *)
theory ReviewPoints
  imports WorkflowGraph
begin

text \<open>
  Human review points: \<^verbatim>\<open>include/agentengine/workflow/review_points.hpp\<close>. A review point after a step
  is a request port spliced into the graph behind it. The expansion is proved to keep a graph well
  formed and to let nothing the step produces reach another step without passing its reviewer; the
  pattern builders that use it are modelled with it.
\<close>

section \<open>The expansion\<close>

definition review_port_id :: "string \<Rightarrow> string" where
  "review_port_id step = step @ ''.review''"

record review_point =
  rp_after :: string
  rp_revisable :: bool

definition outgoing :: "edge list \<Rightarrow> string \<Rightarrow> nat list" where
  "outgoing es step = filter (\<lambda>i. ed_from (es ! i) = step) [0..<length es]"

definition routes :: "edge \<Rightarrow> bool" where
  "routes e = (ed_kind e = SwitchCase \<or> ed_kind e = MultiSelection \<or> ed_kind e = SwitchDefault)"

definition step_policy :: "edge list \<Rightarrow> nat list \<Rightarrow> failure_policy" where
  "step_policy es out = (case out of [] \<Rightarrow> default_policy | i # is \<Rightarrow> ed_on_failure (es ! i))"

definition one_forward :: "edge list \<Rightarrow> nat list \<Rightarrow> bool" where
  "one_forward es out =
     (case out of [i] \<Rightarrow> ed_kind (es ! i) = Direct \<or> ed_kind (es ! i) = Chain | _ \<Rightarrow> False)"

definition check_review :: "edge list \<Rightarrow> nat list \<Rightarrow> executor \<Rightarrow> review_point \<Rightarrow> unit result" where
  "check_review es out step point = first_failure
     [first_failure (map (\<lambda>i. refuse_if (routes (es ! i)) ''workflow.review_after_routing_source'') out),
      if fp_kind (step_policy es out) = OnFallback
      then first_failure (map (\<lambda>i. refuse_if (fp_fallback (ed_on_failure (es ! i)) \<noteq> fp_fallback (step_policy es out))
             ''workflow.review_ambiguous_fallback'') out)
      else Inr (),
      if rp_revisable point
      then first_failure
        [refuse_if (ex_input_type step \<noteq> ex_output_type step) ''workflow.review_revision_type_mismatch'',
         refuse_if (\<not> one_forward es out) ''workflow.review_revision_needs_single_successor'']
      else Inr ()]"

definition review_port :: "executor \<Rightarrow> executor" where
  "review_port step = \<lparr>ex_id = review_port_id (ex_id step), ex_kind = RequestPort,
     ex_input_type = ex_output_type step, ex_output_type = ex_output_type step,
     ex_worktree_mode = BranchMode, ex_capability_ceiling = [], ex_batch = False\<rparr>"

definition insert_at :: "nat \<Rightarrow> 'a \<Rightarrow> 'a list \<Rightarrow> 'a list" where
  "insert_at n x xs = take n xs @ x # drop n xs"

definition leave_port :: "review_point \<Rightarrow> edge \<Rightarrow> edge" where
  "leave_port point e =
     (if ed_from e = rp_after point
      then e\<lparr>ed_from := review_port_id (rp_after point), ed_on_failure := default_policy,
             ed_kind := (if rp_revisable point then SwitchDefault else ed_kind e)\<rparr>
      else e)"

definition to_port :: "review_point \<Rightarrow> failure_policy \<Rightarrow> edge" where
  "to_port point pol = \<lparr>ed_from = rp_after point, ed_to = review_port_id (rp_after point), ed_kind = Direct,
     ed_case_label = [], ed_on_failure = pol\<rparr>"

definition revise_edge :: "review_point \<Rightarrow> edge" where
  "revise_edge point = \<lparr>ed_from = review_port_id (rp_after point), ed_to = rp_after point, ed_kind = SwitchCase,
     ed_case_label = ''revise'', ed_on_failure = default_policy\<rparr>"

definition splice_edges :: "review_point \<Rightarrow> edge list \<Rightarrow> edge list" where
  "splice_edges point es =
     (let out = outgoing es (rp_after point);
          at = (case out of [] \<Rightarrow> length es | i # is \<Rightarrow> i);
          spliced = insert_at at (to_port point (step_policy es out)) (map (leave_port point) es)
      in if rp_revisable point then insert_at (at + 2) (revise_edge point) spliced else spliced)"

definition splice_point :: "review_point \<Rightarrow> executor \<Rightarrow> workflow \<Rightarrow> workflow" where
  "splice_point point step w = w\<lparr>wf_executors := wf_executors w @ [review_port step],
     wf_edges := splice_edges point (wf_edges w),
     wf_output_selection :=
       map (\<lambda>s. if s = rp_after point then review_port_id (rp_after point) else s) (wf_output_selection w)\<rparr>"

definition insert_review_point :: "workflow \<Rightarrow> review_point \<Rightarrow> workflow result" where
  "insert_review_point w point =
     (case wf_find w (rp_after point) of
        None \<Rightarrow> Inl (Error Contract ''workflow.review_unknown_step'')
      | Some step \<Rightarrow>
          if ex_kind step = RequestPort then Inl (Error Contract ''workflow.review_after_request_port'')
          else if wf_find w (review_port_id (rp_after point)) \<noteq> None
          then Inl (Error Contract ''workflow.review_port_id_taken'')
          else case check_review (wf_edges w) (outgoing (wf_edges w) (rp_after point)) step point of
                 Inl e \<Rightarrow> Inl e
               | Inr u \<Rightarrow> Inr (splice_point point step w))"

fun insert_review_points :: "workflow \<Rightarrow> review_point list \<Rightarrow> workflow result" where
  "insert_review_points w [] = Inr w"
| "insert_review_points w (p # ps) =
     (case insert_review_point w p of Inl e \<Rightarrow> Inl e | Inr w' \<Rightarrow> insert_review_points w' ps)"

section \<open>The pattern builders\<close>

record request_info_options =
  ri_only :: "string list"
  ri_allow_revision :: bool

definition select_points :: "string list \<Rightarrow> request_info_options \<Rightarrow> bool \<Rightarrow> review_point list result" where
  "select_points participants opts revisable_except_last =
     (case first_failure (map (\<lambda>i. refuse_if (i \<notin> set participants) ''workflow.review_unknown_step'') (ri_only opts)) of
        Inl e \<Rightarrow> Inl e
      | Inr u \<Rightarrow> Inr (map (\<lambda>i. \<lparr>rp_after = participants ! i,
                               rp_revisable = (revisable_except_last \<and> i + 1 \<noteq> length participants)\<rparr>)
           (filter (\<lambda>i. ri_only opts = [] \<or> participants ! i \<in> set (ri_only opts)) [0..<length participants])))"

definition finish :: "workflow \<Rightarrow> review_point list \<Rightarrow> workflow result" where
  "finish w points =
     (case insert_review_points w points of
        Inl e \<Rightarrow> Inl e
      | Inr expanded \<Rightarrow>
          (case validate_workflow expanded of Inl e \<Rightarrow> Inl e | Inr u \<Rightarrow> Inr expanded))"

definition review_selection :: "string list \<Rightarrow> request_info_options option \<Rightarrow> bool \<Rightarrow> review_point list result" where
  "review_selection ids info revise =
     (case info of None \<Rightarrow> Inr [] | Some opts \<Rightarrow> select_points ids opts revise)"

text \<open>\<^verbatim>\<open>SequentialWorkflowBuilder\<close>: one message type end to end, so \<^verbatim>\<open>connect\<close> always compiles.\<close>

record sequential_builder =
  sq_inner :: workflow
  sq_steps :: "typed_executor list"
  sq_request_info :: "request_info_options option"

definition sequential_participant :: "typed_executor \<Rightarrow> sequential_builder \<Rightarrow> sequential_builder" where
  "sequential_participant step b = b\<lparr>sq_steps := sq_steps b @ [step]\<rparr>"

definition sequential_request_info :: "request_info_options \<Rightarrow> sequential_builder \<Rightarrow> sequential_builder" where
  "sequential_request_info opts b = b\<lparr>sq_request_info := Some opts\<rparr>"

fun chain_steps :: "typed_executor list \<Rightarrow> workflow \<Rightarrow> workflow" where
  "chain_steps (s # t # ts) w = chain_steps (t # ts) (push_edge s t Chain [] default_policy w)"
| "chain_steps ts w = w"

definition sequential_graph :: "sequential_builder \<Rightarrow> workflow" where
  "sequential_graph b =
     select_output (tx_id (last (sq_steps b))) (start_at (tx_id (hd (sq_steps b)))
       (chain_steps (sq_steps b) (fold builder_add (sq_steps b) (sq_inner b))))"

definition sequential_build :: "sequential_builder \<Rightarrow> workflow result" where
  "sequential_build b =
     (if sq_steps b = [] then Inl (Error Contract ''workflow.no_executors'')
      else case review_selection (map tx_id (sq_steps b)) (sq_request_info b)
                  (case sq_request_info b of None \<Rightarrow> False | Some opts \<Rightarrow> ri_allow_revision opts) of
             Inl e \<Rightarrow> Inl e
           | Inr points \<Rightarrow> finish (sequential_graph b) points)"

text \<open>\<^verbatim>\<open>ConcurrentWorkflowBuilder\<close>.\<close>

record concurrent_builder =
  cc_inner :: workflow
  cc_dispatcher :: "typed_executor option"
  cc_participants :: "typed_executor list"
  cc_aggregator :: "typed_executor option"
  cc_request_info :: "request_info_options option"

definition concurrent_dispatcher :: "typed_executor \<Rightarrow> concurrent_builder \<Rightarrow> concurrent_builder" where
  "concurrent_dispatcher d b = b\<lparr>cc_dispatcher := Some d\<rparr>"

definition concurrent_participant :: "typed_executor \<Rightarrow> concurrent_builder \<Rightarrow> concurrent_builder" where
  "concurrent_participant p b = b\<lparr>cc_participants := cc_participants b @ [p]\<rparr>"

definition concurrent_aggregator :: "typed_executor \<Rightarrow> concurrent_builder \<Rightarrow> concurrent_builder" where
  "concurrent_aggregator a b = b\<lparr>cc_aggregator := Some a\<rparr>"

definition concurrent_request_info :: "string list \<Rightarrow> concurrent_builder \<Rightarrow> concurrent_builder" where
  "concurrent_request_info only b =
     b\<lparr>cc_request_info := Some \<lparr>ri_only = only, ri_allow_revision = False\<rparr>\<rparr>"

definition concurrent_graph ::
  "workflow \<Rightarrow> typed_executor \<Rightarrow> typed_executor list \<Rightarrow> typed_executor \<Rightarrow> workflow" where
  "concurrent_graph inner d ps a =
     (let w = builder_add a (fold builder_add ps (builder_add d inner));
          w = fold (\<lambda>p. push_edge d p FanOut [] default_policy) ps w;
          w = fold (\<lambda>p. push_edge p a FanIn [] default_policy) ps w
      in select_output (tx_id a) (start_at (tx_id d) w))"

definition concurrent_build :: "concurrent_builder \<Rightarrow> workflow result" where
  "concurrent_build b =
     (case (cc_dispatcher b, cc_aggregator b, cc_participants b) of
        (Some d, Some a, p # ps) \<Rightarrow>
          (case review_selection (map tx_id (p # ps)) (cc_request_info b) False of
             Inl e \<Rightarrow> Inl e
           | Inr points \<Rightarrow> finish (concurrent_graph (cc_inner b) d (p # ps) a) points)
      | _ \<Rightarrow> Inl (Error Contract ''workflow.no_executors''))"

section \<open>One review point\<close>

definition out_edges :: "edge list \<Rightarrow> string \<Rightarrow> edge list" where
  "out_edges es step = filter (\<lambda>e. ed_from e = step) es"

lemma outgoing_edges: "map ((!) es) (outgoing es step) = out_edges es step"
proof -
  have "map ((!) es) (outgoing es step) = filter (\<lambda>e. ed_from e = step) (map ((!) es) [0..<length es])"
    by (simp add: outgoing_def filter_map comp_def)
  then show ?thesis by (simp add: out_edges_def map_nth)
qed

definition out_policy :: "edge list \<Rightarrow> failure_policy" where
  "out_policy outs = (case outs of [] \<Rightarrow> default_policy | e # es \<Rightarrow> ed_on_failure e)"

lemma step_policy_out: "step_policy es (outgoing es step) = out_policy (out_edges es step)"
  unfolding outgoing_edges [symmetric] by (simp add: step_policy_def out_policy_def split: list.splits)

text \<open>What an accepted review point knows about the step it follows.\<close>

definition reviewable :: "edge list \<Rightarrow> executor \<Rightarrow> review_point \<Rightarrow> bool" where
  "reviewable outs step point \<longleftrightarrow>
     (\<forall>e\<in>set outs. \<not> routes e) \<and>
     (fp_kind (out_policy outs) = OnFallback \<longrightarrow>
        (\<forall>e\<in>set outs. fp_fallback (ed_on_failure e) = fp_fallback (out_policy outs))) \<and>
     (rp_revisable point \<longrightarrow> ex_input_type step = ex_output_type step \<and> length outs = 1)"

lemma check_review_ok:
  assumes "check_review es (outgoing es s) step point = Inr u"
  shows "reviewable (out_edges es s) step point"
proof -
  have set: "set (out_edges es s) = (\<lambda>i. es ! i) ` set (outgoing es s)"
    unfolding outgoing_edges [symmetric] by simp
  have "one_forward es (outgoing es s) \<Longrightarrow> length (out_edges es s) = 1"
    unfolding outgoing_edges [symmetric] by (auto simp: one_forward_def split: list.splits)
  with assms show ?thesis
    by (auto simp: check_review_def reviewable_def first_failure_ok set step_policy_out split: if_splits)
qed

lemma set_insert_at [simp]: "set (insert_at n x xs) = insert x (set xs)"
proof -
  have "set xs = set (take n xs) \<union> set (drop n xs)" by (metis append_take_drop_id set_append)
  then show ?thesis by (auto simp: insert_at_def)
qed

lemma length_filter_insert_at:
  "length (filter P (insert_at n x xs)) = length (filter P xs) + (if P x then 1 else 0)"
proof -
  have "filter P xs = filter P (take n xs) @ filter P (drop n xs)" by (metis append_take_drop_id filter_append)
  then show ?thesis by (simp add: insert_at_def)
qed

lemma set_splice_edges:
  "set (splice_edges point es) = insert (to_port point (out_policy (out_edges es (rp_after point))))
     (leave_port point ` set es \<union> (if rp_revisable point then {revise_edge point} else {}))"
  by (auto simp: splice_edges_def Let_def step_policy_out)

lemma review_port_id_neq [simp]: "review_port_id s \<noteq> s" "s \<noteq> review_port_id s"
  by (simp_all add: review_port_id_def)

text \<open>The facts every preservation lemma starts from.\<close>

definition accepted :: "workflow \<Rightarrow> review_point \<Rightarrow> executor \<Rightarrow> bool" where
  "accepted w point step \<longleftrightarrow>
     well_formed w \<and> declared w (rp_after point) step \<and>
     (\<nexists>x. declared w (review_port_id (rp_after point)) x) \<and>
     reviewable (out_edges (wf_edges w) (rp_after point)) step point"

lemma acceptedD:
  assumes "accepted w point step"
  shows "well_formed w" "declared w (rp_after point) step" "\<not> declared w (review_port_id (rp_after point)) x"
    "reviewable (out_edges (wf_edges w) (rp_after point)) step point"
    "ex_id step = rp_after point"
    "e \<in> set (wf_edges w) \<Longrightarrow> edge_ok w e"
  using assms by (auto simp: accepted_def well_formed_def declared_def)

lemma out_edges_iff: "e \<in> set (out_edges es s) \<longleftrightarrow> e \<in> set es \<and> ed_from e = s"
  by (auto simp: out_edges_def)

lemma not_from_port:
  assumes "accepted w point step" and "e \<in> set (wf_edges w)"
  shows "ed_from e \<noteq> review_port_id (rp_after point)"
  using acceptedD(3,6) [OF assms(1)] assms(2) by (force simp: edge_ok_def typed_branch_def)

lemma splice_declared: "declared w i x \<Longrightarrow> declared (splice_point point step w) i x"
  by (simp add: declared_def splice_point_def)

lemma splice_typed: "typed_branch w a b \<Longrightarrow> typed_branch (splice_point point step w) a b"
  unfolding typed_branch_def using splice_declared by metis

lemma port_declared:
  assumes "accepted w point step"
  shows "declared (splice_point point step w) (review_port_id (rp_after point)) (review_port step)"
  using acceptedD(5) [OF assms] by (simp add: declared_def splice_point_def review_port_def)

lemma typed_from_port:
  assumes "accepted w point step" and "typed_branch w (rp_after point) b"
  shows "typed_branch (splice_point point step w) (review_port_id (rp_after point)) b"
proof -
  have d: "distinct (map ex_id (wf_executors w))" using acceptedD(1) [OF assms(1)] by (simp add: well_formed_def)
  obtain y where "wf_find w b = Some y" "ex_output_type step = ex_input_type y"
    using typed_branch_find [OF d acceptedD(2) [OF assms(1)]] assms(2) by blast
  then have "declared (splice_point point step w) b y" "ex_output_type (review_port step) = ex_input_type y"
    using wf_find_declared [OF d] splice_declared by (auto simp: review_port_def)
  with port_declared [OF assms(1)] show ?thesis by (auto simp: typed_branch_def)
qed

lemma typed_at_port:
  assumes "accepted w point step"
  shows "typed_branch (splice_point point step w) (rp_after point) (review_port_id (rp_after point))"
    "ex_input_type step = ex_output_type step \<Longrightarrow>
       typed_branch (splice_point point step w) (review_port_id (rp_after point)) (rp_after point)"
  using port_declared [OF assms] splice_declared [OF acceptedD(2) [OF assms]]
  by (force simp: typed_branch_def review_port_def)+

lemma executors_kept:
  assumes "accepted w point step"
  shows "distinct (map ex_id (wf_executors (splice_point point step w))) \<and>
    (\<forall>x\<in>set (wf_executors (splice_point point step w)). executor_ok x)"
proof -
  have "executor_ok step" using acceptedD(1,2) [OF assms] by (auto simp: well_formed_def declared_def)
  then have "executor_ok (review_port step)"
    by (simp add: executor_ok_def review_port_def review_port_id_def)
  moreover have "review_port_id (rp_after point) \<notin> ex_id ` set (wf_executors w)"
    using acceptedD(3) [OF assms] by (force simp: declared_def)
  ultimately show ?thesis
    using acceptedD(1,5) [OF assms] by (auto simp: well_formed_def splice_point_def review_port_def)
qed

text \<open>The edges of the spliced graph: the one to the port, those that leave it, and the others.\<close>

lemma splice_edge_cases:
  assumes "accepted w point step" and "e \<in> set (wf_edges (splice_point point step w))"
  obtains (to_port) "e = to_port point (out_policy (out_edges (wf_edges w) (rp_after point)))"
  | (moved) f where "f \<in> set (wf_edges w)" "ed_from f = rp_after point" "e = leave_port point f"
  | (revise) "rp_revisable point" "e = revise_edge point"
  | (old) "e \<in> set (wf_edges w)" "ed_from e \<noteq> rp_after point" "ed_from e \<noteq> review_port_id (rp_after point)"
proof -
  have "e = to_port point (out_policy (out_edges (wf_edges w) (rp_after point)))
      \<or> e \<in> leave_port point ` set (wf_edges w) \<or> rp_revisable point \<and> e = revise_edge point"
    using assms(2) by (auto simp: splice_point_def set_splice_edges split: if_splits)
  moreover have thesis if "f \<in> set (wf_edges w)" "e = leave_port point f" for f
    using that moved [of f] old not_from_port [OF assms(1)] by (cases "ed_from f = rp_after point") (auto simp: leave_port_def)
  ultimately show thesis using to_port revise by blast
qed

lemma out_policy_cases:
  obtains "out_policy outs = default_policy" | e where "e \<in> set outs" "out_policy outs = ed_on_failure e"
  by (cases outs) (auto simp: out_policy_def)

lemma edges_kept:
  assumes acc: "accepted w point step" and "e \<in> set (wf_edges (splice_point point step w))"
  shows "edge_ok (splice_point point step w) e"
  using assms
proof (cases rule: splice_edge_cases)
  case to_port
  let ?p = "out_policy (out_edges (wf_edges w) (rp_after point))"
  have "(fp_kind ?p = OnRetry \<longleftrightarrow> fp_attempts ?p \<noteq> 0) \<and> (fp_kind ?p = OnFallback \<longleftrightarrow> fp_fallback ?p \<noteq> []) \<and>
      (fp_kind ?p = OnFallback \<longrightarrow> typed_branch w (rp_after point) (fp_fallback ?p))"
  proof (rule out_policy_cases [of "out_edges (wf_edges w) (rp_after point)"])
    fix e assume e: "e \<in> set (out_edges (wf_edges w) (rp_after point))" and p: "?p = ed_on_failure e"
    then show ?thesis using acceptedD(6) [OF acc, of e] by (simp add: edge_ok_def out_edges_iff)
  qed (simp add: default_policy_def)
  then show ?thesis
    using typed_at_port(1) [OF acc] splice_typed
    by (auto simp: to_port to_port_def edge_ok_def labelled_def)
next
  case (moved f)
  then have "\<not> routes f" using acceptedD(4) [OF acc] by (simp add: reviewable_def out_edges_iff)
  then show ?thesis
    using moved acceptedD(6) [OF acc, of f] typed_from_port [OF acc]
    by (auto simp: leave_port_def edge_ok_def labelled_def routes_def default_policy_def)
next
  case revise
  then show ?thesis
    using typed_at_port(2) [OF acc] acceptedD(4) [OF acc]
    by (simp add: reviewable_def revise_edge_def edge_ok_def labelled_def default_policy_def)
next
  case old
  then show ?thesis using acceptedD(6) [OF acc] splice_typed by (auto simp: edge_ok_def)
qed

lemma port_edge_policy:
  assumes "accepted w point step" and "e \<in> set (wf_edges (splice_point point step w))"
    and "ed_from e = review_port_id (rp_after point)"
  shows "ed_on_failure e = default_policy"
  using assms(1,2)
  by (cases rule: splice_edge_cases) (use assms(3) in \<open>auto simp: to_port_def leave_port_def revise_edge_def\<close>)

lemma step_edge_unique:
  assumes "accepted w point step" and "e \<in> set (wf_edges (splice_point point step w))" and "ed_from e = rp_after point"
  shows "e = to_port point (out_policy (out_edges (wf_edges w) (rp_after point)))"
  using assms(1,2)
  by (cases rule: splice_edge_cases) (use assms(3) in \<open>auto simp: leave_port_def revise_edge_def\<close>)

lemma policies_kept:
  assumes acc: "accepted w point step"
  shows "policies_agree (wf_edges (splice_point point step w))"
  unfolding policies_agree_def
proof (intro ballI impI)
  fix e f assume e: "e \<in> set (wf_edges (splice_point point step w))" and f: "f \<in> set (wf_edges (splice_point point step w))"
    and eq: "ed_from e = ed_from f"
  consider "ed_from e = rp_after point" | "ed_from e = review_port_id (rp_after point)"
    | "ed_from e \<noteq> rp_after point" "ed_from e \<noteq> review_port_id (rp_after point)" by blast
  then show "same_policy e f"
  proof cases
    case 1
    then have "e = f" using step_edge_unique [OF acc] e f eq by metis
    then show ?thesis by (simp add: same_policy_def)
  next
    case 2
    then show ?thesis using port_edge_policy [OF acc] e f eq by (simp add: same_policy_def)
  next
    case 3
    have "e \<in> set (wf_edges w)" using acc e
      by (cases rule: splice_edge_cases) (use 3 in \<open>auto simp: to_port_def leave_port_def revise_edge_def\<close>)
    moreover have "f \<in> set (wf_edges w)" using acc f
      by (cases rule: splice_edge_cases) (use 3 eq in \<open>auto simp: to_port_def leave_port_def revise_edge_def\<close>)
    ultimately show ?thesis using acceptedD(1) [OF acc] eq by (auto simp: well_formed_def policies_agree_def)
  qed
qed

lemma old_edge_kept:
  "e \<in> set (wf_edges w) \<Longrightarrow> ed_from e \<noteq> rp_after point \<Longrightarrow> e \<in> set (wf_edges (splice_point point step w))"
  by (force simp: splice_point_def set_splice_edges leave_port_def)

lemma default_count:
  "length (filter (\<lambda>e. ed_from e = n \<and> ed_kind e = SwitchDefault) (wf_edges (splice_point point step w)))
   = length (filter (\<lambda>e. ed_from (leave_port point e) = n \<and> ed_kind (leave_port point e) = SwitchDefault) (wf_edges w))"
  by (simp add: splice_point_def splice_edges_def Let_def length_filter_insert_at to_port_def revise_edge_def
      filter_map comp_def)

lemma default_count_port:
  assumes "accepted w point step"
  shows "length (filter (\<lambda>e. ed_from (leave_port point e) = review_port_id (rp_after point)
      \<and> ed_kind (leave_port point e) = SwitchDefault) (wf_edges w)) \<le> 1"
proof -
  have "filter (\<lambda>e. ed_from (leave_port point e) = review_port_id (rp_after point)
      \<and> ed_kind (leave_port point e) = SwitchDefault) (wf_edges w)
    = filter (\<lambda>e. ed_from e = rp_after point \<and> rp_revisable point) (wf_edges w)"
    using not_from_port [OF assms] acceptedD(4) [OF assms]
    by (intro filter_cong) (auto simp: leave_port_def reviewable_def out_edges_iff routes_def)
  then show ?thesis
    using acceptedD(4) [OF assms] by (cases "rp_revisable point") (auto simp: reviewable_def out_edges_def)
qed

lemma default_count_other:
  assumes "accepted w point step" and "n \<noteq> review_port_id (rp_after point)"
  shows "length (filter (\<lambda>e. ed_from (leave_port point e) = n \<and> ed_kind (leave_port point e) = SwitchDefault) (wf_edges w)) \<le> 1"
proof -
  have "filter (\<lambda>e. ed_from (leave_port point e) = n \<and> ed_kind (leave_port point e) = SwitchDefault) (wf_edges w)
      = filter (\<lambda>e. (ed_from e = n \<and> ed_kind e = SwitchDefault) \<and> ed_from e \<noteq> rp_after point) (wf_edges w)"
    using assms(2) by (intro filter_cong) (auto simp: leave_port_def)
  also have "\<dots> = filter (\<lambda>e. ed_from e \<noteq> rp_after point)
      (filter (\<lambda>e. ed_from e = n \<and> ed_kind e = SwitchDefault) (wf_edges w))"
    by (simp add: conj_commute)
  finally have "length (filter (\<lambda>e. ed_from (leave_port point e) = n \<and> ed_kind (leave_port point e) = SwitchDefault) (wf_edges w))
      \<le> length (filter (\<lambda>e. ed_from e = n \<and> ed_kind e = SwitchDefault) (wf_edges w))"
    by (simp only: length_filter_le)
  also have "\<dots> \<le> 1" using acceptedD(1) [OF assms(1)] by (simp add: well_formed_def defaults_ok_def)
  finally show ?thesis .
qed

lemma defaults_kept:
  assumes acc: "accepted w point step"
  shows "defaults_ok (wf_edges (splice_point point step w))"
proof -
  have "length (filter (\<lambda>e. ed_from e = n \<and> ed_kind e = SwitchDefault) (wf_edges (splice_point point step w))) \<le> 1" for n
    unfolding default_count
    using default_count_port [OF acc] default_count_other [OF acc] by (cases "n = review_port_id (rp_after point)") auto
  moreover have "\<exists>f\<in>set (wf_edges (splice_point point step w)). is_case_of e f"
    if e: "e \<in> set (wf_edges (splice_point point step w))" and k: "ed_kind e = SwitchDefault" for e
    using acc e
  proof (cases rule: splice_edge_cases)
    case (moved f)
    then have "rp_revisable point"
      using k acceptedD(4) [OF acc] by (auto simp: leave_port_def reviewable_def out_edges_iff routes_def split: if_splits)
    then have "revise_edge point \<in> set (wf_edges (splice_point point step w))" by (simp add: splice_point_def set_splice_edges)
    then show ?thesis using moved by (force simp: is_case_of_def revise_edge_def leave_port_def)
  next
    case old
    then obtain f where "f \<in> set (wf_edges w)" "is_case_of e f"
      using acceptedD(1) [OF acc] k by (auto simp: well_formed_def defaults_ok_def)
    then show ?thesis using old old_edge_kept [of f w point step] by (auto simp: is_case_of_def)
  qed (use k in \<open>auto simp: to_port_def revise_edge_def\<close>)
  ultimately show ?thesis by (simp add: defaults_ok_def)
qed

lemma to_port_in: "to_port point (out_policy (out_edges (wf_edges w) (rp_after point))) \<in> set (wf_edges (splice_point point step w))"
  by (simp add: splice_point_def set_splice_edges)

lemma port_link: "(rp_after point, review_port_id (rp_after point)) \<in> links (wf_edges (splice_point point step w))"
  using to_port_in [of point w step] by (force simp: links_def to_port_def)

lemma step_fallback_policy:
  assumes acc: "accepted w point step" and "e \<in> set (wf_edges w)" and "ed_from e = rp_after point"
    and "fp_kind (ed_on_failure e) = OnFallback"
  shows "fp_kind (out_policy (out_edges (wf_edges w) (rp_after point))) = OnFallback \<and>
    fp_fallback (out_policy (out_edges (wf_edges w) (rp_after point))) = fp_fallback (ed_on_failure e)"
proof -
  have e: "e \<in> set (out_edges (wf_edges w) (rp_after point))" using assms(2,3) by (simp add: out_edges_iff)
  then obtain f fs where f: "out_edges (wf_edges w) (rp_after point) = f # fs"
    by (cases "out_edges (wf_edges w) (rp_after point)") auto
  then have "f \<in> set (wf_edges w)" "ed_from f = rp_after point"
    using out_edges_iff [of f "wf_edges w" "rp_after point"] by auto
  then have "same_policy f e"
    using acceptedD(1) [OF acc] assms(2,3) by (auto simp: well_formed_def policies_agree_def)
  then have "fp_kind (out_policy (out_edges (wf_edges w) (rp_after point))) = OnFallback"
    using assms(4) by (simp add: f out_policy_def same_policy_def)
  then show ?thesis using acceptedD(4) [OF acc] e by (auto simp: reviewable_def)
qed

lemma links_kept:
  assumes acc: "accepted w point step"
  shows "links (wf_edges w) \<subseteq> (links (wf_edges (splice_point point step w)))\<^sup>*"
proof (rule subrelI)
  let ?l = "links (wf_edges (splice_point point step w))"
  fix a b assume "(a, b) \<in> links (wf_edges w)"
  then obtain e where e: "e \<in> set (wf_edges w)" "ed_from e = a"
    and b: "b = ed_to e \<or> fp_kind (ed_on_failure e) = OnFallback \<and> b = fp_fallback (ed_on_failure e)"
    by (auto simp: links_def)
  show "(a, b) \<in> ?l\<^sup>*"
  proof (cases "a = rp_after point")
    case True
    have "leave_port point e \<in> set (wf_edges (splice_point point step w))" using e(1) by (simp add: splice_point_def set_splice_edges)
    then have m: "(review_port_id (rp_after point), ed_to e) \<in> ?l" using True e(2)
      unfolding links_def by (auto intro!: bexI [of _ "leave_port point e"] simp: leave_port_def)
    show ?thesis
    proof (cases "b = ed_to e")
      case True
      then show ?thesis using m port_link [of point step w] \<open>a = rp_after point\<close> by (meson r_into_rtrancl rtrancl.rtrancl_into_rtrancl)
    next
      case False
      with b have k: "fp_kind (ed_on_failure e) = OnFallback" "b = fp_fallback (ed_on_failure e)" by auto
      have "(rp_after point, b) \<in> ?l"
        using step_fallback_policy [OF acc e(1)] e(2) True k to_port_in [of point w step] unfolding links_def
        by (auto intro!: bexI [of _ "to_port point (out_policy (out_edges (wf_edges w) (rp_after point)))"]
            simp: to_port_def)
      then show ?thesis using True by blast
    qed
  next
    case False
    then have "e \<in> set (wf_edges (splice_point point step w))" using e old_edge_kept by blast
    then have "(a, b) \<in> ?l" using e b by (auto simp: links_def)
    then show ?thesis by blast
  qed
qed

lemma splice_well_formed:
  assumes acc: "accepted w point step"
  shows "well_formed (splice_point point step w)"
proof -
  let ?w = "splice_point point step w"
  have l: "(links (wf_edges w))\<^sup>* \<subseteq> (links (wf_edges ?w))\<^sup>*"
    using rtrancl_subset_rtrancl [OF links_kept [OF acc]] .
  have wf: "well_formed w" and step: "step \<in> set (wf_executors w)" "ex_id step = rp_after point"
    using acceptedD(1,2,5) [OF acc] by (auto simp: declared_def)
  then have s: "(wf_start w, rp_after point) \<in> (links (wf_edges ?w))\<^sup>*" using l by (force simp: well_formed_def)
  have "(wf_start w, ex_id x) \<in> (links (wf_edges ?w))\<^sup>*" if "x \<in> set (wf_executors ?w)" for x
    using that wf l s port_link [of point step w] step(2)
    by (auto simp: splice_point_def review_port_def well_formed_def intro: rtrancl_into_rtrancl)
  moreover have "\<exists>x. declared ?w i x" if "i \<in> set (wf_start ?w # wf_output_selection ?w)" for i
  proof (cases "i = review_port_id (rp_after point)")
    case True then show ?thesis using port_declared [OF acc] by blast
  next
    case False
    then have "i \<in> set (wf_start w # wf_output_selection w)" using that by (auto simp: splice_point_def split: if_splits)
    then show ?thesis using wf splice_declared unfolding well_formed_def by metis
  qed
  moreover have "wf_id ?w = wf_id w" "wf_bound ?w = wf_bound w" "wf_start ?w = wf_start w" by (simp_all add: splice_point_def)
  ultimately show ?thesis
    using wf executors_kept [OF acc] edges_kept [OF acc] policies_kept [OF acc] defaults_kept [OF acc]
    unfolding well_formed_def by simp
qed

lemma insert_review_point_InrD:
  assumes "well_formed w" and "insert_review_point w point = Inr w'"
  obtains step where "accepted w point step" "ex_kind step \<noteq> RequestPort" "w' = splice_point point step w"
proof -
  have d: "distinct (map ex_id (wf_executors w))" using assms(1) by (simp add: well_formed_def)
  obtain step where f: "wf_find w (rp_after point) = Some step" and k: "ex_kind step \<noteq> RequestPort"
    and n: "wf_find w (review_port_id (rp_after point)) = None"
    and c: "check_review (wf_edges w) (outgoing (wf_edges w) (rp_after point)) step point = Inr ()"
    and w: "w' = splice_point point step w"
    using assms(2) by (auto simp: insert_review_point_def split: option.splits if_splits sum.splits)
  have "accepted w point step"
    using assms(1) f n check_review_ok [OF c] wf_find_declared [OF d] wf_find_None [of w]
    by (auto simp: accepted_def)
  with k w that show thesis by blast
qed

section \<open>Properties\<close>

text \<open>A step is reviewed when its only way on leads to its review port.\<close>

definition reviewed :: "workflow \<Rightarrow> string \<Rightarrow> bool" where
  "reviewed w s \<longleftrightarrow> (\<forall>e\<in>set (wf_edges w). ed_from e = s \<longrightarrow> ed_to e = review_port_id s)"

lemma splice_reviewed:
  assumes "accepted w point step"
  shows "reviewed (splice_point point step w) (rp_after point)"
  using step_edge_unique [OF assms] by (force simp: reviewed_def to_port_def)

text \<open>A later review point leaves the earlier ones alone: their steps are never its port, and it cannot follow
  the same step again.\<close>

lemma splice_keeps_reviewed:
  assumes acc: "accepted w point step" and "reviewed w s" and "declared w s x" and "declared w (review_port_id s) y"
  shows "reviewed (splice_point point step w) s"
  unfolding reviewed_def
proof (intro ballI impI)
  fix e assume e: "e \<in> set (wf_edges (splice_point point step w))" and s: "ed_from e = s"
  have "s \<noteq> rp_after point" "s \<noteq> review_port_id (rp_after point)"
    using assms(3,4) acceptedD(3) [OF acc] by metis+
  with acc e show "ed_to e = review_port_id s"
    by (cases rule: splice_edge_cases)
      (use s assms(2) in \<open>auto simp: to_port_def leave_port_def revise_edge_def reviewed_def\<close>)
qed

lemma insert_review_points_sound:
  assumes "well_formed w" and "insert_review_points w points = Inr w'"
  shows "well_formed w' \<and>
    (\<exists>ports. wf_executors w' = wf_executors w @ ports \<and> list_all (\<lambda>x. ex_kind x = RequestPort) ports \<and>
       map ex_id ports = map (\<lambda>p. review_port_id (rp_after p)) points) \<and>
    (\<forall>s x y. reviewed w s \<longrightarrow> declared w s x \<longrightarrow> declared w (review_port_id s) y \<longrightarrow> reviewed w' s) \<and>
    (\<forall>p\<in>set points. reviewed w' (rp_after p))"
  using assms
proof (induction points arbitrary: w)
  case (Cons p ps)
  then obtain w1 where w1: "insert_review_point w p = Inr w1" "insert_review_points w1 ps = Inr w'"
    by (auto split: sum.splits)
  obtain step where acc: "accepted w p step" and eq: "w1 = splice_point p step w"
    using insert_review_point_InrD [OF Cons.prems(1) w1(1)] by metis
  have ih: "well_formed w'"
    "\<exists>ports. wf_executors w' = wf_executors w1 @ ports \<and> list_all (\<lambda>x. ex_kind x = RequestPort) ports \<and>
       map ex_id ports = map (\<lambda>p. review_port_id (rp_after p)) ps"
    "\<And>s x y. reviewed w1 s \<Longrightarrow> declared w1 s x \<Longrightarrow> declared w1 (review_port_id s) y \<Longrightarrow> reviewed w' s"
    "\<forall>p\<in>set ps. reviewed w' (rp_after p)"
    using Cons.IH [OF _ w1(2)] splice_well_formed [OF acc] eq by blast+
  have "reviewed w' (rp_after p)"
    using ih(3) splice_reviewed [OF acc] splice_declared [OF acceptedD(2) [OF acc]] port_declared [OF acc] eq by metis
  moreover have "reviewed w' s" if "reviewed w s" "declared w s x" "declared w (review_port_id s) y" for s x y
    using ih(3) splice_keeps_reviewed [OF acc that] splice_declared that(2,3) eq by metis
  moreover obtain ports where "wf_executors w' = wf_executors w1 @ ports" "list_all (\<lambda>x. ex_kind x = RequestPort) ports"
    "map ex_id ports = map (\<lambda>p. review_port_id (rp_after p)) ps"
    using ih(2) by blast
  then have "wf_executors w' = wf_executors w @ (review_port step # ports) \<and>
      list_all (\<lambda>x. ex_kind x = RequestPort) (review_port step # ports) \<and>
      map ex_id (review_port step # ports) = map (\<lambda>p. review_port_id (rp_after p)) (p # ps)"
    using acceptedD(5) [OF acc] by (simp add: eq splice_point_def review_port_def)
  ultimately show ?case using ih(1,4) by (metis set_ConsD)
qed simp

section \<open>Sequential workflows\<close>

definition chain_edge :: "typed_executor \<Rightarrow> typed_executor \<Rightarrow> edge" where
  "chain_edge s t = \<lparr>ed_from = tx_id s, ed_to = tx_id t, ed_kind = Chain, ed_case_label = [], ed_on_failure = default_policy\<rparr>"

fun chain_edges :: "typed_executor list \<Rightarrow> edge list" where
  "chain_edges (s # t # ts) = chain_edge s t # chain_edges (t # ts)"
| "chain_edges ts = []"

lemma chain_steps_eq: "chain_steps ts w = w\<lparr>wf_edges := wf_edges w @ chain_edges ts\<rparr>"
  by (induction ts w rule: chain_steps.induct) (simp_all add: push_edge_def chain_edge_def)

lemma fold_builder_add: "fold builder_add ts w = w\<lparr>wf_executors := wf_executors w @ map describe ts\<rparr>"
  by (induction ts arbitrary: w) (simp_all add: builder_add_def)

lemma chain_edges_cases: "e \<in> set (chain_edges ts) \<Longrightarrow> \<exists>s\<in>set ts. \<exists>t\<in>set ts. e = chain_edge s t"
  by (induction ts rule: chain_edges.induct) auto

lemma links_mono: "set es \<subseteq> set es' \<Longrightarrow> links es \<subseteq> links es'"
  by (auto simp: links_def)

lemma chain_reaches: "t \<in> set ts \<Longrightarrow> (tx_id (hd ts), tx_id t) \<in> (links (chain_edges ts))\<^sup>*"
proof (induction ts rule: chain_edges.induct)
  case (1 a b ts)
  have sub: "links (chain_edges (b # ts)) \<subseteq> links (chain_edges (a # b # ts))" by (rule links_mono) auto
  have ab: "(tx_id a, tx_id b) \<in> links (chain_edges (a # b # ts))" by (simp add: links_def chain_edge_def)
  show ?case
  proof (cases "t \<in> set (b # ts)")
    case True
    then have "(tx_id b, tx_id t) \<in> (links (chain_edges (a # b # ts)))\<^sup>*"
      using "1.IH" rtrancl_mono [OF sub] by auto
    with ab show ?thesis by (simp add: converse_rtrancl_into_rtrancl)
  qed (use 1 in auto)
qed auto

text \<open>Participants a sequential workflow can be built from: distinct, well-named, and of one message type.\<close>

definition chainable :: "typed_executor list \<Rightarrow> bool" where
  "chainable ts \<longleftrightarrow> ts \<noteq> [] \<and> distinct (map tx_id ts) \<and> (\<forall>t\<in>set ts. tx_id t \<noteq> [] \<and> CHR ''/'' \<notin> set (tx_id t)) \<and>
     (\<exists>msg. msg \<noteq> [] \<and> (\<forall>t\<in>set ts. tx_in t = msg \<and> tx_out t = msg))"

definition fresh_builder :: "workflow \<Rightarrow> bool" where
  "fresh_builder w \<longleftrightarrow> wf_id w \<noteq> [] \<and> wf_executors w = [] \<and> wf_edges w = [] \<and> wf_output_selection w = [] \<and>
     bound_any (wf_bound w) \<and> tb_max_rounds (wf_bound w) \<noteq> Some 0"

lemma sequential_graph_well_formed:
  assumes inner: "fresh_builder (sq_inner b)" and steps: "chainable (sq_steps b)"
  shows "well_formed (sequential_graph b)"
proof -
  let ?g = "sequential_graph b" and ?ts = "sq_steps b"
  have g: "wf_id ?g = wf_id (sq_inner b)" "wf_executors ?g = map describe ?ts" "wf_edges ?g = chain_edges ?ts"
    "wf_start ?g = tx_id (hd ?ts)" "wf_output_selection ?g = [tx_id (last ?ts)]" "wf_bound ?g = wf_bound (sq_inner b)"
    using inner
    by (simp_all add: sequential_graph_def chain_steps_eq fold_builder_add start_at_def select_output_def fresh_builder_def)
  have decl: "declared ?g (tx_id t) (describe t)" if "t \<in> set ?ts" for t
    using that by (simp add: declared_def g describe_def)
  have ends: "hd ?ts \<in> set ?ts" "last ?ts \<in> set ?ts" using steps by (simp_all add: chainable_def)
  have "edge_ok ?g e" if "e \<in> set (chain_edges ?ts)" for e
  proof -
    obtain s t where st: "s \<in> set ?ts" "t \<in> set ?ts" and e: "e = chain_edge s t"
      using chain_edges_cases [OF \<open>e \<in> set (chain_edges ?ts)\<close>] by blast
    then have "ex_output_type (describe s) = ex_input_type (describe t)"
      using steps by (auto simp: chainable_def describe_def)
    then have "typed_branch ?g (tx_id s) (tx_id t)" using decl st by (auto simp: typed_branch_def)
    then show ?thesis by (simp add: e chain_edge_def edge_ok_def labelled_def default_policy_def)
  qed
  moreover have "ed_kind e = Chain \<and> ed_on_failure e = default_policy" if "e \<in> set (chain_edges ?ts)" for e
    using chain_edges_cases [OF that] by (auto simp: chain_edge_def)
  then have "defaults_ok (chain_edges ?ts)" "policies_agree (chain_edges ?ts)"
    by (auto simp: defaults_ok_def policies_agree_def same_policy_def filter_empty_conv [THEN iffD2])
  moreover have "\<forall>x\<in>set (wf_executors ?g). executor_ok x" "distinct (map ex_id (wf_executors ?g))"
    using steps by (auto simp: g chainable_def executor_ok_def describe_def comp_def)
  moreover have "\<forall>x\<in>set (wf_executors ?g). (wf_start ?g, ex_id x) \<in> (links (wf_edges ?g))\<^sup>*"
    using chain_reaches by (auto simp: g describe_def)
  ultimately show ?thesis
    using inner decl [OF ends(1)] decl [OF ends(2)] by (auto simp: well_formed_def g fresh_builder_def)
qed

definition demo_step :: "string \<Rightarrow> executor" where
  "demo_step i = \<lparr>ex_id = i, ex_kind = FunctionExec, ex_input_type = ''Doc'', ex_output_type = ''Doc'',
     ex_worktree_mode = BranchMode, ex_capability_ceiling = [], ex_batch = False\<rparr>"

definition demo_flow :: workflow where
  "demo_flow = \<lparr>wf_id = ''edit'', wf_description = [], wf_version = None,
     wf_executors = [demo_step ''draft'', demo_step ''publish''],
     wf_edges = [\<lparr>ed_from = ''draft'', ed_to = ''publish'', ed_kind = Chain, ed_case_label = [],
                  ed_on_failure = default_policy\<rparr>],
     wf_start = ''draft'', wf_output_selection = [''publish''], wf_bound = unbounded_run\<lparr>tb_max_rounds := Some 9\<rparr>\<rparr>"

definition demo_points :: "review_point list" where
  "demo_points = [\<lparr>rp_after = ''draft'', rp_revisable = True\<rparr>, \<lparr>rp_after = ''publish'', rp_revisable = False\<rparr>]"

lemma demo_flow_valid: "validate_workflow demo_flow = Inr ()"
  by (simp add: validate_workflow_def check_reachable_def check_ports_def check_batch_def check_edge_def
      check_policy_def wf_find_def is_default_of_def bound_any_def reach_loop.simps visit_edge_def visit_def Let_def
      demo_flow_def demo_step_def default_policy_def unbounded_run_def labelled_def refuse_if_def)

lemmas review_eval = insert_review_point_def check_review_def splice_point_def splice_edges_def wf_find_def
  outgoing_def insert_at_def leave_port_def to_port_def revise_edge_def step_policy_def one_forward_def
  review_port_def review_port_id_def routes_def default_policy_def refuse_if_def Let_def

text \<open>C23. Review points are safe to add: from a graph the validator accepts, an accepted expansion is a graph
  the validator accepts again; the original executors keep their places, one request port per point comes
  after them; and every edge out of a reviewed step leads to its own review port, so that nothing the
  step produces reaches another executor unreviewed.\<close>

theorem review_points_mediate:
  assumes "validate_workflow w = Inr ()" and "insert_review_points w points = Inr w'"
  shows "validate_workflow w' = Inr () \<and>
    (\<exists>ports. wf_executors w' = wf_executors w @ ports \<and> list_all (\<lambda>x. ex_kind x = RequestPort) ports \<and>
       map ex_id ports = map (\<lambda>p. review_port_id (rp_after p)) points) \<and>
    (\<forall>p\<in>set points. \<forall>e\<in>set (wf_edges w'). ed_from e = rp_after p \<longrightarrow> ed_to e = review_port_id (rp_after p))"
  using insert_review_points_sound [of w points w'] assms by (simp add: validate_iff reviewed_def)

theorem review_points_mediate_witness:
  "\<exists>w'. insert_review_points demo_flow demo_points = Inr w' \<and> validate_workflow w' = Inr ()"
proof -
  obtain w' where w': "insert_review_points demo_flow demo_points = Inr w'"
    by (simp add: demo_points_def demo_flow_def demo_step_def review_eval)
  with review_points_mediate [OF demo_flow_valid w'] show ?thesis by blast
qed

definition demo_participant :: "string \<Rightarrow> typed_executor" where
  "demo_participant i = \<lparr>tx_id = i, tx_kind = FunctionExec, tx_in = ''Doc'', tx_out = ''Doc'',
     tx_worktree_mode = BranchMode, tx_capability_ceiling = []\<rparr>"

definition demo_sequence :: "request_info_options option \<Rightarrow> sequential_builder" where
  "demo_sequence info = \<lparr>sq_inner = max_rounds 9 (new_builder ''edit''),
     sq_steps = [demo_participant ''draft'', demo_participant ''check'', demo_participant ''publish''],
     sq_request_info = info\<rparr>"

text \<open>A sequential workflow of distinct, well-named participants of one message type always builds, to the
  chain of exactly those participants; with review points, whatever it builds is a validated graph that
  starts with those participants in order and sends every selected one to its own review port.\<close>

theorem sequential_workflow_builds:
  assumes "fresh_builder (sq_inner b)" and "chainable (sq_steps b)"
  shows "(sq_request_info b = None \<longrightarrow> sequential_build b = Inr (sequential_graph b)) \<and>
    (\<forall>w. sequential_build b = Inr w \<longrightarrow>
       validate_workflow w = Inr () \<and> take (length (sq_steps b)) (wf_executors w) = map describe (sq_steps b)) \<and>
    (\<forall>w opts t. sequential_build b = Inr w \<longrightarrow> sq_request_info b = Some opts \<longrightarrow> t \<in> set (sq_steps b) \<longrightarrow>
       ri_only opts = [] \<or> tx_id t \<in> set (ri_only opts) \<longrightarrow> reviewed w (tx_id t))"
proof -
  let ?g = "sequential_graph b"
  have wf: "well_formed ?g" by (rule sequential_graph_well_formed [OF assms])
  have ex: "wf_executors ?g = map describe (sq_steps b)"
    using assms(1) by (simp add: sequential_graph_def chain_steps_eq fold_builder_add start_at_def select_output_def fresh_builder_def)
  have ne: "sq_steps b \<noteq> []" using assms(2) by (simp add: chainable_def)
  have built: "\<exists>points. review_selection (map tx_id (sq_steps b)) (sq_request_info b)
        (case sq_request_info b of None \<Rightarrow> False | Some opts \<Rightarrow> ri_allow_revision opts) = Inr points \<and>
      insert_review_points ?g points = Inr w \<and> validate_workflow w = Inr ()" if "sequential_build b = Inr w" for w
    using that by (auto simp: sequential_build_def finish_def split: if_splits sum.splits)
  have "take (length (sq_steps b)) (wf_executors w) = map describe (sq_steps b) \<and> validate_workflow w = Inr ()"
    if w: "sequential_build b = Inr w" for w
  proof -
    obtain points where "insert_review_points ?g points = Inr w" "validate_workflow w = Inr ()" using built [OF w] by blast
    moreover then obtain ports where "wf_executors w = wf_executors ?g @ ports"
      using insert_review_points_sound [OF wf] by blast
    ultimately show ?thesis by (simp add: ex)
  qed
  moreover have "reviewed w (tx_id t)"
    if w: "sequential_build b = Inr w" and o: "sq_request_info b = Some opts" and t: "t \<in> set (sq_steps b)"
      and sel: "ri_only opts = [] \<or> tx_id t \<in> set (ri_only opts)" for w opts t
  proof -
    obtain points where p: "select_points (map tx_id (sq_steps b)) opts (ri_allow_revision opts) = Inr points"
      "insert_review_points ?g points = Inr w" using built [OF w] o by (auto simp: review_selection_def)
    obtain i where "i < length (sq_steps b)" "sq_steps b ! i = t" using t by (auto simp: in_set_conv_nth)
    then have "\<exists>q\<in>set points. rp_after q = tx_id t"
      using p(1) sel by (fastforce simp: select_points_def split: sum.splits)
    then show ?thesis using insert_review_points_sound [OF wf p(2)] by metis
  qed
  moreover have "sequential_build b = Inr ?g" if "sq_request_info b = None"
    using that ne wf [folded validate_iff] by (simp add: sequential_build_def review_selection_def finish_def)
  ultimately show ?thesis by blast
qed

theorem sequential_workflow_builds_witness:
  "sequential_build (demo_sequence None) = Inr (sequential_graph (demo_sequence None))"
proof -
  have "fresh_builder (sq_inner (demo_sequence None))"
    by (simp add: fresh_builder_def demo_sequence_def max_rounds_def new_builder_def bound_any_def)
  moreover have "chainable (sq_steps (demo_sequence None))"
    by (simp add: chainable_def demo_sequence_def demo_participant_def)
  ultimately have "sq_request_info (demo_sequence None) = None \<longrightarrow>
      sequential_build (demo_sequence None) = Inr (sequential_graph (demo_sequence None))"
    by (rule sequential_workflow_builds [THEN conjunct1])
  then show ?thesis by (simp add: demo_sequence_def)
qed

end
