(* ===== verification/WorktreeScoping.thy ===== *)
theory WorktreeScoping
  imports WorktreeMount ReviewPoints
begin

text \<open>
  Worktrees of workflow executors: \<^verbatim>\<open>include/agentengine/workflow/worktree_scoping.hpp\<close>. Every executor of a
  workflow gets a sub-worktree of the run's parent ref by its declared sharing mode, with a mount and
  the capabilities for it; a resumed run finds them again; a branch merges back when its executor completes,
  and a conflict leaves both versions under the parent's conflicts ref. Proved: minting succeeds once for a
  validated workflow, gives disjoint refs and is found again by resuming; on the file store, whose log
  ids admit no slash, minting never succeeds.
\<close>

section \<open>Grants\<close>

record executor_grant =
  eg_sub :: sub_worktree
  eg_mount :: "mount option"
  eg_read :: "fs_read option"
  eg_write :: "fs_write option"

definition check_executor_id :: "string \<Rightarrow> unit result" where
  "check_executor_id i =
     (if CHR ''/'' \<in> set i then Inl (Error Contract ''worktree_scoping.executor_id_contains_slash'') else Inr ())"

definition grant_for :: "sub_worktree \<Rightarrow> string \<Rightarrow> executor_grant" where
  "grant_for sub i =
     (let mount_id = ''/agents/'' @ i
      in if sw_mode sub = ReadonlyMode
         then \<lparr>eg_sub = sub, eg_mount = None, eg_read = None, eg_write = None\<rparr>
         else \<lparr>eg_sub = sub,
                eg_mount = Some \<lparr>mt_mount_id = mount_id, mt_ref_name = sw_backing_ref_name sub, mt_subtree_path = []\<rparr>,
                eg_read = Some \<lparr>fr_mount_id = mount_id, fr_path_prefix = [], fr_size_cap_bytes = Unbounded\<rparr>,
                eg_write = Some \<lparr>fw_mount_id = mount_id, fw_path_prefix = [], fw_quota_bytes = Unbounded,
                                  fw_file_count_cap = Unbounded\<rparr>\<rparr>)"

definition child_name :: "worktree_ref \<Rightarrow> executor \<Rightarrow> string" where
  "child_name parent ex = wr_name parent @ ''/agents/'' @ ex_id ex"

text \<open>One executor of the loop, and the loop: an error ends it, and what was committed before stays.\<close>

definition mint_one ::
  "digest_fn \<Rightarrow> 's log_ops \<Rightarrow> 'n num_ops \<Rightarrow> worktree_ref \<Rightarrow> executor \<Rightarrow> 's \<Rightarrow> executor_grant result \<times> 's" where
  "mint_one dig ops nm parent ex rs =
     (case check_executor_id (ex_id ex) of
        Inl e \<Rightarrow> (Inl e, rs)
      | Inr u \<Rightarrow>
          (case read_ref ops nm rs (child_name parent ex) of
             Inl e \<Rightarrow> (Inl e, rs)
           | Inr (Some r) \<Rightarrow> (Inl (Error Contract ''worktree_scoping.already_minted''), rs)
           | Inr None \<Rightarrow>
               (case create_sub_worktree dig ops nm rs parent (child_name parent ex) (ex_worktree_mode ex) of
                  (Inl e, rs') \<Rightarrow> (Inl e, rs')
                | (Inr sub, rs') \<Rightarrow> (Inr (grant_for sub (ex_id ex)), rs'))))"

fun mint_loop ::
  "digest_fn \<Rightarrow> 's log_ops \<Rightarrow> 'n num_ops \<Rightarrow> worktree_ref \<Rightarrow> executor list \<Rightarrow> executor_grant list \<Rightarrow> 's
    \<Rightarrow> executor_grant list result \<times> 's" where
  "mint_loop dig ops nm parent [] out rs = (Inr out, rs)"
| "mint_loop dig ops nm parent (ex # exs) out rs =
     (case mint_one dig ops nm parent ex rs of
        (Inl e, rs') \<Rightarrow> (Inl e, rs')
      | (Inr g, rs') \<Rightarrow> mint_loop dig ops nm parent exs (out @ [g]) rs')"

definition mint_executor_worktrees ::
  "digest_fn \<Rightarrow> 's log_ops \<Rightarrow> 'n num_ops \<Rightarrow> 's \<Rightarrow> worktree_ref \<Rightarrow> workflow \<Rightarrow> executor_grant list result \<times> 's" where
  "mint_executor_worktrees dig ops nm rs parent w = mint_loop dig ops nm parent (wf_executors w) [] rs"

definition resume_one :: "'s log_ops \<Rightarrow> 'n num_ops \<Rightarrow> 's \<Rightarrow> worktree_ref \<Rightarrow> executor \<Rightarrow> executor_grant result" where
  "resume_one ops nm rs parent ex =
     (case check_executor_id (ex_id ex) of
        Inl e \<Rightarrow> Inl e
      | Inr u \<Rightarrow>
          if ex_worktree_mode ex = ReadonlyMode then Inl (Error Contract ''worktree_scoping.readonly_resume_unsupported'')
          else if ex_worktree_mode ex = SharedMode
          then Inr (grant_for \<lparr>sw_name = child_name parent ex, sw_backing_ref_name = wr_name parent, sw_mode = SharedMode,
                               sw_pinned_digest = [], sw_base_digest = []\<rparr> (ex_id ex))
          else (case read_ref ops nm rs (child_name parent ex) of
                  Inl e \<Rightarrow> Inl e
                | Inr None \<Rightarrow> Inl (Error Contract ''worktree_scoping.resume_not_minted'')
                | Inr (Some r) \<Rightarrow>
                    Inr (grant_for \<lparr>sw_name = child_name parent ex, sw_backing_ref_name = child_name parent ex,
                                    sw_mode = ex_worktree_mode ex, sw_pinned_digest = [], sw_base_digest = []\<rparr> (ex_id ex))))"

fun resume_loop :: "'s log_ops \<Rightarrow> 'n num_ops \<Rightarrow> 's \<Rightarrow> worktree_ref \<Rightarrow> executor list \<Rightarrow> executor_grant list result" where
  "resume_loop ops nm rs parent [] = Inr []"
| "resume_loop ops nm rs parent (ex # exs) =
     (case resume_one ops nm rs parent ex of
        Inl e \<Rightarrow> Inl e
      | Inr g \<Rightarrow> (case resume_loop ops nm rs parent exs of Inl e \<Rightarrow> Inl e | Inr gs \<Rightarrow> Inr (g # gs)))"

definition resume_executor_worktrees ::
  "'s log_ops \<Rightarrow> 'n num_ops \<Rightarrow> 's \<Rightarrow> worktree_ref \<Rightarrow> workflow \<Rightarrow> executor_grant list result" where
  "resume_executor_worktrees ops nm rs parent w = resume_loop ops nm rs parent (wf_executors w)"

section \<open>Merging back\<close>

text \<open>The branches the hook knows, by executor id; \<^verbatim>\<open>emplace\<close> keeps the first of one id.\<close>

definition branch_of :: "workflow \<Rightarrow> executor_grant list \<Rightarrow> string \<Rightarrow> sub_worktree option" where
  "branch_of w gs i =
     map_of (map (\<lambda>(ex, g). (ex_id ex, eg_sub g))
       (filter (\<lambda>(ex, g). ex_worktree_mode ex = BranchMode) (zip (wf_executors w) gs))) i"

text \<open>The hook, called with an executor's id: \<open>others k\<close> is what other writers of the refs do in the
  merge attempt with \<open>k\<close> left; \<^const>\<open>None\<close> is fuel that ran out in a merge.\<close>

definition merge_hook ::
  "digest_fn \<Rightarrow> nat \<Rightarrow> 's log_ops \<Rightarrow> 'n num_ops \<Rightarrow> (nat \<Rightarrow> 's writers) \<Rightarrow> string \<Rightarrow> string \<Rightarrow> (string \<Rightarrow> sub_worktree option)
    \<Rightarrow> string \<Rightarrow> object_store \<Rightarrow> 's \<Rightarrow> (unit result \<times> 's mount_state) option" where
  "merge_hook dig f ops nm others parent ours_agent by_id i st rs =
     (case by_id i of
        None \<Rightarrow> Some (Inl (Error Contract ''worktree_scoping.merge_hook_unknown_executor''), st, rs)
      | Some branch \<Rightarrow>
          (case read_ref ops nm rs parent of
             Inl e \<Rightarrow> Some (Inl e, st, rs)
           | Inr None \<Rightarrow> Some (Inl (Error Contract ''worktree_scoping.merge_hook_parent_missing''), st, rs)
           | Inr (Some r) \<Rightarrow>
               (case retry_merge_branch_into_parent dig f ops nm others st rs branch r 3 of
                  None \<Rightarrow> None
                | Some (Inl e, st1, rs1) \<Rightarrow> Some (Inl e, st1, rs1)
                | Some (Inr outcome, st1, rs1) \<Rightarrow>
                    if bo_conflicts outcome = [] then Some (Inr (), st1, rs1)
                    else Some (case materialize_merge_conflicts dig ops nm st1 rs1 parent ours_agent branch (bo_conflicts outcome) of
                           (Inl e, s) \<Rightarrow> (Inl e, s)
                         | (Inr u, s) \<Rightarrow> (Inl (Error Policy ''worktree_scoping.merge_conflict''), s)))))"

definition make_merge_on_join_hook ::
  "digest_fn \<Rightarrow> nat \<Rightarrow> 's log_ops \<Rightarrow> 'n num_ops \<Rightarrow> (nat \<Rightarrow> 's writers) \<Rightarrow> string \<Rightarrow> string \<Rightarrow> workflow \<Rightarrow> executor_grant list
    \<Rightarrow> string \<Rightarrow> object_store \<Rightarrow> 's \<Rightarrow> (unit result \<times> 's mount_state) option" where
  "make_merge_on_join_hook dig f ops nm others parent ours_agent w gs =
     merge_hook dig f ops nm others parent ours_agent (branch_of w gs)"

section \<open>Minting in memory\<close>

lemma child_name_inj [simp]: "child_name parent a = child_name parent b \<longleftrightarrow> ex_id a = ex_id b"
  by (simp add: child_name_def)

lemma child_name_parent [simp]: "child_name parent a \<noteq> wr_name parent"
  by (simp add: child_name_def)

text \<open>An executor whose worktree has a ref of its own, and what that ref first points to.\<close>

definition own_ref :: "executor \<Rightarrow> bool" where
  "own_ref ex \<longleftrightarrow> ex_worktree_mode ex \<in> {BranchMode, ScratchMode}"

definition minted_log :: "'n num_ops \<Rightarrow> worktree_ref \<Rightarrow> digest \<Rightarrow> executor list \<Rightarrow> memory_log \<Rightarrow> memory_log" where
  "minted_log nm parent ed0 exs rs = fold (\<lambda>ex rs. if own_ref ex
     then rs(ref_log_id (child_name parent ex) :=
            [encode_ref_moved nm (if ex_worktree_mode ex = BranchMode then wr_tree_digest parent else ed0)])
     else rs) exs rs"

definition minted :: "worktree_ref \<Rightarrow> executor \<Rightarrow> executor_grant" where
  "minted parent ex = grant_for
     \<lparr>sw_name = child_name parent ex,
      sw_backing_ref_name = (if own_ref ex then child_name parent ex else if ex_worktree_mode ex = SharedMode then wr_name parent else []),
      sw_mode = ex_worktree_mode ex,
      sw_pinned_digest = (if ex_worktree_mode ex = ReadonlyMode then wr_tree_digest parent else []),
      sw_base_digest = (if ex_worktree_mode ex = BranchMode then wr_tree_digest parent else [])\<rparr> (ex_id ex)"

lemma mint_one_memory:
  assumes "CHR ''/'' \<notin> set (ex_id ex)" and "rs (ref_log_id (child_name parent ex)) = []" and "empty_tree_digest dig = Inr ed0"
  shows "mint_one dig memory_ops nm parent ex rs = (Inr (minted parent ex), minted_log nm parent ed0 [ex] rs)"
proof -
  have "read_ref memory_ops nm rs (child_name parent ex) = Inr None" using assms(2) by (simp add: read_ref_def)
  then show ?thesis
    using assms
    by (cases "ex_worktree_mode ex")
      (simp_all add: mint_one_def check_executor_id_def create_sub_worktree_def commit_ref_memory minted_def minted_log_def own_ref_def)
qed

lemma minted_log_other:
  "\<forall>ex\<in>set exs. own_ref ex \<longrightarrow> n \<noteq> child_name parent ex \<Longrightarrow> minted_log nm parent ed0 exs rs (ref_log_id n) = rs (ref_log_id n)"
  by (induction exs arbitrary: rs) (auto simp: minted_log_def)

lemma minted_log_own:
  assumes "distinct (map ex_id exs)" and "ex \<in> set exs" and "own_ref ex"
  shows "minted_log nm parent ed0 exs rs (ref_log_id (child_name parent ex)) =
    [encode_ref_moved nm (if ex_worktree_mode ex = BranchMode then wr_tree_digest parent else ed0)]"
  using assms
proof (induction exs arbitrary: rs)
  case (Cons x exs)
  show ?case
  proof (cases "ex = x")
    case True
    have "minted_log nm parent ed0 exs rs' (ref_log_id (child_name parent x)) = rs' (ref_log_id (child_name parent x))" for rs'
      using Cons.prems(1) by (intro minted_log_other) (auto simp: image_iff)
    then show ?thesis using True Cons.prems(3) by (simp add: minted_log_def)
  next
    case False
    then show ?thesis using Cons by (simp add: minted_log_def)
  qed
qed simp

lemma mint_loop_memory:
  assumes "empty_tree_digest dig = Inr ed0"
  shows "distinct (map ex_id exs) \<Longrightarrow> \<forall>ex\<in>set exs. CHR ''/'' \<notin> set (ex_id ex) \<and> rs (ref_log_id (child_name parent ex)) = [] \<Longrightarrow>
    mint_loop dig memory_ops nm parent exs out rs = (Inr (out @ map (minted parent) exs), minted_log nm parent ed0 exs rs)"
proof (induction exs arbitrary: out rs)
  case (Cons ex exs)
  let ?rs = "minted_log nm parent ed0 [ex] rs"
  have "?rs (ref_log_id (child_name parent x)) = []" if "x \<in> set exs" for x
    using that Cons.prems by (subst minted_log_other) (auto simp: image_iff)
  moreover have "mint_one dig memory_ops nm parent ex rs = (Inr (minted parent ex), ?rs)"
    using Cons.prems by (intro mint_one_memory [OF _ _ assms]) simp_all
  moreover have "minted_log nm parent ed0 (ex # exs) rs = minted_log nm parent ed0 exs ?rs"
    by (simp add: minted_log_def)
  ultimately show ?case using Cons.IH [of ?rs "out @ [minted parent ex]"] Cons.prems by simp
qed (simp add: minted_log_def)

section \<open>Refs outlive what happens to them\<close>

definition has_ref :: "'n num_ops \<Rightarrow> memory_log \<Rightarrow> string \<Rightarrow> bool" where
  "has_ref nm rs n \<longleftrightarrow> (\<exists>r. read_ref memory_ops nm rs n = Inr (Some r))"

definition ref_readable :: "'n num_ops \<Rightarrow> memory_log \<Rightarrow> string \<Rightarrow> bool" where
  "ref_readable nm rs n \<longleftrightarrow> read_ref memory_ops nm rs n = Inr None \<or> has_ref nm rs n"

lemma ref_step_memory:
  "ref_step dig memory_ops nm op rs = rs \<or>
   (\<exists>n d. ref_step dig memory_ops nm op rs = rs(ref_log_id n := rs (ref_log_id n) @ [encode_ref_moved nm d]))"
  using ref_step_cases [of dig memory_ops nm op rs] by auto

lemma append_ref_keeps:
  assumes "rs' = rs(ref_log_id a := rs (ref_log_id a) @ [encode_ref_moved nm d])"
  shows "has_ref nm rs n \<Longrightarrow> has_ref nm rs' n" and "ref_readable nm rs n \<Longrightarrow> ref_readable nm rs' n"
proof -
  have "read_ref memory_ops nm rs' n = (if n = a then Inr (Some \<lparr>wr_name = a, wr_tree_digest = d\<rparr>) else read_ref memory_ops nm rs n)"
    by (simp add: assms)
  then show "has_ref nm rs n \<Longrightarrow> has_ref nm rs' n" and "ref_readable nm rs n \<Longrightarrow> ref_readable nm rs' n"
    by (auto simp: has_ref_def ref_readable_def)
qed

lemma ref_run_keeps:
  "has_ref nm rs n \<Longrightarrow> has_ref nm (ref_run dig memory_ops nm ops rs) n"
  "ref_readable nm rs n \<Longrightarrow> ref_readable nm (ref_run dig memory_ops nm ops rs) n"
proof -
  have s: "has_ref nm rs n \<longrightarrow> has_ref nm (ref_step dig memory_ops nm op rs) n"
    "ref_readable nm rs n \<longrightarrow> ref_readable nm (ref_step dig memory_ops nm op rs) n" for op rs
    using ref_step_memory [of dig nm op rs] append_ref_keeps by metis+
  show "has_ref nm rs n \<Longrightarrow> has_ref nm (ref_run dig memory_ops nm ops rs) n"
    using s(1) by (induction ops arbitrary: rs) (simp_all add: ref_run_def)
  show "ref_readable nm rs n \<Longrightarrow> ref_readable nm (ref_run dig memory_ops nm ops rs) n"
    using s(2) by (induction ops arbitrary: rs) (simp_all add: ref_run_def)
qed

lemma mint_again:
  assumes "\<forall>ex\<in>set exs. CHR ''/'' \<notin> set (ex_id ex) \<and> ref_readable nm rs (child_name parent ex)"
    and "ex \<in> set exs" and "has_ref nm rs (child_name parent ex)"
  shows "fst (mint_loop dig memory_ops nm parent exs out rs) = Inl (Error Contract ''worktree_scoping.already_minted'') \<or>
    (\<exists>x\<in>set exs. own_ref x \<and> \<not> has_ref nm rs (child_name parent x))"
  using assms
proof (induction exs arbitrary: out)
  case (Cons x exs)
  show ?case
  proof (cases "has_ref nm rs (child_name parent x)")
    case True
    then show ?thesis using Cons.prems(1) by (auto simp: mint_one_def check_executor_id_def has_ref_def)
  next
    case False
    then have n: "read_ref memory_ops nm rs (child_name parent x) = Inr None" and "ex \<in> set exs"
      using Cons.prems by (auto simp: ref_readable_def)
    show ?thesis
    proof (cases "own_ref x")
      case True
      with False show ?thesis by auto
    next
      case sh: False
      then have "\<exists>g. mint_one dig memory_ops nm parent x rs = (Inr g, rs)"
        using n Cons.prems(1)
        by (cases "ex_worktree_mode x") (auto simp: mint_one_def check_executor_id_def create_sub_worktree_def own_ref_def)
      then show ?thesis using Cons.IH \<open>ex \<in> set exs\<close> Cons.prems(1,3) by fastforce
    qed
  qed
qed simp

definition forget_base :: "executor_grant \<Rightarrow> executor_grant" where
  "forget_base g = g\<lparr>eg_sub := (eg_sub g)\<lparr>sw_base_digest := []\<rparr>\<rparr>"

lemma resume_one_minted:
  assumes "CHR ''/'' \<notin> set (ex_id ex)" and "own_ref ex \<longrightarrow> has_ref nm rs (child_name parent ex)"
  shows "resume_one memory_ops nm rs parent ex =
    (if ex_worktree_mode ex = ReadonlyMode then Inl (Error Contract ''worktree_scoping.readonly_resume_unsupported'')
     else Inr (forget_base (minted parent ex)))"
  using assms
  by (cases "ex_worktree_mode ex")
    (auto simp: resume_one_def check_executor_id_def minted_def forget_base_def grant_for_def own_ref_def has_ref_def Let_def)

lemma resume_loop_minted:
  assumes "\<forall>ex\<in>set exs. CHR ''/'' \<notin> set (ex_id ex) \<and> (own_ref ex \<longrightarrow> has_ref nm rs (child_name parent ex))"
  shows "resume_loop memory_ops nm rs parent exs =
    (if \<exists>ex\<in>set exs. ex_worktree_mode ex = ReadonlyMode then Inl (Error Contract ''worktree_scoping.readonly_resume_unsupported'')
     else Inr (map (forget_base \<circ> minted parent) exs))"
  using assms by (induction exs) (simp_all add: resume_one_minted)

section \<open>Properties\<close>

lemma valid_ids:
  assumes "validate_workflow w = Inr ()"
  shows "distinct (map ex_id (wf_executors w))" "\<forall>ex\<in>set (wf_executors w). CHR ''/'' \<notin> set (ex_id ex)"
  using assms by (simp_all add: validate_iff well_formed_def executor_ok_def)

lemma minted_backing: "own_ref ex \<Longrightarrow> sw_backing_ref_name (eg_sub (minted parent ex)) = child_name parent ex"
  by (auto simp: minted_def grant_for_def Let_def own_ref_def)

lemma minted_exclusive: "ex_id x \<noteq> ex_id ex \<Longrightarrow> sw_backing_ref_name (eg_sub (minted parent x)) \<noteq> child_name parent ex"
  using child_name_parent [of parent ex]
  by (auto simp: minted_def grant_for_def Let_def own_ref_def) (simp_all add: child_name_def)

text \<open>On the file store minting never succeeds: the ref of an executor's worktree has a slash in its
  name, which the file store refuses as a log id, so that for every validated workflow the first executor's lookup
  fails and nothing is minted.\<close>

lemma mint_refused_on_file_store:
  assumes "validate_workflow w = Inr ()"
  shows "mint_executor_worktrees dig file_ops nm rs parent w = (Inl (Error Contract ''rt.append_log_store.invalid_id''), rs)"
proof -
  obtain ex exs where w: "wf_executors w = ex # exs"
    using assms by (cases "wf_executors w") (auto simp: validate_iff well_formed_def declared_def)
  have "CHR ''/'' \<notin> set (ex_id ex)" using valid_ids(2) [OF assms] w by simp
  moreover have "path_for (ref_log_id (child_name parent ex)) = Inl (Error Contract ''rt.append_log_store.invalid_id'')"
    by (simp add: path_for_def ref_log_id_def child_name_def)
  ultimately show ?thesis
    by (simp add: mint_executor_worktrees_def w mint_one_def check_executor_id_def read_ref_def file_ops_def
        read_from_blocking_def read_locked_def)
qed

text \<open>C31. The worktrees of a run over the in-memory store are minted once and found again: for a validated workflow whose
  executors have no refs yet, minting succeeds with one grant per executor; a branch or scratch executor writes to a ref
  of its own, which backs no other executor's worktree and starts at the parent's tree or the empty tree; no ref but
  those changes. After any ref operations, resuming gives the same grants, the merge base excepted, and is
  refused when an executor is read-only; and minting again is refused once any executor has a ref of its own. Over the file
  store minting is always refused, since it takes no slash in a log id.\<close>

theorem minted_worktrees_resume:
  fixes nm :: "'n num_ops"
  assumes "validate_workflow w = Inr ()" and "empty_tree_digest dig = Inr ed0"
    and "\<forall>ex\<in>set (wf_executors w). rs (ref_log_id (child_name parent ex)) = []"
  shows "(\<exists>gs rs'. mint_executor_worktrees dig memory_ops nm rs parent w = (Inr gs, rs') \<and>
    gs = map (minted parent) (wf_executors w) \<and>
    (\<forall>ex\<in>set (wf_executors w). own_ref ex \<longrightarrow> sw_backing_ref_name (eg_sub (minted parent ex)) = child_name parent ex \<and>
       read_ref memory_ops nm rs' (child_name parent ex) = Inr (Some \<lparr>wr_name = child_name parent ex,
         wr_tree_digest = if ex_worktree_mode ex = BranchMode then wr_tree_digest parent else ed0\<rparr>)) \<and>
    (\<forall>ex\<in>set (wf_executors w). \<forall>x\<in>set (wf_executors w). own_ref ex \<longrightarrow> x \<noteq> ex \<longrightarrow>
       sw_backing_ref_name (eg_sub (minted parent x)) \<noteq> child_name parent ex) \<and>
    (\<forall>n. (\<forall>ex\<in>set (wf_executors w). own_ref ex \<longrightarrow> n \<noteq> child_name parent ex) \<longrightarrow>
       read_ref memory_ops nm rs' n = read_ref memory_ops nm rs n) \<and>
    (\<forall>ops. resume_executor_worktrees memory_ops nm (ref_run dig memory_ops nm ops rs') parent w =
       (if \<exists>ex\<in>set (wf_executors w). ex_worktree_mode ex = ReadonlyMode
        then Inl (Error Contract ''worktree_scoping.readonly_resume_unsupported'') else Inr (map forget_base gs))) \<and>
    (\<forall>ops. (\<exists>ex\<in>set (wf_executors w). own_ref ex) \<longrightarrow>
       fst (mint_executor_worktrees dig memory_ops nm (ref_run dig memory_ops nm ops rs') parent w)
       = Inl (Error Contract ''worktree_scoping.already_minted''))) \<and>
    mint_executor_worktrees dig file_ops nm disk parent w = (Inl (Error Contract ''rt.append_log_store.invalid_id''), disk)"
proof -
  let ?exs = "wf_executors w" and ?rs = "minted_log nm parent ed0 (wf_executors w) rs"
  note ids = valid_ids [OF assms(1)]
  have m: "mint_executor_worktrees dig memory_ops nm rs parent w = (Inr (map (minted parent) ?exs), ?rs)"
    using mint_loop_memory [OF assms(2) ids(1), of rs parent nm "[]"] ids(2) assms(3) by (simp add: mint_executor_worktrees_def)
  have own: "read_ref memory_ops nm ?rs (child_name parent ex) = Inr (Some \<lparr>wr_name = child_name parent ex,
      wr_tree_digest = if ex_worktree_mode ex = BranchMode then wr_tree_digest parent else ed0\<rparr>)"
    if "ex \<in> set ?exs" "own_ref ex" for ex
    using minted_log_own [OF ids(1) that, of nm parent ed0 rs] by (simp add: read_ref_def decode_encode_ref_moved)
  have other: "read_ref memory_ops nm ?rs n = read_ref memory_ops nm rs n" if "\<forall>ex\<in>set ?exs. own_ref ex \<longrightarrow> n \<noteq> child_name parent ex" for n
    using minted_log_other [OF that, of nm ed0 rs] by (simp add: read_ref_def)
  have rd: "ref_readable nm ?rs (child_name parent ex)" if "ex \<in> set ?exs" for ex
  proof (cases "own_ref ex")
    case True
    then show ?thesis using own [OF that] by (simp add: ref_readable_def has_ref_def)
  next
    case False
    have "x = ex" if "x \<in> set ?exs" "ex_id x = ex_id ex" for x
      using that \<open>ex \<in> set ?exs\<close> ids(1) by (auto simp: distinct_map dest: inj_onD)
    then have "read_ref memory_ops nm ?rs (child_name parent ex) = read_ref memory_ops nm rs (child_name parent ex)"
      using False by (intro other) auto
    then show ?thesis using assms(3) that by (simp add: ref_readable_def read_ref_def)
  qed
  have run: "(own_ref ex \<longrightarrow> has_ref nm (ref_run dig memory_ops nm ops ?rs) (child_name parent ex)) \<and>
      ref_readable nm (ref_run dig memory_ops nm ops ?rs) (child_name parent ex)" if "ex \<in> set ?exs" for ex ops
    using own [OF that] rd [OF that] ref_run_keeps [of nm ?rs _ dig ops] by (auto simp: has_ref_def)
  have "resume_executor_worktrees memory_ops nm (ref_run dig memory_ops nm ops ?rs) parent w =
      (if \<exists>ex\<in>set ?exs. ex_worktree_mode ex = ReadonlyMode
       then Inl (Error Contract ''worktree_scoping.readonly_resume_unsupported'') else Inr (map forget_base (map (minted parent) ?exs)))" for ops
    using resume_loop_minted [of ?exs nm "ref_run dig memory_ops nm ops ?rs" parent] run ids(2)
    by (simp add: resume_executor_worktrees_def)
  moreover have "fst (mint_executor_worktrees dig memory_ops nm (ref_run dig memory_ops nm ops ?rs) parent w)
      = Inl (Error Contract ''worktree_scoping.already_minted'')" if "ex \<in> set ?exs" "own_ref ex" for ops ex
    using mint_again [of ?exs nm "ref_run dig memory_ops nm ops ?rs" parent ex dig "[]"] run ids(2) that
    by (auto simp: mint_executor_worktrees_def)
  moreover have "sw_backing_ref_name (eg_sub (minted parent x)) \<noteq> child_name parent ex"
    if "ex \<in> set ?exs" "x \<in> set ?exs" "x \<noteq> ex" for ex x
    using that ids(1) by (intro minted_exclusive) (auto simp: distinct_map dest: inj_onD)
  ultimately have "\<exists>gs rs'. mint_executor_worktrees dig memory_ops nm rs parent w = (Inr gs, rs') \<and> gs = map (minted parent) ?exs \<and>
    (\<forall>ex\<in>set ?exs. own_ref ex \<longrightarrow> sw_backing_ref_name (eg_sub (minted parent ex)) = child_name parent ex \<and>
       read_ref memory_ops nm rs' (child_name parent ex) = Inr (Some \<lparr>wr_name = child_name parent ex,
         wr_tree_digest = if ex_worktree_mode ex = BranchMode then wr_tree_digest parent else ed0\<rparr>)) \<and>
    (\<forall>ex\<in>set ?exs. \<forall>x\<in>set ?exs. own_ref ex \<longrightarrow> x \<noteq> ex \<longrightarrow> sw_backing_ref_name (eg_sub (minted parent x)) \<noteq> child_name parent ex) \<and>
    (\<forall>n. (\<forall>ex\<in>set ?exs. own_ref ex \<longrightarrow> n \<noteq> child_name parent ex) \<longrightarrow> read_ref memory_ops nm rs' n = read_ref memory_ops nm rs n) \<and>
    (\<forall>ops. resume_executor_worktrees memory_ops nm (ref_run dig memory_ops nm ops rs') parent w =
       (if \<exists>ex\<in>set ?exs. ex_worktree_mode ex = ReadonlyMode
        then Inl (Error Contract ''worktree_scoping.readonly_resume_unsupported'') else Inr (map forget_base gs))) \<and>
    (\<forall>ops. (\<exists>ex\<in>set ?exs. own_ref ex) \<longrightarrow> fst (mint_executor_worktrees dig memory_ops nm (ref_run dig memory_ops nm ops rs') parent w)
       = Inl (Error Contract ''worktree_scoping.already_minted''))"
    using m own other minted_backing by (intro exI conjI) auto
  with mint_refused_on_file_store [OF assms(1)] show ?thesis by blast
qed

definition demo_parent :: worktree_ref where
  "demo_parent = \<lparr>wr_name = ''run'', wr_tree_digest = ''base''\<rparr>"

theorem minted_worktrees_resume_witness:
  "\<exists>gs rs'. mint_executor_worktrees (\<lambda>b. Inr ''e'') memory_ops int_ops (\<lambda>i. []) demo_parent demo_flow = (Inr gs, rs') \<and>
     resume_executor_worktrees memory_ops int_ops (ref_run (\<lambda>b. Inr ''e'') memory_ops int_ops [] rs') demo_parent demo_flow
       = Inr (map forget_base gs)"
proof -
  have "\<not> (\<exists>ex\<in>set (wf_executors demo_flow). ex_worktree_mode ex = ReadonlyMode)" by (simp add: demo_flow_def demo_step_def)
  moreover have "empty_tree_digest (\<lambda>b. Inr ''e'') = Inr ''e''" by (simp add: empty_tree_digest_def)
  moreover have "\<forall>ex\<in>set (wf_executors demo_flow). (\<lambda>i. []) (ref_log_id (child_name demo_parent ex)) = []" by simp
  ultimately show ?thesis
    using minted_worktrees_resume [OF demo_flow_valid, of "\<lambda>b. Inr ''e''" "''e''" "\<lambda>i. []" demo_parent int_ops
        "\<lparr>fl_files = Map.empty, fl_sync = Disk, fl_faults = []\<rparr>"] by metis
qed

end
