(* ===== verification/EffectJournal.thy ===== *)
theory EffectJournal
  imports Json FileLog
begin

text \<open>
  The effect journal: \<^verbatim>\<open>include/agentengine/rt/effect_journal.hpp\<close>, with the idempotency keys of
  \<^verbatim>\<open>core/tool_pipeline.hpp\<close>. The intent to perform an effect is appended to the session's log before
  the effect, its outcome after; on resume the intents without an outcome are the effects to reconcile.
  The record layout is proved exact in both directions, and the answer on resume right over any log
  store, in particular over the durable one with faults.
\<close>

section \<open>Idempotency keys\<close>

definition argument_digest :: "string \<Rightarrow> u64" where
  "argument_digest s =
     foldl (\<lambda>h c. (h XOR of_nat (of_char c)) * 0x00000100000001B3) 0xCBF29CE484222325 s"

record idempotency_key =
  ik_run_id :: string
  ik_turn_index :: u64
  ik_call_index :: u64
  ik_argument_digest :: u64

definition key_to_string :: "idempotency_key \<Rightarrow> string" where
  "key_to_string k = ik_run_id k @ '':'' @ show_nat (unat (ik_turn_index k)) @ '':'' @ show_nat (unat (ik_call_index k))
     @ '':'' @ show_nat (unat (ik_argument_digest k))"

text \<open>Of the context, the run's id and the turn index are read.\<close>

definition derive_idempotency_key :: "'n num_ops \<Rightarrow> string \<Rightarrow> u64 \<Rightarrow> u64 \<Rightarrow> 'n json \<Rightarrow> idempotency_key" where
  "derive_idempotency_key nm run_id turn_index call_index arguments =
     \<lparr>ik_run_id = run_id, ik_turn_index = turn_index, ik_call_index = call_index,
      ik_argument_digest = argument_digest (dump nm arguments)\<rparr>"

datatype effect_class = PureEffect | IdempotentEffect | AtMostOnceEffect

definition authorize_reexecution :: "effect_class \<Rightarrow> bool \<Rightarrow> unit result" where
  "authorize_reexecution cls operator_acknowledged =
     (case cls of
        PureEffect \<Rightarrow> Inr ()
      | IdempotentEffect \<Rightarrow> Inr ()
      | AtMostOnceEffect \<Rightarrow>
          if operator_acknowledged then Inr () else Inl (Error Policy ''effect.reexecution_requires_ack''))"

section \<open>Records\<close>

datatype effect_journal_phase = Intent | Outcome

record effect_journal_entry =
  je_idempotency_key :: string
  je_tool_name :: string
  je_call_id :: string
  je_phase :: effect_journal_phase
  je_outcome_ok :: bool

abbreviation (input) "effect_journal_magic \<equiv> 0xAE :: u8"
abbreviation (input) "effect_journal_format_version \<equiv> 1 :: u8"
abbreviation (input) "effect_journal_max_field_bytes \<equiv> 65536 :: nat"

definition malformed :: "'a result" where
  "malformed = Inl (Error Contract ''rt.effect_journal.entry.malformed'')"

text \<open>The reader: what is left of the record after each read.\<close>

definition read_u8 :: "u8 list \<Rightarrow> (u8 \<times> u8 list) result" where
  "read_u8 bytes = (case bytes of [] \<Rightarrow> malformed | b # bs \<Rightarrow> Inr (b, bs))"

definition read_str :: "u8 list \<Rightarrow> (string \<times> u8 list) result" where
  "read_str bytes =
     (if length bytes < 4 then malformed
      else
        let len = unat (load_le32 bytes 0); rest = drop 4 bytes
        in if effect_journal_max_field_bytes < len then malformed
           else if length rest < len then malformed
           else Inr (map char_of_byte (take len rest), drop len rest))"

definition encode_effect_journal_entry :: "effect_journal_entry \<Rightarrow> u8 list result" where
  "encode_effect_journal_entry e =
     (if list_ex (\<lambda>field. effect_journal_max_field_bytes < length field)
           [je_idempotency_key e, je_tool_name e, je_call_id e]
      then Inl (Error Contract ''rt.effect_journal.entry.field_too_large'')
      else Inr ([effect_journal_magic, effect_journal_format_version,
                 if je_phase e = Intent then 0 else 1,
                 if je_phase e = Outcome \<and> je_outcome_ok e then 1 else 0]
                @ concat (map put_str [je_idempotency_key e, je_tool_name e, je_call_id e])))"

definition decode_fields :: "effect_journal_phase \<Rightarrow> bool \<Rightarrow> u8 list \<Rightarrow> effect_journal_entry result" where
  "decode_fields phase ok bytes =
     (case read_str bytes of
        Inl e \<Rightarrow> Inl e
      | Inr (key, r1) \<Rightarrow>
          (case read_str r1 of
             Inl e \<Rightarrow> Inl e
           | Inr (tool, r2) \<Rightarrow>
               (case read_str r2 of
                  Inl e \<Rightarrow> Inl e
                | Inr (call, r3) \<Rightarrow>
                    if r3 \<noteq> [] then malformed
                    else Inr \<lparr>je_idempotency_key = key, je_tool_name = tool, je_call_id = call,
                              je_phase = phase, je_outcome_ok = ok\<rparr>)))"

definition decode_header :: "u8 list \<Rightarrow> (effect_journal_phase \<times> bool \<times> u8 list) result" where
  "decode_header bytes =
     (case read_u8 bytes of
        Inl e \<Rightarrow> Inl e
      | Inr (version, r1) \<Rightarrow>
          if version \<noteq> effect_journal_format_version
          then Inl (Error Contract ''rt.effect_journal.entry.unsupported_version'')
          else case read_u8 r1 of
                 Inl e \<Rightarrow> Inl e
               | Inr (phase, r2) \<Rightarrow>
                   if 1 < phase then malformed
                   else case read_u8 r2 of
                          Inl e \<Rightarrow> Inl e
                        | Inr (ok, r3) \<Rightarrow>
                            if 1 < ok \<or> phase = 0 \<and> ok \<noteq> 0 then malformed
                            else Inr (if phase = 0 then Intent else Outcome, ok = 1, r3))"

definition decode_effect_journal_entry :: "u8 list \<Rightarrow> effect_journal_entry result" where
  "decode_effect_journal_entry bytes =
     (case bytes of
        [] \<Rightarrow> malformed
      | magic # rest \<Rightarrow>
          if magic \<noteq> effect_journal_magic
          then if magic = byte_of_char CHR 0x7B
               then Inl (Error Contract ''rt.effect_journal.entry.legacy_json_format'') else malformed
          else case decode_header rest of
                 Inl e \<Rightarrow> Inl e
               | Inr (phase, ok, r) \<Rightarrow> decode_fields phase ok r)"

section \<open>The journal\<close>

definition effect_journal_log_id :: "string \<Rightarrow> string" where
  "effect_journal_log_id session_id = session_id @ '':effect_journal''"

definition append_entry :: "'s log_ops \<Rightarrow> 's \<Rightarrow> string \<Rightarrow> effect_journal_entry \<Rightarrow> unit result \<times> 's" where
  "append_entry ops st session_id entry =
     (case encode_effect_journal_entry entry of
        Inl e \<Rightarrow> (Inl e, st)
      | Inr bytes \<Rightarrow>
          (case lo_append ops st (effect_journal_log_id session_id) bytes of
             (Inl e, st') \<Rightarrow> (Inl e, st')
           | (Inr n, st') \<Rightarrow> (Inr (), st')))"

definition journal_effect_intent ::
  "'s log_ops \<Rightarrow> 's \<Rightarrow> string \<Rightarrow> idempotency_key \<Rightarrow> string \<Rightarrow> string \<Rightarrow> unit result \<times> 's" where
  "journal_effect_intent ops st session_id key tool_name call_id =
     append_entry ops st session_id
       \<lparr>je_idempotency_key = key_to_string key, je_tool_name = tool_name, je_call_id = call_id,
        je_phase = Intent, je_outcome_ok = False\<rparr>"

definition journal_effect_outcome ::
  "'s log_ops \<Rightarrow> 's \<Rightarrow> string \<Rightarrow> idempotency_key \<Rightarrow> string \<Rightarrow> string \<Rightarrow> bool \<Rightarrow> unit result \<times> 's" where
  "journal_effect_outcome ops st session_id key tool_name call_id ok =
     append_entry ops st session_id
       \<lparr>je_idempotency_key = key_to_string key, je_tool_name = tool_name, je_call_id = call_id,
        je_phase = Outcome, je_outcome_ok = ok\<rparr>"

fun decode_all :: "u8 list list \<Rightarrow> effect_journal_entry list result" where
  "decode_all [] = Inr []"
| "decode_all (b # bs) =
     (case decode_effect_journal_entry b of
        Inl e \<Rightarrow> Inl e
      | Inr entry \<Rightarrow> (case decode_all bs of Inl e \<Rightarrow> Inl e | Inr es \<Rightarrow> Inr (entry # es)))"

definition read_effect_journal :: "'s log_ops \<Rightarrow> 's \<Rightarrow> string \<Rightarrow> effect_journal_entry list result" where
  "read_effect_journal ops st session_id =
     (case lo_read_from ops st (effect_journal_log_id session_id) 0 of Inl e \<Rightarrow> Inl e | Inr raw \<Rightarrow> decode_all raw)"

definition has_outcome :: "effect_journal_entry list \<Rightarrow> string \<Rightarrow> bool" where
  "has_outcome es key = list_ex (\<lambda>e. je_phase e = Outcome \<and> je_idempotency_key e = key) es"

definition unconfirmed_effect_intents :: "'s log_ops \<Rightarrow> 's \<Rightarrow> string \<Rightarrow> effect_journal_entry list result" where
  "unconfirmed_effect_intents ops st session_id =
     (case read_effect_journal ops st session_id of
        Inl e \<Rightarrow> Inl e
      | Inr entries \<Rightarrow> Inr (filter (\<lambda>e. je_phase e = Intent \<and> \<not> has_outcome entries (je_idempotency_key e)) entries))"

section \<open>The codec\<close>

lemma read_str_iff: "read_str bytes = Inr (s, rest) \<longleftrightarrow> bytes = put_str s @ rest \<and> length s \<le> 65536"
proof
  assume r: "read_str bytes = Inr (s, rest)"
  define n where "n = unat (load_le32 bytes 0)"
  from r have len: "4 \<le> length bytes" "n \<le> 65536" "n \<le> length (drop 4 bytes)"
    and s: "s = map char_of_byte (take n (drop 4 bytes))" and rest: "rest = drop n (drop 4 bytes)"
    by (auto simp: read_str_def n_def malformed_def Let_def split: if_splits)
  have "of_nat (length s) = load_le32 bytes 0" using s len by (simp add: n_def)
  then have "put_str s = take 4 bytes @ take n (drop 4 bytes)"
    using put_load [of 0 bytes] len by (simp add: put_str_def s slice_def comp_def)
  then show "bytes = put_str s @ rest \<and> length s \<le> 65536"
    using len s rest by (metis append.assoc append_take_drop_id length_map length_take min.absorb2)
next
  assume a: "bytes = put_str s @ rest \<and> length s \<le> 65536"
  then have "load_le32 bytes 0 = of_nat (length s)"
    using load_put [of "[]" "of_nat (length s)" "map byte_of_char s @ rest"] by (simp add: put_str_def)
  then have "unat (load_le32 bytes 0) = length s" using a by (simp add: unat_of_nat_small32)
  with a show "read_str bytes = Inr (s, rest)"
    by (simp add: read_str_def Let_def put_str_def comp_def)
qed

lemma decode_fields_iff:
  "decode_fields phase ok bytes = Inr e \<longleftrightarrow>
     je_phase e = phase \<and> je_outcome_ok e = ok \<and>
     list_all (\<lambda>f. length f \<le> 65536) [je_idempotency_key e, je_tool_name e, je_call_id e] \<and>
     bytes = concat (map put_str [je_idempotency_key e, je_tool_name e, je_call_id e])"
proof
  show "decode_fields phase ok bytes = Inr e \<Longrightarrow>
     je_phase e = phase \<and> je_outcome_ok e = ok \<and>
     list_all (\<lambda>f. length f \<le> 65536) [je_idempotency_key e, je_tool_name e, je_call_id e] \<and>
     bytes = concat (map put_str [je_idempotency_key e, je_tool_name e, je_call_id e])"
    by (auto simp: decode_fields_def malformed_def read_str_iff split: sum.splits prod.splits if_splits)
next
  assume a: "je_phase e = phase \<and> je_outcome_ok e = ok \<and>
     list_all (\<lambda>f. length f \<le> 65536) [je_idempotency_key e, je_tool_name e, je_call_id e] \<and>
     bytes = concat (map put_str [je_idempotency_key e, je_tool_name e, je_call_id e])"
  let ?k = "je_idempotency_key e" and ?t = "je_tool_name e" and ?c = "je_call_id e"
  have "read_str bytes = Inr (?k, put_str ?t @ put_str ?c)" "read_str (put_str ?t @ put_str ?c) = Inr (?t, put_str ?c)"
    "read_str (put_str ?c) = Inr (?c, [])"
    using a by (simp_all add: read_str_iff)
  then show "decode_fields phase ok bytes = Inr e" using a by (simp add: decode_fields_def)
qed

definition canonical_entry :: "effect_journal_entry \<Rightarrow> bool" where
  "canonical_entry e \<longleftrightarrow> (je_phase e = Intent \<longrightarrow> \<not> je_outcome_ok e)"

lemma byte_le_1: "\<not> 1 < b \<Longrightarrow> b = 0 \<or> b = 1" for b :: u8
proof -
  assume "\<not> 1 < b"
  then have "unat b \<le> 1" by (simp add: word_less_nat_alt not_less)
  then have "unat b = 0 \<or> unat b = unat (1 :: u8)" by auto
  then show ?thesis by (auto simp only: unsigned_eq_0_iff word_unat_eq_iff)
qed

lemma decode_header_iff:
  "decode_header bytes = Inr (phase, ok, rest) \<longleftrightarrow>
     bytes = [1, if phase = Intent then 0 else 1, if ok then 1 else 0] @ rest \<and> (phase = Intent \<longrightarrow> \<not> ok)"
  using byte_le_1
  by (cases phase) (auto simp: decode_header_def read_u8_def malformed_def split: list.splits if_splits)

lemma decode_iff: "decode_effect_journal_entry bytes = Inr e \<longleftrightarrow> canonical_entry e \<and> encode_effect_journal_entry e = Inr bytes"
proof -
  have "decode_effect_journal_entry bytes = Inr e \<longleftrightarrow>
      (\<exists>rest phase ok r. bytes = 0xAE # rest \<and> decode_header rest = Inr (phase, ok, r) \<and> decode_fields phase ok r = Inr e)"
    by (auto simp: decode_effect_journal_entry_def malformed_def split: list.splits sum.splits if_splits)
  also have "\<dots> \<longleftrightarrow> canonical_entry e \<and> encode_effect_journal_entry e = Inr bytes"
    by (auto simp: decode_header_iff decode_fields_iff encode_effect_journal_entry_def canonical_entry_def not_less
        intro: effect_journal_phase.exhaust [of "je_phase e"])
  finally show ?thesis .
qed

section \<open>Keys do not collide\<close>

lemma key_to_string_inj: "key_to_string k = key_to_string l \<longleftrightarrow> k = l"
proof
  assume h: "key_to_string k = key_to_string l"
  let ?a = "\<lambda>k. ik_run_id k @ '':'' @ show_nat (unat (ik_turn_index k))"
  let ?b = "\<lambda>k. ?a k @ '':'' @ show_nat (unat (ik_call_index k))"
  from h have "?b k @ '':'' @ show_nat (unat (ik_argument_digest k)) = ?b l @ '':'' @ show_nat (unat (ik_argument_digest l))"
    by (simp add: key_to_string_def)
  then have b: "?b k = ?b l" and d: "ik_argument_digest k = ik_argument_digest l"
    using last_colon_unique show_nat_no_colon by (blast, metis last_colon_unique show_nat_no_colon show_nat_inj word_unat_eq_iff)
  from b have "?a k @ '':'' @ show_nat (unat (ik_call_index k)) = ?a l @ '':'' @ show_nat (unat (ik_call_index l))" by simp
  then have a: "?a k = ?a l" and c: "ik_call_index k = ik_call_index l"
    using last_colon_unique show_nat_no_colon by (blast, metis last_colon_unique show_nat_no_colon show_nat_inj word_unat_eq_iff)
  from a have "ik_run_id k = ik_run_id l" "ik_turn_index k = ik_turn_index l"
    using last_colon_unique show_nat_no_colon by (blast, metis last_colon_unique show_nat_no_colon show_nat_inj word_unat_eq_iff)
  with c d show "k = l" by simp
qed simp

section \<open>Histories\<close>

text \<open>What a session journals, in order, and what each call reported.\<close>

datatype journal_op = JIntent idempotency_key string string | JOutcome idempotency_key string string bool

fun journal_step :: "'s log_ops \<Rightarrow> string \<Rightarrow> journal_op \<Rightarrow> 's \<Rightarrow> unit result \<times> 's" where
  "journal_step ops sid (JIntent k t c) st = journal_effect_intent ops st sid k t c"
| "journal_step ops sid (JOutcome k t c ok) st = journal_effect_outcome ops st sid k t c ok"

fun journal_run :: "'s log_ops \<Rightarrow> string \<Rightarrow> journal_op list \<Rightarrow> 's \<Rightarrow> unit result list \<times> 's" where
  "journal_run ops sid [] st = ([], st)"
| "journal_run ops sid (j # js) st =
     (case journal_step ops sid j st of
        (r, st') \<Rightarrow> (case journal_run ops sid js st' of (rs, st'') \<Rightarrow> (r # rs, st'')))"

fun op_entry :: "journal_op \<Rightarrow> effect_journal_entry" where
  "op_entry (JIntent k t c) = \<lparr>je_idempotency_key = key_to_string k, je_tool_name = t, je_call_id = c,
     je_phase = Intent, je_outcome_ok = False\<rparr>"
| "op_entry (JOutcome k t c ok) = \<lparr>je_idempotency_key = key_to_string k, je_tool_name = t, je_call_id = c,
     je_phase = Outcome, je_outcome_ok = ok\<rparr>"

lemma journal_step_append: "journal_step ops sid j st = append_entry ops st sid (op_entry j)"
  by (cases j) (simp_all add: journal_effect_intent_def journal_effect_outcome_def)

lemma canonical_op_entry: "canonical_entry (op_entry j)"
  by (cases j) (simp_all add: canonical_entry_def)

lemma decode_all_snoc:
  "decode_all bs = Inr es \<Longrightarrow> decode_effect_journal_entry b = Inr e \<Longrightarrow> decode_all (bs @ [b]) = Inr (es @ [e])"
  by (induction bs arbitrary: es) (auto split: sum.splits)

text \<open>The effects a list of calls is about.\<close>

definition intents :: "journal_op set \<Rightarrow> idempotency_key set" where
  "intents js = {k. \<exists>t c. JIntent k t c \<in> js}"

definition outcomes :: "journal_op set \<Rightarrow> idempotency_key set" where
  "outcomes js = {k. \<exists>t c ok. JOutcome k t c ok \<in> js}"

definition succeeded :: "journal_op list \<Rightarrow> unit result list \<Rightarrow> journal_op set" where
  "succeeded js rs = {j. (j, Inr ()) \<in> set (zip js rs)}"

text \<open>The intents a list of entries leaves open.\<close>

definition open_entries :: "effect_journal_entry list \<Rightarrow> effect_journal_entry list" where
  "open_entries es = filter (\<lambda>e. je_phase e = Intent \<and> \<not> has_outcome es (je_idempotency_key e)) es"

fun op_key :: "journal_op \<Rightarrow> idempotency_key" where
  "op_key (JIntent k t c) = k"
| "op_key (JOutcome k t c ok) = k"

lemma op_entry_key [simp]: "je_idempotency_key (op_entry j) = key_to_string (op_key j)"
  by (cases j) simp_all

lemma op_entry_phase:
  "je_phase (op_entry j) = Intent \<longleftrightarrow> (\<exists>t c. j = JIntent (op_key j) t c)"
  "je_phase (op_entry j) = Outcome \<longleftrightarrow> (\<exists>t c ok. j = JOutcome (op_key j) t c ok)"
  by (cases j; simp)+

lemma intents_iff: "k \<in> intents js \<longleftrightarrow> (\<exists>j\<in>js. je_phase (op_entry j) = Intent \<and> op_key j = k)"
  unfolding intents_def op_entry_phase mem_Collect_eq by (metis op_key.simps(1))

lemma outcomes_iff: "k \<in> outcomes js \<longleftrightarrow> (\<exists>j\<in>js. je_phase (op_entry j) = Outcome \<and> op_key j = k)"
  unfolding outcomes_def op_entry_phase mem_Collect_eq by (metis op_key.simps(2))

lemma open_entries_between:
  assumes tried: "set es \<subseteq> op_entry ` js" and kept: "op_entry ` ok \<subseteq> set es"
  shows "key_to_string ` (intents ok - outcomes js) \<subseteq> je_idempotency_key ` set (open_entries es) \<and>
    je_idempotency_key ` set (open_entries es) \<subseteq> key_to_string ` (intents js - outcomes ok)"
proof (intro conjI subsetI)
  fix x assume "x \<in> key_to_string ` (intents ok - outcomes js)"
  then obtain j where j: "j \<in> ok" "je_phase (op_entry j) = Intent" "op_key j \<notin> outcomes js" and x: "x = key_to_string (op_key j)"
    by (auto simp: intents_iff)
  have "\<not> has_outcome es (key_to_string (op_key j))"
    using tried j(3) by (auto simp: has_outcome_def list_ex_iff outcomes_iff key_to_string_inj)
  then have "op_entry j \<in> set (open_entries es)" using kept j(1,2) by (auto simp: open_entries_def)
  then show "x \<in> je_idempotency_key ` set (open_entries es)" using x by force
next
  fix x assume "x \<in> je_idempotency_key ` set (open_entries es)"
  then obtain j where j: "j \<in> js" "je_phase (op_entry j) = Intent" and no: "\<not> has_outcome es (key_to_string (op_key j))"
    and x: "x = key_to_string (op_key j)" using tried by (auto simp: open_entries_def)
  have "op_key j \<notin> outcomes ok"
    using no kept by (fastforce simp: outcomes_iff has_outcome_def list_ex_iff)
  moreover have "op_key j \<in> intents js" using j by (auto simp: intents_iff)
  ultimately show "x \<in> key_to_string ` (intents js - outcomes ok)" using x by blast
qed

section \<open>Over any log store\<close>

context append_log
begin

lemma append_entry_cases:
  assumes "wf s" and "append_entry ops s sid e = (r, s')" and "canonical_entry e"
    and "decode_all (entries s (effect_journal_log_id sid)) = Inr es"
  shows "wf s' \<and> (\<exists>es'. decode_all (entries s' (effect_journal_log_id sid)) = Inr (es @ es') \<and>
    set es' \<subseteq> {e} \<and> (r = Inr () \<longrightarrow> e \<in> set es'))"
proof (cases "encode_effect_journal_entry e")
  case (Inl x)
  then have "s' = s" "r \<noteq> Inr ()" using assms(2) by (auto simp: append_entry_def)
  then show ?thesis using assms(1,4) by auto
next
  case (Inr b)
  then have d: "decode_effect_journal_entry b = Inr e" using assms(3) by (simp add: decode_iff)
  obtain q where q: "lo_append ops s (effect_journal_log_id sid) b = (q, s')" and r: "r = Inr () \<Longrightarrow> \<exists>n. q = Inr n"
    using assms(2) Inr by (auto simp: append_entry_def split: prod.splits sum.splits)
  have s: "decode_all (entries s (effect_journal_log_id sid) @ [b]) = Inr (es @ [e])"
    using decode_all_snoc [OF assms(4) d] .
  show ?thesis
  proof (cases "entries s' = (entries s)(effect_journal_log_id sid := entries s (effect_journal_log_id sid) @ [b])")
    case True
    then have "decode_all (entries s' (effect_journal_log_id sid)) = Inr (es @ [e])" using s by simp
    then show ?thesis using append_wf [OF assms(1) q] by (intro conjI exI [of _ "[e]"]) auto
  next
    case False
    then have "entries s' = entries s" "\<nexists>n. q = Inr n"
      using append_ok [OF assms(1)] append_error [OF assms(1)] q by (cases q; blast)+
    then show ?thesis using append_wf [OF assms(1) q] assms(4) r by (intro conjI exI [of _ "[]"]) auto
  qed
qed

lemma journal_run_entries:
  assumes "wf s" and "journal_run ops sid js s = (rs, s')"
    and "decode_all (entries s (effect_journal_log_id sid)) = Inr es"
  shows "wf s' \<and> (\<exists>es'. decode_all (entries s' (effect_journal_log_id sid)) = Inr (es @ es') \<and>
    set es' \<subseteq> op_entry ` set js \<and> op_entry ` succeeded js rs \<subseteq> set es')"
  using assms
proof (induction js arbitrary: s rs es)
  case (Cons j js)
  obtain r s1 rs1 where j: "append_entry ops s sid (op_entry j) = (r, s1)"
    and js: "journal_run ops sid js s1 = (rs1, s')" and rs: "rs = r # rs1"
    using Cons.prems(2) by (auto simp: journal_step_append split: prod.splits)
  obtain e1 where e1: "wf s1" "decode_all (entries s1 (effect_journal_log_id sid)) = Inr (es @ e1)"
    "set e1 \<subseteq> {op_entry j}" "r = Inr () \<longrightarrow> op_entry j \<in> set e1"
    using append_entry_cases [OF Cons.prems(1) j canonical_op_entry Cons.prems(3)] by blast
  obtain e2 where e2: "wf s'" "decode_all (entries s' (effect_journal_log_id sid)) = Inr ((es @ e1) @ e2)"
    "set e2 \<subseteq> op_entry ` set js" "op_entry ` succeeded js rs1 \<subseteq> set e2"
    using Cons.IH [OF e1(1) js e1(2)] by blast
  have "op_entry ` succeeded (j # js) rs \<subseteq> set (e1 @ e2)"
    using e1(4) e2(4) by (auto simp: succeeded_def rs)
  then show ?case using e1 e2 by (intro conjI exI [of _ "e1 @ e2"]) auto
qed (auto simp: succeeded_def)

lemma resumed_journal:
  assumes "wf s" and "entries s (effect_journal_log_id sid) = []" and "journal_run ops sid js s = (rs, s')"
    and "unconfirmed_effect_intents ops s' sid = Inr us"
  shows "key_to_string ` (intents (succeeded js rs) - outcomes (set js)) \<subseteq> je_idempotency_key ` set us \<and>
    je_idempotency_key ` set us \<subseteq> key_to_string ` (intents (set js) - outcomes (succeeded js rs))"
proof -
  obtain es where w: "wf s'" and es: "decode_all (entries s' (effect_journal_log_id sid)) = Inr es"
    "set es \<subseteq> op_entry ` set js" "op_entry ` succeeded js rs \<subseteq> set es"
    using journal_run_entries [OF assms(1,3), of "[]"] assms(2) by auto
  obtain raw where "lo_read_from ops s' (effect_journal_log_id sid) 0 = Inr raw" "decode_all raw = Inr es' \<longrightarrow> us = open_entries es'"
    for es'
    using assms(4) by (auto simp: unconfirmed_effect_intents_def read_effect_journal_def open_entries_def split: sum.splits)
  then have "us = open_entries es" using read_ok [OF w] es(1) by force
  then show ?thesis using open_entries_between [OF es(2,3)] by simp
qed

end

text \<open>A fresh log takes an append and gives it back.\<close>

lemma first_append:
  assumes "path_for i = Inr i" and "length b < 2 ^ 32" and "fl_files st i = None" and "fl_faults st = []"
  shows "\<exists>st'. append_blocking st i b = (Inr 1, st') \<and> read_from_blocking st' i 0 = Inr [b]"
proof -
  have "append_frame fresh_scan b = enc3 [b]"
    by (simp add: append_frame_def fresh_scan_def Let_def enc3_def frame3_def header3_def)
  then have a: "append_blocking st i b = (Inr 1, with_file (st\<lparr>fl_faults := []\<rparr>) i (enc3 [b]))"
    using assms
    by (simp add: append_blocking_def next_faults_def no_faults_def append_locked_def scan_log_def damage_error_def Let_def)
      (simp add: fresh_scan_def)
  have "read_records (enc3 [b]) 0 = Inr [b]"
    using log_holds_read [OF log_holds_enc3, of "[b]" 0] assms(2) by (simp add: small_def)
  then have "read_from_blocking (with_file (st\<lparr>fl_faults := []\<rparr>) i (enc3 [b])) i 0 = Inr [b]"
    using assms
    by (simp add: read_from_blocking_def read_locked_def next_faults_def no_faults_def with_file_def read_records_def Let_def)
  with a show ?thesis by blast
qed

definition demo_key :: idempotency_key where
  "demo_key = \<lparr>ik_run_id = ''run'', ik_turn_index = 1, ik_call_index = 2, ik_argument_digest = 3\<rparr>"

definition demo_journal_store :: file_store where
  "demo_journal_store = \<lparr>fl_files = Map.empty, fl_sync = OsBuffer, fl_faults = []\<rparr>"

section \<open>Properties\<close>

text \<open>The record layout is exact: the bytes the reader accepts as an entry are precisely the bytes the writer
  produces for it, so every record reads back as written, no two layouts denote one entry, and truncated,
  extended or foreign records are refused.\<close>

theorem journal_record_exact:
  "decode_effect_journal_entry bytes = Inr e \<longleftrightarrow>
     (je_phase e = Outcome \<or> je_outcome_ok e = False) \<and> encode_effect_journal_entry e = Inr bytes"
  using decode_iff [of bytes e] by (cases "je_phase e") (auto simp: canonical_entry_def)

text \<open>C24. Resuming from the durable journal never loses and never invents an open effect, whatever the file
  system did: after any sequence of journal calls on a fresh journal, if the journal can be read, every
  effect whose intent was reported journaled and whose outcome was never attempted is reported
  unconfirmed, and every effect reported unconfirmed had an intent journaled and no outcome that was reported
  journaled; effects are told apart by their full key.\<close>

theorem unconfirmed_effects_complete:
  assumes "file_wf st" and "file_entries st (effect_journal_log_id sid) = []"
    and "journal_run file_ops sid js st = (rs, st')" and "unconfirmed_effect_intents file_ops st' sid = Inr us"
  shows "key_to_string ` (intents (succeeded js rs) - outcomes (set js)) \<subseteq> je_idempotency_key ` set us \<and>
    je_idempotency_key ` set us \<subseteq> key_to_string ` (intents (set js) - outcomes (succeeded js rs)) \<and> inj key_to_string"
  using disk.resumed_journal [OF assms] key_to_string_inj by (auto simp: inj_def)

theorem unconfirmed_effects_complete_witness:
  "\<exists>us. unconfirmed_effect_intents file_ops
       (snd (journal_run file_ops ''s'' [JIntent demo_key ''send'' ''c1''] demo_journal_store)) ''s'' = Inr us \<and>
     ''run:1:2:3'' \<in> je_idempotency_key ` set us"
proof -
  let ?j = "JIntent demo_key ''send'' ''c1''" and ?i = "effect_journal_log_id ''s''"
  have key: "key_to_string demo_key = ''run:1:2:3''"
    by (simp add: key_to_string_def demo_key_def show_nat.simps digit_char_def char_of_def bit_0)
  obtain b where b: "encode_effect_journal_entry (op_entry ?j) = Inr b" "length b < 2 ^ 32"
    by (simp add: encode_effect_journal_entry_def key)
  have "path_for ?i = Inr ?i" by (simp add: path_for_def effect_journal_log_id_def)
  then obtain st' where a: "append_blocking demo_journal_store ?i b = (Inr 1, st')" "read_from_blocking st' ?i 0 = Inr [b]"
    using first_append [of ?i b demo_journal_store] b(2) by (auto simp: demo_journal_store_def)
  have run: "journal_run file_ops ''s'' [?j] demo_journal_store = ([Inr ()], st')"
    using a(1) b(1) by (simp add: journal_step_append append_entry_def file_ops_def del: op_entry.simps)
  have "decode_effect_journal_entry b = Inr (op_entry ?j)" using b(1) canonical_op_entry by (simp only: decode_iff)
  then obtain us where us: "unconfirmed_effect_intents file_ops st' ''s'' = Inr us"
    using a(2) by (simp add: unconfirmed_effect_intents_def read_effect_journal_def file_ops_def del: op_entry.simps)
  have "file_wf demo_journal_store" "file_entries demo_journal_store ?i = []"
    by (simp_all add: file_wf_def file_entries_def demo_journal_store_def split: sum.splits)
  from unconfirmed_effects_complete [OF this run us]
  have "key_to_string demo_key \<in> je_idempotency_key ` set us"
    by (auto simp: intents_def outcomes_def succeeded_def)
  then show ?thesis using us run key by simp
qed

end
