(* ===== verification/ToolPipeline.thy ===== *)
theory ToolPipeline
  imports EffectJournal Identity Tokens CapabilitySets "HOL-Library.Multiset"
begin

text \<open>
  The tool pipeline: \<^verbatim>\<open>core/tool_pipeline.hpp\<close>, \<^verbatim>\<open>src/core/tool_pipeline.cpp\<close> and the descriptors of
  \<^verbatim>\<open>core/tool_descriptor.hpp\<close>. A call is resolved, its capabilities bound as invocation handles, approved, run and
  normalized, and the handles are revoked. What a tool does is a function of its arguments, its handles, the ticket store and
  a world that is threaded through; so are the approver, the policy and the blob sink. A tool answers with a result or throws,
  which is the reply \<open>None\<close>; the approver, the policy and the blob sink are taken to return.
\<close>

section \<open>Descriptors and requests\<close>

datatype approval_mode = NeverRequire | AlwaysRequire | PolicyDriven

datatype call_provenance = VendorStructured | TextDerived

text \<open>The parsed arguments are opaque to the pipeline.\<close>

record 'p prepared_call =
  pc_required :: "capability list"
  pc_arguments :: 'p

record ('n, 'p, 'w) tool_descriptor =
  td_name :: string
  td_ceiling :: "capability list"
  td_approval :: "approval_mode option"
  td_backgroundable :: bool
  td_effect :: effect_class
  td_captures_state :: bool
  td_group :: "string option"
  td_parallelizable :: bool
  td_deterministic :: bool
  td_enforces_caps :: bool
  td_bounds :: "capability list"
  td_prepare :: "('n json \<Rightarrow> 'p prepared_call result) option"
  td_invoke :: "'n json \<Rightarrow> bound_capability list \<Rightarrow> 'p option \<Rightarrow> tickets \<Rightarrow> 'w
                \<Rightarrow> ('n json result option \<times> tickets) \<times> 'w"

definition bind_ceiling_entry ::
  "tickets \<Rightarrow> capability_set \<Rightarrow> ('n, 'p, 'w) tool_descriptor \<Rightarrow> capability \<Rightarrow> (bound_capability \<times> tickets) result" where
  "bind_ceiling_entry st held tool requirement =
     (if td_enforces_caps tool then bind_clamped st held requirement else bind st held requirement)"

definition ceiling_entry_admitted :: "capability_set \<Rightarrow> ('n, 'p, 'w) tool_descriptor \<Rightarrow> capability \<Rightarrow> bool" where
  "ceiling_entry_admitted held tool requirement =
     (if td_enforces_caps tool then clamped_binding held requirement \<noteq> None else contains held requirement)"

definition rerun_comparable :: "('n, 'p, 'w) tool_descriptor \<Rightarrow> bool" where
  "rerun_comparable d = (td_deterministic d \<and> td_effect d = PureEffect \<and> \<not> td_captures_state d)"

definition find_tool :: "('n, 'p, 'w) tool_descriptor list \<Rightarrow> string \<Rightarrow> ('n, 'p, 'w) tool_descriptor option" where
  "find_tool table i = List.find (\<lambda>d. td_name d = i) table"

record 'n tool_call_request =
  cr_call_id :: string
  cr_tool_name :: string
  cr_arguments :: "'n json"
  cr_tainted :: bool
  cr_call_index :: u64
  cr_provenance :: call_provenance
  cr_parse_error :: string

section \<open>Approval\<close>

datatype policy_decision = AutoApprove | AutoDeny | RequireApproval

datatype approval_outcome = Proceed | Deny | NeedsDecider

type_synonym 'w approval_decider = "principal \<Rightarrow> string \<Rightarrow> string \<Rightarrow> 'w \<Rightarrow> bool \<times> 'w"

type_synonym ('n, 'p, 'w) policy_decider = "principal \<Rightarrow> ('n, 'p, 'w) tool_descriptor \<Rightarrow> bool \<Rightarrow> 'w \<Rightarrow> policy_decision \<times> 'w"

definition is_auto_declassifiable_text_derived_call :: "('n, 'p, 'w) tool_descriptor \<Rightarrow> bool" where
  "is_auto_declassifiable_text_derived_call tool =
     (td_effect tool = PureEffect \<and>
      list_all (\<lambda>c. is_inert_for_text_derived_declassification (capability_kind_of c)) (td_ceiling tool))"

definition tool_call_requires_approval :: "('n, 'p, 'w) tool_descriptor \<Rightarrow> call_provenance \<Rightarrow> bool" where
  "tool_call_requires_approval tool provenance =
     (let tool_requires = (td_approval tool \<noteq> Some NeverRequire)
      in if provenance = TextDerived then tool_requires \<or> \<not> is_auto_declassifiable_text_derived_call tool
         else tool_requires)"

definition resolve_approval_outcome ::
  "('n, 'p, 'w) tool_descriptor \<Rightarrow> call_provenance \<Rightarrow> principal \<Rightarrow> bool \<Rightarrow> ('n, 'p, 'w) policy_decider option \<Rightarrow> 'w
    \<Rightarrow> approval_outcome \<times> 'w" where
  "resolve_approval_outcome tool provenance caller tainted policy w =
     (let default = (if tool_call_requires_approval tool provenance then NeedsDecider else Proceed)
      in case policy of
           None \<Rightarrow> (default, w)
         | Some decide \<Rightarrow>
             if td_approval tool \<noteq> Some PolicyDriven then (default, w)
             else case decide caller tool tainted w of (verdict, w1) \<Rightarrow>
               if provenance = TextDerived then (if verdict = AutoDeny then Deny else default, w1)
               else (case verdict of AutoApprove \<Rightarrow> Proceed | AutoDeny \<Rightarrow> Deny | RequireApproval \<Rightarrow> default, w1))"

text \<open>\<^verbatim>\<open>trust/delegated_approval_policy.hpp\<close>: approve delegated callers, up to a depth.\<close>

definition approve_delegated_calls :: "u32 option \<Rightarrow> ('n, 'p, 'w) policy_decider" where
  "approve_delegated_calls max_depth caller tool tainted w =
     (if p_on_behalf_of caller = [] then (RequireApproval, w)
      else case max_depth of
             Some d \<Rightarrow> (if p_delegation_depth caller > d then RequireApproval else AutoApprove, w)
           | None \<Rightarrow> (AutoApprove, w))"

fun join_hosts :: "string list \<Rightarrow> string \<Rightarrow> string" where
  "join_hosts [] acc = acc"
| "join_hosts (h # hs) acc = join_hosts hs (acc @ (if acc = [] then [] else '','') @ h)"

fun describe_requirement :: "capability \<Rightarrow> string" where
  "describe_requirement (NativeExec v) = ''native_exec program='' @ ne_program_pattern v @ '' mount='' @ ne_worktree_mount_id v"
| "describe_requirement (FsRead v) = ''fs_read mount='' @ fr_mount_id v @ '' path='' @ fr_path_prefix v"
| "describe_requirement (FsWrite v) = ''fs_write mount='' @ fw_mount_id v @ '' path='' @ fw_path_prefix v"
| "describe_requirement (Secret v) = ''secret name='' @ se_name v"
| "describe_requirement (ToolCall v) = ''tool_call name='' @ tc_tool_name v"
| "describe_requirement (NetOut v) = ''net_out hosts='' @ join_hosts (no_host_allowlist v) []"
| "describe_requirement c = ''capability kind#'' @ show_nat (unat (kind_code (capability_kind_of c)))"

fun dump_requirements :: "'n num_ops \<Rightarrow> capability list \<Rightarrow> string" where
  "dump_requirements nm [] = []"
| "dump_requirements nm [c] = dump nm (JString (describe_requirement c))"
| "dump_requirements nm (c # cs) = dump nm (JString (describe_requirement c)) @ '','' @ dump_requirements nm cs"

definition canonical_approval_text :: "'n num_ops \<Rightarrow> 'n json \<Rightarrow> capability list \<Rightarrow> string" where
  "canonical_approval_text nm arguments required =
     [CHR ''{'', CHR 0x22] @ ''arguments'' @ [CHR 0x22, CHR '':''] @ dump nm arguments @
     [CHR '','', CHR 0x22] @ ''requires'' @ [CHR 0x22, CHR '':'', CHR ''[''] @ dump_requirements nm required @ '']}''"

section \<open>Admission\<close>

text \<open>The handles bound so far stay in the list when an entry is refused.\<close>

fun bind_entries ::
  "capability_set \<Rightarrow> ('n, 'p, 'w) tool_descriptor \<Rightarrow> capability list \<Rightarrow> bound_capability list \<Rightarrow> tickets
    \<Rightarrow> bool \<times> bound_capability list \<times> tickets" where
  "bind_entries held tool [] bound st = (True, bound, st)"
| "bind_entries held tool (c # cs) bound st =
     (case bind_ceiling_entry st held tool c of
        Inl e \<Rightarrow> (False, bound, st)
      | Inr (b, st') \<Rightarrow> bind_entries held tool cs (bound @ [b]) st')"

definition revoke_all :: "bound_capability list \<Rightarrow> tickets \<Rightarrow> tickets" where
  "revoke_all bound st = fold (\<lambda>b st. revoke st b) bound st"

record ('n, 'p, 'w) admitted_call =
  ad_tool :: "('n, 'p, 'w) tool_descriptor"
  ad_bound :: "bound_capability list"
  ad_prepared :: "'p prepared_call option"

definition not_held :: error where
  "not_held = Error Policy ''tool.capability_not_held''"

text \<open>The per-call requirement: proposed by the tool from the arguments, checked against the declared bound, bound like a
  ceiling entry. A refusal revokes every handle of the call.\<close>

definition bind_requirement ::
  "capability_set \<Rightarrow> ('n, 'p, 'w) tool_descriptor \<Rightarrow> 'n json \<Rightarrow> bound_capability list \<Rightarrow> tickets
    \<Rightarrow> (bound_capability list \<times> 'p prepared_call option) result \<times> tickets" where
  "bind_requirement held tool arguments bound st =
     (case td_prepare tool of
        None \<Rightarrow> (Inr (bound, None), st)
      | Some prepare \<Rightarrow>
          (case prepare arguments of
             Inl e \<Rightarrow> (Inl e, revoke_all bound st)
           | Inr proposed \<Rightarrow>
               if pc_required proposed = [] then (Inl (Error Contract ''tool.requirement_empty''), revoke_all bound st)
               else if \<not> list_all (\<lambda>r. list_ex (\<lambda>b. subsumes b r) (td_bounds tool)) (pc_required proposed)
               then (Inl (Error Contract ''tool.requirement_out_of_bounds''), revoke_all bound st)
               else case bind_entries held tool (pc_required proposed) bound st of
                      (False, bound1, st1) \<Rightarrow> (Inl not_held, revoke_all bound1 st1)
                    | (True, bound1, st1) \<Rightarrow> (Inr (bound1, Some proposed), st1)))"

text \<open>Whether an outcome that needs a decider is approved; no decider means no.\<close>

definition decide :: "'w approval_decider option \<Rightarrow> principal \<Rightarrow> string \<Rightarrow> string \<Rightarrow> 'w \<Rightarrow> bool \<times> 'w" where
  "decide approve caller tool text w = (case approve of None \<Rightarrow> (False, w) | Some f \<Rightarrow> f caller tool text w)"

definition approval_text :: "'n num_ops \<Rightarrow> 'n json \<Rightarrow> 'p prepared_call option \<Rightarrow> string" where
  "approval_text nm arguments prepared =
     (case prepared of None \<Rightarrow> dump nm arguments | Some pc \<Rightarrow> canonical_approval_text nm arguments (pc_required pc))"

definition approve_call ::
  "'n num_ops \<Rightarrow> ('n, 'p, 'w) tool_descriptor \<Rightarrow> 'n tool_call_request \<Rightarrow> principal \<Rightarrow> 'w approval_decider option \<Rightarrow>
   ('n, 'p, 'w) policy_decider option \<Rightarrow> 'p prepared_call option \<Rightarrow> 'w \<Rightarrow> error option \<times> 'w" where
  "approve_call nm tool rq caller approve policy prepared w =
     (case resolve_approval_outcome tool (cr_provenance rq) caller (cr_tainted rq) policy w of
        (Proceed, w1) \<Rightarrow> (None, w1)
      | (Deny, w1) \<Rightarrow> (Some (Error Policy ''tool.policy_denied''), w1)
      | (NeedsDecider, w1) \<Rightarrow>
          (case decide approve caller (cr_tool_name rq) (approval_text nm (cr_arguments rq) prepared) w1 of
             (approved, w2) \<Rightarrow> (if approved then None else Some (Error Policy ''tool.approval_denied''), w2)))"

definition admit_call ::
  "'n num_ops \<Rightarrow> ('n, 'p, 'w) tool_descriptor list \<Rightarrow> capability_set \<Rightarrow> 'n tool_call_request \<Rightarrow> principal \<Rightarrow>
   'w approval_decider option \<Rightarrow> ('n, 'p, 'w) policy_decider option \<Rightarrow> tickets \<Rightarrow> 'w
    \<Rightarrow> (('n, 'p, 'w) admitted_call result \<times> tickets) \<times> 'w" where
  "admit_call nm table held rq caller approve policy st w =
     (case find_tool table (cr_tool_name rq) of
        None \<Rightarrow> ((Inl (Error Contract ''tool.unknown_name''), st), w)
      | Some tool \<Rightarrow>
          if td_approval tool = None then ((Inl (Error Contract ''choice.missing.tool.approval''), st), w)
          else if cr_parse_error rq \<noteq> [] then ((Inl (Error Contract ''tool.malformed_arguments''), st), w)
          else case bind_entries held tool (td_ceiling tool) [] st of
                 (False, bound, st1) \<Rightarrow> ((Inl not_held, st1), w)
               | (True, bound, st1) \<Rightarrow>
                   (case bind_requirement held tool (cr_arguments rq) bound st1 of
                      (Inl e, st2) \<Rightarrow> ((Inl e, st2), w)
                    | (Inr (bound1, prepared), st2) \<Rightarrow>
                        (case approve_call nm tool rq caller approve policy prepared w of
                           (Some e, w1) \<Rightarrow> ((Inl e, revoke_all bound1 st2), w1)
                         | (None, w1) \<Rightarrow>
                             ((Inr \<lparr>ad_tool = tool, ad_bound = bound1, ad_prepared = prepared\<rparr>, st2), w1))))"

section \<open>Running an admitted call\<close>

datatype result_value = ErrorValue error | DataValue string | MediaValue string

record result_item =
  ri_value :: result_value
  ri_tainted :: bool

record tool_result =
  tr_call_id :: string
  tr_is_error :: bool
  tr_content :: "result_item list"

text \<open>What is read of an effect context. A blob reference is a string.\<close>

record 'w call_context =
  cx_principal :: principal
  cx_run_id :: string
  cx_turn_index :: u64
  cx_deadline :: "int option"
  cx_threshold :: "u64 option"
  cx_blob_sink :: "(string \<Rightarrow> 'w \<Rightarrow> string result \<times> 'w) option"

definition deadline_expired :: "int option \<Rightarrow> int \<Rightarrow> bool" where
  "deadline_expired d now = (case d of None \<Rightarrow> False | Some t \<Rightarrow> t \<le> now)"

definition make_error_result :: "string \<Rightarrow> error \<Rightarrow> tool_result" where
  "make_error_result i e = \<lparr>tr_call_id = i, tr_is_error = True, tr_content = [\<lparr>ri_value = ErrorValue e, ri_tainted = False\<rparr>]\<rparr>"

definition make_denial_result :: "string \<Rightarrow> string \<Rightarrow> tool_result" where
  "make_denial_result i error_code = make_error_result i (Error Policy error_code)"

definition normalize_success ::
  "'n num_ops \<Rightarrow> string \<Rightarrow> 'n json \<Rightarrow> 'w call_context \<Rightarrow> 'w \<Rightarrow> (tool_result \<times> nat) result \<times> 'w" where
  "normalize_success nm i reply ctx w =
     (let text = dump nm reply; n = length text;
          wrap = (\<lambda>v. (\<lparr>tr_call_id = i, tr_is_error = False, tr_content = [\<lparr>ri_value = v, ri_tainted = True\<rparr>]\<rparr>, n))
      in if (case cx_threshold ctx of None \<Rightarrow> False | Some t \<Rightarrow> unat t < n)
         then case cx_blob_sink ctx of
                None \<Rightarrow> (Inl (Error Resource ''tool.result_oversized_no_sink''), w)
              | Some sink \<Rightarrow>
                  (case sink text w of
                     (Inl e, w1) \<Rightarrow> (Inl e, w1)
                   | (Inr blob, w1) \<Rightarrow> (Inr (wrap (MediaValue blob)), w1))
         else (Inr (wrap (DataValue text)), w))"

record admitted_call_outcome =
  ao_result :: tool_result
  ao_failure :: "error option"
  ao_bytes :: nat

definition failed_outcome :: "string \<Rightarrow> error \<Rightarrow> admitted_call_outcome" where
  "failed_outcome i e = \<lparr>ao_result = make_error_result i e, ao_failure = Some e, ao_bytes = 0\<rparr>"

text \<open>Nothing guards the revocation: when the tool throws, the exception leaves the call before it, and the store is the one
  the tool left. The outcome \<open>None\<close> is that exception.\<close>

definition run_admitted_call ::
  "'n num_ops \<Rightarrow> ('n, 'p, 'w) tool_descriptor \<Rightarrow> 'n tool_call_request \<Rightarrow> 'w call_context \<Rightarrow> bound_capability list \<Rightarrow>
   'p prepared_call option \<Rightarrow> int \<Rightarrow> tickets \<Rightarrow> 'w \<Rightarrow> (admitted_call_outcome option \<times> tickets) \<times> 'w" where
  "run_admitted_call nm tool rq ctx bound prepared now st w =
     (if deadline_expired (cx_deadline ctx) now
      then ((Some (failed_outcome (cr_call_id rq) (Error Resource ''tool.deadline_exceeded'')), revoke_all bound st), w)
      else case td_invoke tool (cr_arguments rq) bound (map_option pc_arguments prepared) st w of
             ((None, st1), w1) \<Rightarrow> ((None, st1), w1)
           | ((Some (Inl e), st1), w1) \<Rightarrow> ((Some (failed_outcome (cr_call_id rq) e), revoke_all bound st1), w1)
           | ((Some (Inr reply), st1), w1) \<Rightarrow>
               (case normalize_success nm (cr_call_id rq) reply ctx w1 of
                  (Inl e, w2) \<Rightarrow> ((Some (failed_outcome (cr_call_id rq) e), revoke_all bound st1), w2)
                | (Inr (r, n), w2) \<Rightarrow>
                    ((Some \<lparr>ao_result = r, ao_failure = None, ao_bytes = n\<rparr>, revoke_all bound st1), w2)))"

text \<open>The duration of a call is left out of its audit record.\<close>

record tool_invocation_audit =
  au_call_id :: string
  au_tool_name :: string
  au_ok :: bool
  au_error_code :: string
  au_result_bytes :: nat
  au_key :: idempotency_key
  au_principal_id :: string
  au_tenant_id :: string
  au_on_behalf_of :: string
  au_delegation_root :: string

definition make_call_audit ::
  "'n num_ops \<Rightarrow> 'n tool_call_request \<Rightarrow> 'w call_context \<Rightarrow> admitted_call_outcome \<Rightarrow> tool_invocation_audit" where
  "make_call_audit nm rq ctx oc =
     \<lparr>au_call_id = cr_call_id rq, au_tool_name = cr_tool_name rq, au_ok = (ao_failure oc = None),
      au_error_code = (case ao_failure oc of None \<Rightarrow> [] | Some e \<Rightarrow> code e), au_result_bytes = ao_bytes oc,
      au_key = derive_idempotency_key nm (cx_run_id ctx) (cx_turn_index ctx) (cr_call_index rq) (cr_arguments rq),
      au_principal_id = p_id (cx_principal ctx), au_tenant_id = p_tenant_id (cx_principal ctx),
      au_on_behalf_of = p_on_behalf_of (cx_principal ctx), au_delegation_root = p_delegation_root (cx_principal ctx)\<rparr>"

text \<open>The time \<open>now\<close> is that of the deadline check. \<open>None\<close> is that the tool's exception leaves the call.\<close>

definition invoke_tool ::
  "'n num_ops \<Rightarrow> ('n, 'p, 'w) tool_descriptor list \<Rightarrow> capability_set \<Rightarrow> 'n tool_call_request \<Rightarrow> 'w call_context \<Rightarrow>
   'w approval_decider option \<Rightarrow> ('n, 'p, 'w) policy_decider option \<Rightarrow> int \<Rightarrow> tickets \<Rightarrow> 'w
    \<Rightarrow> ((tool_result \<times> tool_invocation_audit) option \<times> tickets) \<times> 'w" where
  "invoke_tool nm table held rq ctx approve policy now st w =
     (case admit_call nm table held rq (cx_principal ctx) approve policy st w of
        ((Inl e, st1), w1) \<Rightarrow>
          ((Some (make_error_result (cr_call_id rq) e, make_call_audit nm rq ctx (failed_outcome (cr_call_id rq) e)), st1), w1)
      | ((Inr ad, st1), w1) \<Rightarrow>
          (case run_admitted_call nm (ad_tool ad) rq ctx (ad_bound ad) (ad_prepared ad) now st1 w1 of
             ((x, st2), w2) \<Rightarrow> ((map_option (\<lambda>oc. (ao_result oc, make_call_audit nm rq ctx oc)) x, st2), w2)))"

definition enforce_hook_rewritten_tool_call_provenance ::
  "'n num_ops \<Rightarrow> 'n json \<Rightarrow> 'n tool_call_request \<Rightarrow> 'n tool_call_request" where
  "enforce_hook_rewritten_tool_call_provenance nm original rq =
     (if dump nm (cr_arguments rq) \<noteq> dump nm original then rq\<lparr>cr_provenance := TextDerived\<rparr> else rq)"

section \<open>Batches\<close>

datatype concurrency_class_kind = Sequential | Parallel | ExclusivityGroup

record concurrency_class =
  kc_kind :: concurrency_class_kind
  kc_calls :: "nat list"
  kc_group :: string

definition declares_concurrency :: "('n, 'p, 'w) tool_descriptor list \<Rightarrow> 'n tool_call_request \<Rightarrow> bool" where
  "declares_concurrency table rq =
     (case find_tool table (cr_tool_name rq) of None \<Rightarrow> False | Some t \<Rightarrow> td_parallelizable t \<or> td_group t \<noteq> None)"

fun add_to_group :: "string \<Rightarrow> nat \<Rightarrow> concurrency_class list \<Rightarrow> concurrency_class list" where
  "add_to_group g i [] = [\<lparr>kc_kind = ExclusivityGroup, kc_calls = [i], kc_group = g\<rparr>]"
| "add_to_group g i (c # cs) =
     (if kc_kind c = ExclusivityGroup \<and> kc_group c = g then c\<lparr>kc_calls := kc_calls c @ [i]\<rparr> # cs else c # add_to_group g i cs)"

definition place_call :: "('n, 'p, 'w) tool_descriptor \<Rightarrow> nat \<Rightarrow> concurrency_class list \<Rightarrow> concurrency_class list" where
  "place_call tool i classes =
     (if td_captures_state tool then classes @ [\<lparr>kc_kind = Sequential, kc_calls = [i], kc_group = []\<rparr>]
      else case td_group tool of
             Some g \<Rightarrow> add_to_group g i classes
           | None \<Rightarrow> classes @ [\<lparr>kc_kind = Parallel, kc_calls = [i], kc_group = []\<rparr>])"

fun place_calls :: "('n, 'p, 'w) tool_descriptor list \<Rightarrow> 'n tool_call_request list \<Rightarrow> nat \<Rightarrow> concurrency_class list \<Rightarrow> concurrency_class list" where
  "place_calls table [] i classes = classes"
| "place_calls table (rq # rqs) i classes =
     place_calls table rqs (Suc i)
       (case find_tool table (cr_tool_name rq) of None \<Rightarrow> classes | Some tool \<Rightarrow> place_call tool i classes)"

definition partition_batch :: "('n, 'p, 'w) tool_descriptor list \<Rightarrow> 'n tool_call_request list \<Rightarrow> concurrency_class list" where
  "partition_batch table rqs =
     (if \<not> list_all (declares_concurrency table) rqs
      then map (\<lambda>i. \<lparr>kc_kind = Sequential, kc_calls = [i], kc_group = []\<rparr>) [0..<length rqs]
      else place_calls table rqs 0 [])"

section \<open>Background calls\<close>

definition background_capacity :: "capability_set \<Rightarrow> nat \<Rightarrow> bool" where
  "background_capacity held running =
     (case find_background held of None \<Rightarrow> False | Some b \<Rightarrow> running < unat (bg_max_concurrent b))"

text \<open>The admission of a background call: the handles its worker starts with.\<close>

definition background_task ::
  "'n num_ops \<Rightarrow> ('n, 'p, 'w) tool_descriptor list \<Rightarrow> capability_set \<Rightarrow> 'n tool_call_request \<Rightarrow> 'w call_context \<Rightarrow>
   'w approval_decider option \<Rightarrow> nat \<Rightarrow> tickets \<Rightarrow> 'w \<Rightarrow> (('n, 'p, 'w) admitted_call result \<times> tickets) \<times> 'w" where
  "background_task nm table held rq ctx approve running st w =
     (case find_tool table (cr_tool_name rq) of
        None \<Rightarrow> ((Inl (Error Contract ''tool.unknown_name''), st), w)
      | Some tool \<Rightarrow>
          if td_approval tool = None then ((Inl (Error Contract ''choice.missing.tool.approval''), st), w)
          else if cr_parse_error rq \<noteq> [] then ((Inl (Error Contract ''tool.malformed_arguments''), st), w)
          else if \<not> td_backgroundable tool then ((Inl (Error Policy ''tool.not_backgroundable''), st), w)
          else if td_prepare tool \<noteq> None then ((Inl (Error Policy ''tool.requirement_not_backgroundable''), st), w)
          else if td_captures_state tool then ((Inl (Error Policy ''tool.state_capturing_not_backgroundable''), st), w)
          else case bind_entries held tool (td_ceiling tool) [] st of
                 (False, bound, st1) \<Rightarrow> ((Inl not_held, st1), w)
               | (True, bound, st1) \<Rightarrow>
                   if \<not> background_capacity held running
                   then ((Inl (Error Resource ''tool.background_capacity_exceeded''), revoke_all bound st1), w)
                   else if tool_call_requires_approval tool (cr_provenance rq)
                   then case decide approve (cx_principal ctx) (cr_tool_name rq) (dump nm (cr_arguments rq)) w of
                          (False, w1) \<Rightarrow> ((Inl (Error Policy ''tool.approval_denied''), revoke_all bound st1), w1)
                        | (True, w1) \<Rightarrow> ((Inr \<lparr>ad_tool = tool, ad_bound = bound, ad_prepared = None\<rparr>, st1), w1)
                   else ((Inr \<lparr>ad_tool = tool, ad_bound = bound, ad_prepared = None\<rparr>, st1), w))"

text \<open>The worker, once it runs: no deadline check, handles revoked before the reply is normalized. It turns an exception of
  the tool into a failure, and revokes then too.\<close>

definition background_worker ::
  "'n num_ops \<Rightarrow> ('n, 'p, 'w) admitted_call \<Rightarrow> 'n tool_call_request \<Rightarrow> 'w call_context \<Rightarrow> tickets \<Rightarrow> 'w
    \<Rightarrow> ((tool_result \<times> tool_invocation_audit) \<times> tickets) \<times> 'w" where
  "background_worker nm ad rq ctx st w =
     (case run_admitted_call nm (ad_tool ad) rq (ctx\<lparr>cx_deadline := None\<rparr>) (ad_bound ad) None 0 st w of
        ((Some oc, st1), w1) \<Rightarrow> (((ao_result oc, make_call_audit nm rq ctx oc), st1), w1)
      | ((None, st1), w1) \<Rightarrow>
          (let oc = failed_outcome (cr_call_id rq) (Error Transient ''rt.leaf_task_faulted'')
           in (((ao_result oc, make_call_audit nm rq ctx oc), revoke_all (ad_bound ad) st1), w1)))"


section \<open>Handles of a call\<close>

text \<open>What a declared requirement is bound as, if it is admitted.\<close>

definition entry_capability :: "capability_set \<Rightarrow> ('n, 'p, 'w) tool_descriptor \<Rightarrow> capability \<Rightarrow> capability option" where
  "entry_capability held tool c =
     (if td_enforces_caps tool then clamped_binding held c else if contains held c then Some c else None)"

lemma bind_ceiling_entry_eq:
  "bind_ceiling_entry st held tool c =
     (case entry_capability held tool c of
        None \<Rightarrow> Inl (Error Policy ''capability.not_granted'')
      | Some d \<Rightarrow> Inr (mint_handle st d))"
  by (auto simp: bind_ceiling_entry_def entry_capability_def bind_def bind_clamped_def split: option.splits)

lemma ceiling_entry_admitted_iff: "ceiling_entry_admitted held tool c \<longleftrightarrow> entry_capability held tool c \<noteq> None"
  by (simp add: ceiling_entry_admitted_def entry_capability_def)

lemma entry_capability_sound:
  assumes "entry_capability held tool c = Some d"
  shows "contains held d" and "subsumes c d"
  using assms clamped_binding_sound [of held c d]
  by (auto simp: entry_capability_def intro: subsumes_refl split: if_splits)

definition fresh_handles :: "tickets \<Rightarrow> tickets \<Rightarrow> bound_capability list \<Rightarrow> bool" where
  "fresh_handles st st' bs \<longleftrightarrow>
     map bc_ticket bs = [tk_next st..<tk_next st'] \<and> tk_next st \<le> tk_next st' \<and>
     tk_live st' = (\<lambda>i. tk_live st i \<or> tk_next st \<le> i \<and> i < tk_next st')"

lemma fresh_handles_Nil [simp]: "fresh_handles st st []"
  by (auto simp: fresh_handles_def)

lemma fresh_handles_mint: "fresh_handles st (snd (mint_handle st d)) [fst (mint_handle st d)]"
  by (auto simp: fresh_handles_def mint_handle_def fun_eq_iff)

lemma fresh_handles_append:
  assumes "fresh_handles st st1 bs" and "fresh_handles st1 st2 cs"
  shows "fresh_handles st st2 (bs @ cs)"
  using assms upt_add_eq_append [of "tk_next st" "tk_next st1" "tk_next st2 - tk_next st1"]
  by (auto simp: fresh_handles_def fun_eq_iff)

lemma fresh_handles_ticket:
  assumes "fresh_handles st st' bs" and "b \<in> set bs"
  shows "tk_next st \<le> bc_ticket b" and "bc_ticket b < tk_next st'"
proof -
  have "bc_ticket b \<in> set (map bc_ticket bs)" using assms(2) by simp
  then have "bc_ticket b \<in> set [tk_next st..<tk_next st']" using assms(1) by (simp add: fresh_handles_def del: set_map)
  then show "tk_next st \<le> bc_ticket b" and "bc_ticket b < tk_next st'" by auto
qed

lemma fresh_handles_usable: "fresh_handles st st' bs \<Longrightarrow> b \<in> set bs \<Longrightarrow> use_handle st' b = Inr (bc_granted b)"
  using fresh_handles_ticket [of st st' bs b] by (auto simp: use_handle_def fresh_handles_def)

lemma tk_live_revoke_all: "tk_live (revoke_all bs st) i \<longleftrightarrow> tk_live st i \<and> i \<notin> bc_ticket ` set bs"
  unfolding revoke_all_def by (induction bs arbitrary: st) (auto simp: revoke_def)

lemma revoke_all_unusable: "b \<in> set bs \<Longrightarrow> use_handle (revoke_all bs st) b = Inl (Error Policy ''capability.handle_revoked'')"
  by (auto simp: use_handle_def tk_live_revoke_all)

lemma revoke_all_fresh:
  assumes "fresh_handles st st' bs" and "tickets_ok st"
  shows "tk_live (revoke_all bs st') = tk_live st"
proof
  fix i
  have "bc_ticket ` set bs = {tk_next st..<tk_next st'}"
    using assms(1) by (metis fresh_handles_def set_map set_upt)
  then show "tk_live (revoke_all bs st') i = tk_live st i"
    using assms by (auto simp: tk_live_revoke_all fresh_handles_def tickets_ok_def)
qed

text \<open>One handle per declared requirement, each within the requirement and within the caller's grants.\<close>

definition handle_for :: "capability_set \<Rightarrow> capability \<Rightarrow> bound_capability \<Rightarrow> bool" where
  "handle_for held c b \<longleftrightarrow> subsumes c (bc_granted b) \<and> contains held (bc_granted b)"

lemma handle_for_mint:
  "entry_capability held tool c = Some d \<Longrightarrow> handle_for held c (fst (mint_handle st d))"
  using entry_capability_sound [of held tool c d] by (simp add: handle_for_def mint_handle_def)

lemma bind_entries_bound:
  "bind_entries held tool cs bound st = (ok, bound', st') \<Longrightarrow>
     \<exists>new. bound' = bound @ new \<and> fresh_handles st st' new \<and> (ok \<longrightarrow> list_all2 (handle_for held) cs new)"
proof (induction cs arbitrary: bound st)
  case Nil
  then show ?case by auto
next
  case (Cons c cs)
  show ?case
  proof (cases "entry_capability held tool c")
    case None
    with Cons.prems show ?thesis by (auto simp: bind_ceiling_entry_eq)
  next
    case (Some d)
    obtain b st1 where m: "mint_handle st d = (b, st1)" by fastforce
    with Some Cons.prems have "bind_entries held tool cs (bound @ [b]) st1 = (ok, bound', st')"
      by (simp add: bind_ceiling_entry_eq)
    from Cons.IH [OF this] obtain new where
      new: "bound' = (bound @ [b]) @ new" "fresh_handles st1 st' new" "ok \<longrightarrow> list_all2 (handle_for held) cs new" by blast
    have "fresh_handles st st' ([b] @ new)"
      using fresh_handles_append [of st st1 "[b]" st' new] fresh_handles_mint [of st d] m new(2) by simp
    then show ?thesis
      using new handle_for_mint [OF Some, of st] m by (intro exI [of _ "b # new"]) auto
  qed
qed

lemma bind_entries_ok_iff: "fst (bind_entries held tool cs bound st) \<longleftrightarrow> list_all (ceiling_entry_admitted held tool) cs"
proof (induction cs arbitrary: bound st)
  case Nil
  then show ?case by simp
next
  case (Cons c cs)
  then show ?case
    by (cases "entry_capability held tool c")
      (auto simp: bind_ceiling_entry_eq ceiling_entry_admitted_iff split: prod.splits)
qed

definition call_requirements :: "('n, 'p, 'w) admitted_call \<Rightarrow> capability list" where
  "call_requirements ad =
     td_ceiling (ad_tool ad) @ (case ad_prepared ad of None \<Rightarrow> [] | Some pc \<Rightarrow> pc_required pc)"

text \<open>What the per-call requirement of a tool has to be, for the call to be admitted.\<close>

definition requirement_admitted ::
  "capability_set \<Rightarrow> ('n, 'p, 'w) tool_descriptor \<Rightarrow> 'p prepared_call \<Rightarrow> bool" where
  "requirement_admitted held tool pc \<longleftrightarrow>
     pc_required pc \<noteq> [] \<and>
     (\<forall>r\<in>set (pc_required pc). (\<exists>b\<in>set (td_bounds tool). subsumes b r) \<and> ceiling_entry_admitted held tool r)"

definition prepared_for ::
  "capability_set \<Rightarrow> ('n, 'p, 'w) tool_descriptor \<Rightarrow> 'n json \<Rightarrow> 'p prepared_call option \<Rightarrow> bool" where
  "prepared_for held tool arguments prepared \<longleftrightarrow>
     (case td_prepare tool of
        None \<Rightarrow> prepared = None
      | Some prepare \<Rightarrow> (\<exists>pc. prepare arguments = Inr pc \<and> prepared = Some pc \<and> requirement_admitted held tool pc))"

lemma prepared_for_unique: "prepared_for held tool a p \<Longrightarrow> prepared_for held tool a q \<Longrightarrow> p = q"
  by (auto simp: prepared_for_def split: option.splits)

lemma bind_requirement_Inr:
  assumes "bind_requirement held tool arguments bound st = (Inr (bound', prepared), st')"
  shows "prepared_for held tool arguments prepared"
    and "\<exists>new. bound' = bound @ new \<and> fresh_handles st st' new \<and>
           list_all2 (handle_for held) (case prepared of None \<Rightarrow> [] | Some pc \<Rightarrow> pc_required pc) new"
proof -
  have "prepared_for held tool arguments prepared \<and>
        (\<exists>new. bound' = bound @ new \<and> fresh_handles st st' new \<and>
           list_all2 (handle_for held) (case prepared of None \<Rightarrow> [] | Some pc \<Rightarrow> pc_required pc) new)"
  proof (cases "td_prepare tool")
    case None
    with assms show ?thesis by (auto simp: bind_requirement_def prepared_for_def)
  next
    case (Some prepare)
    with assms obtain pc where pc: "prepare arguments = Inr pc" "pc_required pc \<noteq> []"
      "list_all (\<lambda>r. list_ex (\<lambda>b. subsumes b r) (td_bounds tool)) (pc_required pc)"
      and b: "bind_entries held tool (pc_required pc) bound st = (True, bound', st')" and p: "prepared = Some pc"
      by (auto simp: bind_requirement_def split: sum.splits if_splits prod.splits bool.splits)
    have "list_all (ceiling_entry_admitted held tool) (pc_required pc)"
      using bind_entries_ok_iff [of held tool "pc_required pc" bound st] b by simp
    with pc have "requirement_admitted held tool pc" by (auto simp: requirement_admitted_def list_all_iff list_ex_iff)
    then show ?thesis using Some pc p bind_entries_bound [OF b] by (simp add: prepared_for_def)
  qed
  then show "prepared_for held tool arguments prepared"
    and "\<exists>new. bound' = bound @ new \<and> fresh_handles st st' new \<and>
           list_all2 (handle_for held) (case prepared of None \<Rightarrow> [] | Some pc \<Rightarrow> pc_required pc) new" by auto
qed

lemma bind_requirement_complete:
  assumes "prepared_for held tool arguments prepared"
  shows "\<exists>bound' st'. bind_requirement held tool arguments bound st = (Inr (bound', prepared), st')"
proof (cases "td_prepare tool")
  case None
  with assms show ?thesis by (simp add: bind_requirement_def prepared_for_def)
next
  case (Some prepare)
  with assms obtain pc where pc: "prepare arguments = Inr pc" "prepared = Some pc" "requirement_admitted held tool pc"
    by (auto simp: prepared_for_def)
  then have "list_all (ceiling_entry_admitted held tool) (pc_required pc)"
    by (auto simp: requirement_admitted_def list_all_iff)
  then have "fst (bind_entries held tool (pc_required pc) bound st)" by (simp add: bind_entries_ok_iff)
  moreover have "list_all (\<lambda>r. list_ex (\<lambda>b. subsumes b r) (td_bounds tool)) (pc_required pc)" and "pc_required pc \<noteq> []"
    using pc(3) by (auto simp: requirement_admitted_def list_all_iff list_ex_iff)
  ultimately show ?thesis using Some pc by (auto simp: bind_requirement_def split: prod.splits bool.splits)
qed

lemma bind_requirement_Inl:
  assumes "bind_requirement held tool arguments bound st = (Inl e, st')" and "fresh_handles st0 st bound" and "tickets_ok st0"
  shows "tk_live st' = tk_live st0"
proof -
  obtain bound1 st1 where "fresh_handles st0 st1 bound1" and "st' = revoke_all bound1 st1"
  proof (cases "td_prepare tool")
    case None
    with assms show thesis by (simp add: bind_requirement_def)
  next
    case (Some prepare)
    show thesis
    proof (cases "st' = revoke_all bound st")
      case True
      with assms(2) that show thesis by blast
    next
      case False
      with Some assms(1) obtain rs bound1 st1 where
        b: "bind_entries held tool rs bound st = (False, bound1, st1)" and s: "st' = revoke_all bound1 st1"
        by (auto simp: bind_requirement_def split: sum.splits if_splits prod.splits bool.splits)
      from bind_entries_bound [OF b] obtain new where "bound1 = bound @ new" "fresh_handles st st1 new" by blast
      with assms(2) s that show thesis using fresh_handles_append by blast
    qed
  qed
  with assms(3) show ?thesis by (simp add: revoke_all_fresh)
qed


lemma list_all2_in_right: "list_all2 P xs ys \<Longrightarrow> y \<in> set ys \<Longrightarrow> \<exists>x\<in>set xs. P x y"
  by (induction rule: list_all2_induct) auto

text \<open>An admission step hands out fresh handles for exactly the requirements of the call, and a refusal for another reason
  than a missing capability leaves no handle live. Both ways into the pipeline promise this.\<close>

locale handle_admission =
  fixes admit :: "tickets \<Rightarrow> 'w \<Rightarrow> (('n, 'p, 'w) admitted_call result \<times> tickets) \<times> 'w" and held :: capability_set
  assumes admitted_handles:
      "admit st w = ((Inr ad, st'), w') \<Longrightarrow>
         fresh_handles st st' (ad_bound ad) \<and> list_all2 (handle_for held) (call_requirements ad) (ad_bound ad)"
    and refused_handles:
      "tickets_ok st \<Longrightarrow> admit st w = ((Inl e, st'), w') \<Longrightarrow> e \<noteq> not_held \<Longrightarrow> tk_live st' = tk_live st"
begin

lemma handle_usable:
  "admit st w = ((Inr ad, st'), w') \<Longrightarrow> b \<in> set (ad_bound ad) \<Longrightarrow> use_handle st' b = Inr (bc_granted b)"
  using admitted_handles [of st w ad st' w'] fresh_handles_usable [of st st' "ad_bound ad" b] by blast

lemma handle_within_grants:
  assumes "admit st w = ((Inr ad, st'), w')" and "b \<in> set (ad_bound ad)"
  shows "contains held (bc_granted b)" and "\<exists>c\<in>set (call_requirements ad). subsumes c (bc_granted b)"
proof -
  have "list_all2 (handle_for held) (call_requirements ad) (ad_bound ad)" using admitted_handles [OF assms(1)] by blast
  from list_all2_in_right [OF this assms(2)] obtain c where "c \<in> set (call_requirements ad)" and "handle_for held c b"
    by blast
  then show "contains held (bc_granted b)" and "\<exists>c\<in>set (call_requirements ad). subsumes c (bc_granted b)"
    by (auto simp: handle_for_def)
qed

lemma handle_is_new: "admit st w = ((Inr ad, st'), w') \<Longrightarrow> b \<in> set (ad_bound ad) \<Longrightarrow> tk_next st \<le> bc_ticket b"
  using admitted_handles [of st w ad st' w'] fresh_handles_ticket(1) [of st st' "ad_bound ad" b] by blast

end

lemma run_admitted_call_revokes:
  "run_admitted_call nm tool rq ctx bound prepared now st w = ((Some oc, st'), w') \<Longrightarrow> \<exists>st1. st' = revoke_all bound st1"
  by (auto simp: run_admitted_call_def split: prod.splits sum.splits option.splits if_splits)

lemma run_admitted_call_unusable:
  "run_admitted_call nm tool rq ctx bound prepared now st w = ((Some oc, st'), w') \<Longrightarrow> b \<in> set bound \<Longrightarrow>
     use_handle st' b = Inl (Error Policy ''capability.handle_revoked'')"
  by (drule run_admitted_call_revokes) (auto simp: revoke_all_unusable)

lemma run_admitted_call_threw:
  "run_admitted_call nm tool rq ctx bound prepared now st w = ((None, st'), w') \<longleftrightarrow>
     \<not> deadline_expired (cx_deadline ctx) now \<and>
     td_invoke tool (cr_arguments rq) bound (map_option pc_arguments prepared) st w = ((None, st'), w')"
  by (auto simp: run_admitted_call_def split: prod.splits sum.splits option.splits)

text \<open>The two admissions in normal form.\<close>

lemma admit_call_Inr:
  "admit_call nm table held rq caller approve policy st w = ((Inr ad, st'), w') \<longleftrightarrow>
     (\<exists>tool bound st1 bound1 prepared.
        find_tool table (cr_tool_name rq) = Some tool \<and> td_approval tool \<noteq> None \<and> cr_parse_error rq = [] \<and>
        bind_entries held tool (td_ceiling tool) [] st = (True, bound, st1) \<and>
        bind_requirement held tool (cr_arguments rq) bound st1 = (Inr (bound1, prepared), st') \<and>
        approve_call nm tool rq caller approve policy prepared w = (None, w') \<and>
        ad = \<lparr>ad_tool = tool, ad_bound = bound1, ad_prepared = prepared\<rparr>)"
  by (auto simp: admit_call_def split: option.splits prod.splits sum.splits bool.splits)

lemma admit_call_handles:
  assumes "admit_call nm table held rq caller approve policy st w = ((Inr ad, st'), w')"
  shows "fresh_handles st st' (ad_bound ad) \<and> list_all2 (handle_for held) (call_requirements ad) (ad_bound ad)"
proof -
  from assms obtain tool bound st1 prepared where
    b: "bind_entries held tool (td_ceiling tool) [] st = (True, bound, st1)" and
    r: "bind_requirement held tool (cr_arguments rq) bound st1 = (Inr (ad_bound ad, prepared), st')" and
    ad: "ad_tool ad = tool" "ad_prepared ad = prepared"
    unfolding admit_call_Inr by auto
  from bind_entries_bound [OF b] have b': "fresh_handles st st1 bound" "list_all2 (handle_for held) (td_ceiling tool) bound" by auto
  from bind_requirement_Inr(2) [OF r] obtain new where
    new: "ad_bound ad = bound @ new" "fresh_handles st1 st' new"
      "list_all2 (handle_for held) (case prepared of None \<Rightarrow> [] | Some pc \<Rightarrow> pc_required pc) new" by blast
  show ?thesis
    using fresh_handles_append [OF b'(1) new(2)] list_all2_appendI [OF b'(2) new(3)] new(1) ad
    by (simp add: call_requirements_def)
qed

lemma admit_call_refused:
  assumes "tickets_ok st" and "admit_call nm table held rq caller approve policy st w = ((Inl e, st'), w')" and "e \<noteq> not_held"
  shows "tk_live st' = tk_live st"
proof (cases "st' = st")
  case False
  with assms(2,3) obtain tool bound st1 where
    "find_tool table (cr_tool_name rq) = Some tool" and
    b: "bind_entries held tool (td_ceiling tool) [] st = (True, bound, st1)" and
    r: "bind_requirement held tool (cr_arguments rq) bound st1 = (Inl e, st') \<or>
        (\<exists>bound1 prepared st2. bind_requirement held tool (cr_arguments rq) bound st1 = (Inr (bound1, prepared), st2) \<and>
           st' = revoke_all bound1 st2)"
    by (auto simp: admit_call_def split: option.splits prod.splits sum.splits bool.splits if_splits)
  from bind_entries_bound [OF b] have f: "fresh_handles st st1 bound" by auto
  from r show ?thesis
  proof (elim disjE exE conjE)
    assume "bind_requirement held tool (cr_arguments rq) bound st1 = (Inl e, st')"
    then show ?thesis using bind_requirement_Inl f assms(1) by blast
  next
    fix bound1 prepared st2
    assume r: "bind_requirement held tool (cr_arguments rq) bound st1 = (Inr (bound1, prepared), st2)"
      and s: "st' = revoke_all bound1 st2"
    have "fresh_handles st st2 bound1" using bind_requirement_Inr(2) [OF r] fresh_handles_append [OF f] by blast
    then show ?thesis using s assms(1) revoke_all_fresh by blast
  qed
qed simp

lemma background_task_Inr:
  "background_task nm table held rq ctx approve running st w = ((Inr ad, st'), w') \<longleftrightarrow>
     (\<exists>tool bound.
        find_tool table (cr_tool_name rq) = Some tool \<and> td_approval tool \<noteq> None \<and> cr_parse_error rq = [] \<and>
        td_backgroundable tool \<and> td_prepare tool = None \<and> \<not> td_captures_state tool \<and>
        bind_entries held tool (td_ceiling tool) [] st = (True, bound, st') \<and> background_capacity held running \<and>
        (if tool_call_requires_approval tool (cr_provenance rq)
         then decide approve (cx_principal ctx) (cr_tool_name rq) (dump nm (cr_arguments rq)) w = (True, w') else w' = w) \<and>
        ad = \<lparr>ad_tool = tool, ad_bound = bound, ad_prepared = None\<rparr>)"
  by (auto simp: background_task_def split: option.splits prod.splits bool.splits if_splits)

lemma background_task_handles:
  assumes "background_task nm table held rq ctx approve running st w = ((Inr ad, st'), w')"
  shows "fresh_handles st st' (ad_bound ad) \<and> list_all2 (handle_for held) (call_requirements ad) (ad_bound ad)"
proof -
  from assms obtain tool where
    b: "bind_entries held tool (td_ceiling tool) [] st = (True, ad_bound ad, st')" and
    ad: "ad_tool ad = tool" "ad_prepared ad = None"
    unfolding background_task_Inr by auto
  from bind_entries_bound [OF b] ad show ?thesis by (auto simp: call_requirements_def)
qed

lemma background_task_refused:
  assumes "tickets_ok st" and "background_task nm table held rq ctx approve running st w = ((Inl e, st'), w')" and "e \<noteq> not_held"
  shows "tk_live st' = tk_live st"
proof (cases "st' = st")
  case False
  with assms(2,3) obtain tool bound st1 where
    "find_tool table (cr_tool_name rq) = Some tool" and
    b: "bind_entries held tool (td_ceiling tool) [] st = (True, bound, st1)" and s: "st' = revoke_all bound st1"
    by (auto simp: background_task_def split: option.splits prod.splits bool.splits if_splits)
  with bind_entries_bound [OF b] assms(1) show ?thesis using revoke_all_fresh by auto
qed simp

interpretation foreground: handle_admission
  "\<lambda>st w. admit_call nm table held rq caller approve policy st w" held for nm table held rq caller approve policy
  by unfold_locales (rule admit_call_handles admit_call_refused; assumption)+

interpretation detached: handle_admission
  "\<lambda>st w. background_task nm table held rq ctx approve running st w" held for nm table held rq ctx approve running
  by unfold_locales (rule background_task_handles background_task_refused; assumption)+


section \<open>Approval of text-derived calls\<close>

fun strictness :: "approval_outcome \<Rightarrow> nat" where
  "strictness Proceed = 0"
| "strictness NeedsDecider = 1"
| "strictness Deny = 2"

lemma requires_approval_mono:
  "tool_call_requires_approval tool VendorStructured \<Longrightarrow> tool_call_requires_approval tool TextDerived"
  by (simp add: tool_call_requires_approval_def)

lemma text_derived_proceeds:
  assumes "fst (resolve_approval_outcome tool TextDerived caller tainted policy w) = Proceed"
  shows "td_approval tool = Some NeverRequire \<and> is_auto_declassifiable_text_derived_call tool"
  using assms
  by (auto simp: resolve_approval_outcome_def tool_call_requires_approval_def Let_def split: option.splits if_splits prod.splits)

lemma approve_call_unattended:
  "fst (approve_call nm tool rq caller None policy prepared w) = None \<longleftrightarrow>
     fst (resolve_approval_outcome tool (cr_provenance rq) caller (cr_tainted rq) policy w) = Proceed"
  by (auto simp: approve_call_def decide_def split: prod.splits approval_outcome.splits)

section \<open>Batches\<close>

definition call_fits :: "('n, 'p, 'w) tool_descriptor list \<Rightarrow> 'n tool_call_request list \<Rightarrow> concurrency_class \<Rightarrow> nat \<Rightarrow> bool" where
  "call_fits table rqs c i \<longleftrightarrow>
     kc_kind c = Sequential \<or>
     (case find_tool table (cr_tool_name (rqs ! i)) of
        None \<Rightarrow> False
      | Some tool \<Rightarrow>
          \<not> td_captures_state tool \<and>
          (if kc_kind c = Parallel then td_group tool = None \<and> td_parallelizable tool else td_group tool = Some (kc_group c)))"

lemma call_fits_cong:
  "kc_kind c = kc_kind d \<Longrightarrow> kc_group c = kc_group d \<Longrightarrow> call_fits table rqs c = call_fits table rqs d"
  by (simp add: call_fits_def fun_eq_iff split: option.split)

lemma call_fits_extended [simp]: "call_fits table rqs (c\<lparr>kc_calls := xs\<rparr>) = call_fits table rqs c"
  by (rule call_fits_cong) simp_all

definition class_ok :: "('n, 'p, 'w) tool_descriptor list \<Rightarrow> 'n tool_call_request list \<Rightarrow> concurrency_class \<Rightarrow> bool" where
  "class_ok table rqs c \<longleftrightarrow>
     kc_calls c \<noteq> [] \<and> sorted_wrt (<) (kc_calls c) \<and> list_all (call_fits table rqs c) (kc_calls c) \<and>
     (kc_kind c = ExclusivityGroup \<or> length (kc_calls c) = 1)"

definition group_names :: "concurrency_class list \<Rightarrow> string list" where
  "group_names cs = map kc_group (filter (\<lambda>c. kc_kind c = ExclusivityGroup) cs)"

lemma group_names_simps [simp]:
  "group_names [] = []"
  "group_names (c # cs) = (if kc_kind c = ExclusivityGroup then kc_group c # group_names cs else group_names cs)"
  "group_names (cs @ ds) = group_names cs @ group_names ds"
  by (simp_all add: group_names_def)

definition batch_ok ::
  "('n, 'p, 'w) tool_descriptor list \<Rightarrow> 'n tool_call_request list \<Rightarrow> nat \<Rightarrow> concurrency_class list \<Rightarrow> bool" where
  "batch_ok table rqs n cs \<longleftrightarrow>
     mset (concat (map kc_calls cs)) = mset [0..<n] \<and> list_all (class_ok table rqs) cs \<and> distinct (group_names cs)"

lemma add_to_group_calls: "mset (concat (map kc_calls (add_to_group g i cs))) = add_mset i (mset (concat (map kc_calls cs)))"
  by (induction cs) auto

lemma add_to_group_names: "group_names (add_to_group g i cs) = (if g \<in> set (group_names cs) then group_names cs else group_names cs @ [g])"
  by (induction cs) auto

lemma class_ok_extend:
  assumes "class_ok table rqs c" and "kc_kind c = ExclusivityGroup" and "call_fits table rqs c i" and "\<And>j. j \<in> set (kc_calls c) \<Longrightarrow> j < i"
  shows "class_ok table rqs (c\<lparr>kc_calls := kc_calls c @ [i]\<rparr>)"
  using assms by (auto simp: class_ok_def sorted_wrt_append)

lemma add_to_group_ok:
  assumes "list_all (class_ok table rqs) cs" and "\<And>j. j \<in> set (concat (map kc_calls cs)) \<Longrightarrow> j < i"
    and "call_fits table rqs \<lparr>kc_kind = ExclusivityGroup, kc_calls = [i], kc_group = g\<rparr> i"
  shows "list_all (class_ok table rqs) (add_to_group g i cs)"
  using assms
proof (induction cs)
  case Nil
  then show ?case by (simp add: class_ok_def)
next
  case (Cons c cs)
  have "class_ok table rqs (c\<lparr>kc_calls := kc_calls c @ [i]\<rparr>)" if "kc_kind c = ExclusivityGroup" "kc_group c = g"
    using that Cons.prems call_fits_cong [of c "\<lparr>kc_kind = ExclusivityGroup, kc_calls = [i], kc_group = g\<rparr>" table rqs]
    by (intro class_ok_extend) auto
  with Cons show ?case by auto
qed

lemma place_call_ok:
  assumes "batch_ok table rqs i cs" and "find_tool table (cr_tool_name (rqs ! i)) = Some tool"
    and "td_parallelizable tool \<or> td_group tool \<noteq> None"
  shows "batch_ok table rqs (Suc i) (place_call tool i cs)"
proof -
  have m: "mset (concat (map kc_calls cs)) = mset [0..<i]" and c: "list_all (class_ok table rqs) cs" and d: "distinct (group_names cs)"
    using assms(1) by (auto simp: batch_ok_def)
  have below: "\<And>j. j \<in> set (concat (map kc_calls cs)) \<Longrightarrow> j < i"
    using mset_eq_setD [OF m] by auto
  show ?thesis
  proof (cases "td_captures_state tool")
    case True
    then show ?thesis using m c d by (simp add: place_call_def batch_ok_def class_ok_def call_fits_def)
  next
    case False
    show ?thesis
    proof (cases "td_group tool")
      case None
      with False show ?thesis using m c d assms(2,3) by (simp add: place_call_def batch_ok_def class_ok_def call_fits_def)
    next
      case (Some g)
      with False have "list_all (class_ok table rqs) (add_to_group g i cs)"
        using assms(2) by (intro add_to_group_ok c below) (simp_all add: call_fits_def)
      with Some False show ?thesis using m d by (auto simp: place_call_def batch_ok_def add_to_group_calls add_to_group_names)
    qed
  qed
qed

lemma place_calls_ok:
  assumes "batch_ok table rqs i cs" and "drop i rqs = qs" and "list_all (declares_concurrency table) qs" and "i \<le> length rqs"
  shows "batch_ok table rqs (length rqs) (place_calls table qs i cs)"
  using assms
proof (induction qs arbitrary: i cs)
  case Nil
  then show ?case by simp
next
  case (Cons q qs)
  then have i: "i < length rqs" by (metis drop_all leI list.distinct(1))
  with Cons.prems(2) have q: "rqs ! i = q" and qs: "drop (Suc i) rqs = qs" by (metis Cons_nth_drop_Suc list.inject)+
  from Cons.prems(3) obtain tool where t: "find_tool table (cr_tool_name q) = Some tool" "td_parallelizable tool \<or> td_group tool \<noteq> None"
    by (auto simp: declares_concurrency_def split: option.splits)
  have "batch_ok table rqs (Suc i) (place_call tool i cs)" using place_call_ok [OF Cons.prems(1)] q t by blast
  then show ?case using Cons.IH qs t i Cons.prems(3) by simp
qed

lemma sequential_batch_ok:
  "batch_ok table rqs n (map (\<lambda>i. \<lparr>kc_kind = Sequential, kc_calls = [i], kc_group = []\<rparr>) [0..<n])"
  by (simp add: batch_ok_def class_ok_def call_fits_def group_names_def list_all_iff comp_def)

lemma partition_batch_ok: "batch_ok table rqs (length rqs) (partition_batch table rqs)"
proof (cases "list_all (declares_concurrency table) rqs")
  case True
  have "batch_ok table rqs 0 []" by (simp add: batch_ok_def)
  from place_calls_ok [OF this, of rqs] True show ?thesis by (simp add: partition_batch_def)
next
  case False
  then show ?thesis using sequential_batch_ok by (simp add: partition_batch_def)
qed

section \<open>Properties of the pipeline\<close>

text \<open>C7. A call is admitted exactly when its tool is known and states its approval mode, its arguments parsed, every entry of
  the tool's ceiling and of its per-call requirement is admitted by the caller's grants, the requirement is non-empty and
  inside the declared bound, and the approval step passes.\<close>

theorem admitted_iff:
  "(\<exists>ad st' w'. admit_call nm table held rq caller approve policy st w = ((Inr ad, st'), w')) \<longleftrightarrow>
   (\<exists>tool prepared.
      find_tool table (cr_tool_name rq) = Some tool \<and> td_approval tool \<noteq> None \<and> cr_parse_error rq = [] \<and>
      list_all (ceiling_entry_admitted held tool) (td_ceiling tool) \<and>
      prepared_for held tool (cr_arguments rq) prepared \<and>
      fst (approve_call nm tool rq caller approve policy prepared w) = None)" (is "?L \<longleftrightarrow> ?R")
proof
  assume ?L
  then obtain tool bound st1 bound1 prepared st' w' where
    a: "find_tool table (cr_tool_name rq) = Some tool" "td_approval tool \<noteq> None" "cr_parse_error rq = []"
      "approve_call nm tool rq caller approve policy prepared w = (None, w')" and
    b: "bind_entries held tool (td_ceiling tool) [] st = (True, bound, st1)" and
    r: "bind_requirement held tool (cr_arguments rq) bound st1 = (Inr (bound1, prepared), st')"
    unfolding admit_call_Inr by blast
  have "list_all (ceiling_entry_admitted held tool) (td_ceiling tool)"
    using bind_entries_ok_iff [of held tool "td_ceiling tool" "[]" st] b by simp
  then show ?R using a bind_requirement_Inr(1) [OF r] by auto
next
  assume ?R
  then obtain tool prepared where
    a: "find_tool table (cr_tool_name rq) = Some tool" "td_approval tool \<noteq> None" "cr_parse_error rq = []"
      "fst (approve_call nm tool rq caller approve policy prepared w) = None" and
    c: "list_all (ceiling_entry_admitted held tool) (td_ceiling tool)" and
    p: "prepared_for held tool (cr_arguments rq) prepared"
    by blast
  from c have "fst (bind_entries held tool (td_ceiling tool) [] st)" by (simp add: bind_entries_ok_iff)
  then obtain bound st1 where b: "bind_entries held tool (td_ceiling tool) [] st = (True, bound, st1)"
    by (cases "bind_entries held tool (td_ceiling tool) [] st") auto
  from bind_requirement_complete [OF p, of bound st1] obtain bound1 st2 where
    r: "bind_requirement held tool (cr_arguments rq) bound st1 = (Inr (bound1, prepared), st2)" by blast
  from a(4) obtain w' where "approve_call nm tool rq caller approve policy prepared w = (None, w')"
    by (cases "approve_call nm tool rq caller approve policy prepared w") auto
  with a b r show ?L unfolding admit_call_Inr by blast
qed



definition demo_tool :: "(int, string, unit) tool_descriptor" where
  "demo_tool =
     \<lparr>td_name = ''run'', td_ceiling = [], td_approval = Some NeverRequire, td_backgroundable = True, td_effect = PureEffect,
      td_captures_state = False, td_group = None, td_parallelizable = True, td_deterministic = False, td_enforces_caps = False,
      td_bounds = [NativeExec demo_native_grant],
      td_prepare = Some (\<lambda>a. Inr \<lparr>pc_required = [NativeExec demo_native_grant], pc_arguments = ''script''\<rparr>),
      td_invoke = (\<lambda>a bound p st w. ((Some (Inr JNull), st), w))\<rparr>"

definition demo_request :: "int tool_call_request" where
  "demo_request =
     \<lparr>cr_call_id = ''c1'', cr_tool_name = ''run'', cr_arguments = JNull, cr_tainted = True, cr_call_index = 0,
      cr_provenance = TextDerived, cr_parse_error = []\<rparr>"

definition demo_context :: "unit call_context" where
  "demo_context =
     \<lparr>cx_principal = demo_bot,
      cx_run_id = ''r'', cx_turn_index = 0, cx_deadline = None, cx_threshold = None, cx_blob_sink = None\<rparr>"

definition demo_held :: capability_set where
  "demo_held = grant_root [NativeExec demo_native_grant, Background \<lparr>bg_max_concurrent = 1\<rparr>]"

lemma demo_native_refl [simp]: "subsumes_native_exec demo_native_grant demo_native_grant"
  using subsumes_refl [of "NativeExec demo_native_grant"] by simp

lemmas demo_tool_simps = demo_tool_def demo_request_def demo_context_def demo_held_def find_tool_def contains_def
  grant_root_def

lemma demo_admitted:
  "admit_call int_ops [demo_tool] demo_held demo_request (cx_principal demo_context) None None no_tickets () =
     ((Inr \<lparr>ad_tool = demo_tool, ad_bound = [\<lparr>bc_granted = NativeExec demo_native_grant, bc_ticket = 0\<rparr>],
            ad_prepared = Some \<lparr>pc_required = [NativeExec demo_native_grant], pc_arguments = ''script''\<rparr>\<rparr>,
       snd (mint_handle no_tickets (NativeExec demo_native_grant))), ())"
  by (simp add: admit_call_def bind_requirement_def bind_ceiling_entry_def bind_def approve_call_def resolve_approval_outcome_def
      tool_call_requires_approval_def is_auto_declassifiable_text_derived_call_def demo_tool_simps subsumes_refl mint_handle_def
      no_tickets_def)

lemma demo_returns: "\<exists>x st2. invoke_tool int_ops [demo_tool] demo_held demo_request demo_context None None 0 no_tickets () = ((Some x, st2), ())"
  using demo_admitted
  by (auto simp: invoke_tool_def run_admitted_call_def deadline_expired_def demo_tool_def demo_context_def normalize_success_def Let_def
      split: prod.splits sum.splits option.splits)

text \<open>C6. The handles of an admitted call are usable while its tool runs, each within a declared requirement of the tool and
  within the caller's grants, and new: none is a handle of an earlier call. Once the call has returned a result, whatever the
  tool did, none of them is usable. A call whose tool throws returns no result and revokes nothing: the store is then the one
  the tool left.\<close>

theorem call_handles_confined:
  assumes "admit_call nm table held rq (cx_principal ctx) approve policy st w = ((Inr ad, st1), w1)" and "b \<in> set (ad_bound ad)"
    and "invoke_tool nm table held rq ctx approve policy now st w = ((answer, st2), w2)"
  shows "use_handle st1 b = Inr (bc_granted b) \<and> contains held (bc_granted b) \<and>
         list_ex (\<lambda>c. subsumes c (bc_granted b)) (call_requirements ad) \<and> tk_next st \<le> bc_ticket b \<and>
         (case answer of
            Some x \<Rightarrow> use_handle st2 b = Inl (Error Policy ''capability.handle_revoked'')
          | None \<Rightarrow> td_invoke (ad_tool ad) (cr_arguments rq) (ad_bound ad) (map_option pc_arguments (ad_prepared ad)) st1 w1
                      = ((None, st2), w2))"
proof -
  obtain x where x: "run_admitted_call nm (ad_tool ad) rq ctx (ad_bound ad) (ad_prepared ad) now st1 w1 = ((x, st2), w2)"
      "answer = map_option (\<lambda>oc. (ao_result oc, make_call_audit nm rq ctx oc)) x"
    using assms(1,3) by (auto simp: invoke_tool_def split: prod.splits)
  have "case answer of Some y \<Rightarrow> use_handle st2 b = Inl (Error Policy ''capability.handle_revoked'')
      | None \<Rightarrow> td_invoke (ad_tool ad) (cr_arguments rq) (ad_bound ad) (map_option pc_arguments (ad_prepared ad)) st1 w1
                  = ((None, st2), w2)"
  proof (cases x)
    case None
    with x show ?thesis by (simp add: run_admitted_call_threw)
  next
    case (Some oc)
    with x run_admitted_call_unusable [OF _ assms(2)] show ?thesis by simp
  qed
  then show ?thesis
    using foreground.handle_usable [OF assms(1,2)] foreground.handle_is_new [OF assms(1,2)]
      foreground.handle_within_grants [OF assms(1,2)]
    by (simp add: list_ex_iff)
qed

theorem call_handles_confined_witness:
  "\<exists>ad st1 b x st2. admit_call int_ops [demo_tool] demo_held demo_request (cx_principal demo_context) None None no_tickets () = ((Inr ad, st1), ())
     \<and> b \<in> set (ad_bound ad) \<and> use_handle st1 b = Inr (NativeExec demo_native_grant)
     \<and> invoke_tool int_ops [demo_tool] demo_held demo_request demo_context None None 0 no_tickets () = ((Some x, st2), ())
     \<and> use_handle st2 b = Inl (Error Policy ''capability.handle_revoked'')"
proof -
  obtain x st2 where i: "invoke_tool int_ops [demo_tool] demo_held demo_request demo_context None None 0 no_tickets () = ((Some x, st2), ())"
    using demo_returns by blast
  let ?b = "\<lparr>bc_granted = NativeExec demo_native_grant, bc_ticket = 0\<rparr>"
  show ?thesis using call_handles_confined [OF demo_admitted _ i, of ?b] demo_admitted i by auto
qed

text \<open>A thrown call: the handle of its tool works after the call is over.\<close>

definition throwing_tool :: "(int, string, unit) tool_descriptor" where
  "throwing_tool = demo_tool\<lparr>td_invoke := (\<lambda>args bound pre st w. ((None, st), w))\<rparr>"

lemma thrown_call_keeps_handles:
  "\<exists>st2 b. invoke_tool int_ops [throwing_tool] demo_held demo_request demo_context None None 0 no_tickets () = ((None, st2), ())
     \<and> tk_next no_tickets \<le> bc_ticket b \<and> use_handle st2 b = Inr (NativeExec demo_native_grant)"
  by (simp add: invoke_tool_def run_admitted_call_def throwing_tool_def admit_call_def bind_requirement_def
      bind_ceiling_entry_def bind_def approve_call_def resolve_approval_outcome_def tool_call_requires_approval_def
      is_auto_declassifiable_text_derived_call_def demo_tool_simps subsumes_refl mint_handle_def no_tickets_def
      deadline_expired_def use_handle_def)
    (rule exI [of _ "\<lparr>bc_granted = NativeExec demo_native_grant, bc_ticket = 0\<rparr>"], simp)

text \<open>A refused call leaves the ticket store as live as it was: every handle bound on the way to the refusal is revoked,
  unless the refusal is for a capability that is not held.\<close>

theorem refused_call_leaves_no_handle:
  assumes "tickets_ok st" and "admit_call nm table held rq caller approve policy st w = ((Inl e, st'), w')"
    and "e \<noteq> Error Policy ''tool.capability_not_held''"
  shows "tk_live st' = tk_live st"
  using foreground.refused_handles [OF assms(1,2)] assms(3) by (simp add: not_held_def)

theorem refused_call_leaves_no_handle_witness:
  "\<exists>st'. admit_call int_ops [demo_tool\<lparr>td_approval := Some AlwaysRequire\<rparr>] demo_held demo_request (cx_principal demo_context) None None
       no_tickets () = ((Inl (Error Policy ''tool.approval_denied''), st'), ())
     \<and> tk_next st' = 1 \<and> tk_live st' = tk_live no_tickets"
proof -
  let ?st = "revoke_all [\<lparr>bc_granted = NativeExec demo_native_grant, bc_ticket = 0\<rparr>]
    (snd (mint_handle no_tickets (NativeExec demo_native_grant)))"
  have a: "admit_call int_ops [demo_tool\<lparr>td_approval := Some AlwaysRequire\<rparr>] demo_held demo_request (cx_principal demo_context) None
       None no_tickets () = ((Inl (Error Policy ''tool.approval_denied''), ?st), ())"
    by (simp add: admit_call_def bind_requirement_def bind_ceiling_entry_def bind_def approve_call_def resolve_approval_outcome_def
        tool_call_requires_approval_def decide_def demo_tool_simps subsumes_refl mint_handle_def no_tickets_def)
  show ?thesis
    using a refused_call_leaves_no_handle [OF tickets_ok_no_tickets a]
    by (simp add: mint_handle_def revoke_all_def revoke_def no_tickets_def)
qed


text \<open>C8. A text-derived call is never less gated than the same call in the vendor's structured form, whatever the tool
  declares and whatever policy the host wires.\<close>

theorem text_derived_never_less_gated:
  "strictness (fst (resolve_approval_outcome tool VendorStructured caller tainted policy w))
     \<le> strictness (fst (resolve_approval_outcome tool TextDerived caller tainted policy w))"
  using requires_approval_mono [of tool]
  by (auto simp: resolve_approval_outcome_def Let_def split: option.splits prod.splits policy_decision.splits)

text \<open>C9. With no approval decider wired, a text-derived call is admitted only to a tool that never requires approval, whose
  effect is pure and whose capability ceiling is inert, whatever the policy says.\<close>

theorem unattended_text_derived_inert:
  assumes "admit_call nm table held rq caller None policy st w = ((Inr ad, st'), w')" and "cr_provenance rq = TextDerived"
  shows "td_approval (ad_tool ad) = Some NeverRequire \<and> td_effect (ad_tool ad) = PureEffect \<and>
         list_all (\<lambda>c. is_inert_for_text_derived_declassification (capability_kind_of c)) (td_ceiling (ad_tool ad))"
proof -
  from assms(1) obtain prepared where "approve_call nm (ad_tool ad) rq caller None policy prepared w = (None, w')"
    unfolding admit_call_Inr by auto
  then have "fst (approve_call nm (ad_tool ad) rq caller None policy prepared w) = None" by simp
  then have "fst (resolve_approval_outcome (ad_tool ad) TextDerived caller (cr_tainted rq) policy w) = Proceed"
    using approve_call_unattended [of nm "ad_tool ad" rq caller policy prepared w] assms(2) by simp
  from text_derived_proceeds [OF this] show ?thesis by (simp add: is_auto_declassifiable_text_derived_call_def)
qed

theorem unattended_text_derived_inert_witness:
  "\<exists>ad st'. admit_call int_ops [demo_tool] demo_held demo_request (cx_principal demo_context) None None no_tickets () = ((Inr ad, st'), ())
     \<and> td_effect (ad_tool ad) = PureEffect"
  using unattended_text_derived_inert [OF demo_admitted] demo_admitted by (auto simp: demo_request_def)

text \<open>The inert test looks at the ceiling only. A text-derived call to a pure tool with an empty ceiling and a per-call
  requirement is admitted with no decider and no policy, and its handle carries the right to run a native program, a kind
  that is not inert.\<close>

theorem unattended_call_binds_native_exec:
  "\<exists>ad st' b. admit_call int_ops [demo_tool] demo_held demo_request (cx_principal demo_context) None None no_tickets () = ((Inr ad, st'), ())
     \<and> cr_provenance demo_request = TextDerived \<and> b \<in> set (ad_bound ad)
     \<and> use_handle st' b = Inr (NativeExec demo_native_grant)
     \<and> \<not> is_inert_for_text_derived_declassification (capability_kind_of (bc_granted b))"
  by (simp add: demo_admitted) (simp add: demo_request_def use_handle_def mint_handle_def no_tickets_def)

text \<open>The policy that approves delegated callers lets a vendor-structured call proceed without a decider exactly when the
  tool never requires approval, or is policy-driven and the caller acts on behalf of another within the depth bound; for a
  text-derived call it changes nothing.\<close>

theorem delegated_policy_exact:
  "(fst (resolve_approval_outcome tool VendorStructured caller tainted (Some (approve_delegated_calls max_depth)) w) = Proceed \<longleftrightarrow>
      td_approval tool = Some NeverRequire \<or>
      td_approval tool = Some PolicyDriven \<and> p_on_behalf_of caller \<noteq> [] \<and>
      (case max_depth of None \<Rightarrow> True | Some d \<Rightarrow> p_delegation_depth caller \<le> d)) \<and>
   resolve_approval_outcome tool TextDerived caller tainted (Some (approve_delegated_calls max_depth)) w =
     resolve_approval_outcome tool TextDerived caller tainted None w"
  by (auto simp: resolve_approval_outcome_def tool_call_requires_approval_def approve_delegated_calls_def Let_def
      split: option.splits)

text \<open>The concurrency classes of a batch hold every call once, in the batch's order within a class. A call that runs
  beside others captures no session state; one in a parallel class is alone there and declares itself parallelizable, the
  calls of an exclusivity group are all in its one class.\<close>

theorem partition_batch_exact:
  "mset (concat (map kc_calls (partition_batch table rqs))) = mset [0..<length rqs] \<and>
   list_all (class_ok table rqs) (partition_batch table rqs) \<and>
   distinct (group_names (partition_batch table rqs))"
  using partition_batch_ok [of table rqs] by (simp add: batch_ok_def)

text \<open>A background call is accepted only for a backgroundable tool without a per-call requirement and without session
  state, with the caller's running calls below its background grant, and approved if its provenance needs approval. The
  worker's handles stay within the grants and are dead when it reports.\<close>

theorem background_call_confined:
  assumes "background_task nm table held rq ctx approve running st w = ((Inr ad, st1), w1)"
  shows "td_backgroundable (ad_tool ad) \<and> td_prepare (ad_tool ad) = None \<and> \<not> td_captures_state (ad_tool ad) \<and>
         (\<exists>g. find_background held = Some g \<and> running < unat (bg_max_concurrent g)) \<and>
         (tool_call_requires_approval (ad_tool ad) (cr_provenance rq) \<longrightarrow>
            approve \<noteq> None \<and> fst (the approve (cx_principal ctx) (cr_tool_name rq) (dump nm (cr_arguments rq)) w)) \<and>
         (b \<in> set (ad_bound ad) \<longrightarrow>
            use_handle st1 b = Inr (bc_granted b) \<and> contains held (bc_granted b) \<and>
            use_handle (snd (fst (background_worker nm ad rq ctx st2 w2))) b = Inl (Error Policy ''capability.handle_revoked''))"
proof -
  have "use_handle (snd (fst (background_worker nm ad rq ctx st2 w2))) b = Inl (Error Policy ''capability.handle_revoked'')"
    if "b \<in> set (ad_bound ad)"
    using run_admitted_call_unusable [OF _ that] revoke_all_unusable [OF that]
    by (auto simp: background_worker_def Let_def split: prod.splits option.splits)
  moreover have "use_handle st1 b = Inr (bc_granted b) \<and> contains held (bc_granted b)" if "b \<in> set (ad_bound ad)"
    using detached.handle_usable [OF assms that] detached.handle_within_grants(1) [OF assms that] by blast
  ultimately show ?thesis
    using assms unfolding background_task_Inr
    by (auto simp: background_capacity_def decide_def split: option.splits if_splits)
qed

theorem background_call_confined_witness:
  "\<exists>ad st1. background_task int_ops [demo_tool\<lparr>td_prepare := None, td_ceiling := [NativeExec demo_native_grant]\<rparr>] demo_held
        (demo_request\<lparr>cr_provenance := VendorStructured\<rparr>) demo_context None 0 no_tickets () = ((Inr ad, st1), ())
     \<and> ad_bound ad = [\<lparr>bc_granted = NativeExec demo_native_grant, bc_ticket = 0\<rparr>] \<and> td_backgroundable (ad_tool ad)"
proof -
  let ?t = "demo_tool\<lparr>td_prepare := None, td_ceiling := [NativeExec demo_native_grant]\<rparr>"
  have a: "background_task int_ops [?t] demo_held (demo_request\<lparr>cr_provenance := VendorStructured\<rparr>) demo_context None 0 no_tickets () =
      ((Inr \<lparr>ad_tool = ?t, ad_bound = [\<lparr>bc_granted = NativeExec demo_native_grant, bc_ticket = 0\<rparr>], ad_prepared = None\<rparr>,
        snd (mint_handle no_tickets (NativeExec demo_native_grant))), ())"
    by (simp add: background_task_def bind_ceiling_entry_def bind_def tool_call_requires_approval_def demo_tool_simps
        subsumes_refl mint_handle_def no_tickets_def background_capacity_def find_background_def get_background_def)
  then show ?thesis using background_call_confined [OF a] by auto
qed

text \<open>The items of a result: a failure is the pipeline's own text, a reply is marked tainted and is inlined only up to the
  threshold.\<close>

definition item_ok :: "'w call_context \<Rightarrow> result_item \<Rightarrow> bool" where
  "item_ok ctx item =
     (case ri_value item of
        ErrorValue e \<Rightarrow> \<not> ri_tainted item
      | MediaValue blob \<Rightarrow> ri_tainted item \<and> cx_threshold ctx \<noteq> None
      | DataValue text \<Rightarrow> ri_tainted item \<and> (case cx_threshold ctx of None \<Rightarrow> True | Some t \<Rightarrow> length text \<le> unat t))"

lemma normalize_success_ok:
  assumes "normalize_success nm i reply ctx w = (Inr (r, n), w')"
  shows "\<not> tr_is_error r" and "length (tr_content r) = 1" and "list_all (item_ok ctx) (tr_content r)" and "tr_call_id r = i"
    and "n = length (dump nm reply)"
  using assms by (auto simp: normalize_success_def Let_def item_ok_def split: option.splits if_splits prod.splits sum.splits)

lemma failed_outcome_ok:
  "list_all (item_ok ctx) (tr_content (make_error_result i e))" "tr_is_error (make_error_result i e)"
  "length (tr_content (make_error_result i e)) = 1" "tr_call_id (make_error_result i e) = i"
  by (simp_all add: make_error_result_def item_ok_def)

definition outcome_ok :: "'w call_context \<Rightarrow> string \<Rightarrow> admitted_call_outcome \<Rightarrow> bool" where
  "outcome_ok ctx i oc \<longleftrightarrow>
     tr_call_id (ao_result oc) = i \<and> length (tr_content (ao_result oc)) = 1 \<and> list_all (item_ok ctx) (tr_content (ao_result oc)) \<and>
     (tr_is_error (ao_result oc) \<longleftrightarrow> ao_failure oc \<noteq> None)"

lemma run_admitted_call_outcome:
  "run_admitted_call nm tool rq ctx bound prepared now st w = ((Some oc, st'), w') \<Longrightarrow> outcome_ok ctx (cr_call_id rq) oc"
  by (auto simp: run_admitted_call_def failed_outcome_def outcome_ok_def failed_outcome_ok normalize_success_ok
      split: prod.splits sum.splits option.splits if_splits)

text \<open>C33. Every call that returns, admitted or refused, yields one result item under the call's own id; only a call whose tool
  throws yields none. A failure is not tainted, a reply always is, and a reply over the run's byte threshold is never inlined.
  The audit record says \<open>ok\<close> exactly for the results that are not errors, and names the call, the tool and the principal of
  the context.\<close>

theorem results_normalized:
  "case fst (fst (invoke_tool nm table held rq ctx approve policy now st w)) of
     None \<Rightarrow> (\<exists>tool bound prepared st1 w1. find_tool table (cr_tool_name rq) = Some tool \<and>
               fst (fst (td_invoke tool (cr_arguments rq) bound prepared st1 w1)) = None)
   | Some (r, audit) \<Rightarrow>
       tr_call_id r = cr_call_id rq \<and> length (tr_content r) = 1 \<and> list_all (item_ok ctx) (tr_content r) \<and>
       au_ok audit = (\<not> tr_is_error r) \<and> au_call_id audit = cr_call_id rq \<and> au_tool_name audit = cr_tool_name rq \<and>
       au_principal_id audit = p_id (cx_principal ctx)"
proof -
  obtain ad st1 w1 where a: "admit_call nm table held rq (cx_principal ctx) approve policy st w = ((ad, st1), w1)"
    by (metis prod.exhaust)
  show ?thesis
  proof (cases ad)
    case (Inl e)
    with a show ?thesis by (simp add: invoke_tool_def make_call_audit_def failed_outcome_def failed_outcome_ok)
  next
    case (Inr c)
    obtain x st2 w2 where r: "run_admitted_call nm (ad_tool c) rq ctx (ad_bound c) (ad_prepared c) now st1 w1 = ((x, st2), w2)"
      by (metis prod.exhaust)
    have f: "find_tool table (cr_tool_name rq) = Some (ad_tool c)" using a Inr unfolding Inr admit_call_Inr by auto
    show ?thesis
    proof (cases x)
      case None
      with r have "fst (fst (td_invoke (ad_tool c) (cr_arguments rq) (ad_bound c) (map_option pc_arguments (ad_prepared c)) st1 w1)) = None"
        by (simp add: run_admitted_call_threw)
      with f a Inr r None show ?thesis by (auto simp: invoke_tool_def)
    next
      case (Some oc)
      with a Inr r show ?thesis using run_admitted_call_outcome [of nm "ad_tool c" rq ctx "ad_bound c" "ad_prepared c" now st1 w1]
        by (auto simp: invoke_tool_def make_call_audit_def outcome_ok_def)
    qed
  qed
qed

end
