(* ===== verification/WorkflowRouting.thy ===== *)
theory WorkflowRouting
  imports WorkflowGraph Identity
begin

text \<open>
  Routing of messages between the executors of a workflow: the data types of
  \<^verbatim>\<open>include/agentengine/rt/workflow_supervisor.hpp\<close> and the routing functions of
  \<^verbatim>\<open>src/rt/workflow_supervisor.cpp\<close>. A fan-in target with several declared sources is held back until every
  one of them has resolved. Proved: the barrier releases exactly once, with every contribution, when the last
  source resolves; an answer that \<^verbatim>\<open>port_routes_valid\<close> accepts is one \<^verbatim>\<open>route_from\<close> can route. The event stream is
  not modelled: it carries copies and is never read back.
\<close>

section \<open>Messages and deliveries\<close>

datatype role = SystemRole | UserRole | AssistantRole | ToolRole

text \<open>The supervisor looks into no content item; the only one it makes is an error marker.\<close>

datatype 'c item = ErrorItem string | Item 'c

record contributor =
  cb_index :: nat
  cb_type :: string

record 'c message =
  ms_role :: role
  ms_content :: "'c item list"
  ms_id :: string
  ms_attribution :: "contributor option"

text \<open>Token counts; the cost estimate, a double, is not modelled.\<close>

record usage =
  us_input :: u64
  us_output :: u64
  us_cached :: u64
  us_reasoning :: u64
  us_cache_write :: u64

definition no_usage :: usage where
  "no_usage = \<lparr>us_input = 0, us_output = 0, us_cached = 0, us_reasoning = 0, us_cache_write = 0\<rparr>"

definition add_usage :: "usage \<Rightarrow> usage \<Rightarrow> usage" where
  "add_usage a b = \<lparr>us_input = us_input a + us_input b, us_output = us_output a + us_output b,
     us_cached = us_cached a + us_cached b, us_reasoning = us_reasoning a + us_reasoning b,
     us_cache_write = us_cache_write a + us_cache_write b\<rparr>"

definition empty_message :: "'c message" where
  "empty_message = \<lparr>ms_role = SystemRole, ms_content = [], ms_id = [], ms_attribution = None\<rparr>"

record 'c delivery =
  dl_executor :: nat
  dl_payload :: "'c message"

record 'c execute_reply =
  er_payload :: "'c message"
  er_routes :: "string list"
  er_ok :: bool
  er_class :: failure_class
  er_stalled :: bool
  er_pending :: "string option"
  er_usage :: usage

definition failed_reply :: "failure_class \<Rightarrow> usage \<Rightarrow> 'c execute_reply" where
  "failed_reply k u = \<lparr>er_payload = empty_message, er_routes = [], er_ok = False, er_class = k, er_stalled = False,
     er_pending = None, er_usage = u\<rparr>"

text \<open>\<^verbatim>\<open>executor '<id>' failed (<class>)\<close>, as a system message.\<close>

definition failure_marker :: "string \<Rightarrow> failure_class \<Rightarrow> 'c message" where
  "failure_marker i k = empty_message\<lparr>ms_content :=
     [ErrorItem (''executor '' @ [CHR 0x27] @ i @ [CHR 0x27] @ '' failed ('' @ failure_class_to_string k @ '')'')]\<rparr>"

record 'c held_fan_in =
  hf_executor :: nat
  hf_payload :: "'c message"
  hf_seeded :: bool
  hf_awaiting :: "nat list"

datatype route_result = RouteOk | RoutingFailed | WorkflowFailed

section \<open>The graph by index\<close>

definition executor_id :: "workflow \<Rightarrow> nat \<Rightarrow> string" where
  "executor_id g i = ex_id (wf_executors g ! i)"

text \<open>The first executor of that id, or 0 when there is none.\<close>

fun index_from :: "nat \<Rightarrow> executor list \<Rightarrow> string \<Rightarrow> nat" where
  "index_from k [] i = 0"
| "index_from k (e # es) i = (if ex_id e = i then k else index_from (Suc k) es i)"

definition index_of :: "workflow \<Rightarrow> string \<Rightarrow> nat" where
  "index_of g i = index_from 0 (wf_executors g) i"

definition is_output_selected :: "workflow \<Rightarrow> nat \<Rightarrow> bool" where
  "is_output_selected g i = list_ex (\<lambda>sel. sel = executor_id g i) (wf_output_selection g)"

definition edges_from :: "workflow \<Rightarrow> nat \<Rightarrow> edge list" where
  "edges_from g i = filter (\<lambda>e. ed_from e = executor_id g i) (wf_edges g)"

definition policy_for :: "workflow \<Rightarrow> nat \<Rightarrow> failure_policy" where
  "policy_for g i = (case edges_from g i of [] \<Rightarrow> default_policy | e # es \<Rightarrow> ed_on_failure e)"

fun edge_fires :: "edge \<Rightarrow> string list \<Rightarrow> bool" where
  "edge_fires e routes =
     (case ed_kind e of
        SwitchCase \<Rightarrow> ed_case_label e \<in> set routes
      | MultiSelection \<Rightarrow> ed_case_label e \<in> set routes
      | SwitchDefault \<Rightarrow> False
      | _ \<Rightarrow> True)"

section \<open>Deliveries\<close>

definition add_content :: "'c message \<Rightarrow> 'c message \<Rightarrow> 'c message" where
  "add_content m extra = m\<lparr>ms_content := ms_content m @ ms_content extra\<rparr>"

fun deliver_or_merge :: "'c delivery list \<Rightarrow> nat \<Rightarrow> 'c message \<Rightarrow> 'c delivery list" where
  "deliver_or_merge [] target m = [\<lparr>dl_executor = target, dl_payload = m\<rparr>]"
| "deliver_or_merge (d # ds) target m =
     (if dl_executor d = target then d\<lparr>dl_payload := add_content (dl_payload d) m\<rparr> # ds
      else d # deliver_or_merge ds target m)"

text \<open>The hold of a target, if it has one, after a contribution from a source: the holds that remain and the message
  released, if this was the last source awaited. \<^const>\<open>None\<close>: the target has no hold.\<close>

fun contribute :: "'c held_fan_in list \<Rightarrow> nat \<Rightarrow> nat \<Rightarrow> 'c message \<Rightarrow> ('c held_fan_in list \<times> 'c message option) option" where
  "contribute [] src target m = None"
| "contribute (h # hs) src target m =
     (if hf_executor h = target
      then let payload = (if hf_seeded h then add_content (hf_payload h) m else m);
               awaiting = remove1 src (hf_awaiting h)
           in if awaiting = [] then Some (hs, Some payload)
              else Some (h\<lparr>hf_payload := payload, hf_seeded := True, hf_awaiting := awaiting\<rparr> # hs, None)
      else case contribute hs src target m of
             None \<Rightarrow> None | Some (hs', r) \<Rightarrow> Some (h # hs', r))"

type_synonym 'c routed = "'c held_fan_in list \<times> 'c delivery list"

definition deliver_to_fan_in :: "nat \<Rightarrow> nat \<Rightarrow> 'c message \<Rightarrow> 'c routed \<Rightarrow> 'c routed" where
  "deliver_to_fan_in src target m s =
     (case contribute (fst s) src target m of
        None \<Rightarrow> (fst s, deliver_or_merge (snd s) target m)
      | Some (hs, None) \<Rightarrow> (hs, snd s)
      | Some (hs, Some released) \<Rightarrow> (hs, deliver_or_merge (snd s) target released))"

text \<open>A source that failed for good gives up its slot and contributes nothing.\<close>

fun give_up :: "'c held_fan_in list \<Rightarrow> nat \<Rightarrow> nat \<Rightarrow> 'c held_fan_in list \<times> 'c message option" where
  "give_up [] src target = ([], None)"
| "give_up (h # hs) src target =
     (if hf_executor h = target
      then let awaiting = remove1 src (hf_awaiting h)
           in if awaiting \<noteq> [] then (h\<lparr>hf_awaiting := awaiting\<rparr> # hs, None)
              else (hs, if hf_seeded h then Some (hf_payload h) else None)
      else case give_up hs src target of (hs', r) \<Rightarrow> (h # hs', r))"

definition resolve_fan_in_await :: "nat \<Rightarrow> nat \<Rightarrow> 'c routed \<Rightarrow> 'c routed" where
  "resolve_fan_in_await target src s =
     (case give_up (fst s) src target of
        (hs, None) \<Rightarrow> (hs, snd s)
      | (hs, Some released) \<Rightarrow> (hs, deliver_or_merge (snd s) target released))"

definition fan_in_sources :: "workflow \<Rightarrow> nat \<Rightarrow> nat list" where
  "fan_in_sources g target = fold (\<lambda>e sources.
     if ed_kind e = FanIn \<and> ed_to e = executor_id g target \<and> index_of g (ed_from e) \<notin> set sources
     then sources @ [index_of g (ed_from e)] else sources) (wf_edges g) []"

definition seed_fan_in_holds :: "workflow \<Rightarrow> 'c held_fan_in list" where
  "seed_fan_in_holds g =
     map (\<lambda>target. \<lparr>hf_executor = target, hf_payload = empty_message, hf_seeded = False,
                    hf_awaiting = fan_in_sources g target\<rparr>)
       (filter (\<lambda>target. 2 \<le> length (fan_in_sources g target)) [0..<length (wf_executors g)])"

section \<open>Routing one reply\<close>

definition propagate_marker :: "workflow \<Rightarrow> nat \<Rightarrow> 'c message \<Rightarrow> edge \<Rightarrow> 'c routed \<Rightarrow> 'c routed" where
  "propagate_marker g src marker e s =
     (if ed_kind e = FanIn then deliver_to_fan_in src (index_of g (ed_to e)) marker s
      else (fst s, deliver_or_merge (snd s) (index_of g (ed_to e)) marker))"

definition fall_back :: "workflow \<Rightarrow> nat \<Rightarrow> 'c message \<Rightarrow> edge \<Rightarrow> 'c routed \<Rightarrow> 'c routed" where
  "fall_back g src marker e s =
     (if fp_kind (ed_on_failure e) \<noteq> OnFallback then s
      else let s' = (fst s, deliver_or_merge (snd s) (index_of g (fp_fallback (ed_on_failure e))) marker)
           in if ed_kind e = FanIn then resolve_fan_in_await (index_of g (ed_to e)) src s' else s')"

definition route_failure :: "workflow \<Rightarrow> nat \<Rightarrow> failure_class \<Rightarrow> bool \<Rightarrow> 'c routed \<Rightarrow> route_result \<times> 'c routed" where
  "route_failure g src k echo s =
     (if k = Canceled then (WorkflowFailed, s)
      else let marker = failure_marker (executor_id g src) k
           in case fp_kind (policy_for g src) of
                OnPropagate \<Rightarrow> (RouteOk, if echo then s else fold (propagate_marker g src marker) (edges_from g src) s)
              | OnFallback \<Rightarrow> (RouteOk, if echo then s else fold (fall_back g src marker) (edges_from g src) s)
              | _ \<Rightarrow> (WorkflowFailed, s))"

definition deliver_edge :: "workflow \<Rightarrow> nat \<Rightarrow> 'c execute_reply \<Rightarrow> edge \<Rightarrow> 'c routed \<Rightarrow> 'c routed" where
  "deliver_edge g src reply e s =
     (if \<not> edge_fires e (er_routes reply) then s
      else if ed_kind e = FanIn then deliver_to_fan_in src (index_of g (ed_to e)) (er_payload reply) s
      else (fst s, snd s @ [\<lparr>dl_executor = index_of g (ed_to e), dl_payload = er_payload reply\<rparr>]))"

definition switch_cases :: "edge list \<Rightarrow> edge list" where
  "switch_cases es = filter (\<lambda>e. ed_kind e = SwitchCase) es"

definition switch_fired :: "edge list \<Rightarrow> string list \<Rightarrow> nat" where
  "switch_fired es routes = length (filter (\<lambda>e. edge_fires e routes) (switch_cases es))"

text \<open>The loop keeps the last default edge it meets.\<close>

definition default_edge :: "edge list \<Rightarrow> edge option" where
  "default_edge es = fold (\<lambda>e d. if ed_kind e = SwitchDefault then Some e else d) es None"

definition route_from :: "workflow \<Rightarrow> nat \<Rightarrow> 'c execute_reply \<Rightarrow> bool \<Rightarrow> 'c routed \<Rightarrow> route_result \<times> 'c routed" where
  "route_from g src reply echo s =
     (if \<not> er_ok reply then route_failure g src (er_class reply) echo s
      else let es = edges_from g src;
               s1 = fold (deliver_edge g src reply) es s;
               fired = switch_fired es (er_routes reply);
               took_default = (default_edge es \<noteq> None \<and> switch_cases es \<noteq> [] \<and> fired = 0);
               s2 = (if took_default
                     then (fst s1, snd s1 @ [\<lparr>dl_executor = index_of g (ed_to (the (default_edge es))), dl_payload = er_payload reply\<rparr>])
                     else s1)
           in (if switch_cases es \<noteq> [] \<and> fired \<noteq> 1 \<and> \<not> took_default then RoutingFailed else RouteOk, s2))"

definition is_same_round_quarantine_echo :: "'c delivery list \<Rightarrow> 'c execute_reply list \<Rightarrow> nat \<Rightarrow> bool" where
  "is_same_round_quarantine_echo ds replies i =
     (\<not> er_ok (replies ! i) \<and>
      list_ex (\<lambda>j. j \<noteq> i \<and> dl_executor (ds ! j) = dl_executor (ds ! i) \<and> er_ok (replies ! j)) [0..<length ds])"

definition port_routes_valid :: "workflow \<Rightarrow> nat \<Rightarrow> string list \<Rightarrow> bool" where
  "port_routes_valid g port routes =
     (let es = edges_from g port
      in list_all (\<lambda>r. list_ex (\<lambda>e. labelled e \<and> ed_case_label e = r) es) routes \<and>
         (switch_cases es = [] \<or> switch_fired es routes = 1 \<or> switch_fired es routes = 0 \<and> default_edge es \<noteq> None))"

section \<open>The fan-in barrier\<close>

text \<open>What one source does to one hold: it contributes a message or gives up. The hold that remains, and what
  is released.\<close>

definition absorb :: "'c held_fan_in \<Rightarrow> nat \<Rightarrow> 'c message option \<Rightarrow> 'c held_fan_in" where
  "absorb h src mo = (case mo of
      None \<Rightarrow> h\<lparr>hf_awaiting := remove1 src (hf_awaiting h)\<rparr>
    | Some m \<Rightarrow> h\<lparr>hf_payload := (if hf_seeded h then add_content (hf_payload h) m else m), hf_seeded := True,
                  hf_awaiting := remove1 src (hf_awaiting h)\<rparr>)"

definition settle :: "'c held_fan_in \<Rightarrow> nat \<Rightarrow> 'c message option \<Rightarrow> 'c held_fan_in option \<times> 'c message option" where
  "settle h src mo = (let h' = absorb h src mo in
     if hf_awaiting h' \<noteq> [] then (Some h', None) else (None, if hf_seeded h' then Some (hf_payload h') else None))"

definition hold_of :: "'c held_fan_in list \<Rightarrow> nat \<Rightarrow> 'c held_fan_in option" where
  "hold_of hs t = List.find (\<lambda>h. hf_executor h = t) hs"

abbreviation (input) one_hold_each :: "'c held_fan_in list \<Rightarrow> bool" where
  "one_hold_each hs \<equiv> distinct (map hf_executor hs)"

lemma hold_of_simps [simp]:
  "hold_of [] t = None"
  "hold_of (h # hs) t = (if hf_executor h = t then Some h else hold_of hs t)"
  by (simp_all add: hold_of_def)

lemma hold_of_None: "hold_of hs t = None \<longleftrightarrow> t \<notin> hf_executor ` set hs"
  by (induction hs) auto

definition after_settling :: "'c held_fan_in list \<Rightarrow> nat \<Rightarrow> 'c held_fan_in option \<Rightarrow> 'c held_fan_in list \<Rightarrow> bool" where
  "after_settling hs t h' hs' \<longleftrightarrow> one_hold_each hs' \<and> hf_executor ` set hs' \<subseteq> hf_executor ` set hs \<and>
     (\<forall>u. hold_of hs' u = (if u = t then h' else hold_of hs u))"

lemma absorb_executor [simp]: "hf_executor (absorb h src mo) = hf_executor h"
  by (simp add: absorb_def split: option.splits)

lemma contribute_settles:
  "one_hold_each hs \<Longrightarrow> hold_of hs t = Some h \<Longrightarrow>
   \<exists>hs'. contribute hs src t m = Some (hs', snd (settle h src (Some m))) \<and> after_settling hs t (fst (settle h src (Some m))) hs'"
proof (induction hs)
  case (Cons x hs)
  show ?case
  proof (cases "hf_executor x = t")
    case True
    then have "hold_of hs t = None" using Cons.prems(1) by (simp add: hold_of_None)
    then show ?thesis using Cons.prems True by (auto simp: settle_def absorb_def after_settling_def Let_def)
  next
    case False
    then obtain hs' where "contribute hs src t m = Some (hs', snd (settle h src (Some m)))"
      and "after_settling hs t (fst (settle h src (Some m))) hs'" using Cons by auto
    then show ?thesis using Cons.prems(1) False by (auto simp: after_settling_def)
  qed
qed simp

lemma give_up_settles:
  "one_hold_each hs \<Longrightarrow> hold_of hs t = Some h \<Longrightarrow>
   \<exists>hs'. give_up hs src t = (hs', snd (settle h src None)) \<and> after_settling hs t (fst (settle h src None)) hs'"
proof (induction hs)
  case (Cons x hs)
  show ?case
  proof (cases "hf_executor x = t")
    case True
    then have "hold_of hs t = None" using Cons.prems(1) by (simp add: hold_of_None)
    then show ?thesis using Cons.prems True by (auto simp: settle_def absorb_def after_settling_def Let_def)
  next
    case False
    then obtain hs' where "give_up hs src t = (hs', snd (settle h src None))"
      and "after_settling hs t (fst (settle h src None)) hs'" using Cons by auto
    then show ?thesis using Cons.prems(1) False by (auto simp: after_settling_def)
  qed
qed simp

lemma no_hold: "hold_of hs t = None \<Longrightarrow> contribute hs src t m = None \<and> give_up hs src t = (hs, None)"
  by (induction hs) (auto split: if_splits)

text \<open>The events at the barriers of a run, in any order and over any number of rounds.\<close>

datatype 'c fan_in_event = Contribute (ev_source: nat) (ev_target: nat) (ev_message: "'c message") | GiveUp (ev_source: nat) (ev_target: nat)

fun fan_in_step :: "'c fan_in_event \<Rightarrow> 'c routed \<Rightarrow> 'c routed" where
  "fan_in_step (Contribute src t m) s = deliver_to_fan_in src t m s"
| "fan_in_step (GiveUp src t) s = resolve_fan_in_await t src s"

fun offered :: "'c fan_in_event \<Rightarrow> 'c message option" where
  "offered (Contribute src t m) = Some m"
| "offered (GiveUp src t) = None"

definition deliveries_to :: "nat \<Rightarrow> 'c delivery list \<Rightarrow> 'c delivery list" where
  "deliveries_to t ds = filter (\<lambda>d. dl_executor d = t) ds"

lemma deliver_or_merge_other: "u \<noteq> t \<Longrightarrow> deliveries_to t (deliver_or_merge ds u m) = deliveries_to t ds"
  by (induction ds) (auto simp: deliveries_to_def)

lemma deliver_or_merge_new: "deliveries_to t ds = [] \<Longrightarrow> deliveries_to t (deliver_or_merge ds t m) = [\<lparr>dl_executor = t, dl_payload = m\<rparr>]"
  by (induction ds) (auto simp: deliveries_to_def split: if_splits)

lemma fan_in_step_here:
  assumes "one_hold_each (fst s)" and "hold_of (fst s) (ev_target e) = Some h"
  shows "after_settling (fst s) (ev_target e) (fst (settle h (ev_source e) (offered e))) (fst (fan_in_step e s)) \<and>
    snd (fan_in_step e s) = (case snd (settle h (ev_source e) (offered e)) of
        None \<Rightarrow> snd s | Some m \<Rightarrow> deliver_or_merge (snd s) (ev_target e) m)"
proof (cases e)
  case (Contribute src t m)
  then show ?thesis
    using contribute_settles [OF assms(1), of t h src m] assms(2)
    by (auto simp: deliver_to_fan_in_def split: option.splits)
next
  case (GiveUp src t)
  then show ?thesis
    using give_up_settles [OF assms(1), of t h src] assms(2)
    by (auto simp: resolve_fan_in_await_def split: option.splits)
qed

lemma fan_in_step_elsewhere:
  assumes "one_hold_each (fst s)" and "ev_target e \<noteq> t"
  shows "one_hold_each (fst (fan_in_step e s)) \<and> hold_of (fst (fan_in_step e s)) t = hold_of (fst s) t \<and>
    deliveries_to t (snd (fan_in_step e s)) = deliveries_to t (snd s)"
proof (cases "hold_of (fst s) (ev_target e)")
  case None
  then show ?thesis
    using assms no_hold [of "fst s" "ev_target e"]
    by (cases e) (auto simp: deliver_to_fan_in_def resolve_fan_in_await_def deliver_or_merge_other)
next
  case (Some h)
  then show ?thesis
    using fan_in_step_here [OF assms(1) Some] assms(2)
    by (auto simp: after_settling_def deliver_or_merge_other split: option.splits)
qed

text \<open>A hold after the events at its target.\<close>

definition gather :: "nat \<Rightarrow> 'c fan_in_event list \<Rightarrow> 'c held_fan_in \<Rightarrow> 'c held_fan_in" where
  "gather t evs h = fold (\<lambda>e h. absorb h (ev_source e) (offered e)) (filter (\<lambda>e. ev_target e = t) evs) h"

definition sources_at :: "nat \<Rightarrow> 'c fan_in_event list \<Rightarrow> nat set" where
  "sources_at t evs = {ev_source e | e. e \<in> set evs \<and> ev_target e = t}"

definition contributions_at :: "nat \<Rightarrow> 'c fan_in_event list \<Rightarrow> 'c message list" where
  "contributions_at t evs = concat (map (\<lambda>e. case offered e of None \<Rightarrow> [] | Some m \<Rightarrow> [m]) (filter (\<lambda>e. ev_target e = t) evs))"

lemma gather_simps:
  "gather t [] h = h"
  "gather t (e # evs) h = gather t evs (if ev_target e = t then absorb h (ev_source e) (offered e) else h)"
  "gather t (evs @ [e]) h = (if ev_target e = t then absorb (gather t evs h) (ev_source e) (offered e) else gather t evs h)"
  by (simp_all add: gather_def)

lemma sources_at_Cons: "sources_at t (e # evs) = (if ev_target e = t then {ev_source e} else {}) \<union> sources_at t evs"
  by (auto simp: sources_at_def)

lemma absorb_awaiting: "distinct (hf_awaiting h) \<Longrightarrow> hf_awaiting (absorb h src mo) = filter (\<lambda>x. x \<noteq> src) (hf_awaiting h)"
  by (simp add: absorb_def distinct_remove1_removeAll removeAll_filter_not_eq split: option.splits) (auto simp: eq_commute)

lemma gather_awaiting:
  "distinct (hf_awaiting h) \<Longrightarrow> hf_awaiting (gather t evs h) = filter (\<lambda>x. x \<notin> sources_at t evs) (hf_awaiting h)"
proof (induction evs arbitrary: h)
  case (Cons e evs)
  have "distinct (hf_awaiting (absorb h (ev_source e) (offered e)))" using Cons.prems by (simp add: absorb_awaiting)
  then show ?case
    using Cons by (auto simp: gather_simps absorb_awaiting sources_at_Cons conj_commute intro: filter_cong)
qed (simp add: gather_simps sources_at_def)

definition held_content :: "'c held_fan_in \<Rightarrow> 'c item list" where
  "held_content h = (if hf_seeded h then ms_content (hf_payload h) else [])"

lemma absorb_content:
  "held_content (absorb h src mo) = held_content h @ (case mo of None \<Rightarrow> [] | Some m \<Rightarrow> ms_content m)"
  "hf_seeded (absorb h src mo) \<longleftrightarrow> hf_seeded h \<or> mo \<noteq> None"
  by (auto simp: absorb_def held_content_def add_content_def split: option.splits)

lemma contributions_at_Cons:
  "contributions_at t (e # evs) = (if ev_target e = t then (case offered e of None \<Rightarrow> [] | Some m \<Rightarrow> [m]) else []) @ contributions_at t evs"
  by (simp add: contributions_at_def)

lemma gather_content:
  "held_content (gather t evs h) = held_content h @ concat (map ms_content (contributions_at t evs)) \<and>
   (hf_seeded (gather t evs h) \<longleftrightarrow> hf_seeded h \<or> contributions_at t evs \<noteq> [])"
proof (induction evs arbitrary: h)
  case (Cons e evs)
  show ?case
    using Cons [of "absorb h (ev_source e) (offered e)"] Cons [of h]
    by (simp add: gather_simps absorb_content contributions_at_Cons split: option.splits)
qed (simp add: gather_simps contributions_at_def)

lemma hold_kept:
  assumes "distinct (hf_awaiting h)"
  shows "one_hold_each (fst s) \<Longrightarrow> hold_of (fst s) t = Some h \<Longrightarrow> \<not> set (hf_awaiting h) \<subseteq> sources_at t evs \<Longrightarrow>
    one_hold_each (fst (fold fan_in_step evs s)) \<and> hold_of (fst (fold fan_in_step evs s)) t = Some (gather t evs h) \<and>
    deliveries_to t (snd (fold fan_in_step evs s)) = deliveries_to t (snd s)"
  using assms
proof (induction evs arbitrary: s h)
  case (Cons e evs)
  show ?case
  proof (cases "ev_target e = t")
    case False
    then have "\<not> set (hf_awaiting h) \<subseteq> sources_at t evs" using Cons.prems(3) by (auto simp: sources_at_Cons)
    then show ?thesis
      using Cons.IH [of "fan_in_step e s" h] fan_in_step_elsewhere [OF Cons.prems(1) False] Cons.prems False by (simp add: gather_simps)
  next
    case True
    let ?h = "absorb h (ev_source e) (offered e)"
    have aw: "hf_awaiting ?h = filter (\<lambda>x. x \<noteq> ev_source e) (hf_awaiting h)" using absorb_awaiting Cons.prems(4) by blast
    then have n: "\<not> set (hf_awaiting ?h) \<subseteq> sources_at t evs" using Cons.prems(3) True by (auto simp: sources_at_Cons)
    then have "settle h (ev_source e) (offered e) = (Some ?h, None)" by (auto simp: settle_def Let_def)
    then have "one_hold_each (fst (fan_in_step e s)) \<and> hold_of (fst (fan_in_step e s)) t = Some ?h \<and> snd (fan_in_step e s) = snd s"
      using fan_in_step_here [OF Cons.prems(1), of e h] Cons.prems(2) True by (auto simp: after_settling_def)
    then show ?thesis using Cons.IH [of "fan_in_step e s" ?h] n aw Cons.prems(4) True by (simp add: gather_simps)
  qed
qed (simp add: gather_simps)

lemma hold_released:
  assumes "distinct (hf_awaiting h)" and "one_hold_each (fst s)" and "hold_of (fst s) t = Some h"
    and "\<not> set (hf_awaiting h) \<subseteq> sources_at t evs" and "set (hf_awaiting h) \<subseteq> insert (ev_source e) (sources_at t evs)"
    and "ev_target e = t" and "deliveries_to t (snd s) = []"
  shows "hold_of (fst (fold fan_in_step (evs @ [e]) s)) t = None \<and>
    deliveries_to t (snd (fold fan_in_step (evs @ [e]) s)) =
      (let h' = gather t (evs @ [e]) h in if hf_seeded h' then [\<lparr>dl_executor = t, dl_payload = hf_payload h'\<rparr>] else [])"
proof -
  let ?s = "fold fan_in_step evs s" and ?h = "gather t evs h" and ?h' = "gather t (evs @ [e]) h"
  note k = hold_kept [OF assms(1,2,3,4)]
  have "distinct (hf_awaiting ?h)" using gather_awaiting [OF assms(1), of t evs] assms(1) by simp
  then have "hf_awaiting (absorb ?h (ev_source e) (offered e)) = []"
    using assms(5) by (simp add: absorb_awaiting gather_awaiting [OF assms(1)] filter_empty_conv) blast
  moreover have h': "?h' = absorb ?h (ev_source e) (offered e)" using assms(6) by (simp add: gather_simps)
  ultimately have "settle ?h (ev_source e) (offered e) = (None, if hf_seeded ?h' then Some (hf_payload ?h') else None)"
    by (simp add: settle_def)
  moreover have "fold fan_in_step (evs @ [e]) s = fan_in_step e ?s" by simp
  ultimately show ?thesis
    using fan_in_step_here [of ?s e ?h] k assms(6,7) deliver_or_merge_new [of t "snd ?s"]
    by (auto simp: after_settling_def Let_def split: option.splits)
qed

lemma fan_in_sources_distinct: "distinct (fan_in_sources g t)"
proof -
  have "distinct xs \<Longrightarrow> distinct (fold (\<lambda>e sources.
     if ed_kind e = FanIn \<and> ed_to e = executor_id g t \<and> index_of g (ed_from e) \<notin> set sources
     then sources @ [index_of g (ed_from e)] else sources) es xs)" for es xs
    by (induction es arbitrary: xs) auto
  from this [OF distinct.simps(1) [THEN iffD2, OF TrueI], of "wf_edges g"] show ?thesis by (simp only: fan_in_sources_def)
qed

definition fresh_hold :: "nat \<Rightarrow> nat list \<Rightarrow> 'c held_fan_in" where
  "fresh_hold t sources = \<lparr>hf_executor = t, hf_payload = empty_message, hf_seeded = False, hf_awaiting = sources\<rparr>"

lemma fresh_hold_simps [simp]:
  "hf_executor (fresh_hold t ss) = t" "hf_seeded (fresh_hold t ss) = False" "hf_awaiting (fresh_hold t ss) = ss"
  "held_content (fresh_hold t ss) = []"
  by (simp_all add: fresh_hold_def held_content_def)

lemma hold_of_fresh: "hold_of (map (\<lambda>u. fresh_hold u (f u)) us) t = (if t \<in> set us then Some (fresh_hold t (f t)) else None)"
  by (induction us) auto

lemma seeded_holds:
  "one_hold_each (seed_fan_in_holds g)"
  "t < length (wf_executors g) \<Longrightarrow> 2 \<le> length (fan_in_sources g t) \<Longrightarrow>
   hold_of (seed_fan_in_holds g) t = Some (fresh_hold t (fan_in_sources g t))"
proof -
  have s: "seed_fan_in_holds g = map (\<lambda>u. fresh_hold u (fan_in_sources g u))
      (filter (\<lambda>u. 2 \<le> length (fan_in_sources g u)) [0..<length (wf_executors g)])"
    by (simp add: seed_fan_in_holds_def fresh_hold_def)
  show "one_hold_each (seed_fan_in_holds g)" by (simp add: s comp_def)
  show "t < length (wf_executors g) \<Longrightarrow> 2 \<le> length (fan_in_sources g t) \<Longrightarrow>
   hold_of (seed_fan_in_holds g) t = Some (fresh_hold t (fan_in_sources g t))"
    unfolding s hold_of_fresh by simp
qed

section \<open>Properties\<close>

definition demo_node :: "string \<Rightarrow> executor" where
  "demo_node i = \<lparr>ex_id = i, ex_kind = FunctionExec, ex_input_type = ''Doc'', ex_output_type = ''Doc'',
     ex_worktree_mode = SharedMode, ex_capability_ceiling = [], ex_batch = False\<rparr>"

definition demo_edge :: "string \<Rightarrow> string \<Rightarrow> edge_kind \<Rightarrow> string \<Rightarrow> edge" where
  "demo_edge a b k label = \<lparr>ed_from = a, ed_to = b, ed_kind = k, ed_case_label = label, ed_on_failure = default_policy\<rparr>"

definition demo_join :: workflow where
  "demo_join = (new_builder ''join'')\<lparr>wf_executors := [demo_node ''a'', demo_node ''b'', demo_node ''t''],
     wf_edges := [demo_edge ''a'' ''t'' FanIn [], demo_edge ''b'' ''t'' FanIn []]\<rparr>"

definition demo_note :: "nat \<Rightarrow> nat message" where
  "demo_note n = empty_message\<lparr>ms_content := [Item n]\<rparr>"

lemmas demo_join_defs = demo_join_def demo_node_def demo_edge_def new_builder_def fan_in_sources_def executor_id_def index_of_def

text \<open>C19. A join waits for all of its sources and fires once: from the holds seeded at the start of a run, whatever contributions
  and give-ups reach the barriers, in any order over any number of rounds, a fan-in target with
  several declared sources is not delivered to while one of them is unresolved; the event that
  resolves the last one releases one delivery, with the content of every contribution in arrival order (none when
  every source gave up), and the hold is gone.\<close>

theorem fan_in_released_once:
  assumes "t < length (wf_executors g)" and "2 \<le> length (fan_in_sources g t)"
    and "\<not> set (fan_in_sources g t) \<subseteq> sources_at t evs"
    and "ev_target e = t" and "set (fan_in_sources g t) \<subseteq> sources_at t (evs @ [e])"
  shows "deliveries_to t (snd (fold fan_in_step evs (seed_fan_in_holds g, []))) = [] \<and>
    hold_of (fst (fold fan_in_step (evs @ [e]) (seed_fan_in_holds g, []))) t = None \<and>
    (let out = deliveries_to t (snd (fold fan_in_step (evs @ [e]) (seed_fan_in_holds g, [])));
         contributions = contributions_at t (evs @ [e])
     in if contributions = [] then out = []
        else \<exists>d. out = [d] \<and> ms_content (dl_payload d) = concat (map ms_content contributions))"
proof -
  let ?h = "fresh_hold t (fan_in_sources g t)" and ?s = "(seed_fan_in_holds g, [])"
  have h: "hold_of (fst ?s) t = Some ?h" using seeded_holds(2) [OF assms(1,2)] by simp
  have o: "one_hold_each (fst ?s)" using seeded_holds(1) by simp
  have d: "distinct (hf_awaiting ?h)" by (simp add: fan_in_sources_distinct)
  have n: "\<not> set (hf_awaiting ?h) \<subseteq> sources_at t evs" using assms(3) by simp
  have "set (hf_awaiting ?h) \<subseteq> insert (ev_source e) (sources_at t evs)"
    using assms(5) by (auto simp: sources_at_def)
  note r = hold_released [OF d o h n this assms(4)]
  have "deliveries_to t (snd (fold fan_in_step evs ?s)) = []"
    using hold_kept [OF d o h n] by (simp add: deliveries_to_def)
  moreover have "ms_content (hf_payload (gather t (evs @ [e]) ?h)) = concat (map ms_content (contributions_at t (evs @ [e])))"
    if "contributions_at t (evs @ [e]) \<noteq> []"
    using gather_content [of t "evs @ [e]" ?h] that by (auto simp: held_content_def)
  moreover have "hf_seeded (gather t (evs @ [e]) ?h) \<longleftrightarrow> contributions_at t (evs @ [e]) \<noteq> []"
    using gather_content [of t "evs @ [e]" ?h] by simp
  ultimately show ?thesis using r by (simp add: Let_def deliveries_to_def)
qed

theorem fan_in_released_once_witness:
  "\<exists>d. deliveries_to 2 (snd (fold fan_in_step ([Contribute 1 2 (demo_note 5)] @ [Contribute 0 2 (demo_note 6)]) (seed_fan_in_holds demo_join, []))) = [d] \<and>
     ms_content (dl_payload d) = [Item 5, Item 6]"
proof -
  have s: "fan_in_sources demo_join 2 = [0, 1]" by (simp add: demo_join_defs)
  have "contributions_at 2 ([Contribute 1 2 (demo_note 5)] @ [Contribute 0 2 (demo_note 6)]) = [demo_note 5, demo_note 6]"
    by (simp add: contributions_at_def)
  moreover have "\<not> set (fan_in_sources demo_join 2) \<subseteq> sources_at 2 [Contribute 1 2 (demo_note 5)]"
    "set (fan_in_sources demo_join 2) \<subseteq> sources_at 2 ([Contribute 1 2 (demo_note 5)] @ [Contribute 0 2 (demo_note 6)])"
    "2 < length (wf_executors demo_join)"
    by (simp_all add: s sources_at_Cons sources_at_def [of _ "[]"]) (simp add: demo_join_def)
  ultimately show ?thesis
    using fan_in_released_once [of 2 demo_join "[Contribute 1 2 (demo_note 5)]" "Contribute 0 2 (demo_note 6)"] s
    by (simp add: Let_def demo_note_def)
qed

text \<open>The answer to a request port is checked by the rule it will be routed by: the routes of an answer are accepted exactly when
  each of them is the label of an edge out of the port and routing the answer does not fail; so a port
  is never consumed by an answer the run cannot follow.\<close>

theorem accepted_answer_routes:
  assumes "er_ok reply"
  shows "port_routes_valid g port (er_routes reply) \<longleftrightarrow>
    (\<forall>r\<in>set (er_routes reply). \<exists>e\<in>set (wf_edges g). ed_from e = executor_id g port \<and> labelled e \<and> ed_case_label e = r) \<and>
    fst (route_from g port reply echo s) = RouteOk"
  using assms by (auto simp: port_routes_valid_def route_from_def Let_def list_all_iff list_ex_iff edges_from_def)

definition demo_switch :: workflow where
  "demo_switch = (new_builder ''review'')\<lparr>wf_executors := [demo_node ''p'', demo_node ''x'', demo_node ''y''],
     wf_edges := [demo_edge ''p'' ''x'' SwitchCase ''revise'', demo_edge ''p'' ''y'' SwitchDefault []]\<rparr>"

definition demo_answer :: "string list \<Rightarrow> nat execute_reply" where
  "demo_answer routes = (failed_reply Fatal no_usage)\<lparr>er_ok := True, er_routes := routes\<rparr>"

theorem accepted_answer_routes_witness:
  "port_routes_valid demo_switch 0 (er_routes (demo_answer [''revise''])) \<and>
   fst (route_from demo_switch 0 (demo_answer [''revise'']) False ([], [])) = RouteOk"
proof -
  have "er_ok (demo_answer [''revise''])" by (simp add: demo_answer_def)
  moreover have "port_routes_valid demo_switch 0 (er_routes (demo_answer [''revise'']))"
    by (simp add: demo_answer_def failed_reply_def demo_switch_def demo_edge_def demo_node_def new_builder_def port_routes_valid_def
        edges_from_def executor_id_def switch_cases_def switch_fired_def labelled_def)
  ultimately show ?thesis using accepted_answer_routes [of "demo_answer [''revise'']" demo_switch 0 False "([], [])"] by simp
qed

end
