(* ===== verification/SessionState.thy ===== *)
theory SessionState
  imports ToolPipeline WorkflowRouting
begin

text \<open>
  The state of an agent session and the operations on it that run nothing: \<^verbatim>\<open>rt/agent_session_core.hpp\<close>,
  \<^verbatim>\<open>src/rt/agent_session_core.cpp\<close>, with the choices of \<^verbatim>\<open>core/session_choices.hpp\<close> and the messages of
  \<^verbatim>\<open>core/content.hpp\<close> and \<^verbatim>\<open>core/tool_call_extraction.hpp\<close>. Admission and authority, interactions, run events, records,
  restore, fork and redaction. The text of an error or an event is not modelled, only its code and the ids it names.
\<close>

section \<open>Messages\<close>

datatype content_origin = FromUser | FromAssistant | FromTool | FromSystem | FromExternal

record content_call =
  cc_id :: string
  cc_tool :: string
  cc_arguments :: string
  cc_origin :: content_origin
  cc_provenance :: call_provenance

text \<open>The kinds of content a session does not look into are \<open>OtherContent\<close>.\<close>

datatype content_value =
    TextContent string
  | CallContent content_call
  | ResultContent tool_result
  | CustomContent string string
  | OtherContent string

record content_item =
  ct_value :: content_value
  ct_origin :: content_origin
  ct_tainted :: bool

record chat_message =
  cm_role :: role
  cm_content :: "content_item list"
  cm_id :: string

definition item_call :: "content_item \<Rightarrow> content_call option" where
  "item_call i = (case ct_value i of CallContent c \<Rightarrow> Some c | _ \<Rightarrow> None)"

definition tool_calls_of :: "chat_message \<Rightarrow> content_call list" where
  "tool_calls_of m = List.map_filter item_call (cm_content m)"

definition text_of :: "chat_message \<Rightarrow> string" where
  "text_of m = concat (map (\<lambda>i. case ct_value i of TextContent t \<Rightarrow> t | _ \<Rightarrow> []) (cm_content m))"

text \<open>The search for a free id counts up; as many steps as there are taken ids are enough.\<close>

fun free_call_id :: "string list \<Rightarrow> string \<Rightarrow> nat \<Rightarrow> nat \<Rightarrow> string" where
  "free_call_id taken base k 0 = base @ ''_ae'' @ show_nat k"
| "free_call_id taken base k (Suc f) =
     (if base @ ''_ae'' @ show_nat k \<in> set taken then free_call_id taken base (Suc k) f else base @ ''_ae'' @ show_nat k)"

definition mint_call_id :: "string list \<Rightarrow> string \<Rightarrow> string" where
  "mint_call_id taken i = free_call_id taken (if i = [] then ''call'' else i) 1 (length taken)"

fun rename_calls :: "content_item list \<Rightarrow> string list \<Rightarrow> string list \<Rightarrow> content_item list \<times> (string \<times> string) list" where
  "rename_calls [] taken used = ([], [])"
| "rename_calls (i # items) taken used =
     (case item_call i of
        None \<Rightarrow> (case rename_calls items taken used of (out, renames) \<Rightarrow> (i # out, renames))
      | Some c \<Rightarrow>
          if cc_id c \<notin> set used
          then case rename_calls items taken (cc_id c # used) of (out, renames) \<Rightarrow> (i # out, renames)
          else let minted = mint_call_id taken (cc_id c)
               in case rename_calls items (minted # taken) (minted # used) of (out, renames) \<Rightarrow>
                    (i\<lparr>ct_value := CallContent (c\<lparr>cc_id := minted\<rparr>)\<rparr> # out, (cc_id c, minted) # renames))"

definition make_call_ids_unique :: "chat_message \<Rightarrow> chat_message \<times> (string \<times> string) list" where
  "make_call_ids_unique m =
     (case rename_calls (cm_content m) (map cc_id (tool_calls_of m)) [] of
        (items, renames) \<Rightarrow> (m\<lparr>cm_content := items\<rparr>, renames))"

definition blank_text :: "string \<Rightarrow> bool" where
  "blank_text s = list_all (\<lambda>c. c \<in> {CHR '' '', CHR 0x09, CHR 0x0D, CHR 0x0A}) s"

fun json_kind_name :: "'n json \<Rightarrow> string" where
  "json_kind_name JNull = ''null''"
| "json_kind_name (JBool b) = ''boolean''"
| "json_kind_name (JNumber n) = ''number''"
| "json_kind_name (JString s) = ''string''"
| "json_kind_name (JArray vs) = ''array''"
| "json_kind_name (JObject mems) = ''object''"

text \<open>The message of a parse error stands as \<^verbatim>\<open>parse failed\<close>, which is not empty.\<close>

definition tool_call_request_of :: "'n num_ops \<Rightarrow> content_call \<Rightarrow> nat \<Rightarrow> 'n tool_call_request" where
  "tool_call_request_of nm c index =
     (let rq = \<lparr>cr_call_id = cc_id c, cr_tool_name = cc_tool c, cr_arguments = JObject [], cr_tainted = True,
                cr_call_index = of_nat index, cr_provenance = cc_provenance c, cr_parse_error = []\<rparr>
      in if blank_text (cc_arguments c) then rq
         else case parse nm (cc_arguments c) default_budget of
                Inl e \<Rightarrow> rq\<lparr>cr_parse_error := ''parse failed''\<rparr>
              | Inr (JObject members) \<Rightarrow> rq\<lparr>cr_arguments := JObject members\<rparr>
              | Inr v \<Rightarrow> rq\<lparr>cr_parse_error := ''got a JSON '' @ json_kind_name v @ '', not an object''\<rparr>)"

definition tool_results_message :: "tool_result list \<Rightarrow> chat_message" where
  "tool_results_message rs =
     \<lparr>cm_role = ToolRole,
      cm_content = map (\<lambda>r. \<lparr>ct_value = ResultContent r, ct_origin = FromTool, ct_tainted = False\<rparr>) rs, cm_id = []\<rparr>"

section \<open>Choices and authority\<close>

datatype authority_mode = PerRequest | SingleTrustedCaller

datatype authority_source = PerRequestAuthority capability_ceiling | TrustedCallerAuthority

fun source_mode :: "authority_source \<Rightarrow> authority_mode" where
  "source_mode (PerRequestAuthority c) = PerRequest"
| "source_mode TrustedCallerAuthority = SingleTrustedCaller"

record session_choices =
  sc_authority :: authority_source
  sc_budget :: Limit
  sc_turns :: Limit
  sc_timeout :: Limit

definition choices_cover :: "session_choices \<Rightarrow> session_choices \<Rightarrow> bool" where
  "choices_cover a b \<longleftrightarrow>
     source_mode (sc_authority a) = source_mode (sc_authority b) \<and> covers (sc_budget a) (sc_budget b) \<and>
     covers (sc_turns a) (sc_turns b) \<and> covers (sc_timeout a) (sc_timeout b)"

definition expiry_live :: "int option \<Rightarrow> int \<Rightarrow> bool" where
  "expiry_live e now = (case e of None \<Rightarrow> True | Some t \<Rightarrow> now < t)"

record session_caller =
  sl_id :: string
  sl_tenant :: string

record request_authority =
  ra_principal :: principal
  ra_caps :: "capability_set option"
  ra_expiry :: "int option"

section \<open>Interactions, suspended rounds and events\<close>

datatype interaction_reason = InputReason | AuthReason | ApprovalReason | CodeActAsk | HookDecision | ClientInput

record session_interaction =
  si_id :: string
  si_run_id :: string
  si_reason :: interaction_reason
  si_opened_at :: int
  si_expires_at :: int

record pending_codeact_ask =
  pk_source :: string
  pk_language :: string
  pk_answers :: "string list"
  pk_call_id :: string
  pk_unattended_by :: "string option"

record ('n, 'p, 'w) suspended_round =
  sr_offered :: "('n, 'p, 'w) tool_descriptor list"
  sr_gated :: "string list"
  sr_message_index :: nat

datatype hook_call_outcome = PassThrough | Denied | NeedsExternalDispatch

record 'n hook_processed_call =
  hp_request :: "'n tool_call_request"
  hp_outcome :: hook_call_outcome
  hp_denial :: "tool_result option"

record 'n pending_hook_round =
  ph_calls :: "'n hook_processed_call list"
  ph_requested :: "string list"

record client_ask =
  ca_id :: string
  ca_ask :: chat_message

record client_answer =
  cw_id :: string
  cw_response :: chat_message
  cw_routes :: "string list"

record answering_client =
  aw_interaction :: string
  aw_client_id :: string
  aw_answer :: chat_message
  aw_turn_before :: u64
  aw_to_client :: client_answer
  aw_sent :: bool

datatype run_event =
    RunStarted
  | RunFinished
  | RunFailed string
  | RunCanceled
  | TurnStarted u64
  | TurnFinished u64
  | ModelCallStarted
  | ModelCallFinished
  | ModelOutputDiscarded u64
  | ToolCallStarted string string
  | ToolCallFinished string tool_result
  | InputRequired string
  | InputResolved string
  | ApprovalRequested string string
  | ApprovalResolved string bool
  | HookDecisionRequested string string
  | CodeActAskRequested string string
  | WarningEvent string
  | ModelDelta string
  | ToolCallDelta string content_item
  | SandboxExec bool string
  | StateChanged string
  | PolicyDecisionEvent string
  | DelegatedEvent string

text \<open>What a tool, a provider, a decider, the model's stream or a delegated agent sends through the sinks a session binds
  around it: a piece of progress, the start (\<open>True\<close>) or the end of a sandboxed execution under its own id, a piece of model
  output, a change of state, a decision of the policy, an event of a delegated run. Inside a tool call a piece of
  progress becomes a delta of that call, always tainted; outside one the sink is a function that does nothing.\<close>

datatype side_event =
    Progress content_item
  | SandboxReport bool string
  | ModelText string
  | StateReport string
  | PolicyReport string
  | DelegatedReport string

fun side_run_event :: "string option \<Rightarrow> side_event \<Rightarrow> run_event option" where
  "side_run_event c (Progress item) = map_option (\<lambda>i. ToolCallDelta i (item\<lparr>ct_tainted := True\<rparr>)) c"
| "side_run_event c (SandboxReport begin_exec i) = Some (SandboxExec begin_exec i)"
| "side_run_event c (ModelText t) = Some (ModelDelta t)"
| "side_run_event c (StateReport t) = Some (StateChanged t)"
| "side_run_event c (PolicyReport t) = Some (PolicyDecisionEvent t)"
| "side_run_event c (DelegatedReport t) = Some (DelegatedEvent t)"

datatype run_end_reason = FinalAnswer | EndCanceled | EndMaxTurns | EndFailed | EndException

section \<open>The session\<close>

text \<open>The fields of \<^verbatim>\<open>effect_context_\<close> that a session writes are the fields \<open>ss_ctx_...\<close> and \<open>ss_turn\<close>. The event
  sink is the list \<open>ss_events\<close>, in emission order; \<open>ss_tickets\<close> is the store of the handles a call is given.
  \<open>ss_unwinding\<close> is set while an exception that a tool threw is on its way to the entry point.\<close>

record ('n, 'p, 'w) session =
  ss_id :: string
  ss_principal :: principal
  ss_caps :: "capability_set option"
  ss_choices :: "session_choices option"
  ss_history :: "chat_message list"
  ss_run_counter :: u64
  ss_last_run_id :: string
  ss_inherited_root :: string
  ss_open :: "session_interaction list"
  ss_icounter :: u64
  ss_asks :: "string \<rightharpoonup> pending_codeact_ask"
  ss_hooks :: "string \<rightharpoonup> 'n pending_hook_round"
  ss_rounds :: "string \<rightharpoonup> ('n, 'p, 'w) suspended_round"
  ss_clients :: "(string \<times> client_ask) list"
  ss_answering :: "answering_client option"
  ss_ctx_principal :: principal
  ss_ctx_caps :: "capability_set option"
  ss_ctx_source :: "authority_mode option"
  ss_ctx_expires :: "int option option"
  ss_ctx_run_id :: string
  ss_ctx_root_run_id :: string
  ss_turn :: u64
  ss_tokens :: u64
  ss_usage :: usage
  ss_discarded :: u64
  ss_retries_used :: u32
  ss_denied :: u64
  ss_in_flight :: bool
  ss_run_end :: "run_end_reason option"
  ss_unwinding :: bool
  ss_nonce_epoch :: u64
  ss_tickets :: tickets
  ss_events :: "(string \<times> run_event) list"

definition max_turns :: "('n, 'p, 'w) session \<Rightarrow> u64 option" where
  "max_turns s = (case ss_choices s of None \<Rightarrow> None | Some c \<Rightarrow> limit (sc_turns c))"

definition token_budget_limit :: "('n, 'p, 'w) session \<Rightarrow> u64 option" where
  "token_budget_limit s = (case ss_choices s of None \<Rightarrow> None | Some c \<Rightarrow> limit (sc_budget c))"

definition over_budget :: "('n, 'p, 'w) session \<Rightarrow> bool" where
  "over_budget s = (case token_budget_limit s of None \<Rightarrow> False | Some b \<Rightarrow> b < ss_tokens s)"

definition run_held :: "('n, 'p, 'w) session \<Rightarrow> capability_set" where
  "run_held s = (case ss_ctx_caps s of None \<Rightarrow> grant_root [] | Some c \<Rightarrow> c)"

text \<open>A deadline is a time in milliseconds. The cast of the bound to a signed count is the code's.\<close>

definition call_deadline :: "('n, 'p, 'w) session \<Rightarrow> int \<Rightarrow> int option" where
  "call_deadline s now =
     (case ss_choices s of
        None \<Rightarrow> None
      | Some c \<Rightarrow> (case limit (sc_timeout c) of None \<Rightarrow> None | Some k \<Rightarrow> Some (now + sint k)))"

definition missing_session_choices :: error where
  "missing_session_choices = Error Contract ''choice.missing.session''"

definition initialize :: "string \<Rightarrow> principal \<Rightarrow> session_choices \<Rightarrow> ('n, 'p, 'w) session \<Rightarrow> ('n, 'p, 'w) session" where
  "initialize i p c s = s\<lparr>ss_id := i, ss_principal := p, ss_choices := Some c, ss_nonce_epoch := ss_nonce_epoch s + 1\<rparr>"

definition set_max_turns :: "Limit \<Rightarrow> ('n, 'p, 'w) session \<Rightarrow> unit result \<times> ('n, 'p, 'w) session" where
  "set_max_turns b s =
     (case ss_choices s of
        None \<Rightarrow> (Inl missing_session_choices, s)
      | Some c \<Rightarrow> (Inr (), s\<lparr>ss_choices := Some (c\<lparr>sc_turns := b\<rparr>)\<rparr>))"

subsection \<open>Events\<close>

fun note_run_lifecycle :: "run_event \<Rightarrow> ('n, 'p, 'w) session \<Rightarrow> ('n, 'p, 'w) session" where
  "note_run_lifecycle RunStarted s = s\<lparr>ss_in_flight := True, ss_run_end := None\<rparr>"
| "note_run_lifecycle RunFinished s =
     (if ss_in_flight s then s\<lparr>ss_in_flight := False, ss_run_end := Some FinalAnswer\<rparr> else s)"
| "note_run_lifecycle RunCanceled s =
     (if ss_in_flight s then s\<lparr>ss_in_flight := False, ss_run_end := Some EndCanceled\<rparr> else s)"
| "note_run_lifecycle (RunFailed c) s =
     (if ss_in_flight s
      then s\<lparr>ss_in_flight := False, ss_run_end := Some (if c = ''run.max_turns_exceeded'' then EndMaxTurns else EndFailed)\<rparr>
      else s)"
| "note_run_lifecycle ev s = s"

definition emit_for :: "string \<Rightarrow> run_event \<Rightarrow> ('n, 'p, 'w) session \<Rightarrow> ('n, 'p, 'w) session" where
  "emit_for run ev s = s\<lparr>ss_events := ss_events s @ [(run, ev)]\<rparr>"

definition emit :: "run_event \<Rightarrow> ('n, 'p, 'w) session \<Rightarrow> ('n, 'p, 'w) session" where
  "emit ev s = emit_for (ss_ctx_run_id s) ev (note_run_lifecycle ev s)"

definition emit_all :: "run_event list \<Rightarrow> ('n, 'p, 'w) session \<Rightarrow> ('n, 'p, 'w) session" where
  "emit_all evs s = fold emit evs s"

definition emit_side :: "string option \<Rightarrow> side_event list \<Rightarrow> ('n, 'p, 'w) session \<Rightarrow> ('n, 'p, 'w) session" where
  "emit_side c evs s = emit_all (List.map_filter (side_run_event c) evs) s"

subsection \<open>Admission\<close>

definition caller_principal :: "session_caller \<Rightarrow> principal" where
  "caller_principal c =
     \<lparr>p_id = sl_id c, p_tenant_id = sl_tenant c, p_kind = Anonymous, p_on_behalf_of = [], p_delegation_depth = 0, p_delegation_root = []\<rparr>"

definition refuse_admission :: "string \<Rightarrow> ('n, 'p, 'w) session \<Rightarrow> unit result \<times> ('n, 'p, 'w) session" where
  "refuse_admission c s = (Inl (Error Policy c), s\<lparr>ss_denied := ss_denied s + 1\<rparr>)"

definition admit ::
  "session_choices \<Rightarrow> session_caller option \<Rightarrow> request_authority option \<Rightarrow> ('n, 'p, 'w) session \<Rightarrow> unit result \<times> ('n, 'p, 'w) session" where
  "admit c caller authority s =
     (if source_mode (sc_authority c) = PerRequest
      then case authority of
             None \<Rightarrow> refuse_admission ''run.authority_required'' s
           | Some a \<Rightarrow> if principal_admitted_for (ra_principal a) (ss_principal s) then (Inr (), s)
                       else refuse_admission ''run.admission_denied'' s
      else case caller of
             None \<Rightarrow> (Inr (), s)
           | Some cl \<Rightarrow> if principal_admitted_for (caller_principal cl) (ss_principal s) then (Inr (), s)
                        else refuse_admission ''run.admission_denied'' s)"

definition choices_bounded :: "session_choices \<Rightarrow> unit result" where
  "choices_bounded c =
     (case check_bound (sc_budget c) of Inl e \<Rightarrow> Inl e | Inr _ \<Rightarrow>
      case check_bound (sc_turns c) of Inl e \<Rightarrow> Inl e | Inr _ \<Rightarrow> check_bound (sc_timeout c))"

definition apply_dispatch_authority ::
  "request_authority option \<Rightarrow> int \<Rightarrow> ('n, 'p, 'w) session \<Rightarrow> unit result \<times> ('n, 'p, 'w) session" where
  "apply_dispatch_authority authority now s =
     (case ss_choices s of
        None \<Rightarrow> (Inl missing_session_choices, s)
      | Some c \<Rightarrow>
          (case choices_bounded c of
             Inl e \<Rightarrow> (Inl e, s)
           | Inr _ \<Rightarrow>
               (case sc_authority c of
                  PerRequestAuthority ceiling \<Rightarrow>
                    (case authority of
                       None \<Rightarrow> (Inl (Error Policy ''run.authority_required''), s)
                     | Some a \<Rightarrow>
                         if \<not> expiry_live (ra_expiry a) now then (Inl (Error Policy ''run.authority_expired''), s)
                         else if (case ra_caps a of None \<Rightarrow> False | Some caps \<Rightarrow> \<not> admits ceiling caps)
                         then (Inl (Error Policy ''run.authority_exceeds_ceiling''), s)
                         else (Inr (), s\<lparr>ss_ctx_principal := ra_principal a, ss_ctx_caps := ra_caps a,
                                         ss_ctx_source := Some PerRequest, ss_ctx_expires := Some (ra_expiry a)\<rparr>))
                | TrustedCallerAuthority \<Rightarrow>
                    (case authority of
                       Some a \<Rightarrow> (Inl (Error Policy ''run.authority_unexpected''), s)
                     | None \<Rightarrow> (Inr (), s\<lparr>ss_ctx_principal := ss_principal s, ss_ctx_caps := ss_caps s,
                                          ss_ctx_source := Some SingleTrustedCaller, ss_ctx_expires := None\<rparr>)))))"

text \<open>The three steps every entry point starts with.\<close>

definition enter ::
  "session_caller option \<Rightarrow> request_authority option \<Rightarrow> int \<Rightarrow> ('n, 'p, 'w) session \<Rightarrow> unit result \<times> ('n, 'p, 'w) session" where
  "enter caller authority now s =
     (case ss_choices s of
        None \<Rightarrow> (Inl missing_session_choices, s)
      | Some c \<Rightarrow>
          (case admit c caller authority s of
             (Inl e, s1) \<Rightarrow> (Inl e, s1)
           | (Inr _, s1) \<Rightarrow> apply_dispatch_authority authority now s1))"

subsection \<open>Interactions\<close>

definition open_interaction :: "interaction_reason \<Rightarrow> ('n, 'p, 'w) session \<Rightarrow> string \<times> ('n, 'p, 'w) session" where
  "open_interaction reason s =
     (let n = ss_icounter s + 1; i = ss_id s @ '':interaction:'' @ show_nat (unat n)
      in (i, s\<lparr>ss_icounter := n,
               ss_open := ss_open s @ [\<lparr>si_id = i, si_run_id = ss_ctx_run_id s, si_reason = reason, si_opened_at = 0, si_expires_at = 0\<rparr>]\<rparr>))"

definition find_interaction :: "string \<Rightarrow> ('n, 'p, 'w) session \<Rightarrow> session_interaction option" where
  "find_interaction i s = List.find (\<lambda>x. si_id x = i) (ss_open s)"

fun erase_first :: "('a \<Rightarrow> bool) \<Rightarrow> 'a list \<Rightarrow> 'a list" where
  "erase_first p [] = []"
| "erase_first p (x # xs) = (if p x then xs else x # erase_first p xs)"

definition resolve_interaction_record :: "string \<Rightarrow> ('n, 'p, 'w) session \<Rightarrow> unit result \<times> ('n, 'p, 'w) session" where
  "resolve_interaction_record i s =
     (case find_interaction i s of
        None \<Rightarrow> (Inl (Error Contract ''session.resolve_interaction.unknown_id''), s)
      | Some _ \<Rightarrow> (Inr (), s\<lparr>ss_open := erase_first (\<lambda>x. si_id x = i) (ss_open s), ss_rounds := (ss_rounds s)(i := None)\<rparr>))"

definition expired_interaction_ids :: "int \<Rightarrow> ('n, 'p, 'w) session \<Rightarrow> string list" where
  "expired_interaction_ids now s =
     map si_id (filter (\<lambda>i. si_expires_at i \<noteq> 0 \<and> si_expires_at i \<le> now) (ss_open s))"

fun update_first :: "('a \<Rightarrow> bool) \<Rightarrow> ('a \<Rightarrow> 'a) \<Rightarrow> 'a list \<Rightarrow> 'a list" where
  "update_first p f [] = []"
| "update_first p f (x # xs) = (if p x then f x # xs else x # update_first p f xs)"

definition set_interaction_expiry :: "string \<Rightarrow> int \<Rightarrow> ('n, 'p, 'w) session \<Rightarrow> bool \<times> ('n, 'p, 'w) session" where
  "set_interaction_expiry i t s =
     (case find_interaction i s of
        None \<Rightarrow> (False, s)
      | Some _ \<Rightarrow> (True, s\<lparr>ss_open := update_first (\<lambda>x. si_id x = i) (\<lambda>x. x\<lparr>si_expires_at := t\<rparr>) (ss_open s)\<rparr>))"

subsection \<open>Redaction\<close>

definition tombstone_item :: "'n num_ops \<Rightarrow> string \<Rightarrow> string \<Rightarrow> content_item" where
  "tombstone_item nm reason actor =
     \<lparr>ct_value = CustomContent ''ae:redacted'' (dump nm (JObject [(''reason'', JString reason), (''actor'', JString actor)])),
      ct_origin = FromSystem, ct_tainted = False\<rparr>"

definition redact ::
  "'n num_ops \<Rightarrow> string \<Rightarrow> string \<Rightarrow> string \<Rightarrow> ('n, 'p, 'w) session \<Rightarrow> unit result \<times> ('n, 'p, 'w) session" where
  "redact nm message_id reason actor s =
     (if \<not> list_ex (\<lambda>m. cm_id m = message_id) (ss_history s)
      then (Inl (Error Contract ''session.redact.unknown_message_id''), s)
      else (Inr (), s\<lparr>ss_history := update_first (\<lambda>m. cm_id m = message_id) (\<lambda>m. m\<lparr>cm_content := [tombstone_item nm reason actor]\<rparr>)
                                     (ss_history s)\<rparr>))"

subsection \<open>Records, restore, fork and clear\<close>

record recorded_choices =
  rc_authority :: authority_mode
  rc_budget :: Limit
  rc_turns :: Limit

record session_record =
  sd_session_id :: string
  sd_principal_id :: string
  sd_tenant_id :: string
  sd_deleted :: bool
  sd_run_counter :: u64
  sd_turn_index :: u64
  sd_open :: "session_interaction list"
  sd_choices :: "recorded_choices option"
  sd_root_run_id :: string
  sd_delegation_root :: string

definition make_tombstone_record :: "string \<Rightarrow> session_record" where
  "make_tombstone_record i =
     \<lparr>sd_session_id = i, sd_principal_id = [], sd_tenant_id = [], sd_deleted = True, sd_run_counter = 0, sd_turn_index = 0,
      sd_open = [], sd_choices = None, sd_root_run_id = [], sd_delegation_root = []\<rparr>"

definition record_choices :: "session_choices \<Rightarrow> recorded_choices" where
  "record_choices c = \<lparr>rc_authority = source_mode (sc_authority c), rc_budget = sc_budget c, rc_turns = sc_turns c\<rparr>"

definition migrate_record :: "session_record \<Rightarrow> session_choices \<Rightarrow> session_record result" where
  "migrate_record r c =
     (if sd_choices r \<noteq> None then Inl (Error Contract ''session.record_has_choices'')
      else Inr (r\<lparr>sd_choices := Some (record_choices c)\<rparr>))"

definition session_to_record :: "('n, 'p, 'w) session \<Rightarrow> session_record" where
  "session_to_record s =
     \<lparr>sd_session_id = ss_id s, sd_principal_id = p_id (ss_principal s), sd_tenant_id = p_tenant_id (ss_principal s),
      sd_deleted = False, sd_run_counter = ss_run_counter s, sd_turn_index = ss_turn s, sd_open = ss_open s,
      sd_choices = map_option record_choices (ss_choices s), sd_root_run_id = ss_inherited_root s,
      sd_delegation_root = p_delegation_root (ss_principal s)\<rparr>"

text \<open>The digits after the prefix of an interaction id, unless one more could overflow.\<close>

fun read_counter :: "string \<Rightarrow> u64 \<Rightarrow> u64 option" where
  "read_counter [] n = Some n"
| "read_counter (c # cs) n =
     (if is_digit c \<and> n \<le> (- 1 - 9) div 10 then read_counter cs (n * 10 + of_nat (of_char c - 48)) else None)"

definition interaction_number :: "string \<Rightarrow> string \<Rightarrow> u64 option" where
  "interaction_number id_prefix i =
     (if starts_with id_prefix i \<and> length id_prefix < length i then read_counter (drop (length id_prefix) i) 0 else None)"

definition highest_counter :: "string \<Rightarrow> session_interaction list \<Rightarrow> u64" where
  "highest_counter id_prefix xs = fold (\<lambda>x n. case interaction_number id_prefix (si_id x) of None \<Rightarrow> n | Some k \<Rightarrow> max n k) xs 0"

definition run_id_of :: "string \<Rightarrow> u64 \<Rightarrow> string" where
  "run_id_of i n = i @ '':run:'' @ show_nat (unat n)"

definition drop_interaction_state :: "('n, 'p, 'w) session \<Rightarrow> ('n, 'p, 'w) session" where
  "drop_interaction_state s =
     s\<lparr>ss_hooks := Map.empty, ss_asks := Map.empty, ss_rounds := Map.empty, ss_clients := [], ss_answering := None\<rparr>"

definition session_restore :: "session_record \<Rightarrow> ('n, 'p, 'w) session \<Rightarrow> unit result \<times> ('n, 'p, 'w) session" where
  "session_restore r s =
     (case ss_choices s of
        None \<Rightarrow> (Inl missing_session_choices, s)
      | Some c \<Rightarrow>
          (case sd_choices r of
             None \<Rightarrow> (Inl (Error Contract ''session.record_without_choices''), s)
           | Some rc \<Rightarrow>
               if rc_authority rc \<noteq> source_mode (sc_authority c) \<or>
                  \<not> choices_cover (c\<lparr>sc_budget := rc_budget rc, sc_turns := rc_turns rc, sc_timeout := Unbounded\<rparr>) c
               then (Inl (Error Policy ''session.choices_widened''), s)
               else (Inr (), (drop_interaction_state s)
                      \<lparr>ss_id := sd_session_id r,
                       ss_principal := (caller_principal \<lparr>sl_id = sd_principal_id r, sl_tenant = sd_tenant_id r\<rparr>)\<lparr>p_delegation_root := sd_delegation_root r\<rparr>,
                       ss_inherited_root := sd_root_run_id r, ss_run_counter := sd_run_counter r,
                       ss_last_run_id := (if 0 < sd_run_counter r then run_id_of (sd_session_id r) (sd_run_counter r) else []),
                       ss_turn := sd_turn_index r, ss_nonce_epoch := ss_nonce_epoch s + 1, ss_open := sd_open r,
                       ss_icounter := highest_counter (sd_session_id r @ '':interaction:'') (sd_open r),
                       ss_in_flight := False, ss_run_end := None\<rparr>)))"

text \<open>What a fork and a clear both reset. The standing effects are not part of the model.\<close>

definition reset_run_state :: "('n, 'p, 'w) session \<Rightarrow> ('n, 'p, 'w) session" where
  "reset_run_state s =
     (drop_interaction_state s)
       \<lparr>ss_run_counter := 0, ss_retries_used := 0, ss_discarded := 0, ss_last_run_id := [],
        ss_ctx_principal := caller_principal \<lparr>sl_id = [], sl_tenant = []\<rparr>, ss_ctx_caps := None, ss_ctx_source := None,
        ss_ctx_expires := None, ss_ctx_run_id := [], ss_ctx_root_run_id := [], ss_turn := 0,
        ss_nonce_epoch := ss_nonce_epoch s + 1, ss_open := [], ss_icounter := 0, ss_tokens := 0, ss_usage := no_usage,
        ss_denied := 0, ss_in_flight := False, ss_run_end := None\<rparr>"

definition fork_core_from ::
  "('n, 'p, 'w) session \<Rightarrow> string \<Rightarrow> nat option \<Rightarrow> ('n, 'p, 'w) session \<Rightarrow> ('n, 'p, 'w) session" where
  "fork_core_from source new_id prefix_len s =
     (let n = min (case prefix_len of None \<Rightarrow> length (ss_history source) | Some k \<Rightarrow> k) (length (ss_history source))
      in (reset_run_state s)
           \<lparr>ss_id := new_id, ss_principal := ss_principal source, ss_inherited_root := ss_inherited_root source,
            ss_choices := ss_choices source, ss_history := take n (ss_history source)\<rparr>)"

definition clear_core_state :: "('n, 'p, 'w) session \<Rightarrow> ('n, 'p, 'w) session" where
  "clear_core_state s =
     (reset_run_state s)
       \<lparr>ss_id := [], ss_principal := caller_principal \<lparr>sl_id = [], sl_tenant = []\<rparr>, ss_history := [], ss_choices := None\<rparr>"

section \<open>Events keep the rest of the session\<close>

lemma emit_fields [simp]:
  "ss_id (emit ev s) = ss_id s" "ss_principal (emit ev s) = ss_principal s" "ss_caps (emit ev s) = ss_caps s"
  "ss_choices (emit ev s) = ss_choices s" "ss_history (emit ev s) = ss_history s" "ss_run_counter (emit ev s) = ss_run_counter s"
  "ss_open (emit ev s) = ss_open s" "ss_icounter (emit ev s) = ss_icounter s" "ss_asks (emit ev s) = ss_asks s"
  "ss_hooks (emit ev s) = ss_hooks s" "ss_rounds (emit ev s) = ss_rounds s" "ss_clients (emit ev s) = ss_clients s"
  "ss_answering (emit ev s) = ss_answering s" "ss_ctx_principal (emit ev s) = ss_ctx_principal s"
  "ss_ctx_caps (emit ev s) = ss_ctx_caps s" "ss_ctx_source (emit ev s) = ss_ctx_source s"
  "ss_ctx_expires (emit ev s) = ss_ctx_expires s" "ss_ctx_run_id (emit ev s) = ss_ctx_run_id s"
  "ss_turn (emit ev s) = ss_turn s" "ss_tokens (emit ev s) = ss_tokens s" "ss_retries_used (emit ev s) = ss_retries_used s"
  "ss_tickets (emit ev s) = ss_tickets s" "ss_events (emit ev s) = ss_events s @ [(ss_ctx_run_id s, ev)]"
  "ss_inherited_root (emit ev s) = ss_inherited_root s"
  by (cases ev; simp add: emit_def emit_for_def)+

lemma emit_all_fields [simp]:
  "ss_id (emit_all evs s) = ss_id s" "ss_principal (emit_all evs s) = ss_principal s" "ss_caps (emit_all evs s) = ss_caps s"
  "ss_choices (emit_all evs s) = ss_choices s" "ss_history (emit_all evs s) = ss_history s"
  "ss_run_counter (emit_all evs s) = ss_run_counter s" "ss_open (emit_all evs s) = ss_open s"
  "ss_icounter (emit_all evs s) = ss_icounter s" "ss_asks (emit_all evs s) = ss_asks s" "ss_hooks (emit_all evs s) = ss_hooks s"
  "ss_rounds (emit_all evs s) = ss_rounds s" "ss_clients (emit_all evs s) = ss_clients s"
  "ss_answering (emit_all evs s) = ss_answering s" "ss_ctx_principal (emit_all evs s) = ss_ctx_principal s"
  "ss_ctx_caps (emit_all evs s) = ss_ctx_caps s" "ss_ctx_source (emit_all evs s) = ss_ctx_source s"
  "ss_ctx_expires (emit_all evs s) = ss_ctx_expires s" "ss_ctx_run_id (emit_all evs s) = ss_ctx_run_id s"
  "ss_turn (emit_all evs s) = ss_turn s" "ss_tokens (emit_all evs s) = ss_tokens s"
  "ss_tickets (emit_all evs s) = ss_tickets s" "ss_inherited_root (emit_all evs s) = ss_inherited_root s"
  "ss_events (emit_all evs s) = ss_events s @ map (Pair (ss_ctx_run_id s)) evs"
  unfolding emit_all_def by (induction evs arbitrary: s) simp_all

text \<open>What comes through the sinks is no event of a run's life cycle, so it is only appended.\<close>

fun side_kind :: "run_event \<Rightarrow> bool" where
  "side_kind (ModelDelta t) = True"
| "side_kind (ToolCallDelta i item) = ct_tainted item"
| "side_kind (SandboxExec b i) = True"
| "side_kind (StateChanged t) = True"
| "side_kind (PolicyDecisionEvent t) = True"
| "side_kind (DelegatedEvent t) = True"
| "side_kind ev = False"

lemma side_run_event_kind: "side_run_event c x = Some ev \<Longrightarrow> side_kind ev"
  by (cases x) auto

lemma side_run_events_kind: "list_all side_kind (List.map_filter (side_run_event c) evs)"
  by (auto simp: list_all_iff set_map_filter dest: side_run_event_kind)

lemma emit_side_kinds:
  "list_all side_kind evs \<Longrightarrow> emit_all evs s = s\<lparr>ss_events := ss_events s @ map (Pair (ss_ctx_run_id s)) evs\<rparr>"
  unfolding emit_all_def
proof (induction evs arbitrary: s)
  case (Cons ev evs)
  then have "emit ev s = s\<lparr>ss_events := ss_events s @ [(ss_ctx_run_id s, ev)]\<rparr>"
    by (cases ev) (simp_all add: emit_def emit_for_def)
  with Cons show ?case by simp
qed simp

lemma emit_side_appends:
  "emit_side c evs s = s\<lparr>ss_events := ss_events s @ map (Pair (ss_ctx_run_id s)) (List.map_filter (side_run_event c) evs)\<rparr>"
  unfolding emit_side_def by (rule emit_side_kinds [OF side_run_events_kind])

section \<open>Call ids\<close>

lemma free_call_id_step: "\<exists>j. k \<le> j \<and> j \<le> k + f \<and> free_call_id taken base k f = base @ ''_ae'' @ show_nat j
    \<and> (j = k + f \<or> base @ ''_ae'' @ show_nat j \<notin> set taken) \<and> (\<forall>i. k \<le> i \<and> i < j \<longrightarrow> base @ ''_ae'' @ show_nat i \<in> set taken)"
proof (induction f arbitrary: k)
  case (Suc f)
  show ?case
  proof (cases "base @ ''_ae'' @ show_nat k \<in> set taken")
    case True
    from Suc.IH [of "Suc k"] obtain j where "Suc k \<le> j" "j \<le> Suc k + f"
      "free_call_id taken base (Suc k) f = base @ ''_ae'' @ show_nat j"
      "j = Suc k + f \<or> base @ ''_ae'' @ show_nat j \<notin> set taken"
      "\<forall>i. Suc k \<le> i \<and> i < j \<longrightarrow> base @ ''_ae'' @ show_nat i \<in> set taken" by blast
    moreover from this True have "\<forall>i. k \<le> i \<and> i < j \<longrightarrow> base @ ''_ae'' @ show_nat i \<in> set taken"
      by (metis Suc_leI le_neq_implies_less)
    ultimately show ?thesis using True by (intro exI [of _ j]) simp
  qed auto
qed auto

text \<open>As many names as there are taken ids and one more are different names, so one of them is free.\<close>

lemma mint_call_id_free: "mint_call_id taken i \<notin> set taken"
proof -
  let ?base = "if i = [] then ''call'' else i" and ?n = "length taken"
  let ?name = "\<lambda>j. ?base @ ''_ae'' @ show_nat j"
  obtain j where j: "1 \<le> j" "j \<le> 1 + ?n" "mint_call_id taken i = ?name j" "j = 1 + ?n \<or> ?name j \<notin> set taken"
    "\<forall>i. 1 \<le> i \<and> i < j \<longrightarrow> ?name i \<in> set taken"
    using free_call_id_step [of 1 ?n taken ?base] unfolding mint_call_id_def by blast
  show ?thesis
  proof (cases "j = 1 + ?n")
    case True
    show ?thesis
    proof
      assume "mint_call_id taken i \<in> set taken"
      then have "?name ` {1..1 + ?n} \<subseteq> set taken" using j(3, 5) True by (auto simp: le_less)
      moreover have "card (?name ` {1..1 + ?n}) = 1 + ?n"
        by (subst card_image) (auto intro!: inj_onI dest: show_nat_inj)
      ultimately show False using card_length [of taken] card_mono [of "set taken" "?name ` {1..1 + ?n}"] by simp
    qed
  qed (use j in auto)
qed

lemma tool_calls_Cons:
  "tool_calls_of (m\<lparr>cm_content := i # items\<rparr>) =
     (case item_call i of None \<Rightarrow> [] | Some c \<Rightarrow> [c]) @ tool_calls_of (m\<lparr>cm_content := items\<rparr>)"
  by (simp add: tool_calls_of_def map_filter_simps split: option.split)

lemma item_call_renamed: "item_call (i\<lparr>ct_value := CallContent c\<rparr>) = Some c"
  by (simp add: item_call_def)

definition call_ids :: "content_item list \<Rightarrow> string list" where
  "call_ids items = map cc_id (List.map_filter item_call items)"

lemma call_ids_simps [simp]:
  "call_ids [] = []"
  "call_ids (i # items) = (case item_call i of None \<Rightarrow> call_ids items | Some c \<Rightarrow> cc_id c # call_ids items)"
  by (simp_all add: call_ids_def map_filter_simps split: option.split)

lemma rename_calls_fresh:
  assumes "set used \<subseteq> set taken" and "set (call_ids items) \<subseteq> set taken"
  shows "distinct (call_ids (fst (rename_calls items taken used))) \<and> set (call_ids (fst (rename_calls items taken used))) \<inter> set used = {}"
  using assms
proof (induction items taken used rule: rename_calls.induct)
  case (2 i items taken used)
  show ?case
  proof (cases "item_call i")
    case None
    with 2 show ?thesis by (auto split: prod.split)
  next
    case (Some c)
    show ?thesis
    proof (cases "cc_id c \<in> set used")
      case False
      have "distinct (call_ids (fst (rename_calls items taken (cc_id c # used)))) \<and>
        set (call_ids (fst (rename_calls items taken (cc_id c # used)))) \<inter> set (cc_id c # used) = {}"
        using 2(2) [OF Some] False 2(4, 5) Some by auto
      with Some False show ?thesis by (auto split: prod.split)
    next
      case True
      let ?m = "mint_call_id taken (cc_id c)"
      have "distinct (call_ids (fst (rename_calls items (?m # taken) (?m # used)))) \<and>
        set (call_ids (fst (rename_calls items (?m # taken) (?m # used)))) \<inter> set (?m # used) = {}"
        using 2(3) [OF Some _ refl] True 2(4, 5) Some by auto
      with Some True show ?thesis using 2(4) mint_call_id_free [of taken "cc_id c"]
        by (auto simp: Let_def item_call_renamed split: prod.split)
    qed
  qed
qed simp

lemma call_ids_of_message: "map cc_id (tool_calls_of m) = call_ids (cm_content m)"
  by (simp add: tool_calls_of_def call_ids_def)

lemma unique_call_ids: "distinct (map cc_id (tool_calls_of (fst (make_call_ids_unique m))))"
  using rename_calls_fresh [of "[]" "call_ids (cm_content m)" "cm_content m"]
  by (auto simp: make_call_ids_unique_def call_ids_of_message split: prod.splits)

text \<open>Everything but the ids stays: the calls, in their order, and the content that is no call.\<close>

definition forget_id :: "content_item \<Rightarrow> content_item" where
  "forget_id i = (case item_call i of None \<Rightarrow> i | Some c \<Rightarrow> i\<lparr>ct_value := CallContent (c\<lparr>cc_id := []\<rparr>)\<rparr>)"

lemma forget_id_renamed: "item_call i = Some c \<Longrightarrow> forget_id (i\<lparr>ct_value := CallContent (c\<lparr>cc_id := k\<rparr>)\<rparr>) = forget_id i"
  by (simp add: forget_id_def item_call_renamed)

lemma rename_calls_forget: "map forget_id (fst (rename_calls items taken used)) = map forget_id items"
proof (induction items arbitrary: taken used)
  case (Cons i items)
  show ?case
  proof (cases "item_call i")
    case (Some c)
    let ?m = "mint_call_id taken (cc_id c)"
    show ?thesis using Cons [of "?m # taken" "?m # used"] Cons [of taken "cc_id c # used"] Some
      by (auto simp: Let_def forget_id_renamed split: prod.split)
  qed (use Cons [of taken used] in \<open>auto split: prod.split\<close>)
qed simp

lemma rename_calls_distinct:
  "distinct (call_ids items) \<Longrightarrow> set (call_ids items) \<inter> set used = {} \<Longrightarrow> rename_calls items taken used = (items, [])"
proof (induction items arbitrary: used)
  case (Cons i items)
  then show ?case by (auto split: option.splits prod.split simp: Int_insert_right)
qed simp

lemma rename_calls_none: "snd (rename_calls items taken used) = [] \<Longrightarrow> fst (rename_calls items taken used) = items"
  by (induction items taken used rule: rename_calls.induct)
    (auto simp: Let_def split: option.splits prod.splits if_splits)

lemma unchanged_call_ids: "snd (make_call_ids_unique m) = [] \<longleftrightarrow> distinct (map cc_id (tool_calls_of m))"
proof
  assume h: "snd (make_call_ids_unique m) = []"
  then have "fst (make_call_ids_unique m) = m"
    using rename_calls_none [of "cm_content m" "map cc_id (tool_calls_of m)" "[]"]
    by (auto simp: make_call_ids_unique_def split: prod.splits)
  then show "distinct (map cc_id (tool_calls_of m))" using unique_call_ids [of m] by simp
next
  assume "distinct (map cc_id (tool_calls_of m))"
  then show "snd (make_call_ids_unique m) = []"
    using rename_calls_distinct [of "cm_content m" "[]" "map cc_id (tool_calls_of m)"]
    by (simp add: make_call_ids_unique_def call_ids_of_message)
qed

text \<open>C28. \<open>make_call_ids_unique\<close>: after it the calls of a response have pairwise different ids, whatever ids the model repeated
  or left empty; the calls, their order and all other content are as before; and nothing is renamed exactly when the ids were
  different already.\<close>

theorem call_ids_made_unique:
  "distinct (map cc_id (tool_calls_of (fst (make_call_ids_unique m)))) \<and>
   map forget_id (cm_content (fst (make_call_ids_unique m))) = map forget_id (cm_content m) \<and>
   (snd (make_call_ids_unique m) = [] \<longleftrightarrow> distinct (map cc_id (tool_calls_of m)))"
proof (intro conjI unique_call_ids unchanged_call_ids)
  show "map forget_id (cm_content (fst (make_call_ids_unique m))) = map forget_id (cm_content m)"
    using rename_calls_forget [of "cm_content m" "map cc_id (tool_calls_of m)" "[]"]
    by (auto simp: make_call_ids_unique_def split: prod.splits)
qed

section \<open>Admission\<close>

lemma enter_cases:
  assumes "enter caller authority now s = (Inr u, s')"
  obtains c where "ss_choices s = Some c" "choices_bounded c = Inr ()"
    "source_mode (sc_authority c) = PerRequest \<Longrightarrow> \<exists>a ceiling. authority = Some a \<and> sc_authority c = PerRequestAuthority ceiling \<and>
       principal_admitted_for (ra_principal a) (ss_principal s) \<and> expiry_live (ra_expiry a) now \<and>
       (\<forall>caps. ra_caps a = Some caps \<longrightarrow> admits ceiling caps) \<and>
       s' = s\<lparr>ss_ctx_principal := ra_principal a, ss_ctx_caps := ra_caps a, ss_ctx_source := Some PerRequest, ss_ctx_expires := Some (ra_expiry a)\<rparr>"
    "source_mode (sc_authority c) = SingleTrustedCaller \<Longrightarrow> authority = None \<and>
       (\<forall>cl. caller = Some cl \<longrightarrow> principal_admitted_for (caller_principal cl) (ss_principal s)) \<and>
       s' = s\<lparr>ss_ctx_principal := ss_principal s, ss_ctx_caps := ss_caps s, ss_ctx_source := Some SingleTrustedCaller, ss_ctx_expires := None\<rparr>"
  using assms
  by (auto simp: enter_def admit_def refuse_admission_def apply_dispatch_authority_def
      split: option.splits if_splits prod.splits sum.splits authority_source.splits)

lemma enter_keeps:
  assumes "enter caller authority now s = (r, s')"
  shows "ss_history s' = ss_history s" "ss_events s' = ss_events s" "ss_open s' = ss_open s" "ss_choices s' = ss_choices s"
    "ss_principal s' = ss_principal s" "ss_id s' = ss_id s" "ss_caps s' = ss_caps s" "ss_tickets s' = ss_tickets s"
    "ss_turn s' = ss_turn s" "ss_clients s' = ss_clients s" "ss_run_counter s' = ss_run_counter s"
  using assms
  by (auto simp: enter_def admit_def refuse_admission_def apply_dispatch_authority_def
      split: option.splits if_splits prod.splits sum.splits authority_source.splits)

definition demo_principal :: principal where
  "demo_principal = caller_principal \<lparr>sl_id = ''ada'', sl_tenant = ''acme''\<rparr>"

definition demo_choices :: session_choices where
  "demo_choices = \<lparr>sc_authority = PerRequestAuthority NoCeiling, sc_budget = At_most 1000, sc_turns = At_most 5, sc_timeout = Unbounded\<rparr>"

definition demo_session :: "(int, string, nat) session" where
  "demo_session =
     \<lparr>ss_id = ''s'', ss_principal = demo_principal, ss_caps = None, ss_choices = Some demo_choices, ss_history = [],
      ss_run_counter = 0, ss_last_run_id = [], ss_inherited_root = [], ss_open = [], ss_icounter = 0, ss_asks = Map.empty,
      ss_hooks = Map.empty, ss_rounds = Map.empty, ss_clients = [], ss_answering = None, ss_ctx_principal = demo_principal,
      ss_ctx_caps = None, ss_ctx_source = None, ss_ctx_expires = None, ss_ctx_run_id = [], ss_ctx_root_run_id = [],
      ss_turn = 0, ss_tokens = 0, ss_usage = no_usage, ss_discarded = 0, ss_retries_used = 0, ss_denied = 0,
      ss_in_flight = False, ss_run_end = None, ss_unwinding = False, ss_nonce_epoch = 0, ss_tickets = \<lparr>tk_next = 0, tk_live = \<lambda>_. False\<rparr>, ss_events = []\<rparr>"

lemmas demo_session_simps = demo_session_def demo_choices_def demo_principal_def caller_principal_def

text \<open>What an entry point runs with after it has let a caller in. Under per-request authority the caller is admitted for
  the session's principal, the run acts as that caller with exactly the capabilities of the request, live at the time of entry
  and never more than the ceiling of the session covers. A session with one trusted caller takes no authority from a request
  and runs as its own principal with its own capabilities.\<close>

theorem entered_authority_bounded:
  assumes "enter caller authority now s = (Inr (), s')"
  shows "\<exists>c. ss_choices s' = Some c \<and>
    (case sc_authority c of
       TrustedCallerAuthority \<Rightarrow> authority = None \<and> ss_ctx_principal s' = ss_principal s' \<and> ss_ctx_caps s' = ss_caps s'
     | PerRequestAuthority ceiling \<Rightarrow>
         principal_admitted_for (ss_ctx_principal s') (ss_principal s') \<and>
         map_option ra_caps authority = Some (ss_ctx_caps s') \<and> map_option ra_principal authority = Some (ss_ctx_principal s') \<and>
         (case ss_ctx_expires s' of None \<Rightarrow> False | Some t \<Rightarrow> expiry_live t now) \<and>
         (case ceiling of NoCeiling \<Rightarrow> True | Ceiling upper \<Rightarrow> set_covers upper (run_held s')))"
proof -
  from enter_cases [OF assms] obtain c where c: "ss_choices s = Some c"
    "source_mode (sc_authority c) = PerRequest \<Longrightarrow> \<exists>a ceiling. authority = Some a \<and> sc_authority c = PerRequestAuthority ceiling \<and>
       principal_admitted_for (ra_principal a) (ss_principal s) \<and> expiry_live (ra_expiry a) now \<and>
       (\<forall>caps. ra_caps a = Some caps \<longrightarrow> admits ceiling caps) \<and>
       s' = s\<lparr>ss_ctx_principal := ra_principal a, ss_ctx_caps := ra_caps a, ss_ctx_source := Some PerRequest, ss_ctx_expires := Some (ra_expiry a)\<rparr>"
    "source_mode (sc_authority c) = SingleTrustedCaller \<Longrightarrow> authority = None \<and>
       (\<forall>cl. caller = Some cl \<longrightarrow> principal_admitted_for (caller_principal cl) (ss_principal s)) \<and>
       s' = s\<lparr>ss_ctx_principal := ss_principal s, ss_ctx_caps := ss_caps s, ss_ctx_source := Some SingleTrustedCaller, ss_ctx_expires := None\<rparr>"
    by metis
  show ?thesis
  proof (cases "sc_authority c")
    case (PerRequestAuthority ceiling)
    with c(2) obtain a where a: "authority = Some a" "principal_admitted_for (ra_principal a) (ss_principal s)"
      "expiry_live (ra_expiry a) now" "\<forall>caps. ra_caps a = Some caps \<longrightarrow> admits ceiling caps"
      "s' = s\<lparr>ss_ctx_principal := ra_principal a, ss_ctx_caps := ra_caps a, ss_ctx_source := Some PerRequest, ss_ctx_expires := Some (ra_expiry a)\<rparr>"
      by auto
    have "case ceiling of NoCeiling \<Rightarrow> True | Ceiling upper \<Rightarrow> set_covers upper (run_held s')"
      using a(4, 5) by (auto simp: run_held_def set_covers_def split: capability_ceiling.split option.split)
    with a c(1) PerRequestAuthority show ?thesis by simp
  qed (use c in simp)
qed

theorem entered_authority_bounded_witness:
  "\<exists>s' c. enter None (Some \<lparr>ra_principal = demo_principal, ra_caps = None, ra_expiry = None\<rparr>) 0 demo_session = (Inr (), s') \<and>
     ss_choices s' = Some c \<and> ss_ctx_principal s' = demo_principal"
proof -
  define a where "a = \<lparr>ra_principal = demo_principal, ra_caps = None, ra_expiry = None\<rparr>"
  obtain s' where s': "enter None (Some a) 0 demo_session = (Inr (), s')"
    by (simp add: enter_def a_def demo_session_simps admit_def apply_dispatch_authority_def principal_admitted_for_def
        choices_bounded_def check_bound_def expiry_live_def)
  from entered_authority_bounded [OF s'] obtain c where "ss_choices s' = Some c" by blast
  moreover from s' have "ss_ctx_principal s' = demo_principal"
    by (auto simp: enter_def a_def demo_session_simps admit_def apply_dispatch_authority_def principal_admitted_for_def
        choices_bounded_def check_bound_def expiry_live_def split: option.splits)
  ultimately show ?thesis using s' unfolding a_def by blast
qed

section \<open>Records\<close>

lemma digits_fold_ge: "(n :: nat) \<le> foldl (\<lambda>a c. a * 10 + (of_char c - 48)) n ds"
proof (induction ds arbitrary: n)
  case (Cons c ds)
  show ?case using Cons [of "n * 10 + (of_char c - 48)"] by simp
qed simp

lemma read_counter_digits:
  assumes "list_all is_digit ds" and "foldl (\<lambda>a c. a * 10 + (of_char c - 48)) (unat n) ds \<le> 18446744073709551609"
  shows "read_counter ds n = Some (of_nat (foldl (\<lambda>a c. a * 10 + (of_char c - 48)) (unat n) ds))"
  using assms
proof (induction ds arbitrary: n)
  case (Cons c ds)
  let ?d = "of_char c - 48 :: nat" and ?m = "n * 10 + of_nat (of_char c - 48)"
  have le: "unat n * 10 + ?d \<le> 18446744073709551609"
    using digits_fold_ge [of "unat n * 10 + ?d" ds] Cons.prems(2) by simp
  then have m: "unat ?m = unat n * 10 + ?d"
    by (simp add: unat_word_ariths unat_of_nat)
  have "n \<le> (- 1 - 9) div 10" using le by (simp add: word_le_nat_alt unat_div)
  then show ?case using Cons.IH [of ?m] Cons.prems m by simp
qed simp

lemma read_counter_show_nat:
  "unat k \<le> 18446744073709551609 \<Longrightarrow> read_counter (show_nat (unat k)) 0 = Some k" for k :: u64
  using read_counter_digits [of "show_nat (unat k)" 0] show_nat_digits [of _ "unat k"] digits_value_show_nat [of "unat k"]
  by (simp add: list_all_iff digits_value_def)

lemma highest_counter_ge:
  assumes "x \<in> set xs" and "interaction_number p (si_id x) = Some k"
  shows "k \<le> highest_counter p xs"
proof -
  let ?f = "\<lambda>x n. case interaction_number p (si_id x) of None \<Rightarrow> n | Some k \<Rightarrow> max n k"
  have grow: "n \<le> fold ?f ys n" for ys n
  proof (induction ys arbitrary: n)
    case (Cons y ys)
    show ?case using Cons [of "?f y n"] by (cases "interaction_number p (si_id y)") auto
  qed simp
  have "k \<le> fold ?f xs n" for n
    using assms
  proof (induction xs arbitrary: n)
    case (Cons y ys)
    show ?case
    proof (cases "y = x")
      case True
      then show ?thesis using grow [of "max n k" ys] Cons.prems(2) by simp
    qed (use Cons in auto)
  qed simp
  then show ?thesis by (simp add: highest_counter_def)
qed

lemma session_restore_Inr:
  assumes "session_restore r s = (Inr (), s')"
  obtains c rc where "ss_choices s = Some c" "sd_choices r = Some rc" "rc_authority rc = source_mode (sc_authority c)"
    "covers (rc_budget rc) (sc_budget c)" "covers (rc_turns rc) (sc_turns c)" "ss_choices s' = Some c" "ss_open s' = sd_open r"
    "ss_icounter s' = highest_counter (sd_session_id r @ '':interaction:'') (sd_open r)" "ss_id s' = sd_session_id r"
  using assms
  by (auto simp: session_restore_def choices_cover_def drop_interaction_state_def split: option.splits if_splits)

lemma restored_next_id_free:
  assumes "session_restore r s = (Inr (), s')" and "unat (ss_icounter s') < 18446744073709551609"
  shows "find_interaction (fst (open_interaction reason s')) s' = None"
proof (rule ccontr)
  let ?p = "ss_id s' @ '':interaction:''" and ?k = "ss_icounter s' + 1"
  have "ss_icounter s' < 18446744073709551609" using assms(2) by (simp add: word_less_nat_alt)
  then have k: "unat ?k = Suc (unat (ss_icounter s'))" by (metis less_imp_not_max unat_inc)
  assume "\<not> ?thesis"
  then obtain x where x: "x \<in> set (ss_open s')" "si_id x = ?p @ show_nat (unat ?k)"
    by (auto simp: find_interaction_def open_interaction_def Let_def find_None_iff)
  then have "interaction_number ?p (si_id x) = Some ?k"
    using read_counter_show_nat [of ?k] k assms(2) show_nat_nonempty [of "unat ?k"]
    by (simp add: interaction_number_def starts_with_def)
  from highest_counter_ge [OF x(1) this] have "?k \<le> ss_icounter s'" using session_restore_Inr [OF assms(1)] by metis
  then show False using k by (simp add: word_le_nat_alt)
qed

lemma show_nat_one: "show_nat (Suc 0) = ''1''"
  by code_simp

lemma find_append: "List.find p (xs @ ys) = (case List.find p xs of None \<Rightarrow> List.find p ys | Some x \<Rightarrow> Some x)"
  by (induction xs) auto

lemma open_interaction_finds:
  assumes "find_interaction (fst (open_interaction reason s)) s = None"
  shows "find_interaction i (snd (open_interaction reason s)) =
    (if i = fst (open_interaction reason s)
     then Some \<lparr>si_id = i, si_run_id = ss_ctx_run_id s, si_reason = reason, si_opened_at = 0, si_expires_at = 0\<rparr>
     else find_interaction i s)"
  using assms by (auto simp: open_interaction_def find_interaction_def find_append Let_def split: option.split)

text \<open>C26. A session restored from a record opens its next interaction under an id that none of the interactions still open in
  the record has: the new id finds the new question and nothing else, and every other id finds what it found before, so an
  answer to a question that is still open in the record is never taken for an answer to the new one (while the counter is below
  the largest number the parser of ids reads). Only the open ids are looked at: a record without open questions starts the
  numbers again at 1, whatever ids had been given out and answered before it was taken.\<close>

theorem restored_ids_stay_fresh:
  assumes "session_restore r s = (Inr (), s')" and "unat (ss_icounter s') < 18446744073709551609"
    and "open_interaction reason s' = (i, s2)"
  shows "find_interaction i s' = None \<and>
    (case find_interaction i s2 of None \<Rightarrow> False | Some x \<Rightarrow> si_reason x = reason \<and> si_run_id x = ss_ctx_run_id s') \<and>
    (\<forall>j. j \<noteq> i \<longrightarrow> find_interaction j s2 = find_interaction j s') \<and>
    (\<forall>x\<in>set (sd_open r). si_id x \<noteq> i \<and> find_interaction (si_id x) s2 \<noteq> None) \<and>
    (sd_open r = [] \<longrightarrow> i = sd_session_id r @ '':interaction:1'')"
proof -
  note free = restored_next_id_free [OF assms(1, 2), of reason]
  note finds = open_interaction_finds [OF free, unfolded assms(3) fst_conv snd_conv]
  have i: "find_interaction i s' = None" using free assms(3) by simp
  obtain o': "ss_open s' = sd_open r" "ss_icounter s' = highest_counter (sd_session_id r @ '':interaction:'') (sd_open r)"
    "ss_id s' = sd_session_id r" using session_restore_Inr [OF assms(1)] by metis
  have open': "find_interaction (si_id x) s' \<noteq> None" if "x \<in> set (sd_open r)" for x
    using that o'(1) by (auto simp: find_interaction_def find_None_iff)
  have "si_id x \<noteq> i \<and> find_interaction (si_id x) s2 \<noteq> None" if "x \<in> set (sd_open r)" for x
    using open' [OF that] i finds [of "si_id x"] by auto
  moreover have "i = sd_session_id r @ '':interaction:1''" if "sd_open r = []"
    using assms(3) o' that by (auto simp: open_interaction_def highest_counter_def Let_def show_nat_one)
  ultimately show ?thesis using i finds open' by auto
qed

definition demo_record :: session_record where
  "demo_record =
     (session_to_record demo_session)
       \<lparr>sd_open := [\<lparr>si_id = ''s:interaction:7'', si_run_id = ''s:run:1'', si_reason = ApprovalReason, si_opened_at = 0, si_expires_at = 0\<rparr>]\<rparr>"

lemma demo_restored:
  "session_restore demo_record demo_session = (Inr (), snd (session_restore demo_record demo_session))"
  "ss_icounter (snd (session_restore demo_record demo_session)) = 7"
  by (simp_all add: session_restore_def demo_record_def session_to_record_def demo_session_simps record_choices_def
      choices_cover_def highest_counter_def interaction_number_def starts_with_def is_digit_def)

theorem restored_ids_stay_fresh_witness:
  "find_interaction (fst (open_interaction HookDecision (snd (session_restore demo_record demo_session))))
     (snd (session_restore demo_record demo_session)) = None"
  using restored_ids_stay_fresh [OF demo_restored(1) _ prod.collapse [symmetric], of HookDecision] by (simp add: demo_restored(2))

lemma covers_limit: "covers a b \<Longrightarrow> case limit a of None \<Rightarrow> True | Some n \<Rightarrow> (case limit b of None \<Rightarrow> False | Some m \<Rightarrow> m \<le> n)"
  by (cases a; cases b) auto

text \<open>A restore never widens what the record allowed: it is refused, and then changes nothing at all, or the session that
  comes out of it is under the same kind of authority and bounded by every bound of the record, in tokens and in turns.\<close>

theorem restore_never_widens:
  "case session_restore r s of
     (Inl e, s') \<Rightarrow> s' = s
   | (Inr _, s') \<Rightarrow>
       (case (ss_choices s', sd_choices r) of
          (Some c, Some rc) \<Rightarrow>
            source_mode (sc_authority c) = rc_authority rc \<and>
            (case limit (rc_budget rc) of None \<Rightarrow> True
             | Some n \<Rightarrow> (case token_budget_limit s' of None \<Rightarrow> False | Some m \<Rightarrow> m \<le> n)) \<and>
            (case limit (rc_turns rc) of None \<Rightarrow> True | Some n \<Rightarrow> (case max_turns s' of None \<Rightarrow> False | Some m \<Rightarrow> m \<le> n))
        | _ \<Rightarrow> False)"
proof (cases "session_restore r s")
  case (Pair x s')
  show ?thesis
  proof (cases x)
    case (Inl e)
    with Pair show ?thesis by (auto simp: session_restore_def split: option.splits if_splits)
  next
    case (Inr u)
    with Pair have "session_restore r s = (Inr (), s')" by simp
    then obtain c rc where "sd_choices r = Some rc" "rc_authority rc = source_mode (sc_authority c)"
      "covers (rc_budget rc) (sc_budget c)" "covers (rc_turns rc) (sc_turns c)" "ss_choices s' = Some c"
      by (rule session_restore_Inr) blast
    moreover from this have "token_budget_limit s' = limit (sc_budget c)" "max_turns s' = limit (sc_turns c)"
      by (simp_all add: token_budget_limit_def max_turns_def)
    ultimately show ?thesis
      using covers_limit [of "rc_budget rc" "sc_budget c"] covers_limit [of "rc_turns rc" "sc_turns c"] Pair Inr
      by (auto split: option.splits)
  qed
qed

text \<open>C27. The record of a session restores it: into any session with the same choices the restore succeeds, and the record of
  the result is the record it was restored from. The principal does not come back whole: it is anonymous, on nobody's behalf
  and at delegation depth zero, whatever the recorded session's was.\<close>

theorem session_record_round_trip:
  assumes "ss_choices s = Some c" and "ss_choices t = Some c"
  shows "\<exists>t'. session_restore (session_to_record s) t = (Inr (), t') \<and> session_to_record t' = session_to_record s \<and>
    ss_principal t' = \<lparr>p_id = p_id (ss_principal s), p_tenant_id = p_tenant_id (ss_principal s), p_kind = Anonymous,
      p_on_behalf_of = [], p_delegation_depth = 0, p_delegation_root = p_delegation_root (ss_principal s)\<rparr>"
  using assms
  by (simp add: session_restore_def session_to_record_def record_choices_def choices_cover_def bound.covers_refl
      drop_interaction_state_def caller_principal_def)

theorem session_record_round_trip_witness:
  "\<exists>t'. session_restore (session_to_record demo_session) (demo_session\<lparr>ss_id := ''t'', ss_turn := 3\<rparr>) = (Inr (), t') \<and>
     session_to_record t' = session_to_record demo_session"
proof -
  have "ss_choices demo_session = Some demo_choices" "ss_choices (demo_session\<lparr>ss_id := ''t'', ss_turn := 3\<rparr>) = Some demo_choices"
    by (simp_all add: demo_session_def)
  from session_record_round_trip [OF this] show ?thesis by blast
qed

end
