(* ===== verification/SessionDispatch.thy ===== *)
theory SessionDispatch
  imports SessionState
begin

text \<open>
  What a session is wired to, and the dispatch of a round's tool calls: \<^verbatim>\<open>dispatch_tool_calls\<close> and
  \<^verbatim>\<open>effective_approval_decider\<close> of \<^verbatim>\<open>src/rt/agent_session_core.cpp\<close>. The template's hooks, the host's deciders, hooks and
  middleware, the chat client, the clock, cancellation and the charges of delegated agents are functions of a world that is
  threaded through, so what is shown holds for everything they may do. The host's settings do not change during a call.

  A tool may throw: the call then has no answer, and neither has the round. In the fan-out of the code an exception ends the
  process; the model ends the round there as well. Only tools throw; the other callbacks of a host are taken to return.

  The session binds sinks around the code it calls, through which tool progress, sandbox reports, model deltas, changes of
  state and the events of delegated agents reach the event stream. What was sent through them is part of the world and asked
  for with \<open>h_sinks\<close> at each place where the code has them bound, so the model shows such events at the end of the call that
  sent them and not between its other effects. The \<^verbatim>\<open>policy_decision\<close> events of the deciders and the
  \<^verbatim>\<open>model_delta\<close> events of a stream come from \<open>h_sinks\<close> too.
\<close>

section \<open>The host\<close>

record ('n, 'p, 'w) contribution =
  cn_instructions :: "string option"
  cn_messages :: "chat_message list"
  cn_tools :: "('n, 'p, 'w) tool_descriptor list"

record ('n, 'p, 'w) chat_request =
  cq_messages :: "chat_message list"
  cq_tools :: "('n, 'p, 'w) tool_descriptor list"
  cq_schema :: "string option"
  cq_answers :: "client_answer list"

record chat_response =
  cp_message :: chat_message
  cp_usage :: usage

record stream_failure =
  sf_inner :: error
  sf_any_update :: bool
  sf_bytes :: u64

datatype model_route = Direct | Gateway | GatewayStreaming

record 'n hook_verdict =
  hv_rewritten :: "'n json option"
  hv_denial :: "error option"
  hv_external :: bool

text \<open>\<open>h_stop\<close> reads the stop token of the run, \<open>h_new_run\<close> replaces it and drops the charges of delegated agents,
  \<open>h_take_charges\<close> takes what they reported since, with whether it has a cost, and
  \<open>h_seed_answers\<close> hands a replayed script its answers. \<open>h_sinks\<close> takes what has been sent through the sinks since it was last
  asked. \<open>h_estimate\<close> is the estimated input cost of a request and
  \<open>h_attributable\<close> the check of an approver's id.\<close>

record ('n, 'p, 'w) session_host =
  h_numbers :: "'n num_ops"
  h_approve :: "'w approval_decider option"
  h_policy :: "('n, 'p, 'w) policy_decider option"
  h_hook :: "('n tool_call_request \<Rightarrow> principal \<Rightarrow> 'w \<Rightarrow> 'n hook_verdict result \<times> 'w) option"
  h_middleware :: "(('n, 'p, 'w) contribution \<Rightarrow> 'w \<Rightarrow> (unit result \<times> ('n, 'p, 'w) contribution) \<times> 'w) option"
  h_suspend :: bool
  h_unattended :: "string option"
  h_veto :: "'w approval_decider option"
  h_stream :: bool
  h_stream_retries :: u32
  h_static :: string
  h_pinned :: "chat_message list"
  h_schema :: "string option"
  h_validate :: "(string \<Rightarrow> 'w \<Rightarrow> unit result \<times> 'w) option"
  h_secrets :: "capability_set option"
  h_threshold :: "u64 option"
  h_blob_sink :: "(string \<Rightarrow> 'w \<Rightarrow> string result \<times> 'w) option"
  h_context :: "string \<Rightarrow> principal \<Rightarrow> chat_message list \<Rightarrow> 'w \<Rightarrow> ('n, 'p, 'w) contribution result \<times> 'w"
  h_filter :: "('n, 'p, 'w) contribution \<Rightarrow> ('n, 'p, 'w) contribution"
  h_turn_end :: "chat_message list \<Rightarrow> 'w \<Rightarrow> 'w"
  h_run_end :: "run_end_reason \<Rightarrow> 'w \<Rightarrow> 'w"
  h_has_client :: bool
  h_route :: model_route
  h_model :: "('n, 'p, 'w) chat_request \<Rightarrow> capability_set option \<Rightarrow> int option \<Rightarrow> 'w
               \<Rightarrow> (error \<times> stream_failure option + chat_response) \<times> 'w"
  h_estimate :: "('n, 'p, 'w) chat_request \<Rightarrow> u64"
  h_client_pending :: "'w \<Rightarrow> client_ask list option \<times> 'w"
  h_cancel_client :: "'w \<Rightarrow> 'w"
  h_stop :: "'w \<Rightarrow> bool \<times> 'w"
  h_new_run :: "'w \<Rightarrow> 'w"
  h_take_charges :: "'w \<Rightarrow> (usage \<times> u64 \<times> bool) \<times> 'w"
  h_seed_answers :: "string list \<Rightarrow> 'w \<Rightarrow> 'w"
  h_clock :: "'w \<Rightarrow> int \<times> 'w"
  h_sinks :: "'w \<Rightarrow> side_event list \<times> 'w"
  h_schedule_tool :: "('n, 'p, 'w) tool_descriptor"
  h_attributable :: "string \<Rightarrow> bool"

definition approval_waits_for_human :: "('n, 'p, 'w) session_host \<Rightarrow> bool" where
  "approval_waits_for_human h = (h_suspend h \<and> h_approve h = None \<and> h_unattended h = None)"

definition policy_denies ::
  "('n, 'p, 'w) session_host \<Rightarrow> ('n, 'p, 'w) tool_descriptor list \<Rightarrow> principal \<Rightarrow> string \<Rightarrow> 'w \<Rightarrow> bool \<times> 'w" where
  "policy_denies h table caller tool w =
     (case h_policy h of
        None \<Rightarrow> (False, w)
      | Some consult \<Rightarrow>
          (case find_tool table tool of
             None \<Rightarrow> (False, w)
           | Some td \<Rightarrow> (case consult caller td True w of (verdict, w1) \<Rightarrow> (verdict = AutoDeny, w1))))"

definition effective_approval_decider ::
  "('n, 'p, 'w) session_host \<Rightarrow> ('n, 'p, 'w) tool_descriptor list \<Rightarrow> 'w approval_decider option" where
  "effective_approval_decider h table =
     (case h_unattended h of
        None \<Rightarrow> h_approve h
      | Some operator_id \<Rightarrow>
          Some (\<lambda>caller tool text w.
            case policy_denies h table caller tool w of
              (True, w1) \<Rightarrow> (False, w1)
            | (False, w1) \<Rightarrow> (case h_veto h of None \<Rightarrow> (True, w1) | Some veto \<Rightarrow> veto caller tool text w1)))"

section \<open>Dispatch\<close>

record dispatched_call =
  dc_result :: tool_result
  dc_audit :: tool_invocation_audit

definition no_dispatch :: dispatched_call where
  "no_dispatch =
     \<lparr>dc_result = \<lparr>tr_call_id = [], tr_is_error = False, tr_content = []\<rparr>,
      dc_audit = \<lparr>au_call_id = [], au_tool_name = [], au_ok = False, au_error_code = [], au_result_bytes = 0,
        au_key = \<lparr>ik_run_id = [], ik_turn_index = 0, ik_call_index = 0, ik_argument_digest = 0\<rparr>,
        au_principal_id = [], au_tenant_id = [], au_on_behalf_of = [], au_delegation_root = []\<rparr>\<rparr>"

text \<open>The context of a call. The live context of a session carries no deadline outside a model call.\<close>

definition tool_context :: "('n, 'p, 'w) session_host \<Rightarrow> ('n, 'p, 'w) session \<Rightarrow> int option \<Rightarrow> 'w call_context" where
  "tool_context h s deadline =
     \<lparr>cx_principal = ss_ctx_principal s, cx_run_id = ss_ctx_run_id s, cx_turn_index = ss_turn s, cx_deadline = deadline,
      cx_threshold = h_threshold h, cx_blob_sink = h_blob_sink h\<rparr>"

record ('n, 'p, 'w) round_table =
  rt_tools :: "('n, 'p, 'w) tool_descriptor list"
  rt_held :: capability_set
  rt_approve :: "'w approval_decider option"
  rt_policy :: "('n, 'p, 'w) policy_decider option"

text \<open>What the session reports of the code it just called, which ran for the tool call \<open>c\<close> or for none.\<close>

definition drain_sinks ::
  "('n, 'p, 'w) session_host \<Rightarrow> string option \<Rightarrow> ('n, 'p, 'w) session \<Rightarrow> 'w \<Rightarrow> ('n, 'p, 'w) session \<times> 'w" where
  "drain_sinks h c s w = (case h_sinks h w of (evs, w1) \<Rightarrow> (emit_side c evs s, w1))"

definition finish_call ::
  "nat \<Rightarrow> tool_result \<Rightarrow> tool_invocation_audit \<Rightarrow> dispatched_call list \<Rightarrow> ('n, 'p, 'w) session
    \<Rightarrow> dispatched_call list \<times> ('n, 'p, 'w) session" where
  "finish_call i r audit out s =
     (out[i := \<lparr>dc_result = r, dc_audit = audit\<rparr>], emit (ToolCallFinished (au_call_id audit) r) s)"

text \<open>\<open>None\<close> in place of the answers is an exception: the tool's, which nothing on the way catches.\<close>

fun run_sequential ::
  "('n, 'p, 'w) session_host \<Rightarrow> ('n, 'p, 'w) round_table \<Rightarrow> 'n tool_call_request list \<Rightarrow> nat list \<Rightarrow> dispatched_call list \<Rightarrow>
   ('n, 'p, 'w) session \<Rightarrow> 'w \<Rightarrow> dispatched_call list option \<times> ('n, 'p, 'w) session \<times> 'w" where
  "run_sequential h rt rqs [] out s w = (Some out, s, w)"
| "run_sequential h rt rqs (i # is') out s w =
     (case h_clock h w of (now, w1) \<Rightarrow>
      case invoke_tool (h_numbers h) (rt_tools rt) (rt_held rt) (rqs ! i) (tool_context h s None) (rt_approve rt) (rt_policy rt) now
             (ss_tickets s) w1 of
        ((answer, st), w2) \<Rightarrow>
          (case drain_sinks h (Some (cr_call_id (rqs ! i))) (s\<lparr>ss_tickets := st\<rparr>) w2 of (s1, w3) \<Rightarrow>
           case answer of
             None \<Rightarrow> (None, s1, w3)
           | Some (r, audit) \<Rightarrow>
               (case finish_call i r audit out s1 of (out1, s2) \<Rightarrow> run_sequential h rt rqs is' out1 s2 w3)))"

type_synonym ('n, 'p, 'w) job_member = "nat \<times> 'w call_context \<times> ('n, 'p, 'w) admitted_call"

text \<open>A parallel class is admitted here, in order; its members run after every class has been taken.\<close>

fun admit_members ::
  "('n, 'p, 'w) session_host \<Rightarrow> ('n, 'p, 'w) round_table \<Rightarrow> 'n tool_call_request list \<Rightarrow> nat list \<Rightarrow> dispatched_call list \<Rightarrow>
   ('n, 'p, 'w) job_member list \<Rightarrow> ('n, 'p, 'w) session \<Rightarrow> 'w
    \<Rightarrow> dispatched_call list \<times> ('n, 'p, 'w) job_member list \<times> ('n, 'p, 'w) session \<times> 'w" where
  "admit_members h rt rqs [] out jobs s w = (out, jobs, s, w)"
| "admit_members h rt rqs (i # is') out jobs s w =
     (case h_clock h w of (now, w1) \<Rightarrow>
      let ctx = tool_context h s (call_deadline s now)
      in case admit_call (h_numbers h) (rt_tools rt) (rt_held rt) (rqs ! i) (cx_principal ctx) (rt_approve rt) (rt_policy rt)
                (ss_tickets s) w1 of
           ((answer, st), w2) \<Rightarrow>
             (case drain_sinks h None (s\<lparr>ss_tickets := st\<rparr>) w2 of (s1, w3) \<Rightarrow>
              case answer of
                Inl e \<Rightarrow>
                  (let oc = failed_outcome (cr_call_id (rqs ! i)) e
                   in case finish_call i (ao_result oc) (make_call_audit (h_numbers h) (rqs ! i) ctx oc) out s1 of
                        (out1, s2) \<Rightarrow> admit_members h rt rqs is' out1 jobs s2 w3)
              | Inr ad \<Rightarrow> admit_members h rt rqs is' out (jobs @ [(i, ctx, ad)]) s1 w3))"

fun dispatch_classes ::
  "('n, 'p, 'w) session_host \<Rightarrow> ('n, 'p, 'w) round_table \<Rightarrow> 'n tool_call_request list \<Rightarrow> concurrency_class list \<Rightarrow>
   dispatched_call list \<Rightarrow> ('n, 'p, 'w) job_member list \<Rightarrow> ('n, 'p, 'w) session \<Rightarrow> 'w
    \<Rightarrow> (dispatched_call list \<times> ('n, 'p, 'w) job_member list) option \<times> ('n, 'p, 'w) session \<times> 'w" where
  "dispatch_classes h rt rqs [] out jobs s w = (Some (out, jobs), s, w)"
| "dispatch_classes h rt rqs (c # cs) out jobs s w =
     (if kc_kind c = Sequential
      then case run_sequential h rt rqs (kc_calls c) out s w of
             (None, s1, w1) \<Rightarrow> (None, s1, w1)
           | (Some out1, s1, w1) \<Rightarrow> dispatch_classes h rt rqs cs out1 jobs s1 w1
      else case admit_members h rt rqs (kc_calls c) out jobs s w of
             (out1, jobs1, s1, w1) \<Rightarrow> dispatch_classes h rt rqs cs out1 jobs1 s1 w1)"

text \<open>The fan-out. The jobs write disjoint slots and run at the same time; the model takes their members in the order of
  admission.\<close>

fun run_members ::
  "('n, 'p, 'w) session_host \<Rightarrow> 'n tool_call_request list \<Rightarrow> ('n, 'p, 'w) job_member list \<Rightarrow> dispatched_call list \<Rightarrow>
   ('n, 'p, 'w) session \<Rightarrow> 'w \<Rightarrow> dispatched_call list option \<times> ('n, 'p, 'w) session \<times> 'w" where
  "run_members h rqs [] out s w = (Some out, s, w)"
| "run_members h rqs ((i, ctx, ad) # jobs) out s w =
     (case h_clock h w of (now, w1) \<Rightarrow>
      case run_admitted_call (h_numbers h) (ad_tool ad) (rqs ! i) ctx (ad_bound ad) (ad_prepared ad) now (ss_tickets s) w1 of
        ((answer, st), w2) \<Rightarrow>
          (case drain_sinks h (Some (cr_call_id (rqs ! i))) (s\<lparr>ss_tickets := st\<rparr>) w2 of (s1, w3) \<Rightarrow>
           case answer of
             None \<Rightarrow> (None, s1, w3)
           | Some oc \<Rightarrow>
               (case finish_call i (ao_result oc) (make_call_audit (h_numbers h) (rqs ! i) ctx oc) out s1 of
                  (out1, s2) \<Rightarrow> run_members h rqs jobs out1 s2 w3)))"

definition dispatch_tool_calls ::
  "('n, 'p, 'w) session_host \<Rightarrow> ('n, 'p, 'w) round_table \<Rightarrow> 'n tool_call_request list \<Rightarrow> ('n, 'p, 'w) session \<Rightarrow> 'w
    \<Rightarrow> dispatched_call list option \<times> ('n, 'p, 'w) session \<times> 'w" where
  "dispatch_tool_calls h rt rqs s w =
     (let s0 = emit_all (map (\<lambda>rq. ToolCallStarted (cr_call_id rq) (cr_tool_name rq)) rqs) s
      in case dispatch_classes h rt rqs (partition_batch (rt_tools rt) rqs) (replicate (length rqs) no_dispatch) [] s0 w of
           (None, s1, w1) \<Rightarrow> (None, s1, w1)
         | (Some (out, jobs), s1, w1) \<Rightarrow> run_members h rqs jobs out s1 w1)"

section \<open>What a dispatch leaves\<close>

text \<open>The events that may appear while the calls \<open>ids\<close> run: those calls finishing, tainted deltas of those calls, and what other
  sinks report. \<open>finishes\<close> are the finished calls among them.\<close>

fun passing :: "string set \<Rightarrow> run_event \<Rightarrow> bool" where
  "passing ids (ToolCallFinished i r) = (i \<in> ids)"
| "passing ids (ToolCallDelta i item) = (i \<in> ids \<and> ct_tainted item)"
| "passing ids ev = side_kind ev"

fun finish_of :: "run_event \<Rightarrow> (string \<times> tool_result) option" where
  "finish_of (ToolCallFinished i r) = Some (i, r)"
| "finish_of ev = None"

definition finishes :: "run_event list \<Rightarrow> (string \<times> tool_result) list" where
  "finishes evs = List.map_filter finish_of evs"

lemma finishes_simps [simp]:
  "finishes [] = []" "finishes (xs @ ys) = finishes xs @ finishes ys" "finishes [ToolCallFinished i r] = [(i, r)]"
  by (simp_all add: finishes_def map_filter_def)

text \<open>From one state to another with nothing but passing events, the calls of \<open>xs\<close> finishing in this order.\<close>

definition settled ::
  "string set \<Rightarrow> ('n, 'p, 'w) session \<Rightarrow> (string \<times> tool_result) list \<Rightarrow> ('n, 'p, 'w) session \<Rightarrow> bool" where
  "settled ids s xs s' \<longleftrightarrow>
     (\<exists>st evs. s' = s\<lparr>ss_tickets := st, ss_events := ss_events s @ map (Pair (ss_ctx_run_id s)) evs\<rparr> \<and>
       list_all (passing ids) evs \<and> finishes evs = xs)"

lemma settledI:
  "s' = s\<lparr>ss_tickets := st, ss_events := ss_events s @ map (Pair (ss_ctx_run_id s)) evs\<rparr> \<Longrightarrow>
   list_all (passing ids) evs \<Longrightarrow> finishes evs = xs \<Longrightarrow> settled ids s xs s'"
  unfolding settled_def by blast

lemma settled_trans:
  assumes "settled ids a xs b" and "settled ids b ys c"
  shows "settled ids a (xs @ ys) c"
proof -
  from assms obtain st evs st' evs' where
    "b = a\<lparr>ss_tickets := st, ss_events := ss_events a @ map (Pair (ss_ctx_run_id a)) evs\<rparr>" "list_all (passing ids) evs" "finishes evs = xs"
    "c = b\<lparr>ss_tickets := st', ss_events := ss_events b @ map (Pair (ss_ctx_run_id b)) evs'\<rparr>" "list_all (passing ids) evs'" "finishes evs' = ys"
    unfolding settled_def by blast
  then show ?thesis by (intro settledI [where st = st' and evs = "evs @ evs'"]) simp_all
qed

lemma settled_refl: "settled ids s [] (s\<lparr>ss_tickets := st\<rparr>)"
  by (rule settledI [where st = st and evs = "[]"]) simp_all

lemma side_event_passing: "side_run_event c x = Some ev \<Longrightarrow> set_option c \<subseteq> ids \<Longrightarrow> passing ids ev \<and> finish_of ev = None"
  by (cases x) auto

lemma drain_sinks_appends:
  assumes "drain_sinks h c s w = (s1, w1)"
  obtains evs where "list_all side_kind evs" "s1 = s\<lparr>ss_events := ss_events s @ map (Pair (ss_ctx_run_id s)) evs\<rparr>"
  using assms side_run_events_kind by (auto simp: drain_sinks_def emit_side_appends split: prod.splits)

lemma drain_settled:
  assumes "drain_sinks h c (s\<lparr>ss_tickets := st\<rparr>) w = (s1, w1)" and "set_option c \<subseteq> ids"
  shows "settled ids s [] s1"
proof -
  obtain evs where "s1 = emit_side c evs (s\<lparr>ss_tickets := st\<rparr>)" using assms(1) by (auto simp: drain_sinks_def split: prod.splits)
  moreover have "list_all (passing ids) (List.map_filter (side_run_event c) evs)"
    "finishes (List.map_filter (side_run_event c) evs) = []"
    using side_event_passing [OF _ assms(2)]
    by (auto simp: list_all_iff set_map_filter finishes_def map_filter_def filter_empty_conv split: option.splits)
  ultimately show ?thesis
    by (intro settledI [where st = st and evs = "List.map_filter (side_run_event c) evs"]) (simp_all add: emit_side_appends)
qed

definition answers_request :: "'n tool_call_request \<Rightarrow> dispatched_call \<Rightarrow> bool" where
  "answers_request rq d \<longleftrightarrow>
     tr_call_id (dc_result d) = cr_call_id rq \<and> length (tr_content (dc_result d)) = 1 \<and>
     au_call_id (dc_audit d) = cr_call_id rq \<and> au_tool_name (dc_audit d) = cr_tool_name rq \<and>
     au_ok (dc_audit d) = (\<not> tr_is_error (dc_result d))"

lemma finish_call_settled:
  assumes "finish_call i r audit out s = (out1, s1)" and "answers_request rq \<lparr>dc_result = r, dc_audit = audit\<rparr>"
    and "cr_call_id rq \<in> ids"
  shows "settled ids s [(cr_call_id rq, r)] s1" and "out1 = out[i := \<lparr>dc_result = r, dc_audit = audit\<rparr>]"
  using assms
  by (auto simp: finish_call_def answers_request_def emit_def emit_for_def
      intro!: settledI [where st = "ss_tickets s" and evs = "[ToolCallFinished (cr_call_id rq) r]"])

lemma outcome_answers:
  "outcome_ok ctx (cr_call_id rq) oc \<Longrightarrow> answers_request rq \<lparr>dc_result = ao_result oc, dc_audit = make_call_audit nm rq ctx oc\<rparr>"
  by (auto simp: outcome_ok_def answers_request_def make_call_audit_def)

lemma run_admitted_answers:
  assumes "run_admitted_call nm tool rq ctx bound prepared now st w = ((Some oc, st'), w')"
  shows "answers_request rq \<lparr>dc_result = ao_result oc, dc_audit = make_call_audit nm rq ctx oc\<rparr>"
  by (rule outcome_answers [OF run_admitted_call_outcome [OF assms]])

lemma failed_answers:
  "answers_request rq \<lparr>dc_result = ao_result (failed_outcome (cr_call_id rq) e),
     dc_audit = make_call_audit nm rq ctx (failed_outcome (cr_call_id rq) e)\<rparr>"
  by (auto simp: answers_request_def make_call_audit_def failed_outcome_def failed_outcome_ok)

lemma invoke_tool_answers:
  assumes "invoke_tool nm table held rq ctx approve policy now st w = ((Some (r, audit), st'), w')"
  shows "answers_request rq \<lparr>dc_result = r, dc_audit = audit\<rparr>"
proof -
  obtain x st1 w1 where a: "admit_call nm table held rq (cx_principal ctx) approve policy st w = ((x, st1), w1)"
    by (metis prod.exhaust)
  show ?thesis
  proof (cases x)
    case (Inl e)
    with assms a have "r = ao_result (failed_outcome (cr_call_id rq) e)"
      "audit = make_call_audit nm rq ctx (failed_outcome (cr_call_id rq) e)"
      by (auto simp: invoke_tool_def failed_outcome_def)
    then show ?thesis using failed_answers by simp
  next
    case (Inr ad)
    with assms a obtain oc where q: "run_admitted_call nm (ad_tool ad) rq ctx (ad_bound ad) (ad_prepared ad) now st1 w1 = ((Some oc, st'), w')"
        "r = ao_result oc" "audit = make_call_audit nm rq ctx oc"
      by (auto simp: invoke_tool_def split: prod.splits)
    show ?thesis using run_admitted_answers [OF q(1)] q(2, 3) by simp
  qed
qed

text \<open>The slots that hold the answer to their request. A write keeps every one of them.\<close>

definition answered :: "'n tool_call_request list \<Rightarrow> dispatched_call list \<Rightarrow> nat set" where
  "answered rqs out = {i. i < length out \<and> answers_request (rqs ! i) (out ! i)}"

lemma answered_write:
  "answers_request (rqs ! j) d \<Longrightarrow> j < length out \<Longrightarrow> answered rqs (out[j := d]) = insert j (answered rqs out)"
  by (auto simp: answered_def nth_list_update)

definition id_at :: "'n tool_call_request list \<Rightarrow> nat \<Rightarrow> string" where
  "id_at rqs i = cr_call_id (rqs ! i)"

definition job_id :: "'n tool_call_request list \<Rightarrow> ('n, 'p, 'w) job_member \<Rightarrow> string" where
  "job_id rqs j = id_at rqs (fst j)"

lemma job_id_pair [simp]: "job_id rqs (i, ctx, ad) = id_at rqs i"
  by (simp add: job_id_def)

text \<open>A strictly smaller multiset of finished calls: what a round that ended with an exception has reported.\<close>

lemma run_sequential_settles:
  assumes "run_sequential h rt rqs is' out s w = (x, s', w')" and "list_all (\<lambda>i. i < length out \<and> id_at rqs i \<in> ids) is'"
  shows "\<exists>xs. settled ids s xs s' \<and>
    (case x of
       None \<Rightarrow> mset (map fst xs) \<subset># mset (map (id_at rqs) is')
     | Some out' \<Rightarrow> length out' = length out \<and> answered rqs out \<union> set is' \<subseteq> answered rqs out' \<and> map fst xs = map (id_at rqs) is')"
  using assms
proof (induction is' arbitrary: out s w)
  case Nil
  then show ?case using settled_refl [of ids s "ss_tickets s"] by auto
next
  case (Cons i is')
  obtain now w1 where c: "h_clock h w = (now, w1)" by fastforce
  obtain answer st w2 where v: "invoke_tool (h_numbers h) (rt_tools rt) (rt_held rt) (rqs ! i) (tool_context h s None)
      (rt_approve rt) (rt_policy rt) now (ss_tickets s) w1 = ((answer, st), w2)" by (metis prod.exhaust)
  obtain s1 w3 where d: "drain_sinks h (Some (cr_call_id (rqs ! i))) (s\<lparr>ss_tickets := st\<rparr>) w2 = (s1, w3)" by fastforce
  have i: "cr_call_id (rqs ! i) \<in> ids" "i < length out" using Cons.prems(2) by (simp_all add: id_at_def)
  have z: "settled ids s [] s1" using drain_settled [OF d] i(1) by simp
  show ?case
  proof (cases answer)
    case None
    then have "x = None" "s' = s1" using Cons.prems(1) c v d by simp_all
    with z show ?thesis by (auto intro!: exI [of _ "[]"] simp: subset_mset.zero_less_iff_neq_zero)
  next
    case (Some a)
    obtain r audit where ra: "a = (r, audit)" by fastforce
    obtain out1 s2 where f: "finish_call i r audit out s1 = (out1, s2)" by fastforce
    note a = invoke_tool_answers [OF v [unfolded Some ra]] and g = finish_call_settled [OF f invoke_tool_answers [OF v [unfolded Some ra]] i(1)]
    from Cons.prems c v d f Some ra have rest: "run_sequential h rt rqs is' out1 s2 w3 = (x, s', w')" by simp
    from Cons.IH [OF rest] Cons.prems(2) g(2) obtain xs where xs: "settled ids s2 xs s'"
      "case x of None \<Rightarrow> mset (map fst xs) \<subset># mset (map (id_at rqs) is')
       | Some out' \<Rightarrow> length out' = length out1 \<and> answered rqs out1 \<union> set is' \<subseteq> answered rqs out' \<and> map fst xs = map (id_at rqs) is'"
      by auto
    have "settled ids s ((cr_call_id (rqs ! i), r) # xs) s'"
      using settled_trans [OF z settled_trans [OF g(1) xs(1)]] by simp
    then show ?thesis using xs(2) answered_write [OF a i(2)] g(2)
      by (auto intro!: exI [of _ "(cr_call_id (rqs ! i), r) # xs"] simp: id_at_def [symmetric] split: option.splits)
  qed
qed

lemma admit_members_settles:
  assumes "admit_members h rt rqs is' out jobs s w = (out', jobs', s', w')"
    and "list_all (\<lambda>i. i < length out \<and> id_at rqs i \<in> ids) is'"
  shows "length out' = length out \<and> answered rqs out \<union> set is' \<subseteq> answered rqs out' \<union> fst ` set jobs' \<and>
    set jobs \<subseteq> set jobs' \<and> fst ` set jobs' \<subseteq> fst ` set jobs \<union> set is' \<and>
    (\<exists>xs. settled ids s xs s' \<and> mset (map fst xs) + mset (map (job_id rqs) jobs') =
       mset (map (id_at rqs) is') + mset (map (job_id rqs) jobs))"
  using assms
proof (induction is' arbitrary: out jobs s w)
  case Nil
  then show ?case using settled_refl [of ids s "ss_tickets s"] by auto
next
  case (Cons i is')
  obtain now w1 where c: "h_clock h w = (now, w1)" by fastforce
  define ctx where "ctx = tool_context h s (call_deadline s now)"
  obtain x st w2 where v: "admit_call (h_numbers h) (rt_tools rt) (rt_held rt) (rqs ! i) (cx_principal ctx)
      (rt_approve rt) (rt_policy rt) (ss_tickets s) w1 = ((x, st), w2)" by (metis prod.exhaust)
  obtain s1 w3 where d: "drain_sinks h None (s\<lparr>ss_tickets := st\<rparr>) w2 = (s1, w3)" by fastforce
  have i: "cr_call_id (rqs ! i) \<in> ids" using Cons.prems(2) by (simp add: id_at_def)
  have z: "settled ids s [] s1" using drain_settled [OF d] by simp
  show ?case
  proof (cases x)
    case (Inl e)
    let ?oc = "failed_outcome (cr_call_id (rqs ! i)) e"
    obtain out1 s2 where f: "finish_call i (ao_result ?oc) (make_call_audit (h_numbers h) (rqs ! i) ctx ?oc) out s1 = (out1, s2)"
      by fastforce
    note a = failed_answers [of "rqs ! i" e "h_numbers h" ctx] and g = finish_call_settled [OF f failed_answers i]
    from Cons.prems c v d f Inl have rest: "admit_members h rt rqs is' out1 jobs s2 w3 = (out', jobs', s', w')"
      by (simp add: Let_def ctx_def)
    have b: "list_all (\<lambda>i. i < length out1 \<and> id_at rqs i \<in> ids) is'" "i < length out" using Cons.prems(2) g(2) by auto
    from Cons.IH [OF rest b(1)] obtain xs where
      xs: "length out' = length out1" "answered rqs out1 \<union> set is' \<subseteq> answered rqs out' \<union> fst ` set jobs'"
        "set jobs \<subseteq> set jobs'" "fst ` set jobs' \<subseteq> fst ` set jobs \<union> set is'" "settled ids s2 xs s'"
        "mset (map fst xs) + mset (map (job_id rqs) jobs') = mset (map (id_at rqs) is') + mset (map (job_id rqs) jobs)"
      by blast
    have "settled ids s ((cr_call_id (rqs ! i), ao_result ?oc) # xs) s'"
      using settled_trans [OF z settled_trans [OF g(1) xs(5)]] by simp
    then show ?thesis using xs answered_write [OF a b(2)] g(2)
      by (auto intro!: exI [of _ "(cr_call_id (rqs ! i), ao_result ?oc) # xs"] simp: id_at_def [symmetric])
  next
    case (Inr ad)
    from Cons.prems c v d Inr have rest: "admit_members h rt rqs is' out (jobs @ [(i, ctx, ad)]) s1 w3 = (out', jobs', s', w')"
      by (simp add: Let_def ctx_def)
    have b: "list_all (\<lambda>i. i < length out \<and> id_at rqs i \<in> ids) is'" using Cons.prems(2) by simp
    from Cons.IH [OF rest b] obtain xs where
      xs: "length out' = length out" "answered rqs out \<union> set is' \<subseteq> answered rqs out' \<union> fst ` set jobs'"
        "set (jobs @ [(i, ctx, ad)]) \<subseteq> set jobs'" "fst ` set jobs' \<subseteq> fst ` set (jobs @ [(i, ctx, ad)]) \<union> set is'"
        "settled ids s1 xs s'"
        "mset (map fst xs) + mset (map (job_id rqs) jobs') =
           mset (map (id_at rqs) is') + mset (map (job_id rqs) (jobs @ [(i, ctx, ad)]))"
      by blast
    have "settled ids s xs s'" using settled_trans [OF z xs(5)] by simp
    moreover have "i \<in> fst ` set jobs'" using xs(3) by force
    ultimately show ?thesis using xs by (intro conjI) (auto intro!: exI [of _ xs])
  qed
qed

lemma run_members_settles:
  assumes "run_members h rqs jobs out s w = (x, s', w')"
    and "list_all (\<lambda>j. fst j < length out \<and> id_at rqs (fst j) \<in> ids) jobs"
  shows "\<exists>xs. settled ids s xs s' \<and>
    (case x of
       None \<Rightarrow> mset (map fst xs) \<subset># mset (map (job_id rqs) jobs)
     | Some out' \<Rightarrow> length out' = length out \<and> answered rqs out \<union> fst ` set jobs \<subseteq> answered rqs out' \<and>
         map fst xs = map (job_id rqs) jobs)"
  using assms
proof (induction jobs arbitrary: out s w)
  case Nil
  then show ?case using settled_refl [of ids s "ss_tickets s"] by auto
next
  case (Cons j jobs)
  obtain i ctx ad where j: "j = (i, ctx, ad)" by (metis prod.exhaust)
  obtain now w1 where c: "h_clock h w = (now, w1)" by fastforce
  obtain answer st w2 where v: "run_admitted_call (h_numbers h) (ad_tool ad) (rqs ! i) ctx (ad_bound ad) (ad_prepared ad) now
      (ss_tickets s) w1 = ((answer, st), w2)" by (metis prod.exhaust)
  obtain s1 w3 where d: "drain_sinks h (Some (cr_call_id (rqs ! i))) (s\<lparr>ss_tickets := st\<rparr>) w2 = (s1, w3)" by fastforce
  have i: "cr_call_id (rqs ! i) \<in> ids" "i < length out" using Cons.prems(2) j by (simp_all add: id_at_def)
  have z: "settled ids s [] s1" using drain_settled [OF d] i(1) by simp
  show ?case
  proof (cases answer)
    case None
    then have "x = None" "s' = s1" using Cons.prems(1) c v d j by simp_all
    with z show ?thesis by (auto intro!: exI [of _ "[]"] simp: subset_mset.zero_less_iff_neq_zero)
  next
    case (Some oc)
    obtain out1 s2 where f: "finish_call i (ao_result oc) (make_call_audit (h_numbers h) (rqs ! i) ctx oc) out s1 = (out1, s2)"
      by fastforce
    note a = run_admitted_answers [OF v [unfolded Some]] and g = finish_call_settled [OF f run_admitted_answers [OF v [unfolded Some]] i(1)]
    from Cons.prems c v d f j Some have rest: "run_members h rqs jobs out1 s2 w3 = (x, s', w')" by simp
    from Cons.IH [OF rest] Cons.prems(2) g(2) obtain xs where xs: "settled ids s2 xs s'"
      "case x of None \<Rightarrow> mset (map fst xs) \<subset># mset (map (job_id rqs) jobs)
       | Some out' \<Rightarrow> length out' = length out1 \<and> answered rqs out1 \<union> fst ` set jobs \<subseteq> answered rqs out' \<and>
           map fst xs = map (job_id rqs) jobs" by auto
    have "settled ids s ((cr_call_id (rqs ! i), ao_result oc) # xs) s'"
      using settled_trans [OF z settled_trans [OF g(1) xs(1)]] by simp
    then show ?thesis using xs(2) answered_write [OF a i(2)] g(2) j
      by (auto intro!: exI [of _ "(cr_call_id (rqs ! i), ao_result oc) # xs"] simp: id_at_def [symmetric] split: option.splits)
  qed
qed

text \<open>Where the classes of a batch leave it: \<open>due\<close> are the slots that are filled or wait in a job, \<open>want\<close> the calls that are
  reported finished or wait; an exception leaves some call unreported.\<close>

definition accounted ::
  "'n tool_call_request list \<Rightarrow> nat \<Rightarrow> nat set \<Rightarrow> string multiset \<Rightarrow> (string \<times> tool_result) list \<Rightarrow>
   (dispatched_call list \<times> ('n, 'p, 'w) job_member list) option \<Rightarrow> bool" where
  "accounted rqs n due want xs x =
     (case x of
        None \<Rightarrow> mset (map fst xs) \<subset># want
      | Some (out, jobs) \<Rightarrow>
          length out = n \<and> due \<subseteq> answered rqs out \<union> fst ` set jobs \<and> fst ` set jobs \<subseteq> {..<n} \<and>
          mset (map fst xs) + mset (map (job_id rqs) jobs) = want)"

lemma accounted_after:
  assumes "accounted rqs n due want ys x" and "due' \<subseteq> due" and "want' = mset (map fst xs) + want"
  shows "accounted rqs n due' want' (xs @ ys) x"
  using assms by (auto simp: accounted_def add.assoc split: option.splits prod.splits)

definition calls_of_classes :: "concurrency_class list \<Rightarrow> nat set" where
  "calls_of_classes cs = (\<Union>c\<in>set cs. set (kc_calls c))"

lemma dispatch_classes_settles:
  assumes "dispatch_classes h rt rqs cs out jobs s w = (x, s', w')"
    and "list_all (\<lambda>c. list_all (\<lambda>i. i < length out \<and> id_at rqs i \<in> ids) (kc_calls c)) cs" and "fst ` set jobs \<subseteq> {..<length out}"
  shows "\<exists>xs. settled ids s xs s' \<and>
    accounted rqs (length out) (answered rqs out \<union> fst ` set jobs \<union> calls_of_classes cs)
      (mset (map (id_at rqs) (concat (map kc_calls cs))) + mset (map (job_id rqs) jobs)) xs x"
  using assms
proof (induction cs arbitrary: out jobs s w)
  case Nil
  then show ?case using settled_refl [of ids s "ss_tickets s"]
    by (auto simp: accounted_def calls_of_classes_def intro!: exI [of _ "[]"])
next
  case (Cons c cs)
  have b: "list_all (\<lambda>i. i < length out \<and> id_at rqs i \<in> ids) (kc_calls c)"
    "list_all (\<lambda>c. list_all (\<lambda>i. i < length out \<and> id_at rqs i \<in> ids) (kc_calls c)) cs"
    using Cons.prems(2) by simp_all
  show ?case
  proof (cases "kc_kind c = Sequential")
    case True
    obtain y s1 w1 where q: "run_sequential h rt rqs (kc_calls c) out s w = (y, s1, w1)" by (metis prod.exhaust)
    from run_sequential_settles [OF q b(1)] obtain xs where xs: "settled ids s xs s1"
      "case y of None \<Rightarrow> mset (map fst xs) \<subset># mset (map (id_at rqs) (kc_calls c))
       | Some out1 \<Rightarrow> length out1 = length out \<and> answered rqs out \<union> set (kc_calls c) \<subseteq> answered rqs out1 \<and>
           map fst xs = map (id_at rqs) (kc_calls c)" by blast
    show ?thesis
    proof (cases y)
      case None
      with Cons.prems(1) q True have "x = None" "s' = s1" by simp_all
      moreover have "mset (map fst xs) \<subset># mset (map (id_at rqs) (kc_calls c)) + M" for M
        using xs(2) None by (auto intro: subset_mset.less_le_trans [OF _ mset_subset_eq_add_left])
      ultimately show ?thesis using xs(1) by (auto simp: accounted_def add.assoc intro!: exI [of _ xs])
    next
      case (Some out1)
      with xs(2) have o1: "length out1 = length out" "answered rqs out \<union> set (kc_calls c) \<subseteq> answered rqs out1"
        and m: "map fst xs = map (id_at rqs) (kc_calls c)" by simp_all
      from Cons.prems(1) q True Some have "dispatch_classes h rt rqs cs out1 jobs s1 w1 = (x, s', w')" by simp
      from Cons.IH [OF this] b(2) Cons.prems(3) o1(1) obtain ys where ys: "settled ids s1 ys s'"
        "accounted rqs (length out) (answered rqs out1 \<union> fst ` set jobs \<union> calls_of_classes cs)
          (mset (map (id_at rqs) (concat (map kc_calls cs))) + mset (map (job_id rqs) jobs)) ys x" by auto
      show ?thesis using settled_trans [OF xs(1) ys(1)] o1(2)
        by (intro exI [of _ "xs @ ys"] conjI accounted_after [OF ys(2)])
          (auto simp: m [folded mset_map] calls_of_classes_def add.assoc simp del: mset_map simp flip: m)
    qed
  next
    case False
    obtain out1 jobs1 s1 w1 where q: "admit_members h rt rqs (kc_calls c) out jobs s w = (out1, jobs1, s1, w1)"
      by (metis prod.exhaust)
    from admit_members_settles [OF q b(1)] obtain xs where
      o1: "length out1 = length out" "answered rqs out \<union> set (kc_calls c) \<subseteq> answered rqs out1 \<union> fst ` set jobs1"
        "set jobs \<subseteq> set jobs1" "fst ` set jobs1 \<subseteq> fst ` set jobs \<union> set (kc_calls c)" and xs: "settled ids s xs s1"
        "mset (map fst xs) + mset (map (job_id rqs) jobs1) =
           mset (map (id_at rqs) (kc_calls c)) + mset (map (job_id rqs) jobs)" by blast
    have "set (kc_calls c) \<subseteq> {..<length out}" using b(1) by (auto simp: list_all_iff)
    with o1(3, 4) Cons.prems(3) have j: "fst ` set jobs \<subseteq> fst ` set jobs1" "fst ` set jobs1 \<subseteq> {..<length out}" by blast+
    from Cons.prems(1) q False have "dispatch_classes h rt rqs cs out1 jobs1 s1 w1 = (x, s', w')" by simp
    from Cons.IH [OF this] b(2) o1(1) j(2) obtain ys where ys: "settled ids s1 ys s'"
      "accounted rqs (length out) (answered rqs out1 \<union> fst ` set jobs1 \<union> calls_of_classes cs)
        (mset (map (id_at rqs) (concat (map kc_calls cs))) + mset (map (job_id rqs) jobs1)) ys x" by auto
    have t: "mset (map (id_at rqs) (concat (map kc_calls (c # cs)))) + mset (map (job_id rqs) jobs) =
        mset (map fst xs) + (mset (map (id_at rqs) (concat (map kc_calls cs))) + mset (map (job_id rqs) jobs1))"
      using xs(2) by (simp add: ac_simps)
    have "answered rqs out \<union> fst ` set jobs \<union> calls_of_classes (c # cs) \<subseteq> answered rqs out1 \<union> fst ` set jobs1 \<union> calls_of_classes cs"
      using o1(2) j(1) by (auto simp: calls_of_classes_def)
    from accounted_after [OF ys(2) this t] settled_trans [OF xs(1) ys(1)] show ?thesis by blast
  qed
qed

definition start_event :: "string \<Rightarrow> 'n tool_call_request \<Rightarrow> string \<times> run_event" where
  "start_event run rq = (run, ToolCallStarted (cr_call_id rq) (cr_tool_name rq))"

lemma start_all: "emit_all (map (\<lambda>rq. ToolCallStarted (cr_call_id rq) (cr_tool_name rq)) rqs) s =
    s\<lparr>ss_events := ss_events s @ map (start_event (ss_ctx_run_id s)) rqs\<rparr>"
  unfolding emit_all_def by (induction rqs arbitrary: s) (simp_all add: emit_def emit_for_def start_event_def)

lemma batch_in_range:
  assumes "batch_ok table rqs n cs"
  shows "list_all (\<lambda>c. list_all (\<lambda>i. i < n) (kc_calls c)) cs" and "calls_of_classes cs = {..<n}"
proof -
  have "mset (concat (map kc_calls cs)) = mset [0..<n]" using assms by (simp add: batch_ok_def)
  then have "set (concat (map kc_calls cs)) = set [0..<n]" by (rule mset_eq_setD)
  then show "calls_of_classes cs = {..<n}" by (simp add: calls_of_classes_def atLeast0LessThan)
  then show "list_all (\<lambda>c. list_all (\<lambda>i. i < n) (kc_calls c)) cs" by (auto simp: calls_of_classes_def list_all_iff)
qed

lemma batch_ids:
  "mset (map (id_at rqs) (concat (map kc_calls (partition_batch table rqs)))) = mset (map cr_call_id rqs)"
proof -
  have "mset (map (id_at rqs) (concat (map kc_calls (partition_batch table rqs)))) = image_mset (id_at rqs) (mset [0..<length rqs])"
    using partition_batch_ok [of table rqs] by (simp only: batch_ok_def mset_map)
  also have "\<dots> = mset (map (\<lambda>i. cr_call_id (rqs ! i)) [0..<length rqs])" by (simp add: id_at_def [abs_def])
  also have "map (\<lambda>i. cr_call_id (rqs ! i)) [0..<length rqs] = map cr_call_id rqs" by (intro nth_equalityI) auto
  finally show ?thesis .
qed

lemma dispatch_settles:
  assumes "dispatch_tool_calls h rt rqs s w = (x, s', w')"
  shows "\<exists>xs. settled (cr_call_id ` set rqs) (s\<lparr>ss_events := ss_events s @ map (start_event (ss_ctx_run_id s)) rqs\<rparr>) xs s' \<and>
    (case x of
       None \<Rightarrow> mset (map fst xs) \<subset># mset (map cr_call_id rqs)
     | Some out \<Rightarrow> list_all2 answers_request rqs out \<and> mset (map fst xs) = mset (map cr_call_id rqs))"
proof -
  let ?n = "length rqs" and ?s0 = "s\<lparr>ss_events := ss_events s @ map (start_event (ss_ctx_run_id s)) rqs\<rparr>"
  let ?cs = "partition_batch (rt_tools rt) rqs" and ?ids = "cr_call_id ` set rqs"
  obtain y s1 w1 where d: "dispatch_classes h rt rqs ?cs (replicate ?n no_dispatch) [] ?s0 w = (y, s1, w1)"
    by (metis prod.exhaust)
  have ids: "id_at rqs i \<in> ?ids" if "i < ?n" for i using that by (simp add: id_at_def)
  note b = batch_in_range [OF partition_batch_ok [of "rt_tools rt" rqs]]
  have "list_all (\<lambda>c. list_all (\<lambda>i. i < length (replicate ?n no_dispatch) \<and> id_at rqs i \<in> ?ids) (kc_calls c)) ?cs"
    using b(1) ids by (auto simp: list_all_iff)
  from dispatch_classes_settles [OF d this] obtain xs where xs: "settled ?ids ?s0 xs s1"
    "accounted rqs ?n (answered rqs (replicate ?n no_dispatch) \<union> {..<?n}) (mset (map cr_call_id rqs)) xs y"
    unfolding b(2) batch_ids by auto
  show ?thesis
  proof (cases y)
    case None
    with assms d xs show ?thesis by (auto simp: dispatch_tool_calls_def start_all Let_def accounted_def)
  next
    case (Some z)
    obtain out1 jobs where z: "z = (out1, jobs)" by fastforce
    from xs(2) Some z have o1: "length out1 = ?n" "{..<?n} \<subseteq> answered rqs out1 \<union> fst ` set jobs" "fst ` set jobs \<subseteq> {..<?n}"
      "mset (map fst xs) + mset (map (job_id rqs) jobs) = mset (map cr_call_id rqs)" by (simp_all add: accounted_def)
    from assms d Some z have m: "run_members h rqs jobs out1 s1 w1 = (x, s', w')" by (simp add: dispatch_tool_calls_def start_all Let_def)
    have "list_all (\<lambda>j. fst j < length out1 \<and> id_at rqs (fst j) \<in> ?ids) jobs" using o1(1, 3) ids by (force simp: list_all_iff)
    from run_members_settles [OF m this] obtain ys where ys: "settled ?ids s1 ys s'"
      "case x of None \<Rightarrow> mset (map fst ys) \<subset># mset (map (job_id rqs) jobs)
       | Some out \<Rightarrow> length out = ?n \<and> answered rqs out1 \<union> fst ` set jobs \<subseteq> answered rqs out \<and> map fst ys = map (job_id rqs) jobs"
      unfolding o1(1) by blast
    have e: "mset (map fst (xs @ ys)) = mset (map fst xs) + mset (map fst ys)" by simp
    have "list_all2 answers_request rqs out" if "length out = ?n" "answered rqs out1 \<union> fst ` set jobs \<subseteq> answered rqs out" for out
      using o1(2) that by (auto simp: list_all2_conv_all_nth answered_def)
    then show ?thesis
      using settled_trans [OF xs(1) ys(1)] ys(2) unfolding o1(4) [symmetric]
      by (intro exI [of _ "xs @ ys"]) (auto simp: e simp del: mset_map split: option.splits)
  qed
qed


end
