(* ===== verification/SessionRun.thy ===== *)
theory SessionRun
  imports SessionDispatch
begin

text \<open>
  The turn loop of a session and its two entry points: \<^verbatim>\<open>run_rounds_body\<close>, \<^verbatim>\<open>run_rounds\<close>, \<^verbatim>\<open>start_run\<close>,
  \<^verbatim>\<open>resolve_interaction\<close> and its branches, from \<^verbatim>\<open>src/rt/agent_session_core.cpp\<close>. The session's mutex makes one call of an
  entry point one step. An exception that a tool throws ends the stages up to the entry point without any of their clean-up;
  it is the error \<open>exception_thrown\<close>, with \<open>ss_unwinding\<close> set. The marks of approved lessons on a request and standing
  effects are not modelled.
\<close>

text \<open>A stage of a call: an error that ends it, or a value and the next state.\<close>

type_synonym ('a, 's, 'w) stage = "(error + 'a) \<times> 's \<times> 'w"

definition and_then :: "('a, 's, 'w) stage \<Rightarrow> ('a \<Rightarrow> 's \<Rightarrow> 'w \<Rightarrow> ('b, 's, 'w) stage) \<Rightarrow> ('b, 's, 'w) stage" where
  "and_then m f = (case m of (Inl e, s, w) \<Rightarrow> (Inl e, s, w) | (Inr a, s, w) \<Rightarrow> f a s w)"

lemma and_then_simps [simp]: "and_then (Inl e, s, w) f = (Inl e, s, w)" "and_then (Inr a, s, w) f = f a s w"
  by (simp_all add: and_then_def)

record agent_response =
  ar_message :: chat_message
  ar_usage :: usage
  ar_structured :: "string option"

definition fail_run :: "error \<Rightarrow> string \<Rightarrow> ('n, 'p, 'w) session \<Rightarrow> 'w \<Rightarrow> ('a, ('n, 'p, 'w) session, 'w) stage" where
  "fail_run e c s w = (Inl e, emit (RunFailed c) s, w)"

definition exception_thrown :: error where
  "exception_thrown = Error Fatal ''exception''"

definition throw_out :: "('n, 'p, 'w) session \<Rightarrow> 'w \<Rightarrow> ('a, ('n, 'p, 'w) session, 'w) stage" where
  "throw_out s w = (Inl exception_thrown, s\<lparr>ss_unwinding := True\<rparr>, w)"

definition finish_canceled :: "('n, 'p, 'w) session \<Rightarrow> 'w \<Rightarrow> ('a, ('n, 'p, 'w) session, 'w) stage" where
  "finish_canceled s w = (Inl (Error Canceled ''run.canceled''), emit RunCanceled s, w)"

definition check_stop ::
  "('n, 'p, 'w) session_host \<Rightarrow> ('n, 'p, 'w) session \<Rightarrow> 'w \<Rightarrow> (unit, ('n, 'p, 'w) session, 'w) stage" where
  "check_stop h s w = (case h_stop h w of (stop, w1) \<Rightarrow> if stop then finish_canceled s w1 else (Inr (), s, w1))"

section \<open>Client interactions\<close>

definition client_holds :: "client_ask list option \<Rightarrow> string \<Rightarrow> bool" where
  "client_holds pending i = (case pending of None \<Rightarrow> False | Some asks \<Rightarrow> list_ex (\<lambda>a. ca_id a = i) asks)"

definition client_inputs_to_close :: "client_ask list option \<Rightarrow> bool \<Rightarrow> ('n, 'p, 'w) session \<Rightarrow> string list" where
  "client_inputs_to_close pending close_all s =
     map fst (filter (\<lambda>e. close_all \<or> \<not> client_holds pending (ca_id (snd e))) (ss_clients s)) @
     map si_id (filter (\<lambda>i. si_reason i = ClientInput \<and> si_id i \<notin> fst ` set (ss_clients s)) (ss_open s))"

definition close_client_input :: "string \<Rightarrow> ('n, 'p, 'w) session \<Rightarrow> ('n, 'p, 'w) session" where
  "close_client_input i s = snd (resolve_interaction_record i (s\<lparr>ss_clients := filter (\<lambda>e. fst e \<noteq> i) (ss_clients s)\<rparr>))"

definition close_client_inputs :: "client_ask list option \<Rightarrow> bool \<Rightarrow> ('n, 'p, 'w) session \<Rightarrow> nat \<times> ('n, 'p, 'w) session" where
  "close_client_inputs pending close_all s =
     (let ids = client_inputs_to_close pending close_all s in (length ids, fold close_client_input ids s))"

definition open_client_input :: "client_ask \<Rightarrow> ('n, 'p, 'w) session \<Rightarrow> ('n, 'p, 'w) session" where
  "open_client_input ask s =
     (if list_ex (\<lambda>e. ca_id (snd e) = ca_id ask) (ss_clients s) then s
      else case open_interaction ClientInput s of (i, s1) \<Rightarrow> s1\<lparr>ss_clients := ss_clients s1 @ [(i, ask)]\<rparr>)"

section \<open>Model calls\<close>

definition should_retry_stream ::
  "('n, 'p, 'w) session_host \<Rightarrow> error \<Rightarrow> stream_failure option \<Rightarrow> ('n, 'p, 'w) session \<Rightarrow> 'w \<Rightarrow> stream_failure option \<times> 'w" where
  "should_retry_stream h e failure s w =
     (if h_route h \<noteq> Direct \<or> h_stream_retries h \<le> ss_retries_used s \<or> code e \<noteq> ''run.stream_incomplete'' then (None, w)
      else case failure of
             None \<Rightarrow> (None, w)
           | Some f \<Rightarrow>
               (case h_stop h w of (stop, w1) \<Rightarrow>
                  if stop then (None, w1)
                  else if (sf_any_update f \<or> code (sf_inner f) = ''net.stream_truncated'' \<or> code (sf_inner f) = ''net.stream_read_failed'')
                          \<and> is_retryable (klass (sf_inner f)) Shared
                  then (Some f, w1) else (None, w1)))"

datatype attempt_outcome = Answered chat_response | CallFailed error | BudgetSpent

definition budget_error :: error where
  "budget_error = Error Resource ''run.token_budget_exceeded''"

definition charge_discarded ::
  "('n, 'p, 'w) session_host \<Rightarrow> ('n, 'p, 'w) chat_request \<Rightarrow> stream_failure \<Rightarrow> ('n, 'p, 'w) session \<Rightarrow> ('n, 'p, 'w) session" where
  "charge_discarded h rq f s =
     (let charged = h_estimate h rq + (sf_bytes f + 3) div 4
      in emit (ModelOutputDiscarded charged)
           (s\<lparr>ss_retries_used := ss_retries_used s + 1, ss_discarded := ss_discarded s + charged, ss_tokens := ss_tokens s + charged\<rparr>))"

definition model_attempt ::
  "('n, 'p, 'w) session_host \<Rightarrow> ('n, 'p, 'w) chat_request \<Rightarrow> ('n, 'p, 'w) session \<Rightarrow> 'w
    \<Rightarrow> (error \<times> stream_failure option + chat_response) \<times> ('n, 'p, 'w) session \<times> 'w" where
  "model_attempt h rq s w =
     (case h_clock h w of (now, w1) \<Rightarrow>
      case h_model h rq (case h_secrets h of None \<Rightarrow> ss_ctx_caps s | Some c \<Rightarrow> Some c) (call_deadline s now) w1 of
        (r, w2) \<Rightarrow>
          (case drain_sinks h None (emit ModelCallStarted s) w2 of (s1, w3) \<Rightarrow> (r, emit ModelCallFinished s1, w3)))"

lemma model_attempt_retries: "model_attempt h rq s w = (r, s1, w1) \<Longrightarrow> ss_retries_used s1 = ss_retries_used s"
  by (auto simp: model_attempt_def split: prod.splits elim!: drain_sinks_appends)

function model_attempts ::
  "('n, 'p, 'w) session_host \<Rightarrow> ('n, 'p, 'w) chat_request \<Rightarrow> ('n, 'p, 'w) session \<Rightarrow> 'w
    \<Rightarrow> attempt_outcome \<times> ('n, 'p, 'w) session \<times> 'w" where
  "model_attempts h rq s w =
     (case model_attempt h rq s w of
        (Inr r, s1, w1) \<Rightarrow> (Answered r, s1, w1)
      | (Inl (e, failure), s1, w1) \<Rightarrow>
          (case should_retry_stream h e failure s1 w1 of
             (None, w2) \<Rightarrow> (CallFailed e, s1, w2)
           | (Some f, w2) \<Rightarrow>
               (let s2 = charge_discarded h rq f s1
                in if over_budget s2 then (BudgetSpent, emit (RunFailed ''run.token_budget_exceeded'') s2, w2)
                   else model_attempts h rq s2 w2)))"
  by pat_completeness auto

lemma should_retry_used:
  "should_retry_stream h e failure s w = (Some f, w') \<Longrightarrow> ss_retries_used s < h_stream_retries h"
  by (auto simp: should_retry_stream_def split: if_splits option.splits prod.splits)

lemma charge_discarded_retries [simp]: "ss_retries_used (charge_discarded h rq f s) = ss_retries_used s + 1"
  by (simp add: charge_discarded_def Let_def)

lemma unat_succ_less: "x < y \<Longrightarrow> unat (x + 1) = Suc (unat x)" for x y :: "'a::len word"
  by (metis less_imp_not_max unat_inc)

lemma retry_decreases:
  assumes m: "model_attempt h rq s w = (Inl (e, failure), s1, w1)" and r: "should_retry_stream h e failure s1 w1 = (Some f, w2)"
  shows "unat (h_stream_retries h) - unat (ss_retries_used (charge_discarded h rq f s1))
    < unat (h_stream_retries h) - unat (ss_retries_used s)"
proof -
  have used: "ss_retries_used s < h_stream_retries h" using should_retry_used [OF r] model_attempt_retries [OF m] by simp
  then have "unat (ss_retries_used s + 1) = Suc (unat (ss_retries_used s))" by (rule unat_succ_less)
  then show ?thesis using used model_attempt_retries [OF m] by (simp add: word_less_nat_alt)
qed

termination model_attempts
  by (relation "measure (\<lambda>(h, rq, s, w). unat (h_stream_retries h) - unat (ss_retries_used s))")
    (auto simp del: charge_discarded_retries intro: retry_decreases simp: eq_commute [of "(Inl _, _)"] eq_commute [of "(Some _, _)"])

declare model_attempts.simps [simp del]

definition fold_delegated_usage ::
  "('n, 'p, 'w) session_host \<Rightarrow> ('n, 'p, 'w) session \<Rightarrow> 'w \<Rightarrow> bool \<times> ('n, 'p, 'w) session \<times> 'w" where
  "fold_delegated_usage h s w =
     (case h_take_charges h w of
        ((u, extra, costed), w1) \<Rightarrow>
          (let tokens = us_input u + us_output u
           in if tokens = 0 \<and> extra = 0 \<and> \<not> costed then (False, s, w1)
              else (True, s\<lparr>ss_tokens := ss_tokens s + (tokens + extra), ss_discarded := ss_discarded s + extra,
                            ss_usage := add_usage (ss_usage s) u\<rparr>, w1)))"

section \<open>The request of a turn\<close>

definition system_message :: "string \<Rightarrow> chat_message" where
  "system_message t =
     \<lparr>cm_role = SystemRole, cm_content = [\<lparr>ct_value = TextContent t, ct_origin = FromSystem, ct_tainted = False\<rparr>], cm_id = []\<rparr>"

definition turn_middleware ::
  "('n, 'p, 'w) session_host \<Rightarrow> ('n, 'p, 'w) contribution \<Rightarrow> 'w \<Rightarrow> (unit result \<times> ('n, 'p, 'w) contribution) \<times> 'w" where
  "turn_middleware h c w = (case h_middleware h of None \<Rightarrow> ((Inr (), c), w) | Some f \<Rightarrow> f c w)"

definition offer_turn ::
  "('n, 'p, 'w) session_host \<Rightarrow> ('n, 'p, 'w) session \<Rightarrow> 'w \<Rightarrow> (('n, 'p, 'w) contribution, ('n, 'p, 'w) session, 'w) stage" where
  "offer_turn h s w =
     and_then (check_stop h s w) (\<lambda>_ s0 w0.
       case h_context h (ss_id s0) (ss_ctx_principal s0) (ss_history s0) w0 of (contributed, w') \<Rightarrow>
       case drain_sinks h None (emit (TurnStarted (ss_turn s0)) s0) w' of (s1, w1) \<Rightarrow>
         (case contributed of
            Inl e \<Rightarrow> fail_run e (code e) s1 w1
          | Inr c \<Rightarrow>
              (let c1 = h_filter h c;
                   c2 = (if find_schedule (run_held s1) = None then c1 else c1\<lparr>cn_tools := cn_tools c1 @ [h_schedule_tool h]\<rparr>)
               in case turn_middleware h c2 w1 of
                    ((Inl e, c3), w2) \<Rightarrow> fail_run e (code e) s1 w2
                  | ((Inr _, c3), w2) \<Rightarrow>
                      if list_all (\<lambda>d. td_approval d \<noteq> None) (cn_tools c3) then (Inr c3, s1, w2)
                      else fail_run (Error Contract ''choice.missing.tool.approval'') ''choice.missing.tool.approval'' s1 w2)))"

definition answer_unsent :: "('n, 'p, 'w) session \<Rightarrow> answering_client option" where
  "answer_unsent s = (case ss_answering s of None \<Rightarrow> None | Some a \<Rightarrow> if aw_sent a then None else Some a)"

definition mark_sent :: "('n, 'p, 'w) session \<Rightarrow> ('n, 'p, 'w) session" where
  "mark_sent s = s\<lparr>ss_answering := map_option (\<lambda>a. a\<lparr>aw_sent := True\<rparr>) (ss_answering s)\<rparr>"

definition build_request ::
  "('n, 'p, 'w) session_host \<Rightarrow> ('n, 'p, 'w) contribution \<Rightarrow> answering_client option \<Rightarrow> ('n, 'p, 'w) chat_request" where
  "build_request h c answering =
     \<lparr>cq_messages = h_pinned h @ (case cn_instructions c of None \<Rightarrow> [] | Some t \<Rightarrow> [system_message t]) @
        (if h_static h = [] then [] else [system_message (h_static h)]) @ cn_messages c,
      cq_tools = cn_tools c, cq_schema = (if h_validate h = None then None else h_schema h),
      cq_answers = (case answering of None \<Rightarrow> [] | Some a \<Rightarrow> [aw_to_client a])\<rparr>"

definition refuse_client_answer ::
  "answering_client \<Rightarrow> ('n, 'p, 'w) session \<Rightarrow> 'w \<Rightarrow> ('a, ('n, 'p, 'w) session, 'w) stage" where
  "refuse_client_answer a s w =
     (Inl (Error Contract ''session.resolve_interaction.answer_refused''),
      emit (InputRequired (aw_interaction a)) (emit (WarningEvent (aw_interaction a))
        (s\<lparr>ss_answering := None, ss_turn := aw_turn_before a\<rparr>)), w)"

text \<open>A call that failed for good: a stop, an answer the client did not take, or a failed run.\<close>

definition failed_call ::
  "('n, 'p, 'w) session_host \<Rightarrow> answering_client option \<Rightarrow> error \<Rightarrow> ('n, 'p, 'w) session \<Rightarrow> 'w
    \<Rightarrow> (chat_response, ('n, 'p, 'w) session, 'w) stage" where
  "failed_call h answering e s w =
     and_then (check_stop h s w) (\<lambda>_ s1 w1.
       case answering of
         None \<Rightarrow> fail_run e (code e) s1 w1
       | Some a \<Rightarrow>
           (case h_client_pending h w1 of
              (pending, w2) \<Rightarrow> if client_holds pending (aw_client_id a) then refuse_client_answer a s1 w2
                               else fail_run e (code e) s1 w2))"

definition call_model ::
  "('n, 'p, 'w) session_host \<Rightarrow> ('n, 'p, 'w) chat_request \<Rightarrow> answering_client option \<Rightarrow> ('n, 'p, 'w) session \<Rightarrow> 'w
    \<Rightarrow> (chat_response, ('n, 'p, 'w) session, 'w) stage" where
  "call_model h rq answering s w =
     (if \<not> h_has_client h then fail_run (Error Contract ''run.no_chat_client'') ''run.no_chat_client'' s w
      else case fold_delegated_usage h s w of
        (folded, s1, w1) \<Rightarrow>
          if folded \<and> over_budget s1 then fail_run budget_error ''run.token_budget_exceeded'' s1 w1
          else case model_attempts h rq s1 w1 of
            (BudgetSpent, s2, w2) \<Rightarrow> (Inl budget_error, s2, w2)
          | (Answered r, s2, w2) \<Rightarrow> (Inr r, s2, w2)
          | (CallFailed e, s2, w2) \<Rightarrow> failed_call h answering e s2 w2)"

definition charge_response :: "chat_response \<Rightarrow> ('n, 'p, 'w) session \<Rightarrow> ('n, 'p, 'w) session" where
  "charge_response r s =
     s\<lparr>ss_tokens := ss_tokens s + (us_input (cp_usage r) + us_output (cp_usage r)), ss_usage := add_usage (ss_usage s) (cp_usage r)\<rparr>"

definition take_answer :: "answering_client \<Rightarrow> ('n, 'p, 'w) session \<Rightarrow> ('n, 'p, 'w) session" where
  "take_answer a s =
     (let s1 = emit (InputResolved (aw_interaction a)) (close_client_input (aw_interaction a) (s\<lparr>ss_answering := None\<rparr>))
      in s1\<lparr>ss_history := ss_history s1 @ [aw_answer a]\<rparr>)"

text \<open>The response enters the history with unique call ids; the value is the response as recorded.\<close>

definition record_response :: "chat_response \<Rightarrow> ('n, 'p, 'w) session \<Rightarrow> chat_response \<times> ('n, 'p, 'w) session" where
  "record_response r s =
     (case make_call_ids_unique (cp_message r) of
        (m, renames) \<Rightarrow>
          (let s1 = emit_all (map (\<lambda>(old, new). WarningEvent new) renames) s
           in (r\<lparr>cp_message := m\<rparr>, s1\<lparr>ss_history := ss_history s1 @ [m]\<rparr>)))"

text \<open>From the stop check after the model call to the recorded response, with what the client still waits on.\<close>

definition accept_response ::
  "('n, 'p, 'w) session_host \<Rightarrow> answering_client option \<Rightarrow> chat_response \<Rightarrow> ('n, 'p, 'w) session \<Rightarrow> 'w
    \<Rightarrow> (chat_response \<times> client_ask list option, ('n, 'p, 'w) session, 'w) stage" where
  "accept_response h answering r s w =
     (let s1 = charge_response r s
      in if over_budget s1 then fail_run budget_error ''run.token_budget_exceeded'' s1 w
         else and_then (check_stop h s1 w) (\<lambda>_ s2 w2.
           case h_client_pending h w2 of (pending, w3) \<Rightarrow>
             (case answering of
                None \<Rightarrow> (case record_response r s2 of (r1, s3) \<Rightarrow> (Inr (r1, pending), s3, w3))
              | Some a \<Rightarrow>
                  if client_holds pending (aw_client_id a) then refuse_client_answer a s2 w3
                  else case record_response r (take_answer a s2) of (r1, s3) \<Rightarrow> (Inr (r1, pending), s3, w3))))"

definition end_turn ::
  "('n, 'p, 'w) session_host \<Rightarrow> nat \<Rightarrow> ('n, 'p, 'w) session \<Rightarrow> 'w \<Rightarrow> ('n, 'p, 'w) session \<times> 'w" where
  "end_turn h first s w = (emit (TurnFinished (ss_turn s)) s, h_turn_end h (drop first (ss_history s)) w)"

definition suspend_for_client ::
  "('n, 'p, 'w) session_host \<Rightarrow> nat \<Rightarrow> client_ask list \<Rightarrow> ('n, 'p, 'w) session \<Rightarrow> 'w \<Rightarrow> ('a, ('n, 'p, 'w) session, 'w) stage" where
  "suspend_for_client h first asks s w =
     (case end_turn h first s w of (s1, w1) \<Rightarrow>
        (let s2 = fold open_client_input asks (snd (close_client_inputs (Some asks) False s1));
             waiting = filter (\<lambda>i. si_reason i = ClientInput) (ss_open s2)
         in (Inl (Error Contract ''run.suspended_for_client_input''),
             emit_all (map (\<lambda>i. InputRequired (si_id i)) waiting) s2, w1)))"

definition final_answer ::
  "('n, 'p, 'w) session_host \<Rightarrow> nat \<Rightarrow> chat_response \<Rightarrow> ('n, 'p, 'w) session \<Rightarrow> 'w
    \<Rightarrow> (agent_response, ('n, 'p, 'w) session, 'w) stage" where
  "final_answer h first r s w =
     (case end_turn h first s w of (s1, w1) \<Rightarrow>
        (case h_validate h of
           None \<Rightarrow> (Inr \<lparr>ar_message = cp_message r, ar_usage = cp_usage r, ar_structured = None\<rparr>, emit RunFinished s1, w1)
         | Some validate \<Rightarrow>
             (case validate (text_of (cp_message r)) w1 of
                (Inl e, w2) \<Rightarrow>
                  fail_run (Error Contract ''run.output_schema_validation_failed'') ''run.output_schema_validation_failed'' s1 w2
              | (Inr _, w2) \<Rightarrow>
                  (Inr \<lparr>ar_message = cp_message r, ar_usage = cp_usage r, ar_structured = Some (text_of (cp_message r))\<rparr>,
                   emit RunFinished s1, w2))))"

section \<open>The calls of a turn\<close>

text \<open>A round without a hook is one whose calls all pass through.\<close>

definition hook_call ::
  "('n, 'p, 'w) session_host \<Rightarrow> principal \<Rightarrow> 'n tool_call_request \<Rightarrow> 'w \<Rightarrow> 'n hook_processed_call \<times> 'w" where
  "hook_call h caller rq w =
     (case h_hook h of
        None \<Rightarrow> (\<lparr>hp_request = rq, hp_outcome = PassThrough, hp_denial = None\<rparr>, w)
      | Some hook \<Rightarrow>
          (case hook rq caller w of
             (Inl e, w1) \<Rightarrow>
               (\<lparr>hp_request = rq, hp_outcome = Denied, hp_denial = Some (make_denial_result (cr_call_id rq) ''tool.hook_error'')\<rparr>, w1)
           | (Inr v, w1) \<Rightarrow>
               (let rq1 = enforce_hook_rewritten_tool_call_provenance (h_numbers h) (cr_arguments rq)
                            (case hv_rewritten v of None \<Rightarrow> rq | Some args \<Rightarrow> rq\<lparr>cr_arguments := args\<rparr>)
                in (case hv_denial v of
                      Some e \<Rightarrow>
                        \<lparr>hp_request = rq1, hp_outcome = Denied,
                         hp_denial = Some (make_denial_result (cr_call_id rq) (if code e = [] then ''tool.hook_denied'' else code e))\<rparr>
                    | None \<Rightarrow>
                        \<lparr>hp_request = rq1, hp_outcome = (if hv_external v then NeedsExternalDispatch else PassThrough), hp_denial = None\<rparr>,
                    w1))))"

fun hook_calls ::
  "('n, 'p, 'w) session_host \<Rightarrow> principal \<Rightarrow> 'n tool_call_request list \<Rightarrow> 'w \<Rightarrow> 'n hook_processed_call list \<times> 'w" where
  "hook_calls h caller [] w = ([], w)"
| "hook_calls h caller (rq # rqs) w =
     (case hook_call h caller rq w of (p, w1) \<Rightarrow> case hook_calls h caller rqs w1 of (ps, w2) \<Rightarrow> (p # ps, w2))"

definition requests_of :: "'n num_ops \<Rightarrow> chat_message \<Rightarrow> 'n tool_call_request list" where
  "requests_of nm m = map (\<lambda>(i, c). tool_call_request_of nm c i) (enumerate 0 (tool_calls_of m))"

definition waits_for_approval ::
  "('n, 'p, 'w) session_host \<Rightarrow> ('n, 'p, 'w) tool_descriptor list \<Rightarrow> principal \<Rightarrow> 'n hook_processed_call \<Rightarrow> 'w \<Rightarrow> bool \<times> 'w" where
  "waits_for_approval h table caller p w =
     (if hp_outcome p = Denied \<or> cr_parse_error (hp_request p) \<noteq> [] then (False, w)
      else case find_tool table (cr_tool_name (hp_request p)) of
             None \<Rightarrow> (False, w)
           | Some td \<Rightarrow>
               (case resolve_approval_outcome td (cr_provenance (hp_request p)) caller True (h_policy h) w of
                  (outcome, w1) \<Rightarrow> (outcome = NeedsDecider, w1)))"

text \<open>The calls that wait for a human, all of them, and only whether one does.\<close>

fun gate_calls ::
  "('n, 'p, 'w) session_host \<Rightarrow> ('n, 'p, 'w) tool_descriptor list \<Rightarrow> principal \<Rightarrow> 'n hook_processed_call list \<Rightarrow> 'w
    \<Rightarrow> string list \<times> 'w" where
  "gate_calls h table caller [] w = ([], w)"
| "gate_calls h table caller (p # ps) w =
     (case waits_for_approval h table caller p w of (waits, w1) \<Rightarrow>
      case gate_calls h table caller ps w1 of (ids, w2) \<Rightarrow> (if waits then cr_call_id (hp_request p) # ids else ids, w2))"

fun any_waits ::
  "('n, 'p, 'w) session_host \<Rightarrow> ('n, 'p, 'w) tool_descriptor list \<Rightarrow> principal \<Rightarrow> 'n hook_processed_call list \<Rightarrow> 'w
    \<Rightarrow> bool \<times> 'w" where
  "any_waits h table caller [] w = (False, w)"
| "any_waits h table caller (p # ps) w =
     (case waits_for_approval h table caller p w of (waits, w1) \<Rightarrow> if waits then (True, w1) else any_waits h table caller ps w1)"

definition external_calls :: "'n hook_processed_call list \<Rightarrow> string list" where
  "external_calls ps = map (\<lambda>p. cr_call_id (hp_request p)) (filter (\<lambda>p. hp_outcome p = NeedsExternalDispatch) ps)"

definition suspend_round ::
  "('n, 'p, 'w) session_host \<Rightarrow> ('n, 'p, 'w) tool_descriptor list \<Rightarrow> 'n hook_processed_call list \<Rightarrow> string list \<Rightarrow> nat \<Rightarrow>
   ('n, 'p, 'w) session \<Rightarrow> 'w \<Rightarrow> ('a, ('n, 'p, 'w) session, 'w) stage" where
  "suspend_round h table ps gated index s w =
     (let external = external_calls ps
      in case open_interaction (if external \<noteq> [] then HookDecision else ApprovalReason) s of
           (i, s1) \<Rightarrow>
             (let s2 = s1\<lparr>ss_rounds := (ss_rounds s1)(i \<mapsto> \<lparr>sr_offered = table, sr_gated = gated, sr_message_index = index\<rparr>),
                          ss_hooks := (if h_hook h = None then ss_hooks s1
                                       else (ss_hooks s1)(i \<mapsto> \<lparr>ph_calls = ps, ph_requested = (if external \<noteq> [] then [] else gated)\<rparr>))\<rparr>;
                  s3 = emit (InputRequired i) s2
              in if external \<noteq> []
                 then (Inl (Error Contract ''run.suspended_for_hook_decision''),
                       emit_all (map (\<lambda>c. HookDecisionRequested c i) external) s3, w)
                 else (Inl (Error Contract ''run.suspended_for_approval''),
                       emit_all (map (\<lambda>c. ApprovalRequested c i) gated) s3, w)))"

text \<open>The calls the hook stage denied take their denial, the others what their dispatch returned, each in its place.\<close>

fun merge_results :: "'n hook_processed_call list \<Rightarrow> dispatched_call list \<Rightarrow> tool_result list" where
  "merge_results [] ds = []"
| "merge_results (p # ps) ds =
     (if hp_outcome p = Denied
      then (case hp_denial p of None \<Rightarrow> dc_result no_dispatch | Some r \<Rightarrow> r) # merge_results ps ds
      else case ds of
             [] \<Rightarrow> dc_result no_dispatch # merge_results ps []
           | d # rest \<Rightarrow> dc_result d # merge_results ps rest)"

definition live_requests :: "'n hook_processed_call list \<Rightarrow> 'n tool_call_request list" where
  "live_requests ps = map hp_request (filter (\<lambda>p. hp_outcome p \<noteq> Denied) ps)"

definition round_of ::
  "('n, 'p, 'w) tool_descriptor list \<Rightarrow> 'w approval_decider option \<Rightarrow> ('n, 'p, 'w) policy_decider option \<Rightarrow> ('n, 'p, 'w) session
    \<Rightarrow> ('n, 'p, 'w) round_table" where
  "round_of table approve policy s = \<lparr>rt_tools = table, rt_held = run_held s, rt_approve = approve, rt_policy = policy\<rparr>"

definition ask_pending :: "dispatched_call \<Rightarrow> bool" where
  "ask_pending d = (\<not> au_ok (dc_audit d) \<and> au_error_code (dc_audit d) = ''codeact.ask_pending'')"

definition string_argument :: "'n json \<Rightarrow> string \<Rightarrow> string" where
  "string_argument args key = (case json_find args key of Some (JString t) \<Rightarrow> t | _ \<Rightarrow> [])"

definition approved_unattended ::
  "('n, 'p, 'w) session_host \<Rightarrow> ('n, 'p, 'w) tool_descriptor list \<Rightarrow> principal \<Rightarrow> 'n tool_call_request \<Rightarrow> 'w \<Rightarrow> string option \<times> 'w" where
  "approved_unattended h table caller rq w =
     (case h_unattended h of
        None \<Rightarrow> (None, w)
      | Some operator_id \<Rightarrow>
          (case find_tool table (cr_tool_name rq) of
             None \<Rightarrow> (None, w)
           | Some td \<Rightarrow>
               (case resolve_approval_outcome td (cr_provenance rq) caller (cr_tainted rq) (h_policy h) w of
                  (outcome, w1) \<Rightarrow> (if outcome = NeedsDecider then Some operator_id else None, w1))))"

definition suspend_for_ask ::
  "('n, 'p, 'w) session_host \<Rightarrow> ('n, 'p, 'w) tool_descriptor list \<Rightarrow> 'n tool_call_request \<Rightarrow> nat \<Rightarrow> ('n, 'p, 'w) session \<Rightarrow> 'w
    \<Rightarrow> ('a, ('n, 'p, 'w) session, 'w) stage" where
  "suspend_for_ask h table rq index s w =
     (case open_interaction CodeActAsk s of (i, s1) \<Rightarrow>
      case approved_unattended h table (ss_ctx_principal s1) rq w of (op, w1) \<Rightarrow>
        (let s2 = s1\<lparr>ss_asks := (ss_asks s1)(i \<mapsto> \<lparr>pk_source = string_argument (cr_arguments rq) ''code'',
                        pk_language = string_argument (cr_arguments rq) ''language'', pk_answers = [],
                        pk_call_id = cr_call_id rq, pk_unattended_by = op\<rparr>),
                     ss_rounds := (ss_rounds s1)(i \<mapsto> \<lparr>sr_offered = table, sr_gated = [], sr_message_index = index\<rparr>)\<rparr>
         in (Inl (Error Contract ''run.suspended_for_codeact_ask''),
             emit_all [CodeActAskRequested (cr_call_id rq) i, InputRequired i] s2, w1)))"

definition push_results ::
  "('n, 'p, 'w) session_host \<Rightarrow> nat \<Rightarrow> tool_result list \<Rightarrow> ('n, 'p, 'w) session \<Rightarrow> 'w \<Rightarrow> ('n, 'p, 'w) session \<times> 'w" where
  "push_results h first rs s w = end_turn h first (s\<lparr>ss_history := ss_history s @ [tool_results_message rs]\<rparr>) w"

text \<open>The dispatch of a turn's calls; the value \<open>None\<close> is that the loop goes on.\<close>

definition run_calls ::
  "('n, 'p, 'w) session_host \<Rightarrow> ('n, 'p, 'w) tool_descriptor list \<Rightarrow> 'n hook_processed_call list \<Rightarrow> nat \<Rightarrow> ('n, 'p, 'w) session \<Rightarrow> 'w
    \<Rightarrow> (agent_response option, ('n, 'p, 'w) session, 'w) stage" where
  "run_calls h table ps index s w =
     (case dispatch_tool_calls h (round_of table (effective_approval_decider h table) (h_policy h) s) (live_requests ps) s w of
        (None, s1, w1) \<Rightarrow> throw_out s1 w1
      | (Some out, s1, w1) \<Rightarrow>
          if list_ex ask_pending out
          then if length ps \<noteq> 1
               then fail_run (Error Contract ''run.codeact_ask_in_multi_call_round_unsupported'')
                      ''run.codeact_ask_in_multi_call_round_unsupported'' s1 w1
               else suspend_for_ask h table (hp_request (hd ps)) index s1 w1
          else case push_results h index (merge_results ps out) s1 w1 of (s2, w2) \<Rightarrow> (Inr None, s2, w2))"

definition settle_calls ::
  "('n, 'p, 'w) session_host \<Rightarrow> ('n, 'p, 'w) tool_descriptor list \<Rightarrow> chat_message \<Rightarrow> nat \<Rightarrow> ('n, 'p, 'w) session \<Rightarrow> 'w
    \<Rightarrow> (agent_response option, ('n, 'p, 'w) session, 'w) stage" where
  "settle_calls h table m index s w =
     (case hook_calls h (ss_ctx_principal s) (requests_of (h_numbers h) m) w of (ps, w1) \<Rightarrow>
      case (if approval_waits_for_human h then gate_calls h table (ss_ctx_principal s) ps w1 else ([], w1)) of
        (gated, w2) \<Rightarrow> if external_calls ps \<noteq> [] \<or> gated \<noteq> [] then suspend_round h table ps gated index s w2
                       else run_calls h table ps index s w2)"

section \<open>The turn loop\<close>

text \<open>What becomes of a recorded response: a wait for the client, the answer of the run, or calls.\<close>

definition settle_response ::
  "('n, 'p, 'w) session_host \<Rightarrow> ('n, 'p, 'w) contribution \<Rightarrow> nat \<Rightarrow> chat_response \<Rightarrow> client_ask list option \<Rightarrow> ('n, 'p, 'w) session \<Rightarrow> 'w
    \<Rightarrow> (agent_response option, ('n, 'p, 'w) session, 'w) stage" where
  "settle_response h c first r pending s w =
     (if pending \<noteq> None \<and> pending \<noteq> Some [] then suspend_for_client h first (the pending) s w
      else if tool_calls_of (cp_message r) = [] then and_then (final_answer h first r s w) (\<lambda>a s4 w4. (Inr (Some a), s4, w4))
      else settle_calls h (cn_tools c) (cp_message r) (length (ss_history s) - 1) s w)"

definition run_turn ::
  "('n, 'p, 'w) session_host \<Rightarrow> ('n, 'p, 'w) session \<Rightarrow> 'w \<Rightarrow> (agent_response option, ('n, 'p, 'w) session, 'w) stage" where
  "run_turn h s w =
     and_then (offer_turn h s w) (\<lambda>c s1 w1.
       let answering = answer_unsent s1
       in and_then (call_model h (build_request h c answering) answering (mark_sent s1) w1) (\<lambda>r s2 w2.
            and_then (accept_response h answering r s2 w2) (\<lambda>(r1, pending) s3 w3.
              settle_response h c (length (ss_history s2)) r1 pending s3 w3)))"

definition next_turn :: "('n, 'p, 'w) session \<Rightarrow> ('n, 'p, 'w) session" where
  "next_turn s = s\<lparr>ss_turn := ss_turn s + 1\<rparr>"

definition turns_left :: "('n, 'p, 'w) session \<Rightarrow> bool" where
  "turns_left s = (case max_turns s of None \<Rightarrow> True | Some m \<Rightarrow> ss_turn s < m)"

text \<open>The loop has no bound of its own when the session has none; \<open>None\<close> is that it does not return.\<close>

partial_function (option) run_rounds_body ::
  "('n, 'p, 'w) session_host \<Rightarrow> ('n, 'p, 'w) session \<Rightarrow> 'w \<Rightarrow> (agent_response, ('n, 'p, 'w) session, 'w) stage option" where
  [code]: "run_rounds_body h s w =
     (if \<not> turns_left s then Some (fail_run (Error Contract ''run.max_turns_exceeded'') ''run.max_turns_exceeded'' s w)
      else case run_turn h s w of
             (Inl e, s1, w1) \<Rightarrow> Some (Inl e, s1, w1)
           | (Inr (Some r), s1, w1) \<Rightarrow> Some (Inr r, s1, w1)
           | (Inr None, s1, w1) \<Rightarrow> run_rounds_body h (next_turn s1) w1)"

definition left_open_on_purpose :: "'a result \<Rightarrow> bool" where
  "left_open_on_purpose r =
     (case r of Inr _ \<Rightarrow> False
      | Inl e \<Rightarrow> code e \<in> {''run.suspended_for_client_input'', ''session.resolve_interaction.answer_refused''})"

definition settle_client ::
  "('n, 'p, 'w) session_host \<Rightarrow> (agent_response, ('n, 'p, 'w) session, 'w) stage \<Rightarrow> (agent_response, ('n, 'p, 'w) session, 'w) stage" where
  "settle_client h m =
     (case m of (r, s, w) \<Rightarrow>
        (let s1 = s\<lparr>ss_answering := None\<rparr>
         in if ss_unwinding s then (r, s, w)
            else if left_open_on_purpose r then (r, s1, w)
            else case h_client_pending h w of
                   (None, w1) \<Rightarrow> (r, s1, w1)
                 | (Some asks, w1) \<Rightarrow> (r, snd (close_client_inputs (Some asks) True s1), if asks = [] then w1 else h_cancel_client h w1)))"

definition run_rounds ::
  "('n, 'p, 'w) session_host \<Rightarrow> ('n, 'p, 'w) session \<Rightarrow> 'w \<Rightarrow> (agent_response, ('n, 'p, 'w) session, 'w) stage option" where
  "run_rounds h s w = map_option (settle_client h) (run_rounds_body h s w)"

section \<open>What a run keeps\<close>

text \<open>A relation between the states before and after a stage that holds for a sequence when it holds for the parts.\<close>

locale stage_frame =
  fixes R :: "'s \<Rightarrow> 's \<Rightarrow> bool"
  assumes refl: "R s s" and trans: "R a b \<Longrightarrow> R b c \<Longrightarrow> R a c"
begin

lemma sequence:
  assumes "R s (fst (snd m))" and "\<And>a s1 w1. m = (Inr a, s1, w1) \<Longrightarrow> R s1 (fst (snd (f a s1 w1)))"
  shows "R s (fst (snd (and_then m f)))"
proof (cases m)
  case (fields x s1 w1)
  then show ?thesis using assms trans by (cases x) auto
qed

lemma repeat: "(\<And>x s. R s (f x s)) \<Longrightarrow> R s (fold f xs s)"
  by (induction xs arbitrary: s) (auto intro: refl trans)

end

text \<open>Authority, choices and identity stay; the history and the events only grow.\<close>

definition run_frame :: "('n, 'p, 'w) session \<Rightarrow> ('n, 'p, 'w) session \<Rightarrow> bool" where
  "run_frame s s' \<longleftrightarrow>
     ss_id s' = ss_id s \<and> ss_principal s' = ss_principal s \<and> ss_caps s' = ss_caps s \<and> ss_choices s' = ss_choices s \<and>
     ss_ctx_principal s' = ss_ctx_principal s \<and> ss_ctx_caps s' = ss_ctx_caps s \<and> ss_ctx_source s' = ss_ctx_source s \<and>
     ss_ctx_expires s' = ss_ctx_expires s \<and> ss_ctx_run_id s' = ss_ctx_run_id s \<and> ss_run_counter s' = ss_run_counter s \<and>
     prefix (ss_history s) (ss_history s') \<and> prefix (ss_events s) (ss_events s')"

interpretation framed: stage_frame run_frame
  by unfold_locales (auto simp: run_frame_def intro: prefix_order.trans)

text \<open>The turn, the tokens and the choices stay.\<close>

definition steady :: "('n, 'p, 'w) session \<Rightarrow> ('n, 'p, 'w) session \<Rightarrow> bool" where
  "steady s s' \<longleftrightarrow> ss_turn s' = ss_turn s \<and> ss_tokens s' = ss_tokens s \<and> ss_choices s' = ss_choices s"

interpretation steadied: stage_frame steady
  by unfold_locales (auto simp: steady_def)

named_theorems keeps

lemma and_then_Inr:
  "and_then m f = (Inr b, s', w') \<longleftrightarrow> (\<exists>a s1 w1. m = (Inr a, s1, w1) \<and> f a s1 w1 = (Inr b, s', w'))"
  by (auto simp: and_then_def split: prod.splits sum.splits)

lemma stage_fails [simp]:
  "fail_run e c s w \<noteq> (Inr r, s', w')" "throw_out s w \<noteq> (Inr r, s', w')" "finish_canceled s w \<noteq> (Inr r, s', w')" "refuse_client_answer a s w \<noteq> (Inr r, s', w')"
  by (simp_all add: fail_run_def throw_out_def finish_canceled_def refuse_client_answer_def)

lemma emit_keeps [keeps]: "run_frame s (emit ev s)" "steady s (emit ev s)" "run_frame s (emit_all evs s)" "steady s (emit_all evs s)"
  by (simp_all add: run_frame_def steady_def)

lemma drain_keeps [keeps]: "run_frame s (fst (drain_sinks h c s w))" "steady s (fst (drain_sinks h c s w))"
proof -
  obtain s1 w1 where d: "drain_sinks h c s w = (s1, w1)" by fastforce
  then obtain evs where "s1 = s\<lparr>ss_events := ss_events s @ map (Pair (ss_ctx_run_id s)) evs\<rparr>" by (rule drain_sinks_appends)
  with d show "run_frame s (fst (drain_sinks h c s w))" "steady s (fst (drain_sinks h c s w))"
    by (simp_all add: run_frame_def steady_def)
qed

lemma record_keeps [keeps]:
  "run_frame s (snd (resolve_interaction_record i s))" "steady s (snd (resolve_interaction_record i s))"
  by (auto simp: resolve_interaction_record_def run_frame_def steady_def split: option.split)

lemma open_keeps [keeps]: "run_frame s (snd (open_interaction reason s))" "steady s (snd (open_interaction reason s))"
  by (simp_all add: open_interaction_def Let_def run_frame_def steady_def)

lemma close_client_keeps [keeps]: "run_frame s (close_client_input i s)" "steady s (close_client_input i s)"
  using record_keeps [of "s\<lparr>ss_clients := filter (\<lambda>e. fst e \<noteq> i) (ss_clients s)\<rparr>" i]
  by (simp_all add: close_client_input_def run_frame_def steady_def)

lemma close_clients_keeps [keeps]:
  "run_frame s (snd (close_client_inputs pending all s))" "steady s (snd (close_client_inputs pending all s))"
  by (simp_all add: close_client_inputs_def Let_def framed.repeat steadied.repeat keeps)

lemma open_client_keeps [keeps]: "run_frame s (open_client_input ask s)" "steady s (open_client_input ask s)"
  using open_keeps [of s ClientInput] framed.refl [of s] steadied.refl [of s]
  by (auto simp: open_client_input_def run_frame_def steady_def split: prod.split)

lemma fail_keeps [keeps]:
  "run_frame s (fst (snd (fail_run e c s w)))" "steady s (fst (snd (fail_run e c s w)))"
  "run_frame s (fst (snd (finish_canceled s w)))" "steady s (fst (snd (finish_canceled s w)))"
  "run_frame s (fst (snd (throw_out s w)))" "steady s (fst (snd (throw_out s w)))"
  by (simp_all add: fail_run_def finish_canceled_def keeps) (simp_all add: throw_out_def run_frame_def steady_def)

lemma check_stop_keeps [keeps]: "run_frame s (fst (snd (check_stop h s w)))" "steady s (fst (snd (check_stop h s w)))"
  by (auto simp: check_stop_def keeps framed.refl steadied.refl split: prod.split)

lemma check_stop_Inr [simp]: "check_stop h s w = (Inr u, s', w') \<Longrightarrow> s' = s"
  by (auto simp: check_stop_def finish_canceled_def split: prod.splits if_splits)

lemma model_attempt_keeps [keeps]: "run_frame s (fst (snd (model_attempt h rq s w)))" "steady s (fst (snd (model_attempt h rq s w)))"
  by (auto simp: model_attempt_def run_frame_def steady_def split: prod.split elim!: drain_sinks_appends)

lemma charge_discarded_keeps [keeps]: "run_frame s (charge_discarded h rq f s)" "ss_turn (charge_discarded h rq f s) = ss_turn s"
  by (simp_all add: charge_discarded_def Let_def run_frame_def)

lemma model_attempts_rel:
  fixes R :: "('n, 'p, 'w) session \<Rightarrow> ('n, 'p, 'w) session \<Rightarrow> bool"
  assumes trans: "\<And>a b c. R a b \<Longrightarrow> R b c \<Longrightarrow> R a c" and attempt: "\<And>s w. R s (fst (snd (model_attempt h rq s w)))"
    and charge: "\<And>f s. R s (charge_discarded h rq f s)" and event: "\<And>ev s. R s (emit ev s)"
  shows "R s (fst (snd (model_attempts h rq s w)))"
  using attempt charge
proof (induction h rq s w rule: model_attempts.induct)
  case (1 h rq s w)
  obtain x s1 w1 where a: "model_attempt h rq s w = (x, s1, w1)" by (metis prod.exhaust)
  have k: "R s s1" using "1.prems"(1) [of s w] a by simp
  show ?case
  proof (cases x)
    case (Inl y)
    obtain e failure where y: "y = (e, failure)" by fastforce
    obtain f w2 where r: "should_retry_stream h e failure s1 w1 = (f, w2)" by fastforce
    show ?thesis
    proof (cases f)
      case (Some q)
      have c: "R s (charge_discarded h rq q s1)" using trans [OF k "1.prems"(2)] .
      have "R (charge_discarded h rq q s1) (fst (snd (model_attempts h rq (charge_discarded h rq q s1) w2)))"
        if "\<not> over_budget (charge_discarded h rq q s1)"
        by (rule "1.IH" [OF a [symmetric] Inl y [symmetric] refl r [symmetric] Some refl that "1.prems"])
      from trans [OF c this] trans [OF c event] a Inl y r Some show ?thesis
        by (cases "over_budget (charge_discarded h rq q s1)") (simp_all add: model_attempts.simps [of h rq s w] Let_def)
    qed (use a Inl y r k in \<open>simp add: model_attempts.simps [of h rq s w]\<close>)
  qed (use a k in \<open>simp add: model_attempts.simps [of h rq s w]\<close>)
qed

lemma model_attempts_keeps [keeps]:
  "run_frame s (fst (snd (model_attempts h rq s w)))" "ss_turn (fst (snd (model_attempts h rq s w))) = ss_turn s"
proof -
  show "run_frame s (fst (snd (model_attempts h rq s w)))" 
    by (rule model_attempts_rel [where R = run_frame]) 
      (erule (1) framed.trans, (rule model_attempt_keeps charge_discarded_keeps emit_keeps)+)
  have t: "ss_turn (fst (snd (model_attempt h rq s w))) = ss_turn s" for s w
    using model_attempt_keeps(2) [of s h rq w] by (simp add: steady_def)
  show "ss_turn (fst (snd (model_attempts h rq s w))) = ss_turn s"
    by (rule model_attempts_rel [where R = "\<lambda>a b. ss_turn b = ss_turn a"]) (simp_all add: t charge_discarded_keeps(2))
qed

lemma fold_usage_keeps [keeps]:
  "run_frame s (fst (snd (fold_delegated_usage h s w)))" "ss_turn (fst (snd (fold_delegated_usage h s w))) = ss_turn s"
  by (auto simp: fold_delegated_usage_def Let_def run_frame_def split: prod.split)

subsection \<open>The request and the response\<close>

lemma offer_turn_keeps [keeps]: "run_frame s (fst (snd (offer_turn h s w)))" "steady s (fst (snd (offer_turn h s w)))"
proof -
  have "run_frame s (fst (snd (offer_turn h s w))) \<and> steady s (fst (snd (offer_turn h s w)))"
    unfolding offer_turn_def
    by (intro conjI framed.sequence steadied.sequence check_stop_keeps)
      (auto simp: Let_def fail_run_def run_frame_def steady_def split: prod.split sum.split elim!: drain_sinks_appends)
  then show "run_frame s (fst (snd (offer_turn h s w)))" "steady s (fst (snd (offer_turn h s w)))" by simp_all
qed

lemma refuse_answer_keeps [keeps]: "run_frame s (fst (snd (refuse_client_answer a s w)))"
  by (simp add: refuse_client_answer_def run_frame_def)

lemma mark_sent_keeps [keeps]: "run_frame s (mark_sent s)" "steady s (mark_sent s)"
  by (simp_all add: mark_sent_def run_frame_def steady_def)

lemma failed_call_keeps [keeps]: "run_frame s (fst (snd (failed_call h answering e s w)))"
  unfolding failed_call_def
  by (rule framed.sequence [OF check_stop_keeps(1)]) (auto simp: keeps split: option.split prod.split)

lemma failed_call_fails: "failed_call h answering e s w \<noteq> (Inr r, s', w')"
  unfolding failed_call_def and_then_Inr by (cases answering) (auto split: prod.splits if_splits)

lemma call_model_keeps [keeps]: "run_frame s (fst (snd (call_model h rq answering s w)))"
proof -
  obtain folded s1 w1 where f: "fold_delegated_usage h s w = (folded, s1, w1)" by (metis prod.exhaust)
  have k: "run_frame s s1" using fold_usage_keeps(1) [of s h w] f by simp
  obtain x s2 w2 where m: "model_attempts h rq s1 w1 = (x, s2, w2)" by (metis prod.exhaust)
  have l: "run_frame s s2" using framed.trans [OF k model_attempts_keeps(1) [of s1 h rq w1]] m by simp
  show ?thesis using f m l framed.trans [OF k fail_keeps(1)] framed.trans [OF l failed_call_keeps] fail_keeps(1)
    by (cases x) (auto simp: call_model_def)
qed

lemma call_model_turn:
  assumes "call_model h rq answering s w = (Inr r, s', w')"
  shows "ss_turn s' = ss_turn s"
proof -
  obtain folded s1 w1 where f: "fold_delegated_usage h s w = (folded, s1, w1)" by (metis prod.exhaust)
  obtain x s2 w2 where m: "model_attempts h rq s1 w1 = (x, s2, w2)" by (metis prod.exhaust)
  from assms f m have "s' = s2"
    by (cases x) (auto simp: call_model_def fail_run_def failed_call_fails split: if_splits)
  then show ?thesis using fold_usage_keeps(2) [of h s w] model_attempts_keeps(2) [of h rq s1 w1] f m by simp
qed

lemma record_response_keeps [keeps]:
  "run_frame s (snd (record_response r s))" "steady s (snd (record_response r s))"
  by (auto simp: record_response_def Let_def run_frame_def steady_def split: prod.split)

lemma record_response_last: "record_response r s = (r1, s1) \<Longrightarrow> \<exists>xs. ss_history s1 = xs @ [cp_message r1]"
  by (auto simp: record_response_def Let_def split: prod.splits)

lemma take_answer_keeps [keeps]: "run_frame s (take_answer a s)" "steady s (take_answer a s)"
  using close_client_keeps [of "s\<lparr>ss_answering := None\<rparr>" "aw_interaction a"]
  by (auto simp: take_answer_def Let_def run_frame_def steady_def)

lemma charge_keeps [keeps]: "run_frame s (charge_response r s)" "ss_turn (charge_response r s) = ss_turn s"
  by (simp_all add: charge_response_def run_frame_def)

lemma steady_budget: "steady s s' \<Longrightarrow> over_budget s' = over_budget s"
  by (auto simp: steady_def over_budget_def token_budget_limit_def split: option.split)

lemma record_after: "run_frame s s1 \<Longrightarrow> record_response r s1 = (r1, s2) \<Longrightarrow> run_frame s s2"
  using framed.trans record_response_keeps(1) by (metis snd_conv)

lemma accept_response_keeps [keeps]: "run_frame s (fst (snd (accept_response h answering r s w)))"
proof -
  have "run_frame (charge_response r s) (fst (snd (accept_response h answering r s w)))"
    unfolding accept_response_def Let_def
    by (auto intro!: framed.sequence keeps split: prod.split option.split dest: record_after [OF framed.refl]
        record_after [OF take_answer_keeps(1)])
  with charge_keeps(1) show ?thesis by (rule framed.trans)
qed

lemma accept_response_ok:
  assumes "accept_response h answering r s w = (Inr (r1, pending), s', w')"
  shows "ss_turn s' = ss_turn s" and "\<not> over_budget s'" and "\<exists>xs. ss_history s' = xs @ [cp_message r1]"
proof -
  let ?s1 = "charge_response r s"
  from assms have b: "\<not> over_budget ?s1" by (auto simp: accept_response_def Let_def fail_run_def split: if_splits)
  from assms obtain s2 where s2: "steady ?s1 s2" "record_response r s2 = (r1, s')"
    by (auto simp: accept_response_def Let_def fail_run_def and_then_def refuse_client_answer_def
        split: if_splits prod.splits sum.splits option.splits dest!: check_stop_Inr
        intro: that [OF steadied.refl] that [OF take_answer_keeps(2)])
  have k: "steady ?s1 s'" using steadied.trans [OF s2(1) record_response_keeps(2) [of s2 r]] s2(2) by simp
  show "\<exists>xs. ss_history s' = xs @ [cp_message r1]" using record_response_last [OF s2(2)] .
  show "\<not> over_budget s'" using b steady_budget [OF k] by simp
  show "ss_turn s' = ss_turn s" using k charge_keeps(2) [of r s] by (simp add: steady_def)
qed

subsection \<open>The calls and the turn\<close>

lemma end_turn_keeps [keeps]: "run_frame s (fst (end_turn h first s w))" "steady s (fst (end_turn h first s w))"
  by (simp_all add: end_turn_def keeps)

lemma suspend_for_client_keeps [keeps]: "run_frame s (fst (snd (suspend_for_client h first asks s w)))"
proof -
  obtain s1 w1 where e: "end_turn h first s w = (s1, w1)" by fastforce
  have "run_frame s s1" using end_turn_keeps(1) [of s h first w] e by simp
  moreover have "run_frame s1 (fold open_client_input asks (snd (close_client_inputs (Some asks) False s1)))"
    by (rule framed.trans [OF close_clients_keeps(1)]) (rule framed.repeat, rule open_client_keeps)
  ultimately show ?thesis using e
    by (simp add: suspend_for_client_def Let_def) (blast intro: framed.trans emit_keeps(3))
qed

lemma final_answer_keeps [keeps]:
  "run_frame s (fst (snd (final_answer h first r s w)))" "steady s (fst (snd (final_answer h first r s w)))"
  by (auto simp: final_answer_def end_turn_def fail_run_def run_frame_def steady_def split: option.split prod.split sum.split)

lemma final_answer_ok:
  assumes "final_answer h first r s w = (Inr a, s', w')"
  shows "ar_message a = cp_message r" and "ss_history s' = ss_history s"
    and "\<exists>e. ss_events s' = ss_events s @ [e, (ss_ctx_run_id s', RunFinished)]"
  using assms by (auto simp: final_answer_def end_turn_def split: option.splits prod.splits sum.splits)

lemma dispatch_keeps:
  assumes "dispatch_tool_calls h rt rqs s w = (out, s', w')"
  shows "run_frame s s'" and "steady s s'" and "ss_history s' = ss_history s"
  using dispatch_settles [OF assms] by (auto simp: settled_def run_frame_def steady_def)

lemma suspend_round_keeps [keeps]:
  "run_frame s (fst (snd (suspend_round h table ps gated index s w)))" "steady s (fst (snd (suspend_round h table ps gated index s w)))"
  by (simp_all add: suspend_round_def open_interaction_def Let_def run_frame_def steady_def)

lemma suspend_for_ask_keeps [keeps]:
  "run_frame s (fst (snd (suspend_for_ask h table rq index s w)))" "steady s (fst (snd (suspend_for_ask h table rq index s w)))"
  by (simp_all add: suspend_for_ask_def open_interaction_def Let_def run_frame_def steady_def split: prod.split)

lemma push_results_keeps [keeps]:
  "run_frame s (fst (push_results h first rs s w))" "steady s (fst (push_results h first rs s w))"
  by (simp_all add: push_results_def end_turn_def run_frame_def steady_def)

lemma run_calls_keeps [keeps]:
  "run_frame s (fst (snd (run_calls h table ps index s w)))" "steady s (fst (snd (run_calls h table ps index s w)))"
proof -
  obtain x s1 w1 where d: "dispatch_tool_calls h (round_of table (effective_approval_decider h table) (h_policy h) s)
      (live_requests ps) s w = (x, s1, w1)" by (metis prod.exhaust)
  note k = framed.trans [OF dispatch_keeps(1) [OF d]] and l = steadied.trans [OF dispatch_keeps(2) [OF d]]
  note c = run_calls_def d prod.case
  show "run_frame s (fst (snd (run_calls h table ps index s w)))"
    using k [OF push_results_keeps(1) [of s1 h index "merge_results ps (the x)" w1]] k [OF fail_keeps(1)] k [OF fail_keeps(5)]
      k [OF suspend_for_ask_keeps(1)]
    by (cases x) (auto simp: c split: prod.split)
  show "steady s (fst (snd (run_calls h table ps index s w)))"
    using l [OF push_results_keeps(2) [of s1 h index "merge_results ps (the x)" w1]] l [OF fail_keeps(2)] l [OF fail_keeps(6)]
      l [OF suspend_for_ask_keeps(2)]
    by (cases x) (auto simp: c split: prod.split)
qed

lemma settle_calls_keeps [keeps]:
  "run_frame s (fst (snd (settle_calls h table m index s w)))" "steady s (fst (snd (settle_calls h table m index s w)))"
  by (auto simp: settle_calls_def keeps split: prod.split)

lemma run_calls_no_answer: "run_calls h table ps index s w \<noteq> (Inr (Some a), s', w')"
  by (auto simp: run_calls_def suspend_for_ask_def Let_def split: prod.splits option.splits)

lemma settle_calls_no_answer: "settle_calls h table m index s w \<noteq> (Inr (Some a), s', w')"
  by (auto simp: settle_calls_def suspend_round_def Let_def run_calls_no_answer split: prod.splits if_splits)

lemma settle_response_keeps [keeps]: "run_frame s (fst (snd (settle_response h c first r pending s w)))"
  by (auto simp: settle_response_def keeps framed.refl intro!: framed.sequence)

lemma settle_response_steady: "settle_response h c first r pending s w = (Inr x, s', w') \<Longrightarrow> steady s s'"
  using settle_calls_keeps(2) [of s h "cn_tools c" "cp_message r" "length (ss_history s) - 1" w] final_answer_keeps(2) [of s h first r w]
  by (auto simp: settle_response_def and_then_Inr suspend_for_client_def Let_def split: if_splits prod.splits)

lemma settle_response_answer:
  assumes "settle_response h c first r pending s w = (Inr (Some a), s', w')"
  shows "ar_message a = cp_message r" and "tool_calls_of (cp_message r) = []" and "ss_history s' = ss_history s"
    and "\<exists>e. ss_events s' = ss_events s @ [e, (ss_ctx_run_id s', RunFinished)]"
proof -
  from assms have "tool_calls_of (cp_message r) = []" and f: "final_answer h first r s w = (Inr a, s', w')"
    by (auto simp: settle_response_def and_then_Inr settle_calls_no_answer suspend_for_client_def Let_def split: if_splits prod.splits)
  with final_answer_ok [OF f] show "ar_message a = cp_message r" "tool_calls_of (cp_message r) = []" "ss_history s' = ss_history s"
    "\<exists>e. ss_events s' = ss_events s @ [e, (ss_ctx_run_id s', RunFinished)]" by simp_all
qed

lemma run_turn_keeps [keeps]: "run_frame s (fst (snd (run_turn h s w)))"
  unfolding run_turn_def Let_def
  by (rule framed.sequence [OF offer_turn_keeps(1)], rule framed.sequence [OF framed.trans [OF mark_sent_keeps(1) call_model_keeps]],
      rule framed.sequence [OF accept_response_keeps]) (simp add: settle_response_keeps split: prod.split)

lemma run_turn_Inr:
  assumes "run_turn h s w = (Inr x, s', w')"
  obtains c r1 pending first s3 w3 xs where "settle_response h c first r1 pending s3 w3 = (Inr x, s', w')" "ss_turn s3 = ss_turn s"
    "\<not> over_budget s3" "ss_history s3 = xs @ [cp_message r1]" "run_frame s s3"
proof -
  from assms obtain c s1 w1 r s2 w2 r1 pending s3 w3 where
    a: "offer_turn h s w = (Inr c, s1, w1)" and
    b: "call_model h (build_request h c (answer_unsent s1)) (answer_unsent s1) (mark_sent s1) w1 = (Inr r, s2, w2)" and
    d: "accept_response h (answer_unsent s1) r s2 w2 = (Inr (r1, pending), s3, w3)" and
    e: "settle_response h c (length (ss_history s2)) r1 pending s3 w3 = (Inr x, s', w')"
    unfolding run_turn_def Let_def and_then_Inr by auto
  have "ss_turn s1 = ss_turn s" using offer_turn_keeps(2) [of s h w] a by (simp add: steady_def)
  moreover have "ss_turn s2 = ss_turn s1" using call_model_turn [OF b] mark_sent_keeps(2) [of s1] by (simp add: steady_def)
  moreover have "run_frame s s3"
    using framed.trans [OF offer_turn_keeps(1) [of s h w]] framed.trans [OF mark_sent_keeps(1) [of s1]]
      framed.trans [OF call_model_keeps [of "mark_sent s1" h "build_request h c (answer_unsent s1)" "answer_unsent s1" w1]]
      accept_response_keeps [of s2 h "answer_unsent s1" r w2] a b d by simp
  ultimately show ?thesis using that [OF e] accept_response_ok [OF d] by auto
qed

lemma run_turn_ok:
  assumes "run_turn h s w = (Inr x, s', w')"
  shows "ss_turn s' = ss_turn s" and "\<not> over_budget s'" and "ss_choices s' = ss_choices s"
proof -
  obtain c r1 pending first s3 w3 xs where k: "settle_response h c first r1 pending s3 w3 = (Inr x, s', w')" "ss_turn s3 = ss_turn s"
    "\<not> over_budget s3" "run_frame s s3" by (rule run_turn_Inr [OF assms])
  from settle_response_steady [OF k(1)] k(2-4) steady_budget [of s3 s']
  show "ss_turn s' = ss_turn s" "\<not> over_budget s'" "ss_choices s' = ss_choices s" by (auto simp: steady_def run_frame_def)
qed

text \<open>An answered run: its message ends the history and asks for nothing, it is within the budget, and the end of the run was
  reported since the state \<open>s0\<close>, with nothing after it but reports of the sinks.\<close>

definition run_answered :: "agent_response \<Rightarrow> ('n, 'p, 'w) session \<Rightarrow> ('n, 'p, 'w) session \<Rightarrow> bool" where
  "run_answered a s0 s \<longleftrightarrow>
     ss_history s \<noteq> [] \<and> last (ss_history s) = ar_message a \<and> tool_calls_of (ar_message a) = [] \<and> \<not> over_budget s \<and>
     (\<exists>earlier late. ss_events s = earlier @ (ss_ctx_run_id s, RunFinished) # map (Pair (ss_ctx_run_id s)) late \<and>
        prefix (ss_events s0) earlier \<and> list_all side_kind late)"

lemma answered_since: "run_answered a s1 s \<Longrightarrow> prefix (ss_events s0) (ss_events s1) \<Longrightarrow> run_answered a s0 s"
  unfolding run_answered_def by (meson prefix_order.trans)

lemma run_turn_answers:
  assumes "run_turn h s w = (Inr (Some a), s', w')"
  shows "run_answered a s s'"
proof -
  obtain c r1 pending first s3 w3 xs where k: "settle_response h c first r1 pending s3 w3 = (Inr (Some a), s', w')"
    "ss_history s3 = xs @ [cp_message r1]" "run_frame s s3" by (rule run_turn_Inr [OF assms])
  note q = settle_response_answer [OF k(1)]
  from q(4) obtain e where "ss_events s' = (ss_events s3 @ [e]) @ (ss_ctx_run_id s', RunFinished) # map (Pair (ss_ctx_run_id s')) []" by auto
  moreover have "prefix (ss_events s) (ss_events s3 @ [e])" using k(3) by (auto simp: run_frame_def)
  ultimately show ?thesis using q(1-3) k(2) run_turn_ok(2) [OF assms] unfolding run_answered_def
    by (metis last_snoc list.pred_inject(1) snoc_eq_iff_butlast)
qed

subsection \<open>The loop\<close>

lemma run_rounds_body_induct [consumes 1, case_names spent ended again]:
  assumes "run_rounds_body h s w = Some y"
    and "\<And>s w. \<not> turns_left s \<Longrightarrow> Q s w (fail_run (Error Contract ''run.max_turns_exceeded'') ''run.max_turns_exceeded'' s w)"
    and "\<And>s w r s1 w1. turns_left s \<Longrightarrow> run_turn h s w = (map_sum id Some r, s1, w1) \<Longrightarrow> Q s w (r, s1, w1)"
    and "\<And>s w s1 w1 y. turns_left s \<Longrightarrow> run_turn h s w = (Inr None, s1, w1) \<Longrightarrow> Q (next_turn s1) w1 y \<Longrightarrow> Q s w y"
  shows "Q s w y"
proof -
  have "h' = h \<longrightarrow> Q s w y" if "run_rounds_body h' s w = Some y" for h' s w y
    using that
  proof (rule run_rounds_body.raw_induct [rotated], goal_cases)
    case (1 loop h' s w y)
    show ?case
    proof (intro impI)
      assume h': "h' = h"
      obtain x s1 w1 where t: "run_turn h s w = (x, s1, w1)" by (metis prod.exhaust)
      show "Q s w y"
      proof (cases "turns_left s")
        case True
        consider e where "x = Inl e" | a where "x = Inr (Some a)" | "x = Inr None" by (cases x) auto
        then show ?thesis
        proof cases
          case 1
          then show ?thesis using assms(3) [of s w "Inl e" s1 w1] True t h' \<open>_ = Some y\<close> by simp
        qed (use 1 True t h' assms(3) [of s w "Inr _" s1 w1] assms(4) [of s w s1 w1 y] in auto)
      qed (use 1 assms(2) h' in auto)
    qed
  qed
  with assms(1) show ?thesis by blast
qed

lemma run_rounds_body_result:
  assumes "run_rounds_body h s w = Some y"
  shows "run_frame s (fst (snd y)) \<and> (case fst y of Inl e \<Rightarrow> True | Inr a \<Rightarrow> run_answered a s (fst (snd y)))"
  using assms
proof (induction rule: run_rounds_body_induct)
  case (spent s w)
  show ?case using fail_keeps(1) by (simp add: fail_run_def)
next
  case (ended s w r s1 w1)
  then show ?case using run_turn_keeps [of s h w] run_turn_answers [of h s w _ s1 w1] by (cases r) auto
next
  case (again s w s1 w1 y)
  have "run_frame s1 (next_turn s1)" by (simp add: run_frame_def next_turn_def)
  moreover have "run_frame s s1" using run_turn_keeps [of s h w] again(2) by simp
  ultimately have k: "run_frame s (next_turn s1)" by (rule framed.trans [rotated])
  then have "prefix (ss_events s) (ss_events (next_turn s1))" by (simp add: run_frame_def)
  from answered_since [OF _ this] show ?case using again.IH framed.trans [OF k] by (auto split: sum.splits)
qed

lemma next_turn_fields [simp]: "max_turns (next_turn s) = max_turns s" "ss_turn (next_turn s) = ss_turn s + 1" "ss_choices (next_turn s) = ss_choices s"
  by (simp_all add: next_turn_def max_turns_def)

text \<open>With a bound on its turns a session's loop returns.\<close>

lemma run_rounds_body_returns:
  assumes "max_turns s = Some m"
  shows "\<exists>y. run_rounds_body h s w = Some y"
  using assms
proof (induction "unat m - unat (ss_turn s)" arbitrary: s w rule: less_induct)
  case less
  show ?case
  proof (cases "turns_left s")
    case False
    then show ?thesis by (simp add: run_rounds_body.simps fail_run_def)
  next
    case True
    with less.prems have lt: "ss_turn s < m" by (simp add: turns_left_def)
    obtain x s1 w1 where t: "run_turn h s w = (x, s1, w1)" by (metis prod.exhaust)
    show ?thesis
    proof (cases "x = Inr None")
      case True
      note k = run_turn_ok [OF t [unfolded True]]
      have "max_turns (next_turn s1) = Some m" using k(3) less.prems by (simp add: max_turns_def)
      moreover have "unat m - unat (ss_turn (next_turn s1)) < unat m - unat (ss_turn s)"
        using k(1) unat_succ_less [OF lt] lt by (simp add: word_less_nat_alt)
      ultimately show ?thesis using less.hyps [of "next_turn s1" w1] \<open>turns_left s\<close> t True
        by (simp add: run_rounds_body.simps [of h s w])
    next
      case False
      then show ?thesis using t \<open>turns_left s\<close> by (cases x) (auto simp: run_rounds_body.simps [of h s w] split: option.split)
    qed
  qed
qed

text \<open>Closing interactions says and records nothing.\<close>

definition quiet :: "('n, 'p, 'w) session \<Rightarrow> ('n, 'p, 'w) session \<Rightarrow> bool" where
  "quiet s s' \<longleftrightarrow> run_frame s s' \<and> steady s s' \<and> ss_history s' = ss_history s \<and> ss_events s' = ss_events s"

interpretation quieted: stage_frame quiet
  using framed.refl framed.trans steadied.refl steadied.trans by unfold_locales (auto simp: quiet_def)

lemma close_clients_quiet: "quiet s (snd (close_client_inputs pending all s))"
proof -
  have "quiet s (close_client_input i s)" for i s
    using close_client_keeps [of s i]
    by (auto simp: quiet_def close_client_input_def resolve_interaction_record_def split: option.split)
  then show ?thesis unfolding close_client_inputs_def Let_def snd_conv by (rule quieted.repeat)
qed

lemma answered_quiet: "quiet s s' \<Longrightarrow> run_answered a s0 s \<Longrightarrow> run_answered a s0 s'"
  using steady_budget [of s s'] by (auto simp: quiet_def run_answered_def run_frame_def)

lemma settle_client_quiet: "fst (settle_client h y) = fst y \<and> quiet (fst (snd y)) (fst (snd (settle_client h y)))"
proof -
  obtain r s w where y: "y = (r, s, w)" by (metis prod.exhaust)
  have q: "quiet s (s\<lparr>ss_answering := None\<rparr>)" by (simp add: quiet_def run_frame_def steady_def)
  show ?thesis using quieted.trans [OF q close_clients_quiet] q quieted.refl
    by (auto simp: y settle_client_def Let_def split: prod.split option.split)
qed

lemma run_rounds_result:
  assumes "run_rounds h s w = Some y"
  shows "run_frame s (fst (snd y)) \<and> (case fst y of Inl e \<Rightarrow> True | Inr a \<Rightarrow> run_answered a s (fst (snd y)))"
proof -
  from assms obtain z where z: "run_rounds_body h s w = Some z" "y = settle_client h z" by (auto simp: run_rounds_def)
  have k: "quiet (fst (snd z)) (fst (snd y))" "fst y = fst z" using settle_client_quiet [of h z] z(2) by auto
  show ?thesis using run_rounds_body_result [OF z(1)] k framed.trans [of s "fst (snd z)" "fst (snd y)"] answered_quiet [OF k(1)]
    by (auto simp: quiet_def split: sum.splits)
qed

lemma run_rounds_returns: "max_turns s = Some m \<Longrightarrow> \<exists>y. run_rounds h s w = Some y"
proof -
  assume "max_turns s = Some m"
  from run_rounds_body_returns [OF this] obtain z where "run_rounds_body h s w = Some z" by blast
  then have "run_rounds h s w = Some (settle_client h z)" by (simp add: run_rounds_def)
  then show ?thesis by (rule exI)
qed

section \<open>Waiting for a human\<close>

lemma gate_calls_sound:
  assumes "\<And>w. fst (waits_for_approval h table caller p w)" and "p \<in> set ps"
  shows "cr_call_id (hp_request p) \<in> set (fst (gate_calls h table caller ps w))"
  using assms(2)
proof (induction ps arbitrary: w)
  case (Cons q ps)
  obtain b w1 where b: "waits_for_approval h table caller q w = (b, w1)" by fastforce
  show ?case
  proof (cases "p = q")
    case True
    then have b using assms(1) [of w] b by simp
    with True b show ?thesis by (auto split: prod.split)
  next
    case False
    with Cons have "cr_call_id (hp_request p) \<in> set (fst (gate_calls h table caller ps w1))" by simp
    with b show ?thesis by (auto split: prod.split)
  qed
qed simp

definition is_start :: "string \<times> run_event \<Rightarrow> bool" where
  "is_start e = (case snd e of ToolCallStarted c t \<Rightarrow> True | _ \<Rightarrow> False)"

lemma suspend_round_shape:
  assumes "suspend_round h table ps gated index s w = (r, s', w')"
  shows "\<exists>i rd evs. ss_rounds s' i = Some rd \<and> sr_gated rd = gated \<and> sr_message_index rd = index \<and> list_ex (\<lambda>x. si_id x = i) (ss_open s') \<and>
    ss_tickets s' = ss_tickets s \<and> ss_history s' = ss_history s \<and> ss_events s' = ss_events s @ evs \<and> \<not> list_ex is_start evs \<and>
    r = Inl (Error Contract (if external_calls ps \<noteq> [] then ''run.suspended_for_hook_decision'' else ''run.suspended_for_approval''))"
  using assms
  by (auto simp: suspend_round_def open_interaction_def Let_def is_start_def list_ex_iff split: if_splits)

definition demo_gated_tool :: "(int, string, nat) tool_descriptor" where
  "demo_gated_tool =
     \<lparr>td_name = ''wipe'', td_ceiling = [], td_approval = Some AlwaysRequire, td_backgroundable = False, td_effect = PureEffect,
      td_captures_state = False, td_group = None, td_parallelizable = False, td_deterministic = False, td_enforces_caps = False,
      td_bounds = [], td_prepare = None, td_invoke = (\<lambda>a bound p st w. ((Some (Inr JNull), st), w))\<rparr>"

definition demo_call_message :: chat_message where
  "demo_call_message =
     \<lparr>cm_role = AssistantRole,
      cm_content = [\<lparr>ct_value = CallContent \<lparr>cc_id = ''c1'', cc_tool = ''wipe'', cc_arguments = [], cc_origin = FromAssistant,
        cc_provenance = VendorStructured\<rparr>, ct_origin = FromAssistant, ct_tainted = True\<rparr>], cm_id = []\<rparr>"

definition demo_text_message :: chat_message where
  "demo_text_message =
     \<lparr>cm_role = AssistantRole, cm_content = [\<lparr>ct_value = TextContent ''ok'', ct_origin = FromAssistant, ct_tainted = True\<rparr>], cm_id = []\<rparr>"

text \<open>A host whose model asks for the tool first and answers then; its world counts the model calls.\<close>

definition demo_host :: "(int, string, nat) session_host" where
  "demo_host =
     \<lparr>h_numbers = int_ops, h_approve = None, h_policy = None, h_hook = None, h_middleware = None, h_suspend = True,
      h_unattended = None, h_veto = None, h_stream = False, h_stream_retries = 0, h_static = [], h_pinned = [], h_schema = None,
      h_validate = None, h_secrets = None, h_threshold = None, h_blob_sink = None,
      h_context = (\<lambda>i p history w. (Inr \<lparr>cn_instructions = None, cn_messages = history, cn_tools = [demo_gated_tool]\<rparr>, w)),
      h_filter = (\<lambda>c. c), h_turn_end = (\<lambda>m w. w), h_run_end = (\<lambda>r w. w), h_has_client = True, h_route = Direct,
      h_model = (\<lambda>rq caps deadline w.
        (Inr \<lparr>cp_message = (if w = 0 then demo_call_message else demo_text_message), cp_usage = no_usage\<rparr>, Suc w)),
      h_estimate = (\<lambda>rq. 0), h_client_pending = (\<lambda>w. (None, w)), h_cancel_client = (\<lambda>w. w), h_stop = (\<lambda>w. (False, w)),
      h_new_run = (\<lambda>w. w), h_take_charges = (\<lambda>w. ((no_usage, 0, False), w)), h_seed_answers = (\<lambda>a w. w), h_clock = (\<lambda>w. (0, w)),
      h_sinks = (\<lambda>w. ([], w)), h_schedule_tool = demo_gated_tool, h_attributable = (\<lambda>i. True)\<rparr>"

definition demo_gated_call :: "int hook_processed_call" where
  "demo_gated_call =
     \<lparr>hp_request = \<lparr>cr_call_id = ''c1'', cr_tool_name = ''wipe'', cr_arguments = JObject [], cr_tainted = True, cr_call_index = 0,
        cr_provenance = VendorStructured, cr_parse_error = []\<rparr>, hp_outcome = PassThrough, hp_denial = None\<rparr>"

lemma demo_gated:
  "approval_waits_for_human demo_host"
  "hook_calls demo_host caller (requests_of (h_numbers demo_host) demo_call_message) w = ([demo_gated_call], w)"
  "fst (waits_for_approval demo_host [demo_gated_tool] caller demo_gated_call w)"
  by (simp_all add: approval_waits_for_human_def demo_host_def requests_of_def demo_call_message_def tool_calls_of_def
      map_filter_simps item_call_def tool_call_request_of_def Let_def blank_text_def hook_call_def demo_gated_call_def
      waits_for_approval_def find_tool_def demo_gated_tool_def resolve_approval_outcome_def tool_call_requires_approval_def)

text \<open>C11. A call that needs a decider never runs while the session waits for a human: a round with such a call, one that no
  hook denied and whose arguments parse, is suspended before any of its calls is announced or dispatched and before a handle is
  minted or the history grows. The open interaction records the call among those that wait, and the round.\<close>

theorem human_approval_precedes_dispatch:
  assumes "approval_waits_for_human h" and "hook_calls h (ss_ctx_principal s) (requests_of (h_numbers h) m) w = (ps, w1)"
    and "p \<in> set ps" and "\<And>w. fst (waits_for_approval h table (ss_ctx_principal s) p w)"
  shows "case settle_calls h table m index s w of
    (r, s', w') \<Rightarrow> \<exists>i rd evs.
      r = Inl (Error Contract (if external_calls ps \<noteq> [] then ''run.suspended_for_hook_decision'' else ''run.suspended_for_approval'')) \<and>
      ss_rounds s' i = Some rd \<and> cr_call_id (hp_request p) \<in> set (sr_gated rd) \<and> sr_message_index rd = index \<and>
      list_ex (\<lambda>x. si_id x = i) (ss_open s') \<and> ss_tickets s' = ss_tickets s \<and> ss_history s' = ss_history s \<and>
      ss_events s' = ss_events s @ evs \<and> \<not> list_ex is_start evs"
proof -
  obtain gated w2 where g: "gate_calls h table (ss_ctx_principal s) ps w1 = (gated, w2)" by fastforce
  have c: "cr_call_id (hp_request p) \<in> set gated" using gate_calls_sound [OF assms(4, 3), of w1] g by simp
  obtain r :: "error + agent_response option" and s' w' where u: "suspend_round h table ps gated index s w2 = (r, s', w')" by (metis prod.exhaust)
  have "settle_calls h table m index s w = (r, s', w')" using assms(1, 2) g c u by (auto simp: settle_calls_def)
  then show ?thesis using suspend_round_shape [OF u] c by auto
qed

theorem human_approval_precedes_dispatch_witness:
  "case settle_calls demo_host [demo_gated_tool] demo_call_message 0 demo_session 0 of
    (r, s', w') \<Rightarrow> \<exists>i rd evs. r = Inl (Error Contract ''run.suspended_for_approval'') \<and> ss_rounds s' i = Some rd \<and>
      ''c1'' \<in> set (sr_gated rd) \<and> ss_tickets s' = ss_tickets demo_session \<and> ss_events s' = ss_events demo_session @ evs \<and>
      \<not> list_ex is_start evs"
proof -
  have "demo_gated_call \<in> set [demo_gated_call]" by simp
  from human_approval_precedes_dispatch [OF demo_gated(1, 2) this demo_gated(3), where index = 0 and s = demo_session and w = 0]
  show ?thesis by (auto simp: external_calls_def demo_gated_call_def split: prod.split) blast
qed

end
