(* ===== verification/AgentSession.thy ===== *)
theory AgentSession
  imports SessionRun
begin

text \<open>
  The entry points of a session, \<^verbatim>\<open>start_run\<close> and \<^verbatim>\<open>resolve_interaction\<close> of \<^verbatim>\<open>src/rt/agent_session_core.cpp\<close>, with
  the resolution of every kind of interaction. A call returns an error or a response with the next state, throws, which is the
  error \<open>exception_thrown\<close>, or does not return, which is \<open>None\<close>. The completions of background tasks an entry point drains first are not modelled.
\<close>

section \<open>Starting a run\<close>

definition round_open :: "('n, 'p, 'w) session \<Rightarrow> bool" where
  "round_open s = list_ex (\<lambda>i. si_reason i \<in> {ApprovalReason, CodeActAsk, HookDecision}) (ss_open s)"

definition clear_clients ::
  "('n, 'p, 'w) session_host \<Rightarrow> ('n, 'p, 'w) session \<Rightarrow> 'w \<Rightarrow> (unit, ('n, 'p, 'w) session, 'w) stage" where
  "clear_clients h s w =
     (case h_client_pending h w of
        (None, w1) \<Rightarrow> (Inr (), s, w1)
      | (Some asks, w1) \<Rightarrow>
          (case h_stop h w1 of (stop, w2) \<Rightarrow>
           case close_client_inputs (Some asks) False s of (n, s1) \<Rightarrow>
             (let s2 = (if 0 < n \<and> stop then emit RunCanceled s1 else s1)
              in if asks = [] then (Inr (), s2, w2) else (Inl (Error Contract ''run.client_input_pending''), s2, w2))))"

definition begin_run :: "('n, 'p, 'w) session_host \<Rightarrow> chat_message \<Rightarrow> ('n, 'p, 'w) session \<Rightarrow> ('n, 'p, 'w) session" where
  "begin_run h input s =
     (let n = ss_run_counter s + 1; run = run_id_of (ss_id s) n;
          s1 = s\<lparr>ss_run_counter := n, ss_retries_used := 0, ss_discarded := 0, ss_tokens := 0, ss_usage := no_usage,
                 ss_ctx_run_id := run, ss_ctx_root_run_id := (if ss_inherited_root s = [] then run else ss_inherited_root s),
                 ss_turn := 0, ss_last_run_id := run\<rparr>;
          s2 = emit RunStarted s1;
          s3 = (if h_route h \<noteq> Direct \<or> h_stream h then emit (WarningEvent []) s2 else s2)
      in s3\<lparr>ss_history := ss_history s3 @ [input]\<rparr>)"

definition start_run_locked ::
  "('n, 'p, 'w) session_host \<Rightarrow> chat_message \<Rightarrow> session_caller option \<Rightarrow> request_authority option \<Rightarrow> int \<Rightarrow> ('n, 'p, 'w) session \<Rightarrow> 'w
    \<Rightarrow> (agent_response, ('n, 'p, 'w) session, 'w) stage option" where
  "start_run_locked h input caller authority now s w =
     (case enter caller authority now s of
        (Inl e, s1) \<Rightarrow> Some (Inl e, s1, w)
      | (Inr _, s1) \<Rightarrow>
          if round_open s1 then Some (Inl (Error Contract ''run.approval_pending''), s1, w)
          else case clear_clients h s1 w of
                 (Inl e, s2, w2) \<Rightarrow> Some (Inl e, s2, w2)
               | (Inr _, s2, w2) \<Rightarrow> run_rounds h (begin_run h input s2) (h_new_run h w2))"

text \<open>The run is ended for the template's hook too when an exception leaves the call. What the hook reports comes after the
  event that ended the run.\<close>

definition fire_run_end ::
  "('n, 'p, 'w) session_host \<Rightarrow> (agent_response, ('n, 'p, 'w) session, 'w) stage \<Rightarrow> (agent_response, ('n, 'p, 'w) session, 'w) stage" where
  "fire_run_end h m =
     (case m of (r, s, w) \<Rightarrow>
        (let s0 = (if ss_unwinding s \<and> ss_in_flight s then s\<lparr>ss_in_flight := False, ss_run_end := Some EndException\<rparr> else s);
             s1 = s0\<lparr>ss_unwinding := False\<rparr>
         in case ss_run_end s1 of
              None \<Rightarrow> (r, s1, w)
            | Some reason \<Rightarrow>
                (case drain_sinks h None (s1\<lparr>ss_run_end := None\<rparr>) (h_run_end h reason w) of (s2, w2) \<Rightarrow> (r, s2, w2))))"

definition start_run ::
  "('n, 'p, 'w) session_host \<Rightarrow> chat_message \<Rightarrow> session_caller option \<Rightarrow> request_authority option \<Rightarrow> int \<Rightarrow> ('n, 'p, 'w) session \<Rightarrow> 'w
    \<Rightarrow> (agent_response, ('n, 'p, 'w) session, 'w) stage option" where
  "start_run h input caller authority now s w = map_option (fire_run_end h) (start_run_locked h input caller authority now s w)"

section \<open>Resuming a round\<close>

definition resume_tool_table ::
  "('n, 'p, 'w) session_host \<Rightarrow> ('n, 'p, 'w) suspended_round \<Rightarrow> ('n, 'p, 'w) session \<Rightarrow> 'w
    \<Rightarrow> (('n, 'p, 'w) tool_descriptor list, ('n, 'p, 'w) session, 'w) stage" where
  "resume_tool_table h r s w =
     (case h_context h (ss_id s) (ss_ctx_principal s) (ss_history s) w of
        (Inl e, w1) \<Rightarrow> fail_run e (code e) s w1
      | (Inr c, w1) \<Rightarrow>
          (Inr (filter (\<lambda>d. (find_schedule (run_held s) \<noteq> None \<and> td_name d = ''schedule_wakeup'') \<or>
                            list_ex (\<lambda>x. td_name x = td_name d) (cn_tools c)) (sr_offered r)), s, w1))"

definition finish_hook_processed_round ::
  "('n, 'p, 'w) session_host \<Rightarrow> ('n, 'p, 'w) tool_descriptor list \<Rightarrow> 'w approval_decider option \<Rightarrow> ('n, 'p, 'w) policy_decider option \<Rightarrow>
   'n hook_processed_call list \<Rightarrow> ('n, 'p, 'w) session \<Rightarrow> 'w \<Rightarrow> (agent_response, ('n, 'p, 'w) session, 'w) stage option" where
  "finish_hook_processed_round h table approve policy ps s w =
     (case dispatch_tool_calls h (round_of table approve policy s) (live_requests ps) s w of
        (None, s1, w1) \<Rightarrow> Some (throw_out s1 w1)
      | (Some out, s1, w1) \<Rightarrow>
          (case push_results h (length (ss_history s) - 1) (merge_results ps out) s1 w1 of
             (s2, w2) \<Rightarrow> run_rounds h (next_turn s2) w2))"

section \<open>Resolution requests\<close>

record 'n hook_answer =
  ha_call_id :: string
  ha_approved :: bool
  ha_rewritten :: "'n json option"

record 'n resolve_request =
  rq_id :: string
  rq_approved :: bool
  rq_caller :: "session_caller option"
  rq_answer :: "string option"
  rq_authority :: "request_authority option"
  rq_hook_answers :: "'n hook_answer list option"
  rq_decisions :: "(string \<times> bool) list option"
  rq_approver :: "string option"
  rq_client_answer :: "(chat_message \<times> string list) option"

definition refused :: "string \<Rightarrow> ('n, 'p, 'w) session \<Rightarrow> 'w \<Rightarrow> ('a, ('n, 'p, 'w) session, 'w) stage option" where
  "refused c s w = Some (Inl (Error Contract (''session.'' @ c)), s, w)"

text \<open>The checks of a request that come before anything closes, is announced or runs, in the order of the code.\<close>

definition check_request :: "('n, 'p, 'w) session_host \<Rightarrow> 'n resolve_request \<Rightarrow> interaction_reason \<Rightarrow> string option" where
  "check_request h rq reason =
     (if reason \<in> {InputReason, AuthReason} then Some ''resolve_interaction.unsupported_reason''
      else if (case rq_approver rq of None \<Rightarrow> False | Some a \<Rightarrow> \<not> h_attributable h a) then Some ''resolve_interaction.bad_approver''
      else if rq_decisions rq \<noteq> None \<and> reason \<noteq> ApprovalReason then Some ''resolve_interaction.call_decisions_not_applicable''
      else if rq_client_answer rq \<noteq> None \<and> reason \<noteq> ClientInput then Some ''resolve_interaction.client_answer_not_applicable''
      else if reason = CodeActAsk \<and> rq_answer rq = None then Some ''resolve_interaction.answer_required''
      else if reason = HookDecision \<and> rq_hook_answers rq = None then Some ''hook_decision.missing_answers''
      else None)"

section \<open>Client input\<close>

definition client_answer_message :: "string \<Rightarrow> chat_message" where
  "client_answer_message t =
     \<lparr>cm_role = UserRole, cm_content = [\<lparr>ct_value = TextContent t, ct_origin = FromUser, ct_tainted = False\<rparr>], cm_id = []\<rparr>"

definition answering_of :: "string \<Rightarrow> client_ask \<Rightarrow> chat_message \<Rightarrow> string list \<Rightarrow> u64 \<Rightarrow> answering_client" where
  "answering_of i ask m routes turn =
     \<lparr>aw_interaction = i, aw_client_id = ca_id ask, aw_answer = m\<lparr>cm_role := UserRole\<rparr>, aw_turn_before = turn,
      aw_to_client = \<lparr>cw_id = ca_id ask, cw_response = m, cw_routes = routes\<rparr>, aw_sent = False\<rparr>"

definition resolve_client_input ::
  "('n, 'p, 'w) session_host \<Rightarrow> 'n resolve_request \<Rightarrow> string \<Rightarrow> ('n, 'p, 'w) session \<Rightarrow> 'w
    \<Rightarrow> (agent_response, ('n, 'p, 'w) session, 'w) stage option" where
  "resolve_client_input h rq i s w =
     (case map_of (ss_clients s) i of
        None \<Rightarrow> refused ''resolve_interaction.round_not_recorded'' (snd (close_client_inputs None True s)) (h_cancel_client h w)
      | Some ask \<Rightarrow>
          (case (rq_answer rq, rq_client_answer rq) of
             (None, None) \<Rightarrow> refused ''resolve_interaction.answer_required'' s w
           | (Some _, Some _) \<Rightarrow> refused ''resolve_interaction.ambiguous_answer'' s w
           | (a, ca) \<Rightarrow>
               (let (m, routes) = (case ca of Some x \<Rightarrow> x | None \<Rightarrow> (client_answer_message (the a), []))
                in case h_stop h w of
                     (True, w1) \<Rightarrow> Some (finish_canceled (snd (close_client_inputs None True s)) (h_cancel_client h w1))
                   | (False, w1) \<Rightarrow>
                       (case h_client_pending h w1 of (pending, w2) \<Rightarrow>
                          if \<not> client_holds pending (ca_id ask)
                          then refused ''resolve_interaction.stale'' (snd (close_client_inputs pending False s)) w2
                          else run_rounds h (next_turn (s\<lparr>ss_answering := Some (answering_of i ask m routes (ss_turn s))\<rparr>)) w2))))"

section \<open>Answers to a script\<close>

definition replay_request :: "pending_codeact_ask \<Rightarrow> 'n tool_call_request" where
  "replay_request ask =
     \<lparr>cr_call_id = pk_call_id ask, cr_tool_name = ''execute_code'',
      cr_arguments = JObject [(''code'', JString (pk_source ask)), (''language'', JString (pk_language ask))],
      cr_tainted = False, cr_call_index = 0, cr_provenance = VendorStructured, cr_parse_error = []\<rparr>"

definition replay_allowed ::
  "('n, 'p, 'w) session_host \<Rightarrow> ('n, 'p, 'w) tool_descriptor list \<Rightarrow> pending_codeact_ask \<Rightarrow> principal \<Rightarrow> 'w \<Rightarrow> bool \<times> 'w" where
  "replay_allowed h table ask caller w =
     (if pk_unattended_by ask = None then (True, w)
      else case find_tool table ''execute_code'' of
             None \<Rightarrow> (False, w)
           | Some td \<Rightarrow>
               (case resolve_approval_outcome td TextDerived caller True (h_policy h) w of
                  (Deny, w1) \<Rightarrow> (False, w1)
                | (Proceed, w1) \<Rightarrow> (True, w1)
                | (NeedsDecider, w1) \<Rightarrow>
                    decide (effective_approval_decider h table) caller ''execute_code''
                      (dump (h_numbers h) (cr_arguments (replay_request ask))) w1))"

definition always_approve :: "'w approval_decider" where
  "always_approve caller tool text w = (True, w)"

text \<open>The answers are in force for this one call, unless it throws, which takes them back no more than it revokes handles. A
  refused replay has an audit record of its id alone.\<close>

definition replay_call ::
  "('n, 'p, 'w) session_host \<Rightarrow> ('n, 'p, 'w) tool_descriptor list \<Rightarrow> pending_codeact_ask \<Rightarrow> ('n, 'p, 'w) session \<Rightarrow> 'w
    \<Rightarrow> dispatched_call option \<times> ('n, 'p, 'w) session \<times> 'w" where
  "replay_call h table ask s w =
     (let rq = replay_request ask
      in case replay_allowed h table ask (ss_ctx_principal s) (h_seed_answers h (pk_answers ask) w) of
           (False, w1) \<Rightarrow>
             (case drain_sinks h (Some (cr_call_id rq)) s w1 of (s1, w2) \<Rightarrow>
                (Some \<lparr>dc_result = make_denial_result (cr_call_id rq) ''tool.approval_denied'',
                       dc_audit = (dc_audit no_dispatch)\<lparr>au_call_id := cr_call_id rq\<rparr>\<rparr>, s1, h_seed_answers h [] w2))
         | (True, w1) \<Rightarrow>
             (case h_clock h w1 of (now, w2) \<Rightarrow>
              case invoke_tool (h_numbers h) table (run_held s) rq (tool_context h s None) (Some always_approve) None now
                     (ss_tickets s) w2 of
                ((answer, st), w3) \<Rightarrow>
                  (case drain_sinks h (Some (cr_call_id rq)) (s\<lparr>ss_tickets := st\<rparr>) w3 of (s1, w4) \<Rightarrow>
                   case answer of
                     None \<Rightarrow> (None, s1, w4)
                   | Some (r, audit) \<Rightarrow> (Some \<lparr>dc_result = r, dc_audit = audit\<rparr>, s1, h_seed_answers h [] w4))))"

definition close_ask :: "string \<Rightarrow> ('n, 'p, 'w) session \<Rightarrow> unit result \<times> ('n, 'p, 'w) session" where
  "close_ask i s = resolve_interaction_record i (s\<lparr>ss_asks := (ss_asks s)(i := None)\<rparr>)"

text \<open>After the replay: another question, under the bound on the turns, or the result of the call and the next turn.\<close>

definition settle_replay ::
  "('n, 'p, 'w) session_host \<Rightarrow> string \<Rightarrow> string \<Rightarrow> dispatched_call \<Rightarrow> ('n, 'p, 'w) session \<Rightarrow> 'w
    \<Rightarrow> (agent_response, ('n, 'p, 'w) session, 'w) stage option" where
  "settle_replay h i call_id d s w =
     (if ask_pending d
      then if \<not> turns_left (next_turn s)
           then case close_ask i (next_turn s) of
                  (Inl e, s1) \<Rightarrow> Some (Inl e, s1, w)
                | (Inr _, s1) \<Rightarrow> Some (fail_run (Error Contract ''run.max_turns_exceeded'') ''run.max_turns_exceeded'' s1 w)
           else Some (Inl (Error Contract ''run.suspended_for_codeact_ask''),
                      emit_all [CodeActAskRequested call_id i, InputRequired i] (next_turn s), w)
      else case close_ask i s of
             (Inl e, s1) \<Rightarrow> Some (Inl e, s1, w)
           | (Inr _, s1) \<Rightarrow>
               (case push_results h (length (ss_history s1) - 1) [dc_result d] s1 w of
                  (s2, w2) \<Rightarrow> run_rounds h (next_turn s2) w2))"

definition resolve_codeact_ask ::
  "('n, 'p, 'w) session_host \<Rightarrow> string \<Rightarrow> string \<Rightarrow> ('n, 'p, 'w) suspended_round \<Rightarrow> ('n, 'p, 'w) session \<Rightarrow> 'w
    \<Rightarrow> (agent_response, ('n, 'p, 'w) session, 'w) stage option" where
  "resolve_codeact_ask h i answer r s w =
     (case ss_asks s i of
        None \<Rightarrow>
          Some (Inl (Error Fatal ''session.resolve_interaction.codeact_ask_record_missing''), snd (resolve_interaction_record i s), w)
      | Some ask0 \<Rightarrow>
          (case resume_tool_table h r s w of
             (Inl e, s1, w1) \<Rightarrow> Some (Inl e, s1, w1)
           | (Inr table, s1, w1) \<Rightarrow>
               (let ask = ask0\<lparr>pk_answers := pk_answers ask0 @ [answer]\<rparr>;
                    s2 = emit_all [InputResolved i, ToolCallStarted (pk_call_id ask) ''execute_code''] (s1\<lparr>ss_asks := (ss_asks s1)(i \<mapsto> ask)\<rparr>)
                in case replay_call h table ask s2 w1 of
                     (None, s3, w3) \<Rightarrow> Some (throw_out s3 w3)
                   | (Some d, s3, w3) \<Rightarrow>
                       settle_replay h i (pk_call_id ask) d (emit (ToolCallFinished (au_call_id (dc_audit d)) (dc_result d)) s3) w3)))"

section \<open>Answers of a hook's process\<close>

fun fold_hook_answers :: "'n num_ops \<Rightarrow> 'n hook_answer list \<Rightarrow> 'n hook_processed_call list \<Rightarrow> 'n hook_processed_call list option" where
  "fold_hook_answers nm answers [] = Some []"
| "fold_hook_answers nm answers (p # ps) =
     (case (if hp_outcome p \<noteq> NeedsExternalDispatch then Some p
            else case List.find (\<lambda>a. ha_call_id a = cr_call_id (hp_request p)) answers of
                   None \<Rightarrow> None
                 | Some a \<Rightarrow>
                     Some (if \<not> ha_approved a
                           then p\<lparr>hp_outcome := Denied, hp_denial := Some (make_denial_result (cr_call_id (hp_request p)) ''tool.hook_denied'')\<rparr>
                           else p\<lparr>hp_outcome := PassThrough,
                                  hp_request := enforce_hook_rewritten_tool_call_provenance nm (cr_arguments (hp_request p))
                                    (case ha_rewritten a of None \<Rightarrow> hp_request p | Some args \<Rightarrow> (hp_request p)\<lparr>cr_arguments := args\<rparr>)\<rparr>)) of
        None \<Rightarrow> None
      | Some p1 \<Rightarrow> map_option ((#) p1) (fold_hook_answers nm answers ps))"

definition cascade_to_approval ::
  "('n, 'p, 'w) session_host \<Rightarrow> ('n, 'p, 'w) tool_descriptor list \<Rightarrow> 'n hook_processed_call list \<Rightarrow> nat \<Rightarrow> ('n, 'p, 'w) session \<Rightarrow> 'w
    \<Rightarrow> ('a, ('n, 'p, 'w) session, 'w) stage" where
  "cascade_to_approval h table ps index s w =
     (case open_interaction ApprovalReason s of (i, s1) \<Rightarrow>
      case gate_calls h table (ss_ctx_principal s1) ps w of (gated, w1) \<Rightarrow>
        (Inl (Error Contract ''run.suspended_for_approval''),
         emit_all (InputRequired i # map (\<lambda>c. ApprovalRequested c i) gated)
           (s1\<lparr>ss_hooks := (ss_hooks s1)(i \<mapsto> \<lparr>ph_calls = ps, ph_requested = gated\<rparr>),
               ss_rounds := (ss_rounds s1)(i \<mapsto> \<lparr>sr_offered = table, sr_gated = [], sr_message_index = index\<rparr>)\<rparr>), w1))"

definition resolve_hook_decision ::
  "('n, 'p, 'w) session_host \<Rightarrow> string \<Rightarrow> 'n hook_answer list \<Rightarrow> ('n, 'p, 'w) suspended_round \<Rightarrow> ('n, 'p, 'w) session \<Rightarrow> 'w
    \<Rightarrow> (agent_response, ('n, 'p, 'w) session, 'w) stage option" where
  "resolve_hook_decision h i answers r s w =
     (case ss_hooks s i of
        None \<Rightarrow> refused ''hook_decision.unknown'' s w
      | Some stored \<Rightarrow>
          (case fold_hook_answers (h_numbers h) answers (ph_calls stored) of
             None \<Rightarrow> refused ''hook_decision.incomplete'' s w
           | Some ps \<Rightarrow>
               (case resolve_interaction_record i s of
                  (Inl e, s1) \<Rightarrow> Some (Inl e, s1, w)
                | (Inr _, s1) \<Rightarrow>
                    (case resume_tool_table h r (emit (InputResolved i) (s1\<lparr>ss_hooks := (ss_hooks s1)(i := None)\<rparr>)) w of
                       (Inl e, s2, w2) \<Rightarrow> Some (Inl e, s2, w2)
                     | (Inr table, s2, w2) \<Rightarrow>
                         (case (if approval_waits_for_human h then any_waits h table (ss_ctx_principal s2) ps w2 else (False, w2)) of
                            (True, w3) \<Rightarrow> Some (cascade_to_approval h table ps (sr_message_index r) s2 w3)
                          | (False, w3) \<Rightarrow>
                              finish_hook_processed_round h table (effective_approval_decider h table) (h_policy h) ps s2 w3)))))"

section \<open>Approvals\<close>

fun check_decisions :: "string list \<Rightarrow> string list \<Rightarrow> (string \<times> bool) list \<Rightarrow> string option" where
  "check_decisions asked seen [] = None"
| "check_decisions asked seen ((i, b) # ds) =
     (if i \<notin> set asked then Some ''resolve_interaction.call_not_pending''
      else if i \<in> set seen then Some ''resolve_interaction.duplicate_call_decision''
      else check_decisions asked (i # seen) ds)"

definition decision_for :: "'n resolve_request \<Rightarrow> string \<Rightarrow> bool" where
  "decision_for rq i =
     (case rq_decisions rq of
        None \<Rightarrow> rq_approved rq
      | Some ds \<Rightarrow> (case map_of ds i of None \<Rightarrow> rq_approved rq | Some b \<Rightarrow> b))"

definition settle_decision :: "'n resolve_request \<Rightarrow> string list \<Rightarrow> 'n hook_processed_call \<Rightarrow> 'n hook_processed_call" where
  "settle_decision rq asked p =
     (let i = cr_call_id (hp_request p)
      in if hp_outcome p \<noteq> Denied \<and> i \<in> set asked \<and> \<not> decision_for rq i
         then p\<lparr>hp_outcome := Denied, hp_denial := Some (make_denial_result i ''tool.approval_denied'')\<rparr> else p)"

definition approved_exact :: "'n num_ops \<Rightarrow> string list \<Rightarrow> 'n hook_processed_call list \<Rightarrow> (string \<times> string) list" where
  "approved_exact nm asked ps =
     map (\<lambda>p. (cr_tool_name (hp_request p), dump nm (cr_arguments (hp_request p))))
       (filter (\<lambda>p. hp_outcome p \<noteq> Denied \<and> cr_call_id (hp_request p) \<in> set asked) ps)"

definition approve_exact :: "(string \<times> string) list \<Rightarrow> 'w approval_decider option \<Rightarrow> 'w approval_decider" where
  "approve_exact approved fallback caller tool text w =
     (if (tool, text) \<in> set approved then (True, w) else decide fallback caller tool text w)"

definition resolve_approval ::
  "('n, 'p, 'w) session_host \<Rightarrow> 'n resolve_request \<Rightarrow> string \<Rightarrow> ('n, 'p, 'w) suspended_round \<Rightarrow> ('n, 'p, 'w) session \<Rightarrow> 'w
    \<Rightarrow> (agent_response, ('n, 'p, 'w) session, 'w) stage option" where
  "resolve_approval h rq i r s w =
     (let asked = (case ss_hooks s i of None \<Rightarrow> sr_gated r | Some stored \<Rightarrow> ph_requested stored);
          ps = (case ss_hooks s i of
                  Some stored \<Rightarrow> ph_calls stored
                | None \<Rightarrow> map (\<lambda>q. \<lparr>hp_request = q, hp_outcome = PassThrough, hp_denial = None\<rparr>)
                            (requests_of (h_numbers h) (last (ss_history s))))
      in case check_decisions asked [] (case rq_decisions rq of None \<Rightarrow> [] | Some ds \<Rightarrow> ds) of
           Some c \<Rightarrow> refused c s w
         | None \<Rightarrow>
             (case resolve_interaction_record i (s\<lparr>ss_hooks := (ss_hooks s)(i := None)\<rparr>) of
                (Inl e, s1) \<Rightarrow> Some (Inl e, s1, w)
              | (Inr _, s1) \<Rightarrow>
                  (let s2 = emit_all (InputResolved i # map (\<lambda>c. ApprovalResolved c (decision_for rq c)) asked) s1;
                       qs = map (settle_decision rq asked) ps
                   in if live_requests qs = [] then finish_hook_processed_round h [] None None qs s2 w
                      else case resume_tool_table h r s2 w of
                             (Inl e, s3, w3) \<Rightarrow> Some (Inl e, s3, w3)
                           | (Inr table, s3, w3) \<Rightarrow>
                               finish_hook_processed_round h table
                                 (Some (approve_exact (approved_exact (h_numbers h) asked qs) (effective_approval_decider h table)))
                                 (h_policy h) qs s3 w3)))"

section \<open>Resolving an interaction\<close>

definition close_orphan :: "string \<Rightarrow> ('n, 'p, 'w) session \<Rightarrow> ('n, 'p, 'w) session" where
  "close_orphan i s = snd (resolve_interaction_record i (s\<lparr>ss_hooks := (ss_hooks s)(i := None), ss_asks := (ss_asks s)(i := None)\<rparr>))"

definition resolve_round ::
  "('n, 'p, 'w) session_host \<Rightarrow> 'n resolve_request \<Rightarrow> interaction_reason \<Rightarrow> string \<Rightarrow> ('n, 'p, 'w) session \<Rightarrow> 'w
    \<Rightarrow> (agent_response, ('n, 'p, 'w) session, 'w) stage option" where
  "resolve_round h rq reason i s w =
     (case ss_rounds s i of
        None \<Rightarrow> refused ''resolve_interaction.round_not_recorded'' (close_orphan i s) w
      | Some r \<Rightarrow>
          if ss_history s = [] \<or> cm_role (last (ss_history s)) \<noteq> AssistantRole \<or> sr_message_index r \<noteq> length (ss_history s) - 1
          then refused ''resolve_interaction.stale'' s w
          else if tool_calls_of (last (ss_history s)) = [] then refused ''resolve_interaction.nothing_pending'' s w
          else if reason = CodeActAsk then resolve_codeact_ask h i (the (rq_answer rq)) r s w
          else if reason = HookDecision then resolve_hook_decision h i (the (rq_hook_answers rq)) r s w
          else resolve_approval h rq i r s w)"

definition resolve_interaction_locked ::
  "('n, 'p, 'w) session_host \<Rightarrow> 'n resolve_request \<Rightarrow> int \<Rightarrow> ('n, 'p, 'w) session \<Rightarrow> 'w
    \<Rightarrow> (agent_response, ('n, 'p, 'w) session, 'w) stage option" where
  "resolve_interaction_locked h rq now s w =
     (case enter (rq_caller rq) (rq_authority rq) now s of
        (Inl e, s1) \<Rightarrow> Some (Inl e, s1, w)
      | (Inr _, s1) \<Rightarrow>
          (case find_interaction (rq_id rq) s1 of
             None \<Rightarrow> refused ''resolve_interaction.unknown_id'' s1 w
           | Some it \<Rightarrow>
               (case check_request h rq (si_reason it) of
                  Some c \<Rightarrow> refused c s1 w
                | None \<Rightarrow>
                    if si_reason it = ClientInput then resolve_client_input h rq (rq_id rq) s1 w
                    else resolve_round h rq (si_reason it) (rq_id rq) s1 w)))"

definition resolve_interaction ::
  "('n, 'p, 'w) session_host \<Rightarrow> 'n resolve_request \<Rightarrow> int \<Rightarrow> ('n, 'p, 'w) session \<Rightarrow> 'w
    \<Rightarrow> (agent_response, ('n, 'p, 'w) session, 'w) stage option" where
  "resolve_interaction h rq now s w = map_option (fire_run_end h) (resolve_interaction_locked h rq now s w)"

section \<open>What a call of a session keeps\<close>

text \<open>The same identity and authority, and a history and events that only grow.\<close>

definition session_frame :: "('n, 'p, 'w) session \<Rightarrow> ('n, 'p, 'w) session \<Rightarrow> bool" where
  "session_frame s s' \<longleftrightarrow>
     ss_id s' = ss_id s \<and> ss_principal s' = ss_principal s \<and> ss_caps s' = ss_caps s \<and> ss_choices s' = ss_choices s \<and>
     ss_ctx_principal s' = ss_ctx_principal s \<and> ss_ctx_caps s' = ss_ctx_caps s \<and> ss_ctx_source s' = ss_ctx_source s \<and>
     ss_ctx_expires s' = ss_ctx_expires s \<and> prefix (ss_history s) (ss_history s') \<and> prefix (ss_events s) (ss_events s')"

interpretation sessioned: stage_frame session_frame
  by unfold_locales (auto simp: session_frame_def intro: prefix_order.trans)

lemma run_session_frame: "run_frame s s' \<Longrightarrow> session_frame s s'"
  by (simp add: run_frame_def session_frame_def)

definition call_outcome :: "('n, 'p, 'w) session \<Rightarrow> (agent_response, ('n, 'p, 'w) session, 'w) stage option \<Rightarrow> bool" where
  "call_outcome s m =
     (case m of
        None \<Rightarrow> max_turns s = None
      | Some (r, s', w') \<Rightarrow> session_frame s s' \<and> (case r of Inl e \<Rightarrow> True | Inr a \<Rightarrow> run_answered a s s'))"

lemma outcome_error: "session_frame s s' \<Longrightarrow> call_outcome s (Some (Inl e, s', w))"
  by (simp add: call_outcome_def)

lemma outcome_refused: "session_frame s s' \<Longrightarrow> call_outcome s (refused c s' w)"
  by (simp add: refused_def outcome_error)

lemma outcome_stage_error:
  "session_frame s s1 \<Longrightarrow> run_frame s1 (fst (snd m)) \<Longrightarrow> fst m = Inl e \<Longrightarrow> call_outcome s (Some m)"
  using sessioned.trans [OF _ run_session_frame, of s s1 "fst (snd m)"] by (cases m) (simp add: call_outcome_def)

lemma outcome_run_rounds:
  assumes "session_frame s s1"
  shows "call_outcome s (run_rounds h s1 w)"
proof (cases "run_rounds h s1 w")
  case None
  then show ?thesis using run_rounds_returns [of s1 _ h w] assms
    by (cases "max_turns s1") (auto simp: call_outcome_def session_frame_def max_turns_def)
next
  case (Some y)
  obtain r s' w' where y: "y = (r, s', w')" by (metis prod.exhaust)
  have "prefix (ss_events s) (ss_events s1)" using assms by (simp add: session_frame_def)
  from answered_since [OF _ this] show ?thesis
    using run_rounds_result [OF Some] sessioned.trans [OF assms run_session_frame, of s'] Some y
    by (auto simp: call_outcome_def split: sum.splits)
qed

lemma session_steps [simp]: "session_frame s (next_turn s')  \<longleftrightarrow> session_frame s s'"
  "session_frame s (s'\<lparr>ss_asks := x\<rparr>) \<longleftrightarrow> session_frame s s'" "session_frame s (s'\<lparr>ss_hooks := y\<rparr>) \<longleftrightarrow> session_frame s s'"
  "session_frame s (s'\<lparr>ss_answering := z\<rparr>) \<longleftrightarrow> session_frame s s'" "session_frame s (s'\<lparr>ss_rounds := q\<rparr>) \<longleftrightarrow> session_frame s s'"
  "session_frame s (s'\<lparr>ss_tickets := u\<rparr>) \<longleftrightarrow> session_frame s s'" "session_frame s (s'\<lparr>ss_run_end := v\<rparr>) \<longleftrightarrow> session_frame s s'"
  "session_frame s (s'\<lparr>ss_unwinding := b\<rparr>) \<longleftrightarrow> session_frame s s'" "session_frame s (s'\<lparr>ss_in_flight := b\<rparr>) \<longleftrightarrow> session_frame s s'"
  by (simp_all add: session_frame_def next_turn_def)

lemma session_emit: "session_frame s s' \<Longrightarrow> session_frame s (emit ev s')" "session_frame s s' \<Longrightarrow> session_frame s (emit_all evs s')"
  by (auto simp: session_frame_def)

lemma session_drain: "session_frame s s' \<Longrightarrow> drain_sinks h c s' w = (s1, w1) \<Longrightarrow> session_frame s s1"
  using sessioned.trans [OF _ run_session_frame [OF drain_keeps(1)], of s s' h c w] by simp

lemma outcome_throw: "session_frame s s' \<Longrightarrow> call_outcome s (Some (throw_out s' w))"
  by (simp add: throw_out_def outcome_error)

lemma session_record: "session_frame s s' \<Longrightarrow> resolve_interaction_record i s' = (x, s1) \<Longrightarrow> session_frame s s1"
  using sessioned.trans [OF _ run_session_frame [OF record_keeps(1)], of s s' i] by simp

lemma session_record_snd: "session_frame s s' \<Longrightarrow> session_frame s (snd (resolve_interaction_record i s'))"
  using sessioned.trans [OF _ run_session_frame [OF record_keeps(1)]] by blast

lemma resume_tool_table_keeps: "run_frame s (fst (snd (resume_tool_table h r s w)))"
  by (auto simp: resume_tool_table_def keeps framed.refl split: prod.split sum.split)

lemma session_resume:
  "session_frame s s' \<Longrightarrow> resume_tool_table h r s' w = (x, s1, w1) \<Longrightarrow> session_frame s s1"
  using sessioned.trans [OF _ run_session_frame [OF resume_tool_table_keeps], of s s' h r w] by simp

lemma outcome_finish:
  assumes "session_frame s s'"
  shows "call_outcome s (finish_hook_processed_round h table approve policy ps s' w)"
proof -
  obtain x s1 w1 where d: "dispatch_tool_calls h (round_of table approve policy s') (live_requests ps) s' w = (x, s1, w1)"
    by (metis prod.exhaust)
  have f: "session_frame s s1" using sessioned.trans [OF assms run_session_frame [OF dispatch_keeps(1) [OF d]]] .
  show ?thesis
  proof (cases x)
    case None
    with d f show ?thesis by (simp add: finish_hook_processed_round_def outcome_throw)
  next
    case (Some out)
    obtain s2 w2 where p: "push_results h (length (ss_history s') - 1) (merge_results ps out) s1 w1 = (s2, w2)" by fastforce
    have "run_frame s1 s2" using push_results_keeps(1) [of s1 h "length (ss_history s') - 1" "merge_results ps out" w1] p by simp
    then have "session_frame s (next_turn s2)" using sessioned.trans [OF f run_session_frame] by simp
    from outcome_run_rounds [OF this] d p Some show ?thesis by (simp add: finish_hook_processed_round_def)
  qed
qed

lemma outcome_client_input: "session_frame s s' \<Longrightarrow> call_outcome s (resolve_client_input h rq i s' w)"
proof -
  assume f: "session_frame s s'"
  have c: "session_frame s (snd (close_client_inputs pending all s'))" for pending all
    using sessioned.trans [OF f run_session_frame [OF close_clients_keeps(1)]] .
  have e: "call_outcome s (Some (finish_canceled (snd (close_client_inputs None True s')) w))" for w
    using outcome_error [OF session_emit(1) [OF c]] by (simp add: finish_canceled_def)
  note o = outcome_refused [OF c] outcome_refused [OF f] e outcome_run_rounds f
  show ?thesis
    unfolding resolve_client_input_def Let_def
    by (auto simp: o split: option.split prod.split bool.split)
qed

lemma session_replay:
  assumes "session_frame s s'" and "replay_call h table ask s' w = (d, s1, w1)"
  shows "session_frame s s1"
  using assms by (auto simp: replay_call_def Let_def split: prod.splits bool.splits option.splits dest!: session_drain [rotated])

lemma session_close_ask: "session_frame s s' \<Longrightarrow> close_ask i s' = (x, s1) \<Longrightarrow> session_frame s s1"
  by (auto simp: close_ask_def dest: session_record [rotated])

lemma session_push:
  "session_frame s s' \<Longrightarrow> push_results h first rs s' w = (s1, w1) \<Longrightarrow> session_frame s s1"
  using sessioned.trans [OF _ run_session_frame [OF push_results_keeps(1)], of s s' h first rs w] by simp

lemma outcome_fail: "session_frame s s' \<Longrightarrow> call_outcome s (Some (fail_run e c s' w))"
  by (simp add: fail_run_def outcome_error session_emit)

lemma outcome_settle_replay:
  assumes "session_frame s s'"
  shows "call_outcome s (settle_replay h i c d s' w)"
proof (cases "ask_pending d")
  case True
  obtain x s1 where k: "close_ask i (next_turn s') = (x, s1)" by fastforce
  have "session_frame s s1" using session_close_ask [OF _ k] assms by simp
  then show ?thesis using True k assms
    by (cases x) (simp_all add: settle_replay_def outcome_error outcome_fail session_emit)
next
  case False
  obtain x s1 where k: "close_ask i s' = (x, s1)" by fastforce
  note f = session_close_ask [OF assms k]
  obtain s2 w2 where p: "push_results h (length (ss_history s1) - 1) [dc_result d] s1 w = (s2, w2)" by fastforce
  have "session_frame s (next_turn s2)" using session_push [OF f p] by simp
  then show ?thesis using False k p f by (cases x) (simp_all add: settle_replay_def outcome_error outcome_run_rounds)
qed

lemma outcome_codeact_ask:
  assumes "session_frame s s'"
  shows "call_outcome s (resolve_codeact_ask h i answer r s' w)"
proof (cases "ss_asks s' i")
  case None
  then show ?thesis using outcome_error [OF session_record_snd [OF assms]] by (simp add: resolve_codeact_ask_def)
next
  case (Some ask0)
  obtain x s1 w1 where t: "resume_tool_table h r s' w = (x, s1, w1)" by (metis prod.exhaust)
  note f1 = session_resume [OF assms t]
  show ?thesis
  proof (cases x)
    case (Inl e)
    with Some t f1 show ?thesis by (simp add: resolve_codeact_ask_def outcome_error)
  next
    case (Inr table)
    define ask where "ask = ask0\<lparr>pk_answers := pk_answers ask0 @ [answer]\<rparr>"
    define s2 where "s2 = emit_all [InputResolved i, ToolCallStarted (pk_call_id ask) ''execute_code''] (s1\<lparr>ss_asks := (ss_asks s1)(i \<mapsto> ask)\<rparr>)"
    obtain d s3 w3 where d: "replay_call h table ask s2 w1 = (d, s3, w3)" by (metis prod.exhaust)
    have "session_frame s s2" unfolding s2_def by (rule session_emit(2)) (simp add: f1)
    note f3 = session_replay [OF this d]
    from Some t Inr have "resolve_codeact_ask h i answer r s' w =
      (case replay_call h table ask s2 w1 of (None, s3, w3) \<Rightarrow> Some (throw_out s3 w3) | (Some d, s3, w3) \<Rightarrow>
         settle_replay h i (pk_call_id ask) d (emit (ToolCallFinished (au_call_id (dc_audit d)) (dc_result d)) s3) w3)"
      by (simp add: resolve_codeact_ask_def Let_def ask_def s2_def split: prod.split option.split)
    with d show ?thesis using outcome_settle_replay [OF session_emit(1) [OF f3]] outcome_throw [OF f3] by (cases d) simp_all
  qed
qed

lemma cascade_keeps: "run_frame s (fst (snd (cascade_to_approval h table ps index s w)))" "\<exists>e. fst (cascade_to_approval h table ps index s w) = Inl e"
  by (simp_all add: cascade_to_approval_def open_interaction_def Let_def run_frame_def split: prod.split)

lemma outcome_hook_decision:
  assumes "session_frame s s'"
  shows "call_outcome s (resolve_hook_decision h i answers r s' w)"
proof -
  obtain x s1 where c: "resolve_interaction_record i s' = (x, s1)" by fastforce
  note f1 = session_record [OF assms c]
  obtain y s2 w2 where t: "resume_tool_table h r (emit (InputResolved i) (s1\<lparr>ss_hooks := (ss_hooks s1)(i := None)\<rparr>)) w = (y, s2, w2)"
    by (metis prod.exhaust)
  have "session_frame s (emit (InputResolved i) (s1\<lparr>ss_hooks := (ss_hooks s1)(i := None)\<rparr>))" by (rule session_emit(1)) (simp add: f1)
  note f2 = session_resume [OF this t]
  have cascade: "call_outcome s (Some (cascade_to_approval h table ps index s2 w))" for table ps index w
    using cascade_keeps [where s = s2 and h = h] outcome_stage_error [OF f2] by blast
  show ?thesis
    using c t by (auto simp: resolve_hook_decision_def outcome_refused [OF assms] outcome_error [OF f1] outcome_error [OF f2] cascade
        outcome_finish [OF f2] split: option.split sum.split prod.split bool.split)
qed

lemma outcome_approval:
  assumes "session_frame s s'"
  shows "call_outcome s (resolve_approval h rq i r s' w)"
proof -
  define s0 where "s0 = s'\<lparr>ss_hooks := (ss_hooks s')(i := None)\<rparr>"
  obtain x s1 where c: "resolve_interaction_record i s0 = (x, s1)" by fastforce
  have "session_frame s s0" using assms by (simp add: s0_def)
  note f1 = session_record [OF this c]
  have f2: "session_frame s (emit_all evs s1)" for evs by (rule session_emit(2) [OF f1])
  show ?thesis
    unfolding resolve_approval_def Let_def s0_def [symmetric] c
    by (auto simp: outcome_refused [OF assms] outcome_error [OF f1] outcome_finish [OF f2]
        split: option.split sum.split prod.split intro: outcome_error outcome_finish dest: session_resume [OF f2])
qed

lemma outcome_resolve_round:
  assumes "session_frame s s'"
  shows "call_outcome s (resolve_round h rq reason i s' w)"
proof -
  have "session_frame s (close_orphan i s')" unfolding close_orphan_def by (rule session_record_snd) (simp add: assms)
  then show ?thesis using assms
    by (auto simp: resolve_round_def outcome_refused outcome_codeact_ask outcome_hook_decision outcome_approval split: option.split)
qed

lemma clear_clients_keeps: "run_frame s (fst (snd (clear_clients h s w)))"
proof -
  obtain pending w1 where p: "h_client_pending h w = (pending, w1)" by fastforce
  obtain stop w2 where q: "h_stop h w1 = (stop, w2)" by fastforce
  show ?thesis
  proof (cases pending)
    case (Some asks)
    obtain n s1 where c: "close_client_inputs (Some asks) False s = (n, s1)" by fastforce
    have "run_frame s s1" using close_clients_keeps(1) [where s = s and pending = "Some asks" and all = False] c by simp
    then show ?thesis using p q c Some framed.trans [OF _ emit_keeps(1), of s s1 RunCanceled] by (simp add: clear_clients_def Let_def)
  qed (use p in \<open>simp add: clear_clients_def framed.refl\<close>)
qed

lemma outcome_start:
  assumes "session_frame s s1"
  shows "call_outcome s (case clear_clients h s1 w of
    (Inl e, s2, w2) \<Rightarrow> Some (Inl e, s2, w2) | (Inr _, s2, w2) \<Rightarrow> run_rounds h (begin_run h input s2) (h_new_run h w2))"
proof -
  obtain x s2 w2 where c: "clear_clients h s1 w = (x, s2, w2)" by (metis prod.exhaust)
  have f: "session_frame s s2" using sessioned.trans [OF assms run_session_frame [OF clear_clients_keeps [of s1 h w]]] c by simp
  have "session_frame s2 (begin_run h input s2)" by (simp add: begin_run_def Let_def session_frame_def)
  with f have "session_frame s (begin_run h input s2)" by (rule sessioned.trans)
  with f c show ?thesis by (cases x) (simp_all add: outcome_error outcome_run_rounds)
qed

lemma answered_fields [simp]:
  "run_answered a s0 (s\<lparr>ss_unwinding := b\<rparr>) = run_answered a s0 s" "run_answered a s0 (s\<lparr>ss_in_flight := b\<rparr>) = run_answered a s0 s"
  "run_answered a s0 (s\<lparr>ss_run_end := v\<rparr>) = run_answered a s0 s"
  by (simp_all add: run_answered_def over_budget_def token_budget_limit_def cong: option.case_cong)

lemma answered_drain:
  assumes "run_answered a s0 s" and "drain_sinks h c s w = (s1, w1)"
  shows "run_answered a s0 s1"
proof -
  from assms(2) obtain evs where e: "list_all side_kind evs" "s1 = s\<lparr>ss_events := ss_events s @ map (Pair (ss_ctx_run_id s)) evs\<rparr>"
    by (rule drain_sinks_appends)
  from assms(1) obtain earlier late where
    l: "ss_events s = earlier @ (ss_ctx_run_id s, RunFinished) # map (Pair (ss_ctx_run_id s)) late"
    "prefix (ss_events s0) earlier" "list_all side_kind late" by (auto simp: run_answered_def)
  then have "ss_events s1 = earlier @ (ss_ctx_run_id s1, RunFinished) # map (Pair (ss_ctx_run_id s1)) (late @ evs)"
    "list_all side_kind (late @ evs)" using e by simp_all
  with l(2) have "\<exists>earlier late. ss_events s1 = earlier @ (ss_ctx_run_id s1, RunFinished) # map (Pair (ss_ctx_run_id s1)) late \<and>
      prefix (ss_events s0) earlier \<and> list_all side_kind late" by blast
  moreover have "over_budget s1 = over_budget s" "ss_history s1 = ss_history s"
    using e(2) by (simp_all add: over_budget_def token_budget_limit_def cong: option.case_cong)
  ultimately show ?thesis using assms(1) by (simp add: run_answered_def)
qed

lemma outcome_fire: "call_outcome s m \<Longrightarrow> call_outcome s (map_option (fire_run_end h) m)"
  by (auto simp: call_outcome_def fire_run_end_def Let_def split: option.splits sum.splits prod.splits if_splits
      elim!: session_drain [rotated] answered_drain [rotated])

section \<open>Calls of a session\<close>

text \<open>The two entry points as one kind of call, and sequences of calls.\<close>

datatype 'n session_call =
    StartRun chat_message "session_caller option" "request_authority option" int
  | ResolveInteraction "'n resolve_request" int

fun session_step ::
  "('n, 'p, 'w) session_host \<Rightarrow> 'n session_call \<Rightarrow> ('n, 'p, 'w) session \<Rightarrow> 'w
    \<Rightarrow> (agent_response, ('n, 'p, 'w) session, 'w) stage option" where
  "session_step h (StartRun input caller authority now) s w = start_run h input caller authority now s w"
| "session_step h (ResolveInteraction rq now) s w = resolve_interaction h rq now s w"

fun enter_for :: "'n session_call \<Rightarrow> ('n, 'p, 'w) session \<Rightarrow> unit result \<times> ('n, 'p, 'w) session" where
  "enter_for (StartRun input caller authority now) s = enter caller authority now s"
| "enter_for (ResolveInteraction rq now) s = enter (rq_caller rq) (rq_authority rq) now s"

fun session_calls ::
  "('n, 'p, 'w) session_host \<Rightarrow> 'n session_call list \<Rightarrow> ('n, 'p, 'w) session \<Rightarrow> 'w \<Rightarrow> (('n, 'p, 'w) session \<times> 'w) option" where
  "session_calls h [] s w = Some (s, w)"
| "session_calls h (c # cs) s w =
     (case session_step h c s w of None \<Rightarrow> None | Some (r, s1, w1) \<Rightarrow> session_calls h cs s1 w1)"

lemma outcome_step:
  assumes "enter_for c s = (x, s1)"
  shows "call_outcome s1 (session_step h c s w)"
proof (cases c)
  case (StartRun input caller authority now)
  have "call_outcome s1 (start_run_locked h input caller authority now s w)"
    using assms outcome_start [OF sessioned.refl [of s1], where h = h and w = w and input = input] outcome_error [OF sessioned.refl, of s1]
    by (cases x) (auto simp: StartRun start_run_locked_def)
  then show ?thesis by (simp add: StartRun start_run_def outcome_fire)
next
  case (ResolveInteraction rq now)
  have "call_outcome s1 (resolve_interaction_locked h rq now s w)"
    using assms by (cases x) (auto simp: ResolveInteraction resolve_interaction_locked_def outcome_error outcome_refused
        outcome_client_input outcome_resolve_round sessioned.refl split: option.split)
  then show ?thesis by (simp add: ResolveInteraction resolve_interaction_def outcome_fire)
qed

lemma enter_for_keeps:
  assumes "enter_for c s = (x, s1)"
  shows "ss_history s1 = ss_history s" "ss_events s1 = ss_events s" "ss_choices s1 = ss_choices s"
    "ss_principal s1 = ss_principal s" "ss_id s1 = ss_id s" "ss_caps s1 = ss_caps s"
  using assms by (cases c; simp add: enter_keeps)+

text \<open>What no call changes.\<close>

definition fixed_by_calls :: "('n, 'p, 'w) session \<Rightarrow> ('n, 'p, 'w) session \<Rightarrow> bool" where
  "fixed_by_calls s s' \<longleftrightarrow>
     ss_id s' = ss_id s \<and> ss_principal s' = ss_principal s \<and> ss_caps s' = ss_caps s \<and> ss_choices s' = ss_choices s \<and>
     prefix (ss_history s) (ss_history s') \<and> prefix (ss_events s) (ss_events s')"

interpretation called: stage_frame fixed_by_calls
  by unfold_locales (auto simp: fixed_by_calls_def intro: prefix_order.trans)

lemma step_fixed: "session_step h c s w = Some (r, s', w') \<Longrightarrow> fixed_by_calls s s'"
proof -
  assume h: "session_step h c s w = Some (r, s', w')"
  obtain x s1 where e: "enter_for c s = (x, s1)" by fastforce
  show ?thesis using outcome_step [OF e, of h w] h enter_for_keeps [OF e]
    by (simp add: call_outcome_def session_frame_def fixed_by_calls_def)
qed

lemma calls_fixed: "session_calls h cs s w = Some (s', w') \<Longrightarrow> fixed_by_calls s s'"
proof (induction cs arbitrary: s w)
  case Nil
  then show ?case by (simp add: called.refl)
next
  case (Cons c cs)
  then obtain r s1 w1 where a: "session_step h c s w = Some (r, s1, w1)" and b: "session_calls h cs s1 w1 = Some (s', w')"
    by (auto split: option.splits prod.splits)
  show ?case by (rule called.trans [OF step_fixed [OF a] Cons.IH [OF b]])
qed

lemma session_calls_returns:
  assumes "max_turns s = Some m"
  shows "\<exists>s' w'. session_calls h cs s w = Some (s', w')"
  using assms
proof (induction cs arbitrary: s w)
  case (Cons c cs)
  obtain x s1 where e: "enter_for c s = (x, s1)" by fastforce
  have "max_turns s1 = Some m" using enter_for_keeps(3) [OF e] Cons.prems by (simp add: max_turns_def)
  then obtain r s2 w2 where step: "session_step h c s w = Some (r, s2, w2)"
    using outcome_step [OF e, of h w] by (auto simp: call_outcome_def split: option.splits)
  moreover have "max_turns s2 = Some m" using step_fixed [OF step] Cons.prems by (simp add: fixed_by_calls_def max_turns_def)
  ultimately show ?case using Cons.IH by simp
qed simp

definition demo_start :: "int session_call" where
  "demo_start = StartRun (client_answer_message ''hi'') None (Some \<lparr>ra_principal = demo_principal, ra_caps = None, ra_expiry = None\<rparr>) 0"

text \<open>C10. A session with a bound on its turns always comes back: whatever calls are made on it, in whatever order, and
  whatever the model, the tools, the hooks and the deciders do, every call returns, or ends with the exception a tool threw.
  This includes the retries of a broken stream, the replays of a script that keeps asking and the rounds that follow an
  approval. Each call of the host's own code is taken to end.\<close>

theorem bounded_session_returns:
  assumes "max_turns s = Some m"
  shows "\<exists>s' w'. session_calls h cs s w = Some (s', w')"
  using assms by (rule session_calls_returns)

theorem bounded_session_returns_witness:
  "max_turns demo_session = Some 5 \<and> (\<exists>s' w'. session_calls demo_host [demo_start, demo_start] demo_session 0 = Some (s', w'))"
proof -
  have m: "max_turns demo_session = Some 5" by (simp add: max_turns_def demo_session_simps)
  with bounded_session_returns [OF m] show ?thesis by blast
qed

text \<open>C13. Over any sequence of calls a session keeps its id, its principal, its own capabilities and its choices, so no run
  and no answer to an interaction widens them; the history is only appended to, and no event that was emitted is lost.\<close>

theorem session_history_append_only:
  assumes "session_calls h cs s w = Some (s', w')"
  shows "ss_id s' = ss_id s \<and> ss_principal s' = ss_principal s \<and> ss_caps s' = ss_caps s \<and> ss_choices s' = ss_choices s \<and>
    prefix (ss_history s) (ss_history s') \<and> prefix (ss_events s) (ss_events s')"
  using calls_fixed [OF assms] by (simp add: fixed_by_calls_def)

theorem session_history_append_only_witness:
  "\<exists>s' w'. session_calls demo_host [demo_start] demo_session 0 = Some (s', w') \<and> ss_choices s' = ss_choices demo_session"
proof -
  have "max_turns demo_session = Some 5" by (simp add: max_turns_def demo_session_simps)
  from session_calls_returns [OF this] obtain s' w' where c: "session_calls demo_host [demo_start] demo_session 0 = Some (s', w')" by blast
  with session_history_append_only [OF c] show ?thesis by blast
qed

text \<open>C12. When a call answers, the answer is the message that ends the history and it asks for no tool; the call reported the
  end of the run under the id of the run, and after that report the stream holds only what the run-end hook sent through the
  session's sinks; and the tokens the run consumed are within the session's budget. The principal and the capabilities in force
  when the call ends are those that its own admission fixed.\<close>

theorem answered_call_within_budget:
  assumes "session_step h c s w = Some (Inr a, s', w')"
  shows "last (ss_history s') = ar_message a \<and> ss_history s' \<noteq> [] \<and> tool_calls_of (ar_message a) = [] \<and>
    (\<exists>earlier late. ss_events s' = ss_events s @ earlier @ (ss_ctx_run_id s', RunFinished) # map (Pair (ss_ctx_run_id s')) late \<and>
       list_all side_kind late) \<and>
    (case token_budget_limit s of None \<Rightarrow> True | Some b \<Rightarrow> ss_tokens s' \<le> b) \<and>
    (\<exists>s1. enter_for c s = (Inr (), s1) \<and> ss_ctx_principal s' = ss_ctx_principal s1 \<and> ss_ctx_caps s' = ss_ctx_caps s1)"
proof -
  obtain x s1 where e: "enter_for c s = (x, s1)" by fastforce
  have o: "session_frame s1 s'" "run_answered a s1 s'" using outcome_step [OF e, of h w] assms by (simp_all add: call_outcome_def)
  have "x \<noteq> Inl err" for err
    using assms e by (cases c) (auto simp: start_run_def start_run_locked_def resolve_interaction_def resolve_interaction_locked_def
        fire_run_end_def Let_def split: option.splits prod.splits)
  then have x: "x = Inr ()" by (cases x) auto
  have "ss_choices s' = ss_choices s" using step_fixed [OF assms] by (simp add: fixed_by_calls_def)
  then have "token_budget_limit s' = token_budget_limit s" by (simp add: token_budget_limit_def)
  then have b: "case token_budget_limit s of None \<Rightarrow> True | Some b \<Rightarrow> ss_tokens s' \<le> b"
    using o(2) by (auto simp: run_answered_def over_budget_def split: option.splits)
  from o(2) obtain earlier late where
    "ss_events s' = (ss_events s @ earlier) @ (ss_ctx_run_id s', RunFinished) # map (Pair (ss_ctx_run_id s')) late" "list_all side_kind late"
    using enter_for_keeps(2) [OF e] by (auto simp: run_answered_def prefix_def)
  then have "\<exists>earlier late. ss_events s' = ss_events s @ earlier @ (ss_ctx_run_id s', RunFinished) # map (Pair (ss_ctx_run_id s')) late \<and>
      list_all side_kind late" by auto
  then show ?thesis using o e x b by (auto simp: run_answered_def session_frame_def)
qed

definition step_answers :: "('n, 'p, 'w) session_host \<Rightarrow> 'n session_call \<Rightarrow> ('n, 'p, 'w) session \<Rightarrow> 'w \<Rightarrow> bool" where
  "step_answers h c s w = (case session_step h c s w of None \<Rightarrow> False | Some (r, s', w') \<Rightarrow> (case r of Inl e \<Rightarrow> False | Inr a \<Rightarrow> True))"

lemma demo_answers: "step_answers demo_host demo_start demo_session 1"
  by code_simp

theorem answered_call_within_budget_witness:
  "\<exists>a s' w'. session_step demo_host demo_start demo_session 1 = Some (Inr a, s', w') \<and> ss_tokens s' \<le> 1000 \<and>
     last (ss_history s') = ar_message a"
proof -
  from demo_answers obtain a s' w' where st: "session_step demo_host demo_start demo_session 1 = Some (Inr a, s', w')"
    by (auto simp: step_answers_def split: option.splits sum.splits)
  moreover have "token_budget_limit demo_session = Some 1000" by (simp add: token_budget_limit_def demo_session_simps)
  ultimately show ?thesis using answered_call_within_budget [OF st] by auto
qed

section \<open>Approvals that do not take effect\<close>

lemma canonical_text_longer: "length (dump nm a) < length (canonical_approval_text nm a required)"
  by (simp add: canonical_approval_text_def)

lemma no_decider_while_waiting: "approval_waits_for_human h \<Longrightarrow> effective_approval_decider h table = None"
  by (auto simp: approval_waits_for_human_def effective_approval_decider_def)

lemma demo_needs_decider:
  "resolve_approval_outcome demo_gated_tool VendorStructured caller tainted None w = (NeedsDecider, w)"
  by (simp add: resolve_approval_outcome_def demo_gated_tool_def tool_call_requires_approval_def)

text \<open>C29. What a human's approval of one suspended call does. A tool without a per-call requirement is admitted. A tool with
  one is refused all the same, as not approved: the approval is recorded for the arguments alone, and the pipeline asks about
  the arguments together with the requirement, a text that is never the same.\<close>

theorem approval_of_requirement_ignored:
  assumes "approval_waits_for_human h"
    and "resolve_approval_outcome tool (cr_provenance rq) caller (cr_tainted rq) policy w = (NeedsDecider, w1)"
  shows "approve_call nm tool rq caller
           (Some (approve_exact (approved_exact nm [cr_call_id rq] [\<lparr>hp_request = rq, hp_outcome = PassThrough, hp_denial = None\<rparr>])
              (effective_approval_decider h table))) policy prepared w
         = (if prepared = None then None else Some (Error Policy ''tool.approval_denied''), w1)"
proof -
  have "canonical_approval_text nm a required \<noteq> dump nm a" for a required
    using canonical_text_longer [of nm a required] by auto
  with assms(2) show ?thesis
    by (auto simp: approve_call_def decide_def approve_exact_def approved_exact_def approval_text_def
        no_decider_while_waiting [OF assms(1)] split: option.split)
qed

theorem approval_of_requirement_ignored_witness:
  "approve_call int_ops demo_gated_tool (hp_request demo_gated_call) demo_principal
     (Some (approve_exact (approved_exact int_ops [''c1''] [demo_gated_call]) (effective_approval_decider demo_host [demo_gated_tool])))
     None (Some \<lparr>pc_required = [Background \<lparr>bg_max_concurrent = 1\<rparr>], pc_arguments = ''p''\<rparr>) 0
   = (Some (Error Policy ''tool.approval_denied''), 0)"
proof -
  have q: "cr_provenance (hp_request demo_gated_call) = VendorStructured" "cr_call_id (hp_request demo_gated_call) = ''c1''"
    "demo_gated_call = \<lparr>hp_request = hp_request demo_gated_call, hp_outcome = PassThrough, hp_denial = None\<rparr>"
    by (simp_all add: demo_gated_call_def)
  have "resolve_approval_outcome demo_gated_tool (cr_provenance (hp_request demo_gated_call)) demo_principal
      (cr_tainted (hp_request demo_gated_call)) None 0 = (NeedsDecider, 0)"
    unfolding q(1) by (rule demo_needs_decider)
  from approval_of_requirement_ignored [OF demo_gated(1) this, of int_ops "[demo_gated_tool]"
      "Some \<lparr>pc_required = [Background \<lparr>bg_max_concurrent = 1\<rparr>], pc_arguments = ''p''\<rparr>"]
  show ?thesis unfolding q(2) q(3) [symmetric] by simp
qed

section \<open>A run end that is not reported\<close>

text \<open>A client that was waited on has been cancelled. The world is 0 while the old stop token is in force; the release hook
  adds 100 for a canceled run and 10 for any other.\<close>

definition demo_client_host :: "(int, string, nat) session_host" where
  "demo_client_host =
     demo_host\<lparr>h_client_pending := (\<lambda>w. (Some [], w)), h_stop := (\<lambda>w. (w = 0, w)), h_new_run := (\<lambda>w. 1),
       h_model := (\<lambda>rq caps deadline w. (Inr \<lparr>cp_message = demo_text_message, cp_usage = no_usage\<rparr>, w)),
       h_run_end := (\<lambda>r w. w + (if r = EndCanceled then 100 else 10))\<rparr>"

definition demo_waiting_session :: "(int, string, nat) session" where
  "demo_waiting_session =
     demo_session\<lparr>ss_in_flight := True, ss_ctx_run_id := ''s:run:1'', ss_run_counter := 1,
       ss_open := [\<lparr>si_id = ''s:interaction:1'', si_run_id = ''s:run:1'', si_reason = ClientInput, si_opened_at = 0, si_expires_at = 0\<rparr>],
       ss_clients := [(''s:interaction:1'', \<lparr>ca_id = ''port'', ca_ask = demo_text_message\<rparr>)]\<rparr>"

definition reported_ends :: "('n, 'p, 'w) session_host \<Rightarrow> 'n session_call \<Rightarrow> ('n, 'p, 'w) session \<Rightarrow> 'w \<Rightarrow> ((string \<times> run_event) list \<times> 'w) option" where
  "reported_ends h c s w =
     (case session_step h c s w of
        None \<Rightarrow> None
      | Some (r, s', w') \<Rightarrow> Some (filter (\<lambda>e. snd e \<in> set [RunStarted, RunCanceled, RunFinished]) (ss_events s'), w'))"

text \<open>The next run emits the cancellation of the suspended run, but its own start drops the end of that run, so the release
  hook is called once, for the new run, and never for the canceled one.\<close>

lemma canceled_run_end_dropped:
  "reported_ends demo_client_host demo_start demo_waiting_session 0 =
     Some ([(''s:run:1'', RunCanceled), (''s:run:2'', RunStarted), (''s:run:2'', RunFinished)], 11)"
  by code_simp

section \<open>Reports after the end of a run\<close>

text \<open>A run-end hook that releases a sandbox: its report comes after the end of the run. The world counts the reports that
  wait.\<close>

definition demo_release_host :: "(int, string, nat) session_host" where
  "demo_release_host =
     demo_host\<lparr>h_model := (\<lambda>rq caps deadline w. (Inr \<lparr>cp_message = demo_text_message, cp_usage = no_usage\<rparr>, w)),
       h_run_end := (\<lambda>r w. Suc w), h_sinks := (\<lambda>w. (replicate w (SandboxReport False ''held''), 0))\<rparr>"

definition events_of_call ::
  "('n, 'p, 'w) session_host \<Rightarrow> 'n session_call \<Rightarrow> ('n, 'p, 'w) session \<Rightarrow> 'w \<Rightarrow> run_event list option" where
  "events_of_call h c s w = map_option (\<lambda>(r, s', w'). map snd (ss_events s')) (session_step h c s w)"

lemma release_reported_after_end:
  "events_of_call demo_release_host demo_start demo_session 0 =
     Some [RunStarted, TurnStarted 0, ModelCallStarted, ModelCallFinished, TurnFinished 0, RunFinished, SandboxExec False ''held'']"
  by code_simp

text \<open>A tool that throws: its call is never reported finished, nothing ends the run in the stream, and the hook is called for
  an exception, which this host counts as 7.\<close>

definition demo_throwing_host :: "(int, string, nat) session_host" where
  "demo_throwing_host =
     (let tool = demo_gated_tool\<lparr>td_approval := Some NeverRequire, td_invoke := (\<lambda>a bound p st w. ((None, st), w))\<rparr>
      in demo_host\<lparr>h_context := (\<lambda>i p history w. (Inr \<lparr>cn_instructions = None, cn_messages = history, cn_tools = [tool]\<rparr>, w)),
           h_run_end := (\<lambda>r w. if r = EndException then 7 else w)\<rparr>)"

definition thrown_call :: "('n, 'p, 'w) session_host \<Rightarrow> 'n session_call \<Rightarrow> ('n, 'p, 'w) session \<Rightarrow> 'w \<Rightarrow> (error option \<times> run_event list \<times> 'w) option" where
  "thrown_call h c s w =
     map_option (\<lambda>(r, s', w'). (case r of Inl e \<Rightarrow> Some e | Inr a \<Rightarrow> None, map snd (ss_events s'), w')) (session_step h c s w)"

lemma thrown_run_ends:
  "thrown_call demo_throwing_host demo_start demo_session 0 =
     Some (Some exception_thrown,
       [RunStarted, TurnStarted 0, ModelCallStarted, ModelCallFinished, ToolCallStarted ''c1'' ''wipe''], 7)"
  by code_simp

end
