(* ===== verification/WorkflowRun.thy ===== *)
theory WorkflowRun
  imports WorkflowRouting
begin

text \<open>
  Running a workflow: \<^verbatim>\<open>src/rt/workflow_supervisor.cpp\<close>. A run is a sequence of rounds; each dispatches the
  pending deliveries, folds the replies, routes them into the next round's deliveries and opens the
  request ports reached. Executor bodies, nested supervisors, the clock, the cancellation flag and
  the merge hook are the host: functions of a world that is threaded through every call, so that a theorem about
  every host covers every outcome and interleaving of them. The jobs of one wave are issued together
  and collected in order; their effects on the world are taken in that order. Vendor batches are not modelled: a
  supervisor that never called \<^verbatim>\<open>enable_batch_coalescing\<close> has none. The event stream, the live view and
  the checkpoint hook only observe.
\<close>

section \<open>The supervisor\<close>

datatype workflow_status = Completed | Suspended | BoundMaxRounds | BoundDeadline | ExecutorFailed | RoutingFailure
  | MergeConflict | BoundMaxStalls | BoundMaxResets | Invalid | Cancelled | AdmissionDenied | InvalidRoutes

record interaction =
  ia_id :: string
  ia_run_id :: string

record 'c executor_output =
  eo_executor :: string
  eo_round :: u32
  eo_payload :: "'c message"

record 'c open_port =
  op_interaction :: interaction
  op_executor :: nat
  op_response :: "'c message"
  op_routes :: "string list"
  op_resolved :: bool
  op_usage :: usage

record pending_sub =
  ps_interaction :: interaction
  ps_executor :: nat
  ps_inner :: string

record 'c run_state =
  rn_pending :: "'c delivery list"
  rn_partial :: "'c executor_output list"
  rn_transcript :: "'c executor_output list"
  rn_truncated :: bool
  rn_output :: "'c message"
  rn_failed :: string
  rn_unopened :: "string list"
  rn_elapsed :: int
  rn_held :: "'c held_fan_in list"

definition fresh_run :: "'c run_state" where
  "fresh_run = \<lparr>rn_pending = [], rn_partial = [], rn_transcript = [], rn_truncated = False, rn_output = empty_message,
     rn_failed = [], rn_unopened = [], rn_elapsed = 0, rn_held = []\<rparr>"

text \<open>The nested interactions are an unordered map by id; its order is that of insertion here.\<close>

record 'c supervisor =
  sv_graph :: workflow
  sv_valid :: bool
  sv_principal :: principal
  sv_require_caller :: bool
  sv_denied :: u64
  sv_rounds :: u32
  sv_run_counter :: u64
  sv_run_id :: string
  sv_usage :: usage
  sv_reporter :: string
  sv_stalls :: u32
  sv_resets :: u32
  sv_state :: "'c run_state"
  sv_ports :: "'c open_port list"
  sv_subs :: "(string \<times> pending_sub) list"
  sv_cancelled :: bool
  sv_transcript_cap :: "nat option"

record 'c workflow_result =
  wr_status :: workflow_status
  wr_rounds :: u32
  wr_output :: "'c message"
  wr_partial :: "'c executor_output list"
  wr_transcript :: "'c executor_output list"
  wr_truncated :: bool
  wr_failed :: string
  wr_open :: "interaction list"
  wr_unopened :: "string list"
  wr_usage :: usage

section \<open>The host\<close>

record 'c executor_outcome =
  oc_payload :: "'c message"
  oc_routes :: "string list"
  oc_stalled :: bool
  oc_usage :: usage

text \<open>What a body does: it throws, returns an error of a class, or an outcome; in each case it may have charged usage
  through its context before.\<close>

datatype 'c body_result = Threw usage | Failed failure_class usage | Returned "'c executor_outcome" usage

text \<open>What a nested supervisor's run or resume returns, of what is read of it, and its total usage then.\<close>

record 'c inner_result =
  ir_status :: workflow_status
  ir_output :: "'c message"
  ir_open :: "string list"
  ir_usage :: usage
  ir_total :: usage

record ('c, 'w) inner =
  in_run :: "'c message \<Rightarrow> 'w \<Rightarrow> 'c inner_result option \<times> 'w"
  in_resume :: "string \<Rightarrow> 'c message \<Rightarrow> string list \<Rightarrow> principal option \<Rightarrow> 'w \<Rightarrow> 'c inner_result \<times> 'w"
  in_cancel :: "'w \<Rightarrow> 'w"

record ('c, 'w) host =
  h_body :: "nat \<Rightarrow> ('c message \<Rightarrow> 'w \<Rightarrow> 'c body_result \<times> 'w) option"
  h_inner :: "nat \<Rightarrow> ('c, 'w) inner option"
  h_cancel :: "'w \<Rightarrow> bool \<times> 'w"
  h_stop :: "'w \<Rightarrow> 'w"
  h_epoch :: "'w \<Rightarrow> 'w"
  h_now :: "'w \<Rightarrow> int \<times> 'w"
  h_merge :: "(string \<Rightarrow> 'w \<Rightarrow> unit result \<times> 'w) option"

section \<open>Small parts\<close>

abbreviation (input) "on_state f sv \<equiv> sv\<lparr>sv_state := f (sv_state sv)\<rparr>"

definition awaiting_outside :: "'c supervisor \<Rightarrow> bool" where
  "awaiting_outside sv = (sv_subs sv \<noteq> [] \<or> list_ex (\<lambda>p. \<not> op_resolved p) (sv_ports sv))"

definition run_is_live :: "'c supervisor \<Rightarrow> bool" where
  "run_is_live sv = (sv_ports sv \<noteq> [] \<or> sv_subs sv \<noteq> [] \<or> rn_pending (sv_state sv) \<noteq> [])"

definition open_interactions :: "'c supervisor \<Rightarrow> interaction list" where
  "open_interactions sv = map op_interaction (filter (\<lambda>p. \<not> op_resolved p) (sv_ports sv)) @ map (ps_interaction \<circ> snd) (sv_subs sv)"

definition held_ids :: "'c supervisor \<Rightarrow> string list" where
  "held_ids sv = map (ia_id \<circ> op_interaction) (sv_ports sv) @ map fst (sv_subs sv)"

text \<open>The first of \<open>base\<close>, \<open>base:1\<close>, \<open>base:2\<close>, \<dots> that is not taken. The search ends, because the candidates are
  distinct and the taken ids finitely many; the fuel is one more than their number.\<close>

fun free_id :: "string list \<Rightarrow> string \<Rightarrow> nat \<Rightarrow> nat \<Rightarrow> string" where
  "free_id taken base k 0 = base @ '':'' @ show_nat k"
| "free_id taken base k (Suc f) =
     (if base @ '':'' @ show_nat k \<in> set taken then free_id taken base (Suc k) f else base @ '':'' @ show_nat k)"

definition mint_interaction :: "'c supervisor \<Rightarrow> nat \<Rightarrow> interaction" where
  "mint_interaction sv i =
     (let base = sv_run_id sv @ '':port:'' @ executor_id (sv_graph sv) i @ '':'' @
                 show_nat (unat (if sv_rounds sv = 0 then 0 else sv_rounds sv - 1));
          taken = held_ids sv
      in \<lparr>ia_id = (if base \<in> set taken then free_id taken base 1 (length taken) else base), ia_run_id = sv_run_id sv\<rparr>)"

fun record_partial :: "string \<Rightarrow> u32 \<Rightarrow> 'c message \<Rightarrow> 'c executor_output list \<Rightarrow> 'c executor_output list" where
  "record_partial i round m [] = [\<lparr>eo_executor = i, eo_round = round, eo_payload = m\<rparr>]"
| "record_partial i round m (o' # os) =
     (if eo_executor o' = i then o'\<lparr>eo_round := round, eo_payload := m\<rparr> # os else o' # record_partial i round m os)"

definition record_visit :: "nat option \<Rightarrow> string \<Rightarrow> u32 \<Rightarrow> 'c message \<Rightarrow> 'c run_state \<Rightarrow> 'c run_state" where
  "record_visit cap i round m s =
     (case cap of
        None \<Rightarrow> s
      | Some n \<Rightarrow>
          if n \<le> length (rn_transcript s) then s\<lparr>rn_truncated := True\<rparr>
          else s\<lparr>rn_transcript := rn_transcript s @ [\<lparr>eo_executor = i, eo_round = round, eo_payload = m\<rparr>]\<rparr>)"

text \<open>What the fold does with one successful reply: its usage, its place in the partial results and the transcript,
  and the selected output.\<close>

definition fold_output :: "nat \<Rightarrow> 'c message \<Rightarrow> usage \<Rightarrow> 'c supervisor \<Rightarrow> 'c supervisor" where
  "fold_output i m u sv =
     (let g = sv_graph sv; s = sv_state sv; round = sv_rounds sv - 1;
          s1 = s\<lparr>rn_partial := record_partial (executor_id g i) round m (rn_partial s)\<rparr>;
          s2 = record_visit (sv_transcript_cap sv) (executor_id g i) round m s1
      in sv\<lparr>sv_usage := add_usage (sv_usage sv) u,
            sv_state := (if is_output_selected g i then s2\<lparr>rn_output := m\<rparr> else s2)\<rparr>)"

definition run_routed :: "'c supervisor \<Rightarrow> 'c routed \<Rightarrow> 'c supervisor" where
  "run_routed sv r = on_state (\<lambda>s. s\<lparr>rn_held := fst r\<rparr>) sv"

definition route_status :: "route_result \<Rightarrow> workflow_status" where
  "route_status r = (if r = RoutingFailed then RoutingFailure else ExecutorFailed)"

definition fail_at :: "nat \<Rightarrow> 'c supervisor \<Rightarrow> 'c supervisor" where
  "fail_at i sv = on_state (\<lambda>s. s\<lparr>rn_failed := executor_id (sv_graph sv) i\<rparr>) sv"

section \<open>Jobs and their retries\<close>

definition run_executor_job :: "('c, 'w) host \<Rightarrow> nat \<Rightarrow> 'c message \<Rightarrow> 'w \<Rightarrow> 'c execute_reply \<times> 'w" where
  "run_executor_job h i m w =
     (case h_body h i of
        None \<Rightarrow> (failed_reply Contract no_usage, w)
      | Some body \<Rightarrow>
          (case body m w of
             (Threw u, w') \<Rightarrow> (failed_reply Transient u, w')
           | (Failed k u, w') \<Rightarrow> (failed_reply k u, w')
           | (Returned r u, w') \<Rightarrow>
               (\<lparr>er_payload = oc_payload r, er_routes = oc_routes r, er_ok = True, er_class = Fatal, er_stalled = oc_stalled r,
                 er_pending = None, er_usage = add_usage (oc_usage r) u\<rparr>, w')))"

definition run_sub_workflow_job :: "('c, 'w) host \<Rightarrow> nat \<Rightarrow> 'c message \<Rightarrow> 'w \<Rightarrow> 'c execute_reply \<times> 'w" where
  "run_sub_workflow_job h i m w =
     (case h_inner h i of
        None \<Rightarrow> (failed_reply Contract no_usage, w)
      | Some inner \<Rightarrow>
          (case in_run inner m w of
             (None, w') \<Rightarrow> (failed_reply Transient no_usage, w')
           | (Some r, w') \<Rightarrow>
               (if ir_status r = Completed
                then \<lparr>er_payload = ir_output r, er_routes = [], er_ok = True, er_class = Fatal, er_stalled = False,
                      er_pending = None, er_usage = ir_usage r\<rparr>
                else if ir_status r = Suspended
                then \<lparr>er_payload = empty_message, er_routes = [], er_ok = True, er_class = Fatal, er_stalled = False,
                      er_pending = Some (case ir_open r of [] \<Rightarrow> [] | i # is \<Rightarrow> i), er_usage = no_usage\<rparr>
                else failed_reply Fatal (ir_usage r), w')))"

text \<open>A job function, for executors or for nested supervisors. A reply with a pending nested interaction counts as
  settled; an executor's never has one.\<close>

type_synonym ('c, 'w) job = "nat \<Rightarrow> 'c message \<Rightarrow> 'w \<Rightarrow> 'c execute_reply \<times> 'w"

definition settled :: "'c execute_reply \<Rightarrow> bool" where
  "settled r = (er_ok r \<or> er_pending r \<noteq> None)"

definition wants_retry :: "workflow \<Rightarrow> nat \<Rightarrow> nat \<Rightarrow> 'c execute_reply \<Rightarrow> bool" where
  "wants_retry g i attempt r =
     (fp_kind (policy_for g i) = OnRetry \<and> attempt < unat (fp_attempts (policy_for g i)) \<and> is_retryable (er_class r) Fresh)"

record 'c wave =
  wv_replies :: "'c execute_reply list"
  wv_usage :: usage
  wv_retry :: "nat list"

definition collect_reply :: "workflow \<Rightarrow> 'c delivery list \<Rightarrow> nat \<Rightarrow> nat \<Rightarrow> 'c execute_reply \<Rightarrow> 'c wave \<Rightarrow> 'c wave" where
  "collect_reply g ds attempt i r v =
     (let v' = v\<lparr>wv_replies := (wv_replies v)[i := r]\<rparr>
      in if settled r then v'
         else v'\<lparr>wv_usage := add_usage (wv_usage v) (er_usage r),
                 wv_retry := (if wants_retry g (dl_executor (ds ! i)) attempt r then wv_retry v @ [i] else wv_retry v)\<rparr>)"

fun run_wave :: "('c, 'w) job \<Rightarrow> workflow \<Rightarrow> 'c delivery list \<Rightarrow> nat \<Rightarrow> nat list \<Rightarrow> 'c wave \<Rightarrow> 'w \<Rightarrow> 'c wave \<times> 'w" where
  "run_wave job g ds attempt [] v w = (v, w)"
| "run_wave job g ds attempt (i # todo) v w =
     (case job (dl_executor (ds ! i)) (dl_payload (ds ! i)) w of
        (r, w') \<Rightarrow> run_wave job g ds attempt todo (collect_reply g ds attempt i r v) w')"

lemma run_wave_retry:
  "wv_retry (fst (run_wave job g ds attempt todo v w)) \<noteq> wv_retry v \<Longrightarrow> attempt < 2 ^ 32"
proof (induction job g ds attempt todo v w rule: run_wave.induct)
  case (2 job g ds attempt i todo v w)
  obtain r w' where j: "job (dl_executor (ds ! i)) (dl_payload (ds ! i)) w = (r, w')" by force
  show ?case
  proof (cases "wv_retry (collect_reply g ds attempt i r v) = wv_retry v")
    case True
    then show ?thesis using 2 j by simp
  next
    case False
    then have "attempt < unat (fp_attempts (policy_for g (dl_executor (ds ! i))))"
      by (auto simp: collect_reply_def wants_retry_def Let_def split: if_splits)
    also have "\<dots> < 2 ^ 32" using unsigned_less [of "fp_attempts (policy_for g (dl_executor (ds ! i)))"] by simp
    finally show ?thesis .
  qed
qed simp

function run_attempts ::
  "('c, 'w) host \<Rightarrow> ('c, 'w) job \<Rightarrow> workflow \<Rightarrow> 'c delivery list \<Rightarrow> nat \<Rightarrow> nat list \<Rightarrow> 'c execute_reply list \<Rightarrow> usage \<Rightarrow> 'w
    \<Rightarrow> ('c execute_reply list \<times> usage) \<times> 'w" where
  "run_attempts h job g ds attempt todo replies u w =
     (if todo = [] then ((replies, u), w)
      else let vw = run_wave job g ds attempt todo \<lparr>wv_replies = replies, wv_usage = u, wv_retry = []\<rparr> w;
               v = fst vw
           in if wv_retry v = [] then ((wv_replies v, wv_usage v), snd vw)
              else let cw = h_cancel h (snd vw)
                   in if fst cw then ((wv_replies v, wv_usage v), snd cw)
                      else run_attempts h job g ds (Suc attempt) (wv_retry v) (wv_replies v) (wv_usage v) (snd cw))"
  by pat_completeness auto
termination
proof (relation "measure (\<lambda>(h, job, g, ds, attempt, todo, replies, u, w). 2 ^ 32 - attempt)", goal_cases)
  case (2 h job g ds attempt todo replies u w vw v cw)
  have "attempt < 2 ^ 32"
    using run_wave_retry [of job g ds attempt todo "\<lparr>wv_replies = replies, wv_usage = u, wv_retry = []\<rparr>" w] 2 by auto
  then show ?case by simp
qed simp

declare run_attempts.simps [simp del]

section \<open>Dispatching a round\<close>

definition kind_at :: "workflow \<Rightarrow> nat \<Rightarrow> executor_kind" where
  "kind_at g i = ex_kind (wf_executors g ! i)"

definition port_deliveries :: "workflow \<Rightarrow> 'c delivery list \<Rightarrow> 'c delivery list" where
  "port_deliveries g ds = filter (\<lambda>d. kind_at g (dl_executor d) = RequestPort) ds"

definition sub_workflow_deliveries :: "workflow \<Rightarrow> 'c delivery list \<Rightarrow> 'c delivery list" where
  "sub_workflow_deliveries g ds = filter (\<lambda>d. kind_at g (dl_executor d) = SubWorkflowExec) ds"

definition exec_deliveries :: "workflow \<Rightarrow> 'c delivery list \<Rightarrow> 'c delivery list" where
  "exec_deliveries g ds = filter (\<lambda>d. kind_at g (dl_executor d) \<noteq> RequestPort \<and> kind_at g (dl_executor d) \<noteq> SubWorkflowExec) ds"

text \<open>The pending deliveries are moved out of the state one by one, which leaves as many emptied ones behind; a round
  that ends the run leaves them there.\<close>

definition moved_from :: "'c delivery \<Rightarrow> 'c delivery" where
  "moved_from d = d\<lparr>dl_payload := (dl_payload d)\<lparr>ms_content := [], ms_id := [],
     ms_attribution := map_option (\<lambda>a. a\<lparr>cb_type := []\<rparr>) (ms_attribution (dl_payload d))\<rparr>\<rparr>"

text \<open>The second and later deliveries of a round to one executor of the guarded kind are not dispatched.\<close>

fun quarantine :: "(nat \<Rightarrow> bool) \<Rightarrow> nat list \<Rightarrow> nat list \<Rightarrow> bool list" where
  "quarantine once seen [] = []"
| "quarantine once seen (i # is) =
     (if \<not> once i then False # quarantine once seen is
      else if i \<in> set seen then True # quarantine once seen is
      else False # quarantine once (seen @ [i]) is)"

text \<open>Replies of quarantined deliveries; the others are overwritten by their jobs.\<close>

definition first_replies :: "bool list \<Rightarrow> 'c execute_reply list" where
  "first_replies q = map (\<lambda>_. failed_reply Contract no_usage) q"

definition to_dispatch :: "bool list \<Rightarrow> nat list" where
  "to_dispatch q = filter (\<lambda>i. \<not> q ! i) [0..<length q]"

definition dispatch_executors ::
  "('c, 'w) host \<Rightarrow> workflow \<Rightarrow> 'c delivery list \<Rightarrow> usage \<Rightarrow> 'w \<Rightarrow> ('c execute_reply list \<times> usage) \<times> 'w" where
  "dispatch_executors h g ds u w =
     (let q = quarantine (\<lambda>i. kind_at g i = AgentExec) [] (map dl_executor ds)
      in if to_dispatch q = [] then ((first_replies q, u), w)
         else case h_cancel h w of (stop, w1) \<Rightarrow>
           if stop then ((map (\<lambda>b. failed_reply (if b then Contract else Transient) no_usage) q, u), w1)
           else run_attempts h (run_executor_job h) g ds 0 (to_dispatch q) (first_replies q) u w1)"

definition dispatch_sub_workflows ::
  "('c, 'w) host \<Rightarrow> workflow \<Rightarrow> 'c delivery list \<Rightarrow> usage \<Rightarrow> 'w \<Rightarrow> ('c execute_reply list \<times> usage) \<times> 'w" where
  "dispatch_sub_workflows h g ds u w =
     (let q = quarantine (\<lambda>_. True) [] (map dl_executor ds)
      in run_attempts h (run_sub_workflow_job h) g ds 0 (to_dispatch q) (first_replies q) u w)"

definition put_sub :: "string \<Rightarrow> pending_sub \<Rightarrow> (string \<times> pending_sub) list \<Rightarrow> (string \<times> pending_sub) list" where
  "put_sub k p subs = filter (\<lambda>e. fst e \<noteq> k) subs @ [(k, p)]"

definition track_sub :: "nat \<Rightarrow> string \<Rightarrow> 'c supervisor \<Rightarrow> 'c supervisor" where
  "track_sub i inner sv =
     (let ia = mint_interaction sv i
      in sv\<lparr>sv_subs := put_sub (ia_id ia) \<lparr>ps_interaction = ia, ps_executor = i, ps_inner = inner\<rparr> (sv_subs sv)\<rparr>)"

type_synonym 'c answered = "'c delivery \<times> 'c execute_reply"

text \<open>A suspended nested run becomes a tracked interaction; every other reply joins the executors' replies.\<close>

fun split_subs :: "'c answered list \<Rightarrow> 'c supervisor \<Rightarrow> 'c supervisor \<times> 'c answered list" where
  "split_subs [] sv = (sv, [])"
| "split_subs (dr # rest) sv =
     (case er_pending (snd dr) of
        Some inner \<Rightarrow> split_subs rest (track_sub (dl_executor (fst dr)) inner sv)
      | None \<Rightarrow> (fst (split_subs rest sv), dr # snd (split_subs rest sv)))"

definition dispatch_round :: "('c, 'w) host \<Rightarrow> 'c supervisor \<Rightarrow> 'w \<Rightarrow> ('c answered list \<times> 'c supervisor) \<times> 'w" where
  "dispatch_round h sv w =
     (let g = sv_graph sv; pending = rn_pending (sv_state sv);
          execs = exec_deliveries g pending; subs = sub_workflow_deliveries g pending
      in case dispatch_executors h g execs (sv_usage sv) w of ((replies, u), w1) \<Rightarrow>
         case dispatch_sub_workflows h g subs u w1 of ((sub_replies, u'), w2) \<Rightarrow>
         case split_subs (zip subs sub_replies) (on_state (\<lambda>s. s\<lparr>rn_pending := map moved_from pending\<rparr>) sv\<lparr>sv_usage := u'\<rparr>) of
           (sv1, joined) \<Rightarrow> ((zip execs replies @ joined, sv1\<lparr>sv_rounds := sv_rounds sv1 + 1\<rparr>), w2))"

section \<open>Closing a round\<close>

text \<open>The merge hook runs for each branch executor that succeeded, until one merge fails.\<close>

fun fold_replies :: "('c, 'w) host \<Rightarrow> 'c answered list \<Rightarrow> bool \<Rightarrow> 'c supervisor \<Rightarrow> 'w \<Rightarrow> (bool \<times> 'c supervisor) \<times> 'w" where
  "fold_replies h [] conflict sv w = ((conflict, sv), w)"
| "fold_replies h (dr # rest) conflict sv w =
     (let i = dl_executor (fst dr); r = snd dr
      in if \<not> er_ok r then fold_replies h rest conflict sv w
         else let sv1 = fold_output i (er_payload r) (er_usage r) sv
              in case h_merge h of
                   None \<Rightarrow> fold_replies h rest conflict sv1 w
                 | Some merge \<Rightarrow>
                     if conflict \<or> ex_worktree_mode (wf_executors (sv_graph sv) ! i) \<noteq> BranchMode
                     then fold_replies h rest conflict sv1 w
                     else case merge (executor_id (sv_graph sv) i) w of
                            (Inr _, w1) \<Rightarrow> fold_replies h rest False sv1 w1
                          | (Inl _, w1) \<Rightarrow> fold_replies h rest True (fail_at i sv1) w1)"

definition leave_unopened :: "'c delivery list \<Rightarrow> 'c supervisor \<Rightarrow> 'c supervisor" where
  "leave_unopened ports sv =
     on_state (\<lambda>s. s\<lparr>rn_unopened := rn_unopened s @ map (\<lambda>d. executor_id (sv_graph sv) (dl_executor d)) ports\<rparr>) sv"

fun route_all :: "workflow \<Rightarrow> 'c delivery list \<Rightarrow> 'c execute_reply list \<Rightarrow> nat list \<Rightarrow> 'c routed \<Rightarrow> (nat \<times> route_result) option \<times> 'c routed" where
  "route_all g ds replies [] s = (None, s)"
| "route_all g ds replies (i # is) s =
     (case route_from g (dl_executor (ds ! i)) (replies ! i) (is_same_round_quarantine_echo ds replies i) s of
        (rr, s') \<Rightarrow> if rr = RouteOk then route_all g ds replies is s' else (Some (dl_executor (ds ! i), rr), s'))"

text \<open>The stall and reset valve. The streak counts consecutive rounds in which the reporter ran and reported a stall.\<close>

definition stall_valve :: "'c answered list \<Rightarrow> 'c supervisor \<Rightarrow> workflow_status option \<times> 'c supervisor" where
  "stall_valve jobs sv =
     (if sv_reporter sv = [] then (None, sv)
      else let mine = filter (\<lambda>dr. executor_id (sv_graph sv) (dl_executor (fst dr)) = sv_reporter sv) jobs;
               streak = (if mine = [] then sv_stalls sv else if list_ex (er_stalled \<circ> snd) mine then sv_stalls sv + 1 else 0);
               sv1 = sv\<lparr>sv_stalls := streak\<rparr>;
               sv2 = sv\<lparr>sv_stalls := 0, sv_resets := sv_resets sv + 1\<rparr>
           in case tb_max_stalls (wf_bound (sv_graph sv)) of
                None \<Rightarrow> (None, sv1)
              | Some most \<Rightarrow>
                  if streak < most then (None, sv1)
                  else case tb_max_resets (wf_bound (sv_graph sv)) of
                         None \<Rightarrow> (Some BoundMaxStalls, sv2)
                       | Some resets \<Rightarrow> (if resets < sv_resets sv2 then Some BoundMaxResets else None, sv2))"

definition add_port :: "'c delivery \<Rightarrow> 'c supervisor \<Rightarrow> 'c supervisor" where
  "add_port d sv = sv\<lparr>sv_ports := sv_ports sv @
     [\<lparr>op_interaction = mint_interaction sv (dl_executor d), op_executor = dl_executor d, op_response = dl_payload d,
       op_routes = [], op_resolved = False, op_usage = no_usage\<rparr>]\<rparr>"

definition close_round :: "'c answered list \<Rightarrow> 'c delivery list \<Rightarrow> 'c supervisor \<Rightarrow> workflow_status option \<times> 'c supervisor" where
  "close_round jobs ports sv =
     (case route_all (sv_graph sv) (map fst jobs) (map snd jobs) [0..<length jobs] (rn_held (sv_state sv), []) of
        (Some (i, rr), s) \<Rightarrow> (Some (route_status rr), leave_unopened ports (fail_at i (run_routed sv s)))
      | (None, s) \<Rightarrow>
          (case stall_valve jobs (run_routed sv s) of
             (Some st, sv1) \<Rightarrow> (Some st, leave_unopened ports sv1)
           | (None, sv1) \<Rightarrow>
               let sv2 = on_state (\<lambda>t. t\<lparr>rn_pending := snd s\<rparr>) (fold add_port ports sv1)
               in (if awaiting_outside sv2 then Some Suspended else None, sv2)))"

definition execute_round :: "('c, 'w) host \<Rightarrow> 'c supervisor \<Rightarrow> 'w \<Rightarrow> (workflow_status option \<times> 'c supervisor) \<times> 'w" where
  "execute_round h sv w =
     (let ports = port_deliveries (sv_graph sv) (rn_pending (sv_state sv))
      in case dispatch_round h sv w of ((jobs, sv1), w1) \<Rightarrow>
         case fold_replies h jobs False sv1 w1 of ((conflict, sv2), w2) \<Rightarrow>
           if conflict then ((Some MergeConflict, leave_unopened ports sv2), w2)
           else case h_cancel h w2 of (stop, w3) \<Rightarrow>
             if stop then ((Some Cancelled, leave_unopened ports sv2), w3)
             else (close_round jobs ports sv2, w3))"

section \<open>The loop\<close>

definition over_rounds :: "'c supervisor \<Rightarrow> bool" where
  "over_rounds sv = (case tb_max_rounds (wf_bound (sv_graph sv)) of None \<Rightarrow> False | Some n \<Rightarrow> n \<le> sv_rounds sv)"

text \<open>Nanoseconds as mathematical integers (64 bits hold 292 years), truncated to milliseconds towards zero.\<close>

definition whole_ms :: "int \<Rightarrow> u64" where
  "whole_ms ns = word_of_int (if ns < 0 then - ((- ns) div 1000000) else ns div 1000000)"

definition over_deadline :: "('c, 'w) host \<Rightarrow> int \<Rightarrow> 'c supervisor \<Rightarrow> 'w \<Rightarrow> bool \<times> 'w" where
  "over_deadline h entered sv w =
     (case tb_deadline_ms (wf_bound (sv_graph sv)) of
        None \<Rightarrow> (False, w)
      | Some n \<Rightarrow> (case h_now h w of (now, w1) \<Rightarrow> (n \<le> whole_ms (rn_elapsed (sv_state sv) + (now - entered)), w1)))"

text \<open>One turn of the loop: the run's end, or the state the next turn starts from.\<close>

definition loop_turn ::
  "('c, 'w) host \<Rightarrow> int \<Rightarrow> 'c supervisor \<Rightarrow> 'w \<Rightarrow> (workflow_status \<times> 'c supervisor) \<times> 'w + 'c supervisor \<times> 'w" where
  "loop_turn h entered sv w =
     (if rn_pending (sv_state sv) = [] then Inl ((Completed, sv), w)
      else if over_rounds sv then Inl ((BoundMaxRounds, sv), w)
      else case over_deadline h entered sv w of (late, w1) \<Rightarrow>
        if late then Inl ((BoundDeadline, sv), w1)
        else case h_cancel h w1 of (stop, w2) \<Rightarrow>
          if stop then Inl ((Cancelled, sv), w2)
          else case execute_round h sv w2 of
                 ((Some st, sv'), w3) \<Rightarrow> Inl ((st, sv'), w3)
               | ((None, sv'), w3) \<Rightarrow> Inr (sv', w3))"

text \<open>The loop need not end: \<^const>\<open>None\<close> is a run that does not return.\<close>

partial_function (option) execute_loop ::
  "('c, 'w) host \<Rightarrow> int \<Rightarrow> 'c supervisor \<Rightarrow> 'w \<Rightarrow> ((workflow_status \<times> 'c supervisor) \<times> 'w) option" where
  "execute_loop h entered sv w =
     (case loop_turn h entered sv w of
        Inl ended \<Rightarrow> Some ended
      | Inr svw \<Rightarrow> execute_loop h entered (fst svw) (snd svw))"

declare execute_loop.simps [code]

text \<open>Folding the answered ports of a suspended run. A port that is not answered is passed over.\<close>

definition port_reply :: "'c open_port \<Rightarrow> 'c execute_reply" where
  "port_reply p = \<lparr>er_payload = op_response p, er_routes = op_routes p, er_ok = True, er_class = Fatal, er_stalled = False,
     er_pending = None, er_usage = op_usage p\<rparr>"

fun fold_ports :: "'c open_port list \<Rightarrow> 'c supervisor \<Rightarrow> 'c delivery list \<Rightarrow> (workflow_status option \<times> 'c supervisor) \<times> 'c delivery list" where
  "fold_ports [] sv next = ((None, sv), next)"
| "fold_ports (p # ps) sv next =
     (if \<not> op_resolved p then fold_ports ps sv next
      else let sv1 = fold_output (op_executor p) (op_response p) (op_usage p) sv
           in case route_from (sv_graph sv) (op_executor p) (port_reply p) False (rn_held (sv_state sv1), next) of
                (rr, s) \<Rightarrow>
                  if rr = RouteOk then fold_ports ps (run_routed sv1 s) (snd s)
                  else ((Some (route_status rr), fail_at (op_executor p) (run_routed sv1 s)), snd s))"

definition fold_answers :: "'c supervisor \<Rightarrow> workflow_status option \<times> 'c supervisor" where
  "fold_answers sv =
     (if sv_ports sv = [] then (None, sv)
      else case fold_ports (sv_ports sv) sv (rn_pending (sv_state sv)) of
             ((Some st, sv1), next) \<Rightarrow> (Some st, sv1\<lparr>sv_ports := []\<rparr>)
           | ((None, sv1), next) \<Rightarrow> (None, on_state (\<lambda>s. s\<lparr>rn_pending := next\<rparr>) (sv1\<lparr>sv_ports := []\<rparr>)))"

section \<open>Ending a run\<close>

definition bare_result :: "workflow_status \<Rightarrow> 'c workflow_result" where
  "bare_result st = \<lparr>wr_status = st, wr_rounds = 0, wr_output = empty_message, wr_partial = [], wr_transcript = [],
     wr_truncated = False, wr_failed = [], wr_open = [], wr_unopened = [], wr_usage = no_usage\<rparr>"

definition cancel_inner :: "('c, 'w) host \<Rightarrow> nat \<Rightarrow> 'w \<Rightarrow> 'w" where
  "cancel_inner h i w = (case h_inner h i of None \<Rightarrow> w | Some inner \<Rightarrow> in_cancel inner w)"

definition close_run_for_cancel :: "('c, 'w) host \<Rightarrow> 'c supervisor \<Rightarrow> 'w \<Rightarrow> 'c supervisor \<times> 'w" where
  "close_run_for_cancel h sv w =
     (on_state (\<lambda>s. s\<lparr>rn_pending := [], rn_held := []\<rparr>) (sv\<lparr>sv_subs := [], sv_ports := [], sv_cancelled := True\<rparr>),
      fold (\<lambda>e. cancel_inner h (ps_executor (snd e))) (sv_subs sv) w)"

definition run_result :: "workflow_status \<Rightarrow> 'c supervisor \<Rightarrow> 'c workflow_result" where
  "run_result st sv = \<lparr>wr_status = st, wr_rounds = sv_rounds sv, wr_output = rn_output (sv_state sv),
     wr_partial = rn_partial (sv_state sv), wr_transcript = rn_transcript (sv_state sv), wr_truncated = rn_truncated (sv_state sv),
     wr_failed = rn_failed (sv_state sv), wr_open = open_interactions sv, wr_unopened = rn_unopened (sv_state sv),
     wr_usage = no_usage\<rparr>"

type_synonym ('c, 'w) finished = "('c workflow_result \<times> 'c supervisor) \<times> 'w"

definition finish_run :: "('c, 'w) host \<Rightarrow> workflow_status \<Rightarrow> int \<Rightarrow> 'c supervisor \<Rightarrow> 'w \<Rightarrow> ('c, 'w) finished" where
  "finish_run h st entered sv w =
     (case h_now h w of (now, w1) \<Rightarrow>
      let sv1 = on_state (\<lambda>s. s\<lparr>rn_elapsed := rn_elapsed s + (now - entered)\<rparr>) sv
      in case (if st = Cancelled then close_run_for_cancel h sv1 w1 else (sv1, w1)) of
           (sv2, w2) \<Rightarrow> ((run_result st sv2, sv2), w2))"

definition execute :: "('c, 'w) host \<Rightarrow> 'c supervisor \<Rightarrow> 'w \<Rightarrow> ('c, 'w) finished option" where
  "execute h sv w =
     (case h_now h w of (entered, w0) \<Rightarrow>
      case fold_answers sv of
        (Some st, sv1) \<Rightarrow> Some (finish_run h st entered sv1 w0)
      | (None, sv1) \<Rightarrow>
          (case execute_loop h entered sv1 w0 of
             None \<Rightarrow> None
           | Some ((st, sv2), w1) \<Rightarrow>
               (case (if st = Suspended then h_cancel h w1 else (False, w1)) of
                  (stop, w2) \<Rightarrow> Some (finish_run h (if stop then Cancelled else st) entered sv2 w2))))"

section \<open>The entry points\<close>

definition admit_caller :: "principal option \<Rightarrow> 'c supervisor \<Rightarrow> bool" where
  "admit_caller caller sv =
     (case caller of None \<Rightarrow> \<not> sv_require_caller sv | Some c \<Rightarrow> principal_admitted_for c (sv_principal sv))"

definition deny_admission :: "'c supervisor \<Rightarrow> 'c workflow_result \<times> 'c supervisor" where
  "deny_admission sv = (bare_result AdmissionDenied, sv\<lparr>sv_denied := sv_denied sv + 1\<rparr>)"

definition suspended_result :: "'c supervisor \<Rightarrow> 'c workflow_result" where
  "suspended_result sv = (run_result Suspended sv)\<lparr>wr_failed := [], wr_unopened := []\<rparr>"

definition reject_resolve :: "workflow_status \<Rightarrow> 'c supervisor \<Rightarrow> 'c workflow_result" where
  "reject_resolve st sv = (bare_result st)\<lparr>wr_rounds := sv_rounds sv, wr_partial := rn_partial (sv_state sv),
     wr_output := rn_output (sv_state sv), wr_open := open_interactions sv\<rparr>"

definition begin_cancel_epoch :: "('c, 'w) host \<Rightarrow> 'c supervisor \<Rightarrow> 'w \<Rightarrow> 'c supervisor \<times> 'w" where
  "begin_cancel_epoch h sv w = (sv\<lparr>sv_cancelled := False\<rparr>, h_epoch h w)"

text \<open>Ending a suspended run as cancelled, entered now.\<close>

definition settle_cancelled :: "('c, 'w) host \<Rightarrow> 'c supervisor \<Rightarrow> 'w \<Rightarrow> ('c, 'w) finished" where
  "settle_cancelled h sv w = (case h_now h w of (now, w1) \<Rightarrow> finish_run h Cancelled now sv w1)"

definition cancelled_result :: "'c supervisor \<Rightarrow> 'c workflow_result" where
  "cancelled_result sv = (bare_result Cancelled)\<lparr>wr_rounds := sv_rounds sv, wr_output := rn_output (sv_state sv),
     wr_partial := rn_partial (sv_state sv), wr_failed := rn_failed (sv_state sv), wr_unopened := rn_unopened (sv_state sv)\<rparr>"

text \<open>The refusal, if there is one, or the world the check leaves.\<close>

definition refuse_if_cancelled :: "('c, 'w) host \<Rightarrow> 'c supervisor \<Rightarrow> 'w \<Rightarrow> ('c, 'w) finished + 'w" where
  "refuse_if_cancelled h sv w =
     (if sv_cancelled sv then Inl ((cancelled_result sv, sv), w)
      else case h_cancel h w of (stop, w1) \<Rightarrow>
        if \<not> stop \<or> \<not> run_is_live sv then Inr w1 else Inl (settle_cancelled h sv w1))"

text \<open>A cancel while no entry point holds the run lock.\<close>

definition cancel_idle :: "('c, 'w) host \<Rightarrow> 'c supervisor \<Rightarrow> 'w \<Rightarrow> 'c supervisor \<times> 'w" where
  "cancel_idle h sv w =
     (let w1 = h_stop h w
      in if \<not> sv_cancelled sv \<and> awaiting_outside sv
         then case settle_cancelled h sv w1 of ((r, sv1), w2) \<Rightarrow> (sv1, w2)
         else (sv, w1))"

definition start_run :: "'c message \<Rightarrow> 'c supervisor \<Rightarrow> 'c supervisor" where
  "start_run m sv =
     (let g = sv_graph sv; n = sv_run_counter sv + 1
      in sv\<lparr>sv_run_counter := n, sv_run_id := wf_id g @ '':run:'' @ show_nat (unat n),
            sv_state := fresh_run\<lparr>rn_held := seed_fan_in_holds g,
              rn_pending := [\<lparr>dl_executor = index_of g (wf_start g), dl_payload = m\<rparr>]\<rparr>,
            sv_ports := [], sv_subs := [], sv_rounds := 0, sv_usage := no_usage\<rparr>)"

definition run_workflow :: "('c, 'w) host \<Rightarrow> 'c message \<Rightarrow> principal option \<Rightarrow> 'c supervisor \<Rightarrow> 'w \<Rightarrow> ('c, 'w) finished option" where
  "run_workflow h m caller sv w =
     (if \<not> admit_caller caller sv then Some (deny_admission sv, w)
      else if \<not> sv_valid sv then Some ((bare_result Invalid, sv), w)
      else case begin_cancel_epoch h sv w of (sv1, w1) \<Rightarrow>
        case execute h (start_run m sv1) w1 of
          None \<Rightarrow> None
        | Some ((r, sv2), w2) \<Rightarrow> Some ((r\<lparr>wr_usage := sv_usage sv2\<rparr>, sv2), w2))"

definition monus :: "u64 \<Rightarrow> u64 \<Rightarrow> u64" where
  "monus after before = (if before < after then after - before else 0)"

definition usage_added_since :: "usage \<Rightarrow> usage \<Rightarrow> usage" where
  "usage_added_since after before = \<lparr>us_input = monus (us_input after) (us_input before),
     us_output = monus (us_output after) (us_output before), us_cached = monus (us_cached after) (us_cached before),
     us_reasoning = monus (us_reasoning after) (us_reasoning before),
     us_cache_write = monus (us_cache_write after) (us_cache_write before)\<rparr>"

text \<open>What the public wrappers of resume and continue do with the locked call's result.\<close>

definition settle_entry :: "('c, 'w) host \<Rightarrow> 'c supervisor \<Rightarrow> ('c, 'w) finished option \<Rightarrow> ('c, 'w) finished option" where
  "settle_entry h before res =
     (case res of
        None \<Rightarrow> None
      | Some ((r, sv), w) \<Rightarrow>
          (case (if wr_status r = Suspended then h_cancel h w else (False, w)) of (stop, w1) \<Rightarrow>
             case (if stop then settle_cancelled h sv w1 else ((r, sv), w1)) of
               ((r', sv'), w2) \<Rightarrow> Some ((r'\<lparr>wr_usage := usage_added_since (sv_usage sv') (sv_usage before)\<rparr>, sv'), w2)))"

definition continue_workflow_locked :: "('c, 'w) host \<Rightarrow> principal option \<Rightarrow> 'c supervisor \<Rightarrow> 'w \<Rightarrow> ('c, 'w) finished option" where
  "continue_workflow_locked h caller sv w =
     (if \<not> admit_caller caller sv then Some (deny_admission sv, w)
      else if \<not> sv_valid sv then Some ((bare_result Invalid, sv), w)
      else case refuse_if_cancelled h sv w of
             Inl refused \<Rightarrow> Some refused
           | Inr w1 \<Rightarrow>
               if awaiting_outside sv then Some ((suspended_result sv, sv), w1) else execute h sv w1)"

definition continue_workflow :: "('c, 'w) host \<Rightarrow> principal option \<Rightarrow> 'c supervisor \<Rightarrow> 'w \<Rightarrow> ('c, 'w) finished option" where
  "continue_workflow h caller sv w = settle_entry h sv (continue_workflow_locked h caller sv w)"

record 'c resume_request =
  rq_interaction :: string
  rq_response :: "'c message"
  rq_routes :: "string list"
  rq_caller :: "principal option"

definition add_resolved :: "pending_sub \<Rightarrow> 'c message \<Rightarrow> usage \<Rightarrow> 'c supervisor \<Rightarrow> 'c supervisor" where
  "add_resolved p m u sv = sv\<lparr>sv_ports := sv_ports sv @ [\<lparr>op_interaction = ps_interaction p, op_executor = ps_executor p,
     op_response = m, op_routes = [], op_resolved = True, op_usage = u\<rparr>]\<rparr>"

definition suspend_or_execute :: "('c, 'w) host \<Rightarrow> 'c supervisor \<Rightarrow> 'w \<Rightarrow> ('c, 'w) finished option" where
  "suspend_or_execute h sv w = (if awaiting_outside sv then Some ((suspended_result sv, sv), w) else execute h sv w)"

definition resume_nested :: "('c, 'w) host \<Rightarrow> 'c resume_request \<Rightarrow> pending_sub \<Rightarrow> 'c supervisor \<Rightarrow> 'w \<Rightarrow> ('c, 'w) finished option" where
  "resume_nested h rq p sv w =
     (let k = rq_interaction rq; i = ps_executor p; sv1 = sv\<lparr>sv_subs := filter (\<lambda>e. fst e \<noteq> k) (sv_subs sv)\<rparr>;
          restored = sv1\<lparr>sv_subs := put_sub k p (sv_subs sv1)\<rparr>
      in case h_inner h i of
           None \<Rightarrow> Some (((bare_result Invalid)\<lparr>wr_rounds := sv_rounds sv1, wr_open := open_interactions sv1\<rparr>, sv1), w)
         | Some inner \<Rightarrow>
             (case in_resume inner (ps_inner p) (rq_response rq) (rq_routes rq) (rq_caller rq) w of (r, w1) \<Rightarrow>
                case ir_status r of
                  AdmissionDenied \<Rightarrow> Some ((bare_result AdmissionDenied, restored), w1)
                | InvalidRoutes \<Rightarrow> Some ((reject_resolve InvalidRoutes restored, restored), w1)
                | Suspended \<Rightarrow>
                    let sv2 = track_sub i (case ir_open r of [] \<Rightarrow> [] | j # js \<Rightarrow> j) sv1
                    in Some ((suspended_result sv2, sv2), w1)
                | Completed \<Rightarrow> suspend_or_execute h (add_resolved p (ir_output r) (ir_total r) sv1) w1
                | _ \<Rightarrow> suspend_or_execute h
                    (add_resolved p (failure_marker (executor_id (sv_graph sv) i) Fatal) (ir_total r) sv1) w1))"

definition port_at :: "string \<Rightarrow> 'c open_port \<Rightarrow> bool" where
  "port_at k p = (ia_id (op_interaction p) = k)"

fun answer_port :: "'c resume_request \<Rightarrow> 'c open_port list \<Rightarrow> 'c open_port list" where
  "answer_port rq [] = []"
| "answer_port rq (p # ps) =
     (if port_at (rq_interaction rq) p then p\<lparr>op_resolved := True, op_response := rq_response rq, op_routes := rq_routes rq\<rparr> # ps
      else p # answer_port rq ps)"

definition resume_port :: "('c, 'w) host \<Rightarrow> 'c resume_request \<Rightarrow> 'c supervisor \<Rightarrow> 'w \<Rightarrow> ('c, 'w) finished option" where
  "resume_port h rq sv w =
     (case List.find (port_at (rq_interaction rq)) (sv_ports sv) of
        None \<Rightarrow> Some ((reject_resolve Invalid sv, sv), w)
      | Some p \<Rightarrow>
          if op_resolved p then Some ((reject_resolve Invalid sv, sv), w)
          else if \<not> port_routes_valid (sv_graph sv) (op_executor p) (rq_routes rq)
          then Some ((reject_resolve InvalidRoutes sv, sv), w)
          else suspend_or_execute h (sv\<lparr>sv_ports := answer_port rq (sv_ports sv)\<rparr>) w)"

definition resume_workflow_locked :: "('c, 'w) host \<Rightarrow> 'c resume_request \<Rightarrow> 'c supervisor \<Rightarrow> 'w \<Rightarrow> ('c, 'w) finished option" where
  "resume_workflow_locked h rq sv w =
     (if \<not> admit_caller (rq_caller rq) sv then Some (deny_admission sv, w)
      else if \<not> sv_valid sv then Some ((bare_result Invalid, sv), w)
      else case refuse_if_cancelled h sv w of
             Inl refused \<Rightarrow> Some refused
           | Inr w1 \<Rightarrow>
               (case map_of (sv_subs sv) (rq_interaction rq) of
                  Some p \<Rightarrow> resume_nested h rq p sv w1
                | None \<Rightarrow> resume_port h rq sv w1))"

definition resume_workflow :: "('c, 'w) host \<Rightarrow> 'c resume_request \<Rightarrow> 'c supervisor \<Rightarrow> 'w \<Rightarrow> ('c, 'w) finished option" where
  "resume_workflow h rq sv w = settle_entry h sv (resume_workflow_locked h rq sv w)"

section \<open>Checkpoint records\<close>

record 'c run_record =
  rr_run_counter :: u64
  rr_run_id :: string
  rr_rounds :: u32
  rr_pending :: "(u64 \<times> 'c message) list"
  rr_partial :: "'c executor_output list"
  rr_output :: "'c message"
  rr_failed :: string
  rr_unopened :: "string list"
  rr_elapsed :: int
  rr_ports :: "(interaction \<times> u64 \<times> 'c message \<times> string list \<times> bool) list"
  rr_stalls :: u32
  rr_resets :: u32
  rr_cancelled :: bool
  rr_held :: "(u64 \<times> 'c message \<times> bool \<times> u64 list) list"

definition to_record :: "'c supervisor \<Rightarrow> 'c run_record" where
  "to_record sv = (let s = sv_state sv in
     \<lparr>rr_run_counter = sv_run_counter sv, rr_run_id = sv_run_id sv, rr_rounds = sv_rounds sv,
      rr_pending = map (\<lambda>d. (of_nat (dl_executor d), dl_payload d)) (rn_pending s),
      rr_partial = rn_partial s, rr_output = rn_output s, rr_failed = rn_failed s, rr_unopened = rn_unopened s,
      rr_elapsed = rn_elapsed s,
      rr_ports = map (\<lambda>p. (op_interaction p, of_nat (op_executor p), op_response p, op_routes p, op_resolved p)) (sv_ports sv),
      rr_stalls = sv_stalls sv, rr_resets = sv_resets sv, rr_cancelled = sv_cancelled sv,
      rr_held = map (\<lambda>h. (of_nat (hf_executor h), hf_payload h, hf_seeded h, map of_nat (hf_awaiting h))) (rn_held s)\<rparr>)"

definition restore_from_record :: "('c, 'w) host \<Rightarrow> 'c run_record \<Rightarrow> 'c supervisor \<Rightarrow> 'w \<Rightarrow> 'c supervisor \<times> 'w" where
  "restore_from_record h rec sv w =
     (let st = fresh_run\<lparr>rn_pending := map (\<lambda>(i, m). \<lparr>dl_executor = unat i, dl_payload = m\<rparr>) (rr_pending rec),
            rn_partial := rr_partial rec, rn_output := rr_output rec, rn_failed := rr_failed rec,
            rn_unopened := rr_unopened rec, rn_elapsed := rr_elapsed rec,
            rn_held := map (\<lambda>(i, m, b, is). \<lparr>hf_executor = unat i, hf_payload = m, hf_seeded = b, hf_awaiting = map unat is\<rparr>)
              (rr_held rec)\<rparr>;
          sv1 = sv\<lparr>sv_run_counter := rr_run_counter rec, sv_run_id := rr_run_id rec, sv_rounds := rr_rounds rec,
            sv_state := st,
            sv_ports := map (\<lambda>(ia, i, m, routes, b). \<lparr>op_interaction = ia, op_executor = unat i, op_response = m,
              op_routes = routes, op_resolved = b, op_usage = no_usage\<rparr>) (rr_ports rec),
            sv_stalls := rr_stalls rec, sv_resets := rr_resets rec\<rparr>
      in case begin_cancel_epoch h sv1 w of (sv2, w1) \<Rightarrow> (sv2\<lparr>sv_cancelled := rr_cancelled rec\<rparr>, w1))"

end
