(* ===== verification/WorkflowKept.thy ===== *)
theory WorkflowKept
  imports WorkflowRun
begin

text \<open>
  What the supervisor of \<^verbatim>\<open>src/rt/workflow_supervisor.cpp\<close> guarantees whatever its executors, its nested
  supervisors, the clock and the canceller do. Two interfaces carry the invariants: \<open>kept_by_rounds\<close> says what a predicate
  has to survive to be kept by the round loop, \<open>kept_by_runs\<close> what it takes in addition to be kept by every entry point.
\<close>

section \<open>What a run keeps\<close>

text \<open>The configuration of a supervisor, its open interactions and whether it was cancelled: what most operations leave alone.\<close>

definition config_of :: "'c supervisor \<Rightarrow> workflow \<times> bool \<times> principal \<times> bool \<times> string \<times> nat option" where
  "config_of sv = (sv_graph sv, sv_valid sv, sv_principal sv, sv_require_caller sv, sv_reporter sv, sv_transcript_cap sv)"

definition frame_of :: "'c supervisor \<Rightarrow>
    (workflow \<times> bool \<times> principal \<times> bool \<times> string \<times> nat option) \<times> 'c open_port list \<times> (string \<times> pending_sub) list \<times> bool" where
  "frame_of sv = (config_of sv, sv_ports sv, sv_subs sv, sv_cancelled sv)"

lemmas frame_defs = frame_of_def config_of_def

lemma frame_of_ops [simp]:
  "frame_of (fold_output i m u sv) = frame_of sv" "frame_of (run_routed sv s) = frame_of sv" "frame_of (fail_at i sv) = frame_of sv"
  "frame_of (leave_unopened ds sv) = frame_of sv" "frame_of (snd (stall_valve jobs sv)) = frame_of sv"
  by (simp_all add: frame_defs fold_output_def run_routed_def fail_at_def leave_unopened_def stall_valve_def Let_def
      split: option.splits)

lemma frame_of_updates [simp]:
  "frame_of (sv\<lparr>sv_state := s\<rparr>) = frame_of sv" "frame_of (sv\<lparr>sv_usage := u\<rparr>) = frame_of sv"
  "frame_of (sv\<lparr>sv_rounds := n\<rparr>) = frame_of sv"
  "frame_of (sv\<lparr>sv_denied := d\<rparr>) = frame_of sv"
  by (simp_all add: frame_defs)

lemma frame_of_graph: "frame_of sv = frame_of sv' \<Longrightarrow> sv_graph sv = sv_graph sv'"
  by (simp add: frame_defs)

lemma fold_replies_frame [simp]: "frame_of (snd (fst (fold_replies h jobs conflict sv w))) = frame_of sv"
  by (induction h jobs conflict sv w rule: fold_replies.induct) (simp_all add: Let_def split: option.splits prod.splits sum.splits)

lemma fold_ports_frame [simp]: "frame_of (snd (fst (fold_ports ps sv next))) = frame_of sv"
  by (induction ps arbitrary: sv "next") (simp_all add: Let_def split: prod.splits)

text \<open>Induction over the turns of a loop that returned.\<close>

lemma execute_loop_induct [consumes 1, case_names ended again]:
  assumes "execute_loop h entered sv w = Some y"
    and "\<And>sv w y. loop_turn h entered sv w = Inl y \<Longrightarrow> R sv w y"
    and "\<And>sv w sv' w' y. loop_turn h entered sv w = Inr (sv', w') \<Longrightarrow> R sv' w' y \<Longrightarrow> R sv w y"
  shows "R sv w y"
proof -
  have "h' = h \<longrightarrow> e' = entered \<longrightarrow> R sv w y" if "execute_loop h' e' sv w = Some y" for h' e' sv w y
    using that
  proof (rule execute_loop.raw_induct [rotated], goal_cases)
    case (1 loop h' e' sv w y)
    then show ?case
    proof (cases "loop_turn h' e' sv w")
      case (Inr svw)
      with 1 have "h' = h \<longrightarrow> e' = entered \<longrightarrow> R (fst svw) (snd svw) y" by simp
      with Inr show ?thesis using assms(3) [of sv w "fst svw" "snd svw" y] by auto
    qed (auto intro: assms(2))
  qed
  with assms(1) show ?thesis by blast
qed

locale kept_by_rounds =
  fixes kept :: "'c supervisor \<Rightarrow> bool"
  assumes frame: "kept sv \<Longrightarrow> frame_of sv' = frame_of sv \<Longrightarrow> kept sv'"
    and track: "kept sv \<Longrightarrow> kept (track_sub i inner sv)"
    and port: "kept sv \<Longrightarrow> kept (add_port d sv)"
    and ports_folded: "kept sv \<Longrightarrow> kept (sv\<lparr>sv_ports := []\<rparr>)"
begin

lemma split_subs_kept: "kept sv \<Longrightarrow> kept (fst (split_subs jobs sv))"
  by (induction jobs sv rule: split_subs.induct) (auto split: option.splits intro: track)

lemma dispatch_round_kept:
  assumes "kept sv"
  shows "kept (snd (fst (dispatch_round h sv w)))"
proof -
  have "kept (fst (split_subs jobs (sv\<lparr>sv_state := s, sv_usage := u\<rparr>)))" for jobs s u
    by (rule split_subs_kept) (rule frame [OF assms], simp)
  then have "kept ((fst (split_subs jobs (sv\<lparr>sv_state := s, sv_usage := u\<rparr>)))\<lparr>sv_rounds := n\<rparr>)" for jobs s u n
    by (rule frame) simp
  then show ?thesis
    by (simp add: dispatch_round_def Let_def split: prod.splits) (metis fst_conv)
qed

lemma ports_kept: "kept sv \<Longrightarrow> kept (fold add_port ds sv)"
  by (induction ds arbitrary: sv) (auto intro: port)

lemma close_round_kept:
  assumes "kept sv"
  shows "kept (snd (close_round jobs ports sv))"
proof -
  have r: "kept (run_routed sv s)" for s by (rule frame [OF assms]) simp
  have v: "kept (snd (stall_valve jobs (run_routed sv s)))" for s by (rule frame [OF r]) simp
  have "kept ((fold add_port ports (snd (stall_valve jobs (run_routed sv s))))\<lparr>sv_state := t\<rparr>)" for s t
    by (rule frame [OF ports_kept [OF v]]) simp
  moreover have "kept (leave_unopened ports (snd (stall_valve jobs (run_routed sv s))))" for s by (rule frame [OF v]) simp
  moreover have "kept (leave_unopened ports (fail_at i (run_routed sv s)))" for i s by (rule frame [OF r]) simp
  ultimately show ?thesis
    by (simp add: close_round_def Let_def split: prod.splits option.splits) (metis snd_conv)
qed

lemma execute_round_kept:
  assumes "kept sv"
  shows "kept (snd (fst (execute_round h sv w)))"
proof -
  have d: "kept (snd (fst (fold_replies h jobs False (snd (fst (dispatch_round h sv w))) w1)))" for jobs w1
    by (rule frame [OF dispatch_round_kept [OF assms]]) simp
  then have "kept (leave_unopened ports (snd (fst (fold_replies h jobs False (snd (fst (dispatch_round h sv w))) w1))))" for jobs w1 ports
    by (rule frame) simp
  with close_round_kept [OF d] show ?thesis
    by (simp add: execute_round_def Let_def split: prod.splits) (metis fst_conv snd_conv)
qed

lemma loop_turn_kept:
  assumes "kept sv"
  shows "case loop_turn h entered sv w of Inl y \<Rightarrow> kept (snd (fst y)) | Inr svw \<Rightarrow> kept (fst svw)"
proof -
  have "kept (snd (fst (execute_round h sv w2)))" for w2 by (rule execute_round_kept [OF assms])
  then have "execute_round h sv w2 = ((st, sv'), w3) \<Longrightarrow> kept sv'" for w2 st sv' w3 by (metis fst_conv snd_conv)
  with assms show ?thesis by (auto simp: loop_turn_def split: prod.splits option.splits)
qed

lemma execute_loop_kept:
  assumes "execute_loop h entered sv w = Some y" and "kept sv"
  shows "kept (snd (fst y))"
  using assms(1,2)
proof (induction rule: execute_loop_induct)
  case (ended sv w y)
  then show ?case using loop_turn_kept [of sv h entered w] by simp
next
  case (again sv w sv' w' y)
  then show ?case using loop_turn_kept [of sv h entered w] by simp
qed

lemma fold_answers_kept:
  assumes "kept sv"
  shows "kept (snd (fold_answers sv))"
proof -
  have "kept (snd (fst (fold_ports ps sv next)))" for ps "next" by (rule frame [OF assms]) simp
  note f = ports_folded [OF this]
  have "kept ((snd (fst (fold_ports ps sv next)))\<lparr>sv_ports := [], sv_state := s\<rparr>)" for ps s "next"
    by (rule frame [OF f [of ps "next"]]) simp
  with f assms show ?thesis
    by (auto simp: fold_answers_def split: prod.splits option.splits) (metis fst_conv snd_conv)+
qed

lemma execute_entered:
  assumes "execute h sv w = Some y" and "kept sv"
  obtains st entered sv' w' where "y = finish_run h st entered sv' w'" and "kept sv'"
proof -
  from assms show ?thesis
    using that fold_answers_kept [OF assms(2)] execute_loop_kept [of h]
    by (auto simp: execute_def split: prod.splits option.splits if_splits)
qed

end

lemma finish_run_frame:
  "st \<noteq> Cancelled \<Longrightarrow> frame_of (snd (fst (finish_run h st entered sv w))) = frame_of sv"
  "frame_of (snd (fst (finish_run h Cancelled entered sv w))) = frame_of (sv\<lparr>sv_ports := [], sv_subs := [], sv_cancelled := True\<rparr>)"
  by (simp_all add: finish_run_def close_run_for_cancel_def frame_defs Let_def split: prod.splits)

locale kept_by_runs = kept_by_rounds +
  assumes closed: "kept sv \<Longrightarrow> kept (sv\<lparr>sv_ports := [], sv_subs := [], sv_cancelled := c\<rparr>)"
    and erased: "kept sv \<Longrightarrow> kept (sv\<lparr>sv_subs := filter (\<lambda>e. fst e \<noteq> k) (sv_subs sv)\<rparr>)"
    and put_back: "kept sv \<Longrightarrow> map_of (sv_subs sv) k = Some p \<Longrightarrow>
      kept (sv\<lparr>sv_subs := put_sub k p (filter (\<lambda>e. fst e \<noteq> k) (sv_subs sv))\<rparr>)"
    and resolved: "kept sv \<Longrightarrow> map_of (sv_subs sv) k = Some p \<Longrightarrow>
      kept (add_resolved p m u (sv\<lparr>sv_subs := filter (\<lambda>e. fst e \<noteq> k) (sv_subs sv)\<rparr>))"
    and answered: "kept sv \<Longrightarrow> kept (sv\<lparr>sv_ports := answer_port rq (sv_ports sv)\<rparr>)"
begin

lemma finish_run_kept: "kept sv \<Longrightarrow> kept (snd (fst (finish_run h st entered sv w)))"
  by (cases "st = Cancelled") (auto intro: frame closed simp: finish_run_frame)

lemma execute_kept: "execute h sv w = Some y \<Longrightarrow> kept sv \<Longrightarrow> kept (snd (fst y))"
  by (erule execute_entered) (auto intro: finish_run_kept)

lemma settle_cancelled_kept: "kept sv \<Longrightarrow> kept (snd (fst (settle_cancelled h sv w)))"
  by (simp add: settle_cancelled_def finish_run_kept split: prod.splits)

lemma suspend_or_execute_kept: "suspend_or_execute h sv w = Some y \<Longrightarrow> kept sv \<Longrightarrow> kept (snd (fst y))"
  by (auto simp: suspend_or_execute_def split: if_splits intro: execute_kept)

lemma refuse_if_cancelled_kept: "refuse_if_cancelled h sv w = Inl y \<Longrightarrow> kept sv \<Longrightarrow> kept (snd (fst y))"
  by (auto simp: refuse_if_cancelled_def split: if_splits prod.splits intro: settle_cancelled_kept)

lemma settle_entry_kept:
  assumes "settle_entry h before res = Some y" and "\<And>z. res = Some z \<Longrightarrow> kept (snd (fst z))"
  shows "kept (snd (fst y))"
proof -
  obtain r sv w where z: "res = Some ((r, sv), w)" and k: "kept sv"
    using assms by (cases res) (auto simp: settle_entry_def)
  have "kept (snd (fst (settle_cancelled h sv w1)))" for w1 by (rule settle_cancelled_kept [OF k])
  with k assms(1) z show ?thesis
    by (auto simp: settle_entry_def split: prod.splits if_splits) (metis fst_conv snd_conv)+
qed

lemma denied_kept: "kept sv \<Longrightarrow> kept (snd (deny_admission sv))"
  by (rule frame) (simp_all add: deny_admission_def)

lemma start_run_kept: "kept sv \<Longrightarrow> kept (start_run m (fst (begin_cancel_epoch h sv w)))"
  by (rule frame [OF closed [where c = False]]) (simp_all add: start_run_def begin_cancel_epoch_def frame_defs Let_def)

lemma run_workflow_kept:
  assumes "run_workflow h m caller sv w = Some y" and "kept sv"
  shows "kept (snd (fst y))"
proof -
  have "kept sv'" if "execute h (start_run m (fst (begin_cancel_epoch h sv w))) w1 = Some ((r, sv'), w2)" for w1 r sv' w2
    using execute_kept [OF that start_run_kept [OF assms(2)]] by simp
  with assms denied_kept [OF assms(2)] show ?thesis
    by (auto simp: run_workflow_def split: if_splits prod.splits option.splits)
qed

lemma continue_workflow_kept:
  assumes "continue_workflow h caller sv w = Some y" and "kept sv"
  shows "kept (snd (fst y))"
  using assms(1) unfolding continue_workflow_def
proof (rule settle_entry_kept)
  fix z assume "continue_workflow_locked h caller sv w = Some z"
  with assms(2) denied_kept [OF assms(2)] show "kept (snd (fst z))"
    by (auto simp: continue_workflow_locked_def split: if_splits sum.splits intro: execute_kept refuse_if_cancelled_kept)
qed

lemma resume_nested_kept:
  assumes "resume_nested h rq p sv w = Some y" and "kept sv" and "map_of (sv_subs sv) (rq_interaction rq) = Some p"
  shows "kept (snd (fst y))"
proof -
  note k = erased [OF assms(2)] put_back [OF assms(2,3)] resolved [OF assms(2,3)]
  note t = track [OF k(1) [of "rq_interaction rq"]]
  from assms(1) k t show ?thesis
    by (auto simp: resume_nested_def Let_def split: option.splits prod.splits workflow_status.splits intro: suspend_or_execute_kept)
qed

lemma resume_port_kept:
  assumes "resume_port h rq sv w = Some y" and "kept sv"
  shows "kept (snd (fst y))"
  using assms answered [OF assms(2), of rq]
  by (auto simp: resume_port_def split: option.splits if_splits intro: suspend_or_execute_kept)

lemma resume_workflow_kept:
  assumes "resume_workflow h rq sv w = Some y" and "kept sv"
  shows "kept (snd (fst y))"
  using assms(1) unfolding resume_workflow_def
proof (rule settle_entry_kept)
  fix z assume "resume_workflow_locked h rq sv w = Some z"
  with assms(2) denied_kept [OF assms(2)] show "kept (snd (fst z))"
    by (auto simp: resume_workflow_locked_def split: if_splits sum.splits option.splits
        intro: resume_port_kept resume_nested_kept refuse_if_cancelled_kept)
qed

lemma cancel_idle_kept: "kept sv \<Longrightarrow> kept (fst (cancel_idle h sv w))"
  using settle_cancelled_kept [of sv h "h_stop h w"] by (auto simp: cancel_idle_def Let_def split: prod.splits)

end

section \<open>Interaction ids\<close>

lemma free_id_taken: "free_id taken base k f \<in> set taken \<Longrightarrow> j \<le> f \<Longrightarrow> base @ '':'' @ show_nat (k + j) \<in> set taken"
proof (induction f arbitrary: k j)
  case (Suc f)
  then have "base @ '':'' @ show_nat k \<in> set taken" by (auto split: if_splits)
  with Suc show ?case using Suc.IH [of "Suc k" "j - 1"] by (cases j) (auto split: if_splits)
qed simp

lemma free_id_fresh: "free_id taken base k (length taken) \<notin> set taken"
proof
  assume a: "free_id taken base k (length taken) \<in> set taken"
  let ?c = "\<lambda>j. base @ '':'' @ show_nat (k + j)"
  have "inj_on ?c {..length taken}" by (auto intro!: inj_onI dest: show_nat_inj)
  then have "card (?c ` {..length taken}) = Suc (length taken)" by (simp add: card_image)
  moreover have "?c ` {..length taken} \<subseteq> set taken" using free_id_taken [OF a] by auto
  then have "card (?c ` {..length taken}) \<le> length taken" by (meson List.finite_set card_length card_mono order_trans)
  ultimately show False by simp
qed

lemma mint_interaction_fresh: "ia_id (mint_interaction sv i) \<notin> set (held_ids sv)"
  by (simp add: mint_interaction_def Let_def free_id_fresh)

definition well_identified :: "'c supervisor \<Rightarrow> bool" where
  "well_identified sv \<longleftrightarrow> distinct (held_ids sv) \<and> (\<forall>e\<in>set (sv_subs sv). ia_id (ps_interaction (snd e)) = fst e)"

lemma answer_port_ids [simp]: "map (ia_id \<circ> op_interaction) (answer_port rq ps) = map (ia_id \<circ> op_interaction) ps"
  by (induction ps) auto

lemma put_sub_fresh: "k \<notin> fst ` set subs \<Longrightarrow> put_sub k p subs = subs @ [(k, p)]"
  by (induction subs) (auto simp: put_sub_def)

lemma put_sub_erased [simp]: "put_sub k p (filter (\<lambda>e. fst e \<noteq> k) subs) = filter (\<lambda>e. fst e \<noteq> k) subs @ [(k, p)]"
  by (simp add: put_sub_def)

lemma erased_ids: "fst ` set (filter (\<lambda>e. fst e \<noteq> k) subs) = fst ` set subs - {k}"
  by force

lemma tracked_id:
  assumes "well_identified sv" and "map_of (sv_subs sv) k = Some p"
  shows "ia_id (ps_interaction p) = k \<and> k \<notin> (ia_id \<circ> op_interaction) ` set (sv_ports sv)"
proof -
  have m: "(k, p) \<in> set (sv_subs sv)" using map_of_SomeD [OF assms(2)] .
  then have "ia_id (ps_interaction p) = k" using assms(1) unfolding well_identified_def by (metis fst_conv snd_conv)
  moreover have "k \<in> fst ` set (sv_subs sv)" using m by (metis fst_conv image_eqI)
  moreover have "set (map (ia_id \<circ> op_interaction) (sv_ports sv)) \<inter> set (map fst (sv_subs sv)) = {}"
    using assms(1) by (simp add: well_identified_def held_ids_def)
  ultimately show ?thesis by auto
qed

interpretation ids: kept_by_runs well_identified
proof
  fix sv sv' :: "'a supervisor" assume "well_identified sv" "frame_of sv' = frame_of sv"
  then show "well_identified sv'" by (simp add: well_identified_def held_ids_def frame_defs)
next
  fix sv :: "'a supervisor" and i inner assume "well_identified sv"
  then show "well_identified (track_sub i inner sv)"
    using mint_interaction_fresh [of sv i]
    by (auto simp: well_identified_def held_ids_def track_sub_def Let_def put_sub_fresh)
next
  fix sv :: "'a supervisor" and d assume "well_identified sv"
  then show "well_identified (add_port d sv)"
    using mint_interaction_fresh [of sv "dl_executor d"] by (auto simp: well_identified_def held_ids_def add_port_def)
next
  fix sv :: "'a supervisor" assume "well_identified sv"
  then show "well_identified (sv\<lparr>sv_ports := []\<rparr>)" by (simp add: well_identified_def held_ids_def)
next
  fix sv :: "'a supervisor" and c assume "well_identified sv"
  then show "well_identified (sv\<lparr>sv_ports := [], sv_subs := [], sv_cancelled := c\<rparr>)" by (simp add: well_identified_def held_ids_def)
next
  fix sv :: "'a supervisor" and k assume "well_identified sv"
  then show "well_identified (sv\<lparr>sv_subs := filter (\<lambda>e. fst e \<noteq> k) (sv_subs sv)\<rparr>)"
    by (simp add: well_identified_def held_ids_def distinct_map_filter erased_ids) blast
next
  fix sv :: "'a supervisor" and k p assume "well_identified sv" "map_of (sv_subs sv) k = Some p"
  then show "well_identified (sv\<lparr>sv_subs := put_sub k p (filter (\<lambda>e. fst e \<noteq> k) (sv_subs sv))\<rparr>)"
    using tracked_id [of sv k p] by (simp add: well_identified_def held_ids_def distinct_map_filter erased_ids) blast
next
  fix sv :: "'a supervisor" and k p m u assume "well_identified sv" "map_of (sv_subs sv) k = Some p"
  then show "well_identified (add_resolved p m u (sv\<lparr>sv_subs := filter (\<lambda>e. fst e \<noteq> k) (sv_subs sv)\<rparr>))"
    using tracked_id [of sv k p]
    by (simp add: well_identified_def held_ids_def add_resolved_def distinct_map_filter erased_ids) blast
next
  fix sv :: "'a supervisor" and rq assume "well_identified sv"
  then show "well_identified (sv\<lparr>sv_ports := answer_port rq (sv_ports sv)\<rparr>)"
    by (simp add: well_identified_def held_ids_def)
qed

interpretation cfg: kept_by_runs "\<lambda>sv. config_of sv = c" for c
  by unfold_locales (auto simp: frame_defs track_sub_def add_port_def add_resolved_def Let_def)

end
