(* ===== verification/WorkflowRounds.thy ===== *)
theory WorkflowRounds
  imports WorkflowKept "HOL-Library.Multiset"
begin

text \<open>
  What the rounds of \<^verbatim>\<open>src/rt/workflow_supervisor.cpp\<close> do, call by call: every call returns when the workflow bounds its
  rounds, a result's status agrees with what is left open, a refused request leaves the supervisor as it was, and the
  quarantine dispatches each guarded executor once.
\<close>

section \<open>Rounds\<close>

lemma rounds_of_ops [simp]:
  "sv_rounds (fold_output i m u sv) = sv_rounds sv" "sv_rounds (run_routed sv s) = sv_rounds sv"
  "sv_rounds (fail_at i sv) = sv_rounds sv" "sv_rounds (leave_unopened ds sv) = sv_rounds sv"
  "sv_rounds (snd (stall_valve jobs sv)) = sv_rounds sv" "sv_rounds (track_sub i inner sv) = sv_rounds sv"
  "sv_rounds (add_port d sv) = sv_rounds sv"
  by (simp_all add: fold_output_def run_routed_def fail_at_def leave_unopened_def stall_valve_def track_sub_def add_port_def Let_def
      split: option.splits)

lemma rounds_of_folds [simp]:
  "sv_rounds (fst (split_subs rest sv)) = sv_rounds sv"
  "sv_rounds (fold add_port ds sv) = sv_rounds sv"
  "sv_rounds (snd (fst (fold_replies h jobs conflict sv w))) = sv_rounds sv"
  "sv_rounds (snd (fst (fold_ports ps sv next))) = sv_rounds sv"
proof -
  show "sv_rounds (fst (split_subs rest sv)) = sv_rounds sv"
    by (induction rest sv rule: split_subs.induct) (auto split: option.splits)
  show "sv_rounds (fold add_port ds sv) = sv_rounds sv" by (induction ds arbitrary: sv) auto
  show "sv_rounds (snd (fst (fold_replies h jobs conflict sv w))) = sv_rounds sv"
    by (induction h jobs conflict sv w rule: fold_replies.induct) (simp_all add: Let_def split: option.splits prod.splits sum.splits)
  show "sv_rounds (snd (fst (fold_ports ps sv next))) = sv_rounds sv"
    by (induction ps arbitrary: sv "next") (simp_all add: Let_def split: prod.splits)
qed

lemma dispatch_round_rounds: "sv_rounds (snd (fst (dispatch_round h sv w))) = sv_rounds sv + 1"
proof -
  have "sv_rounds sv1 = sv_rounds sv" if "split_subs jobs (sv\<lparr>sv_state := s, sv_usage := u\<rparr>) = (sv1, rest)" for jobs s u sv1 rest
    using rounds_of_folds(1) [of jobs "sv\<lparr>sv_state := s, sv_usage := u\<rparr>"] that by simp
  then show ?thesis by (auto simp: dispatch_round_def Let_def split: prod.splits)
qed

lemma close_round_rounds: "sv_rounds (snd (close_round jobs ports sv)) = sv_rounds sv"
proof -
  have "sv_rounds (snd (stall_valve jobs (run_routed sv s))) = sv_rounds sv" for s by simp
  then have "stall_valve jobs (run_routed sv s) = (o', sv') \<Longrightarrow> sv_rounds sv' = sv_rounds sv" for s o' sv' by (metis snd_conv)
  then show ?thesis by (simp add: close_round_def Let_def split: prod.splits option.splits)
qed

lemma execute_round_rounds: "sv_rounds (snd (fst (execute_round h sv w))) = sv_rounds sv + 1"
proof -
  obtain jobs sv1 w1 where d: "dispatch_round h sv w = ((jobs, sv1), w1)" by (metis prod.exhaust)
  obtain conflict sv2 w2 where f: "fold_replies h jobs False sv1 w1 = ((conflict, sv2), w2)" by (metis prod.exhaust)
  have "sv_rounds sv2 = sv_rounds sv + 1"
    using dispatch_round_rounds [of h sv w] rounds_of_folds(3) [of h jobs False sv1 w1] d f by simp
  with d f show ?thesis by (simp add: execute_round_def Let_def close_round_rounds split: prod.splits)
qed

lemma loop_turn_rounds:
  "loop_turn h entered sv w = Inr (sv', w') \<Longrightarrow> sv_rounds sv' = sv_rounds sv + 1 \<and> \<not> over_rounds sv"
  "loop_turn h entered sv w = Inl y \<Longrightarrow> sv_rounds (snd (fst y)) = sv_rounds sv \<or> sv_rounds (snd (fst y)) = sv_rounds sv + 1 \<and> \<not> over_rounds sv"
proof -
  have r: "sv_rounds sv2 = sv_rounds sv + 1" if "execute_round h sv w1 = ((st, sv2), w2)" for w1 st sv2 w2
    using execute_round_rounds [of h sv w1] that by simp
  show "loop_turn h entered sv w = Inr (sv', w') \<Longrightarrow> sv_rounds sv' = sv_rounds sv + 1 \<and> \<not> over_rounds sv"
    by (auto simp: loop_turn_def split: if_splits prod.splits option.splits dest: r)
  show "loop_turn h entered sv w = Inl y \<Longrightarrow> sv_rounds (snd (fst y)) = sv_rounds sv \<or> sv_rounds (snd (fst y)) = sv_rounds sv + 1 \<and> \<not> over_rounds sv"
    by (auto simp: loop_turn_def split: if_splits prod.splits option.splits dest: r)
qed

lemma loop_turn_graph:
  "loop_turn h entered sv w = Inr (sv', w') \<Longrightarrow> sv_graph sv' = sv_graph sv"
  using cfg.loop_turn_kept [of sv "config_of sv" h entered w] by (simp add: config_of_def)

lemma next_round: "(a :: u32) < n \<Longrightarrow> a + 1 \<le> n \<and> unat (a + 1) = Suc (unat a)"
proof -
  assume "a < n"
  then have "Suc (unat a) \<le> unat n" "unat n < 2 ^ 32" using unsigned_less [of n] by (simp_all add: word_less_nat_alt)
  moreover from this have "unat (a + 1) = Suc (unat a)" by (simp add: unat_word_ariths(1))
  ultimately show ?thesis by (simp add: word_le_nat_alt)
qed

lemma execute_loop_returns:
  assumes "tb_max_rounds (wf_bound (sv_graph sv)) = Some n"
  shows "\<exists>y. execute_loop h entered sv w = Some y \<and> (sv_rounds sv \<le> n \<longrightarrow> sv_rounds (snd (fst y)) \<le> n)"
  using assms
proof (induction "unat n - unat (sv_rounds sv)" arbitrary: sv w rule: less_induct)
  case less
  have step: "sv_rounds sv + 1 \<le> n \<and> unat (sv_rounds sv + 1) = Suc (unat (sv_rounds sv))" if "\<not> over_rounds sv"
  proof -
    from that less.prems have "sv_rounds sv < n" by (simp add: over_rounds_def)
    then show ?thesis using next_round by blast
  qed
  show ?case
  proof (cases "loop_turn h entered sv w")
    case (Inl y)
    then have "execute_loop h entered sv w = Some y" by (simp add: execute_loop.simps)
    moreover have "sv_rounds sv \<le> n \<longrightarrow> sv_rounds (snd (fst y)) \<le> n" using loop_turn_rounds(2) [OF Inl] step by auto
    ultimately show ?thesis by blast
  next
    case (Inr svw)
    then obtain sv' w' where t: "loop_turn h entered sv w = Inr (sv', w')" by (cases svw) simp
    note r = loop_turn_rounds(1) [OF t]
    have "sv_rounds sv' \<le> n" "unat n - unat (sv_rounds sv') < unat n - unat (sv_rounds sv)"
      using r step unat_mono [of "sv_rounds sv" n] by (auto simp: word_le_nat_alt)
    moreover have "tb_max_rounds (wf_bound (sv_graph sv')) = Some n" using loop_turn_graph [OF t] less.prems by simp
    ultimately show ?thesis using less.hyps [of sv' w'] t by (auto simp: execute_loop.simps [of h entered sv])
  qed
qed

abbreviation (input) max_rounds_is :: "'c supervisor \<Rightarrow> u32 \<Rightarrow> bool" where
  "max_rounds_is sv n \<equiv> tb_max_rounds (wf_bound (sv_graph sv)) = Some n"

definition returns_within :: "u32 \<Rightarrow> ('c, 'w) finished option \<Rightarrow> bool" where
  "returns_within n res = (case res of None \<Rightarrow> False | Some y \<Rightarrow> sv_rounds (snd (fst y)) \<le> n)"

lemma finish_run_rounds [simp]: "sv_rounds (snd (fst (finish_run h st entered sv w))) = sv_rounds sv"
  by (simp add: finish_run_def close_run_for_cancel_def Let_def split: prod.splits)

lemma returns_within_Some [simp]: "returns_within n (Some y) \<longleftrightarrow> sv_rounds (snd (fst y)) \<le> n"
  by (simp add: returns_within_def)

lemma returns_withinE:
  assumes "returns_within n res"
  obtains r sv w where "res = Some ((r, sv), w)" and "sv_rounds sv \<le> n"
  using assms by (cases res) (auto simp: returns_within_def)

lemma fold_answers_keeps:
  "sv_rounds (snd (fold_answers sv)) = sv_rounds sv" "sv_graph (snd (fold_answers sv)) = sv_graph sv"
proof -
  have "sv_rounds sv1 = sv_rounds sv" if "fold_ports ps sv next = ((st, sv1), rest)" for ps "next" st sv1 rest
    using rounds_of_folds(4) [of ps sv "next"] that by simp
  then show "sv_rounds (snd (fold_answers sv)) = sv_rounds sv"
    by (auto simp: fold_answers_def split: prod.splits option.splits)
  show "sv_graph (snd (fold_answers sv)) = sv_graph sv"
    using cfg.fold_answers_kept [of sv "config_of sv"] by (simp add: config_of_def)
qed

lemma execute_returns:
  assumes "max_rounds_is sv n" and "sv_rounds sv \<le> n"
  shows "returns_within n (execute h sv w)"
proof -
  obtain st sv1 where f: "fold_answers sv = (st, sv1)" by force
  with fold_answers_keeps [of sv] assms have k: "max_rounds_is sv1 n" "sv_rounds sv1 \<le> n" by simp_all
  obtain entered w0 where n: "h_now h w = (entered, w0)" by force
  show ?thesis
  proof (cases st)
    case None
    obtain st2 sv2 w2 where l: "execute_loop h entered sv1 w0 = Some ((st2, sv2), w2)" and "sv_rounds sv2 \<le> n"
      using execute_loop_returns [OF k(1), of h entered w0] k(2) by auto
    with n f None show ?thesis by (simp add: execute_def split: prod.splits)
  next
    case (Some st1)
    with n f k(2) show ?thesis by (simp add: execute_def)
  qed
qed

lemma settle_cancelled_returns: "sv_rounds (snd (fst (settle_cancelled h sv w))) = sv_rounds sv"
  by (simp add: settle_cancelled_def split: prod.splits)

lemma settle_entry_returns:
  assumes "returns_within n res"
  shows "returns_within n (settle_entry h before res)"
proof -
  obtain r sv w where r: "res = Some ((r, sv), w)" "sv_rounds sv \<le> n" using assms by (rule returns_withinE)
  have "sv_rounds sv' \<le> n" if "settle_cancelled h sv w1 = ((r', sv'), w2)" for w1 r' sv' w2
    using settle_cancelled_returns [of h sv w1] that r(2) by simp
  with r show ?thesis by (auto simp: settle_entry_def split: prod.splits)
qed

lemma suspend_or_execute_returns: "max_rounds_is sv n \<Longrightarrow> sv_rounds sv \<le> n \<Longrightarrow> returns_within n (suspend_or_execute h sv w)"
  by (simp add: suspend_or_execute_def execute_returns)

lemma resume_workflow_returns:
  assumes "max_rounds_is sv n" and "sv_rounds sv \<le> n"
  shows "returns_within n (resume_workflow h rq sv w)"
  unfolding resume_workflow_def
proof (rule settle_entry_returns)
  have "returns_within n (resume_nested h rq p sv w1)" for p w1
    using assms by (simp add: resume_nested_def Let_def suspend_or_execute_returns add_resolved_def
        split: option.splits prod.splits workflow_status.splits)
  moreover have "returns_within n (resume_port h rq sv w1)" for w1
    using assms by (simp add: resume_port_def suspend_or_execute_returns split: option.splits)
  moreover have "returns_within n (Some y)" if "refuse_if_cancelled h sv w = Inl y" for y
    using that assms(2) settle_cancelled_returns [of h sv]
    by (auto simp: refuse_if_cancelled_def settle_cancelled_def split: if_splits prod.splits)
  ultimately show "returns_within n (resume_workflow_locked h rq sv w)"
    using assms by (auto simp: resume_workflow_locked_def deny_admission_def split: sum.splits option.splits)
qed

lemma continue_workflow_returns:
  assumes "max_rounds_is sv n" and "sv_rounds sv \<le> n"
  shows "returns_within n (continue_workflow h caller sv w)"
  unfolding continue_workflow_def
proof (rule settle_entry_returns)
  have "returns_within n (Some y)" if "refuse_if_cancelled h sv w = Inl y" for y
    using that assms(2) by (auto simp: refuse_if_cancelled_def settle_cancelled_def split: if_splits prod.splits)
  then show "returns_within n (continue_workflow_locked h caller sv w)"
    using assms by (auto simp: continue_workflow_locked_def deny_admission_def execute_returns split: sum.splits)
qed

lemma run_workflow_returns:
  assumes "max_rounds_is sv n" and "sv_rounds sv \<le> n"
  shows "returns_within n (run_workflow h m caller sv w)"
proof -
  let ?sv = "start_run m (fst (begin_cancel_epoch h sv w))" and ?w = "snd (begin_cancel_epoch h sv w)"
  have "returns_within n (execute h ?sv ?w)"
    by (rule execute_returns) (simp_all add: start_run_def begin_cancel_epoch_def Let_def assms)
  then obtain r sv' w' where "execute h ?sv ?w = Some ((r, sv'), w')" "sv_rounds sv' \<le> n" by (rule returns_withinE)
  with assms(2) show ?thesis by (auto simp: run_workflow_def deny_admission_def split: prod.splits)
qed

text \<open>A loop does not return from a set of states that no turn ends from and no turn leaves.\<close>

lemma execute_loop_diverges:
  assumes "spins sv w" and "\<And>sv w. spins sv w \<Longrightarrow> \<exists>sv' w'. loop_turn h entered sv w = Inr (sv', w') \<and> spins sv' w'"
  shows "execute_loop h entered sv w = None"
proof (rule ccontr)
  assume "execute_loop h entered sv w \<noteq> None"
  then obtain y where "execute_loop h entered sv w = Some y" by blast
  then have "\<not> spins sv w"
  proof (induction rule: execute_loop_induct)
    case (ended sv w y)
    then show ?case using assms(2) [of sv w] by fastforce
  next
    case (again sv w sv' w' y)
    then show ?case using assms(2) [of sv w] by fastforce
  qed
  with assms(1) show False by contradiction
qed

section \<open>Waiting and ending\<close>

lemma nothing_open: "open_interactions sv = [] \<longleftrightarrow> \<not> awaiting_outside sv"
  by (auto simp: open_interactions_def awaiting_outside_def filter_empty_conv list_ex_iff)

lemma awaiting_frame: "frame_of sv' = frame_of sv \<Longrightarrow> awaiting_outside sv' = awaiting_outside sv"
  by (simp add: frame_defs awaiting_outside_def)

lemma close_round_status:
  "close_round jobs ports sv = (o', sv') \<Longrightarrow> (o' = None \<longrightarrow> \<not> awaiting_outside sv') \<and> (o' = Some Suspended \<longrightarrow> awaiting_outside sv') \<and>
   o' \<in> {None, Some Suspended, Some RoutingFailure, Some ExecutorFailed, Some BoundMaxStalls, Some BoundMaxResets}"
  by (auto simp: close_round_def stall_valve_def route_status_def Let_def split: prod.splits option.splits if_splits)

lemma execute_round_status:
  "execute_round h sv w = ((o', sv'), w') \<Longrightarrow> (o' = None \<longrightarrow> \<not> awaiting_outside sv') \<and> (o' = Some Suspended \<longrightarrow> awaiting_outside sv') \<and>
   o' \<in> {None, Some Suspended, Some RoutingFailure, Some ExecutorFailed, Some BoundMaxStalls, Some BoundMaxResets, Some MergeConflict, Some Cancelled}"
  by (auto simp: execute_round_def Let_def split: prod.splits if_splits dest: close_round_status)

definition run_statuses :: "workflow_status set" where
  "run_statuses = {Completed, Suspended, BoundMaxRounds, BoundDeadline, ExecutorFailed, RoutingFailure, MergeConflict,
     BoundMaxStalls, BoundMaxResets, Cancelled}"

lemma execute_loop_status:
  assumes "execute_loop h entered sv w = Some y" and "\<not> awaiting_outside sv"
  shows "(fst (fst y) = Suspended \<longrightarrow> awaiting_outside (snd (fst y))) \<and> (fst (fst y) = Completed \<longrightarrow> \<not> awaiting_outside (snd (fst y))) \<and>
    fst (fst y) \<in> run_statuses"
  using assms
proof (induction rule: execute_loop_induct)
  case (ended sv w y)
  then show ?case
    by (auto simp: loop_turn_def run_statuses_def split: if_splits prod.splits option.splits dest: execute_round_status)
next
  case (again sv w sv' w' y)
  then have "\<not> awaiting_outside sv'"
    by (auto simp: loop_turn_def split: if_splits prod.splits option.splits dest: execute_round_status)
  with again show ?case by blast
qed

lemma fold_answers_subs: "sv_subs (snd (fold_answers sv)) = sv_subs sv" "sv_ports (snd (fold_answers sv)) = []"
proof -
  have "sv_subs sv1 = sv_subs sv" if "fold_ports ps sv next = ((st, sv1), rest)" for ps "next" st sv1 rest
    using fold_ports_frame [of ps sv "next"] that by (simp add: frame_defs)
  then show "sv_subs (snd (fold_answers sv)) = sv_subs sv" "sv_ports (snd (fold_answers sv)) = []"
    by (auto simp: fold_answers_def split: prod.splits option.splits)
qed

lemma fold_ports_status: "fst (fst (fold_ports ps sv next)) \<in> {None, Some RoutingFailure, Some ExecutorFailed}"
  by (induction ps arbitrary: sv "next") (auto simp: Let_def route_status_def split: prod.splits)

text \<open>What every end of a run looks like: its status says whether something is still open, its result reports it, and only a
  cancelled run is marked so.\<close>

definition ends_well :: "('c, 'w) finished \<Rightarrow> bool" where
  "ends_well y \<longleftrightarrow> (case y of ((r, sv), w) \<Rightarrow> wr_status r \<in> run_statuses \<and> wr_open r = open_interactions sv \<and>
     (wr_status r = Suspended \<longrightarrow> awaiting_outside sv) \<and> (wr_status r = Completed \<longrightarrow> \<not> awaiting_outside sv) \<and>
     (sv_cancelled sv \<longleftrightarrow> wr_status r = Cancelled) \<and> (sv_cancelled sv \<longrightarrow> \<not> run_is_live sv))"

lemma finish_run_ends_well:
  assumes "st \<in> run_statuses" and "st = Suspended \<longrightarrow> awaiting_outside sv" and "st = Completed \<longrightarrow> \<not> awaiting_outside sv"
    and "\<not> sv_cancelled sv"
  shows "ends_well (finish_run h st entered sv w)"
  using assms by (auto simp: ends_well_def finish_run_def run_result_def close_run_for_cancel_def run_is_live_def awaiting_outside_def
      Let_def split: prod.splits)

interpretation live: kept_by_rounds "\<lambda>sv. \<not> sv_cancelled sv"
  by unfold_locales (auto simp: frame_defs track_sub_def add_port_def Let_def)

lemma execute_ends_well:
  assumes "execute h sv w = Some y" and "\<not> awaiting_outside sv" and "\<not> sv_cancelled sv"
  shows "ends_well y"
proof -
  obtain entered w0 where n: "h_now h w = (entered, w0)" by force
  obtain st sv1 where f: "fold_answers sv = (st, sv1)" by force
  have c: "\<not> sv_cancelled sv1" using live.fold_answers_kept [OF assms(3)] f by simp
  have a: "\<not> awaiting_outside sv1" using fold_answers_subs [of sv] f assms(2) by (simp add: awaiting_outside_def)
  have s: "st \<in> {None, Some RoutingFailure, Some ExecutorFailed}"
    using fold_ports_status [of "sv_ports sv" sv "rn_pending (sv_state sv)"] f
    by (auto simp: fold_answers_def split: if_splits prod.splits option.splits)
  show ?thesis
  proof (cases st)
    case None
    with assms(1) n f obtain st2 sv2 w2 stop w3 where l: "execute_loop h entered sv1 w0 = Some ((st2, sv2), w2)"
      and y: "y = finish_run h (if stop then Cancelled else st2) entered sv2 w3"
      by (auto simp: execute_def split: prod.splits option.splits)
    show ?thesis unfolding y
      using execute_loop_status [OF l a] live.execute_loop_kept [OF l c]
      by (intro finish_run_ends_well) (auto simp: run_statuses_def)
  next
    case (Some st1)
    with assms(1) n f have y: "y = finish_run h st1 entered sv1 w0" by (simp add: execute_def)
    show ?thesis unfolding y using s Some c by (intro finish_run_ends_well) (auto simp: run_statuses_def)
  qed
qed

text \<open>What every entry point returns, refusals included.\<close>

definition quiet :: "'c supervisor \<Rightarrow> bool" where
  "quiet sv \<longleftrightarrow> (sv_cancelled sv \<longrightarrow> \<not> run_is_live sv)"

definition reports_open :: "('c, 'w) finished \<Rightarrow> bool" where
  "reports_open y \<longleftrightarrow> (case y of ((r, sv), w) \<Rightarrow> quiet sv \<and>
     (wr_status r = Suspended \<longrightarrow> awaiting_outside sv \<and> wr_open r = open_interactions sv) \<and>
     (wr_status r = Completed \<longrightarrow> \<not> awaiting_outside sv))"

lemma ends_well_reports: "ends_well y \<Longrightarrow> reports_open y"
  by (auto simp: ends_well_def reports_open_def quiet_def)

lemma settle_cancelled_reports: "\<not> sv_cancelled sv \<Longrightarrow> reports_open (settle_cancelled h sv w)"
  by (auto simp: settle_cancelled_def run_statuses_def intro!: ends_well_reports finish_run_ends_well split: prod.splits)

lemma suspend_or_execute_reports:
  "suspend_or_execute h sv w = Some y \<Longrightarrow> \<not> sv_cancelled sv \<Longrightarrow> reports_open y"
  by (auto simp: suspend_or_execute_def suspended_result_def run_result_def reports_open_def quiet_def split: if_splits
      dest!: execute_ends_well ends_well_reports)

lemma reports_open_simple [simp]:
  "reports_open ((bare_result st, sv), w) \<longleftrightarrow> quiet sv \<and> st \<noteq> Suspended \<and> (st = Completed \<longrightarrow> \<not> awaiting_outside sv) \<or>
     st = Suspended \<and> quiet sv \<and> awaiting_outside sv \<and> open_interactions sv = []"
  "reports_open ((suspended_result sv, sv), w) \<longleftrightarrow> quiet sv \<and> awaiting_outside sv"
  "st \<noteq> Suspended \<Longrightarrow> st \<noteq> Completed \<Longrightarrow> reports_open ((reject_resolve st sv, sv), w) \<longleftrightarrow> quiet sv"
  "reports_open ((cancelled_result sv, sv), w) \<longleftrightarrow> quiet sv"
  "reports_open (((bare_result Invalid)\<lparr>wr_rounds := n, wr_open := is\<rparr>, sv), w) \<longleftrightarrow> quiet sv"
  by (auto simp: reports_open_def bare_result_def suspended_result_def run_result_def reject_resolve_def cancelled_result_def)

lemma settle_entry_reports:
  assumes "settle_entry h before res = Some y" and "\<And>z. res = Some z \<Longrightarrow> reports_open z"
  shows "reports_open y"
proof -
  obtain r sv w where z: "res = Some ((r, sv), w)" using assms(1) by (cases res) (auto simp: settle_entry_def)
  have k: "reports_open ((r, sv), w)" using assms(2) z by blast
  obtain stop w1 where c: "(if wr_status r = Suspended then h_cancel h w else (False, w)) = (stop, w1)" by (metis prod.exhaust)
  show ?thesis
  proof (cases stop)
    case False
    with assms(1) z c k show ?thesis by (auto simp: settle_entry_def reports_open_def)
  next
    case True
    with c have "wr_status r = Suspended" by (auto split: if_splits)
    with k have "run_is_live sv" "\<not> sv_cancelled sv"
      by (auto simp: reports_open_def quiet_def run_is_live_def awaiting_outside_def)
    obtain r' sv' w2 where f: "settle_cancelled h sv w1 = ((r', sv'), w2)" by (metis prod.exhaust)
    with settle_cancelled_reports [OF \<open>\<not> sv_cancelled sv\<close>, of h w1] have "reports_open ((r', sv'), w2)" by simp
    with True assms(1) z c f show ?thesis by (auto simp: settle_entry_def reports_open_def)
  qed
qed

lemma refuse_if_cancelled_reports: "refuse_if_cancelled h sv w = Inl y \<Longrightarrow> quiet sv \<Longrightarrow> reports_open y"
  by (auto simp: refuse_if_cancelled_def split: if_splits prod.splits intro: settle_cancelled_reports)

lemma refuse_if_cancelled_passes: "refuse_if_cancelled h sv w = Inr w' \<Longrightarrow> \<not> sv_cancelled sv"
  by (auto simp: refuse_if_cancelled_def split: if_splits)

lemma quiet_updates [simp]:
  "quiet (sv\<lparr>sv_denied := d\<rparr>) = quiet sv" "\<not> sv_cancelled sv \<Longrightarrow> quiet sv"
  by (auto simp: quiet_def run_is_live_def)

lemma run_workflow_reports:
  assumes "run_workflow h m caller sv w = Some y" and "quiet sv"
  shows "reports_open y"
proof -
  let ?sv = "start_run m (fst (begin_cancel_epoch h sv w))"
  have s: "\<not> awaiting_outside ?sv" "\<not> sv_cancelled ?sv"
    by (simp_all add: start_run_def begin_cancel_epoch_def awaiting_outside_def Let_def)
  have "reports_open ((r\<lparr>wr_usage := u\<rparr>, sv'), w')" if "execute h ?sv w1 = Some ((r, sv'), w')" for w1 r sv' w' u
    using ends_well_reports [OF execute_ends_well [OF that s]] by (simp add: reports_open_def)
  with assms show ?thesis by (auto simp: run_workflow_def deny_admission_def split: if_splits prod.splits option.splits)
qed

lemma continue_workflow_reports:
  assumes "continue_workflow h caller sv w = Some y" and "quiet sv"
  shows "reports_open y"
  using assms(1) unfolding continue_workflow_def
proof (rule settle_entry_reports)
  fix z assume "continue_workflow_locked h caller sv w = Some z"
  with assms(2) show "reports_open z"
    by (auto simp: continue_workflow_locked_def deny_admission_def split: if_splits sum.splits
        intro: refuse_if_cancelled_reports ends_well_reports execute_ends_well dest: refuse_if_cancelled_passes)
qed

lemma resume_nested_reports:
  assumes "resume_nested h rq p sv w = Some y" and "\<not> sv_cancelled sv"
  shows "reports_open y"
proof -
  have t: "awaiting_outside (track_sub i inner sv')" "sv_cancelled (track_sub i inner sv') = sv_cancelled sv'" for i inner and sv' :: "'a supervisor"
    by (simp_all add: track_sub_def awaiting_outside_def put_sub_def Let_def)
  have "sv_cancelled (add_resolved p m u sv') = sv_cancelled sv'" for m u and sv' :: "'a supervisor" by (simp add: add_resolved_def)
  with assms t show ?thesis
    by (auto simp: resume_nested_def Let_def split: option.splits prod.splits workflow_status.splits
        intro: suspend_or_execute_reports)
qed

lemma resume_workflow_reports:
  assumes "resume_workflow h rq sv w = Some y" and "quiet sv"
  shows "reports_open y"
  using assms(1) unfolding resume_workflow_def
proof (rule settle_entry_reports)
  fix z assume z: "resume_workflow_locked h rq sv w = Some z"
  have "reports_open z" if "resume_port h rq sv w1 = Some z" "\<not> sv_cancelled sv" for w1
    using that by (auto simp: resume_port_def split: option.splits if_splits intro: suspend_or_execute_reports)
  with z assms(2) show "reports_open z"
    by (auto simp: resume_workflow_locked_def deny_admission_def split: if_splits sum.splits option.splits
        intro: refuse_if_cancelled_reports resume_nested_reports dest: refuse_if_cancelled_passes)
qed

lemma cancel_idle_quiet: "quiet sv \<Longrightarrow> quiet (fst (cancel_idle h sv w))"
proof -
  assume q: "quiet sv"
  have "quiet sv1" if "\<not> sv_cancelled sv" "settle_cancelled h sv w1 = ((r, sv1), w2)" for w1 r sv1 w2
    using settle_cancelled_reports [OF that(1), of h w1] that(2) by (simp add: reports_open_def)
  with q show ?thesis by (auto simp: cancel_idle_def Let_def split: prod.splits)
qed

section \<open>Requests that are refused\<close>

lemma run_statuses_proper: "st \<in> run_statuses \<Longrightarrow> st \<noteq> AdmissionDenied \<and> st \<noteq> InvalidRoutes \<and> st \<noteq> Invalid"
  by (auto simp: run_statuses_def)

lemma suspend_or_execute_proper:
  "suspend_or_execute h sv w = Some ((r, sv'), w') \<Longrightarrow> \<not> sv_cancelled sv \<Longrightarrow> wr_status r \<in> run_statuses"
  by (auto simp: suspend_or_execute_def suspended_result_def run_result_def split: if_splits dest!: execute_ends_well)
    (auto simp: run_statuses_def ends_well_def)

text \<open>The same supervisor but for the count of refusals and the order of the nested interactions.\<close>

definition undisturbed :: "'c supervisor \<Rightarrow> 'c supervisor \<Rightarrow> bool" where
  "undisturbed sv sv' \<longleftrightarrow> mset (sv_subs sv') = mset (sv_subs sv) \<and> (\<exists>d. sv'\<lparr>sv_subs := sv_subs sv\<rparr> = sv\<lparr>sv_denied := d\<rparr>)"

lemma undisturbed_simps: "undisturbed sv sv" "undisturbed sv (sv\<lparr>sv_denied := d\<rparr>)"
  by (auto simp: undisturbed_def intro: exI [of _ "sv_denied sv"])

lemma mset_put_back:
  "distinct (map fst subs) \<Longrightarrow> map_of subs k = Some p \<Longrightarrow> mset (filter (\<lambda>e. fst e \<noteq> k) subs @ [(k, p)]) = mset subs"
proof (induction subs)
  case (Cons e subs)
  have "filter (\<lambda>e. fst e \<noteq> k) subs = subs" if "k \<notin> fst ` set subs" using that by (auto simp: filter_id_conv)
  then have "mset (filter (\<lambda>e. fst e \<noteq> k) subs) = mset subs" if "k \<notin> fst ` set subs" using that by simp
  with Cons show ?case by (cases e) (auto split: if_splits)
qed simp

lemma put_back_undisturbed:
  assumes "well_identified sv" and "map_of (sv_subs sv) k = Some p"
  shows "undisturbed sv (sv\<lparr>sv_subs := put_sub k p (filter (\<lambda>e. fst e \<noteq> k) (sv_subs sv))\<rparr>)"
  using mset_put_back [OF _ assms(2)] assms(1)
  by (auto simp: undisturbed_def well_identified_def held_ids_def intro: exI [of _ "sv_denied sv"])

lemma resume_nested_refused:
  assumes "resume_nested h rq p sv w = Some ((r, sv'), w')" and "well_identified sv" and "\<not> sv_cancelled sv"
    and "map_of (sv_subs sv) (rq_interaction rq) = Some p" and "wr_status r = AdmissionDenied \<or> wr_status r = InvalidRoutes"
  shows "undisturbed sv sv'"
proof -
  have a: "sv_cancelled (add_resolved p m u sv1) = sv_cancelled sv1" for m u and sv1 :: "'a supervisor" by (simp add: add_resolved_def)
  have "wr_status r \<noteq> AdmissionDenied \<and> wr_status r \<noteq> InvalidRoutes"
    if "suspend_or_execute h (add_resolved p m u (sv\<lparr>sv_subs := ss\<rparr>)) w1 = Some ((r, sv'), w')" for m u ss w1
    using suspend_or_execute_proper [OF that] run_statuses_proper a assms(3) by simp
  with assms put_back_undisturbed [OF assms(2,4)] show ?thesis
    by (auto simp: resume_nested_def Let_def suspended_result_def run_result_def bare_result_def
        split: option.splits prod.splits workflow_status.splits)
qed

lemma resume_port_refused:
  assumes "resume_port h rq sv w = Some ((r, sv'), w')" and "\<not> sv_cancelled sv"
    and "wr_status r \<in> {AdmissionDenied, InvalidRoutes, Invalid}"
  shows "sv' = sv"
proof -
  have "wr_status r \<notin> {AdmissionDenied, InvalidRoutes, Invalid}"
    if "suspend_or_execute h (sv\<lparr>sv_ports := ps\<rparr>) w1 = Some ((r, sv'), w')" for ps w1
    using suspend_or_execute_proper [OF that] run_statuses_proper assms(2) by simp
  with assms show ?thesis by (auto simp: resume_port_def split: option.splits if_splits)
qed

lemma settle_entry_refused:
  assumes "settle_entry h before res = Some ((r, sv), w)" and "wr_status r \<noteq> Cancelled"
  shows "\<exists>r'. res = Some ((r', sv), w) \<or> (\<exists>w0. res = Some ((r', sv), w0) \<and> wr_status r' = Suspended \<and> wr_status r = Suspended)"
    and "\<exists>r' w0. res = Some ((r', sv), w0) \<and> wr_status r' = wr_status r"
  using assms by (auto simp: settle_entry_def settle_cancelled_def finish_run_def run_result_def Let_def close_run_for_cancel_def
      split: option.splits prod.splits if_splits)

section \<open>Quarantine\<close>

lemma quarantine_length [simp]: "length (quarantine once seen is) = length is"
  by (induction once seen "is" rule: quarantine.induct) auto

lemma quarantine_nth:
  "i < length is \<Longrightarrow> quarantine once seen is ! i \<longleftrightarrow> once (is ! i) \<and> is ! i \<in> set seen \<union> set (take i is)"
proof (induction once seen "is" arbitrary: i rule: quarantine.induct)
  case (2 once seen j "is")
  then show ?case by (cases i) auto
qed simp

lemma to_dispatch_iff: "i \<in> set (to_dispatch q) \<longleftrightarrow> i < length q \<and> \<not> q ! i"
  by (auto simp: to_dispatch_def)

lemma dispatched_all: "(\<lambda>i. is ! i) ` set (to_dispatch (quarantine once [] is)) = set is"
proof (rule set_eqI)
  fix x
  show "x \<in> (\<lambda>i. is ! i) ` set (to_dispatch (quarantine once [] is)) \<longleftrightarrow> x \<in> set is"
  proof
    assume "x \<in> set is"
    then obtain i where i: "i < length is" "is ! i = x" "\<forall>j<i. is ! j \<noteq> x" using split_list_first [of x "is"]
      by (metis in_set_conv_nth exists_least_iff [of "\<lambda>i. i < length is \<and> is ! i = x"] order.strict_trans)
    then have "x \<notin> set (take i is)" by (auto simp: in_set_conv_nth)
    with i show "x \<in> (\<lambda>i. is ! i) ` set (to_dispatch (quarantine once [] is))"
      by (auto simp: to_dispatch_iff quarantine_nth intro!: image_eqI [of _ _ i])
  qed (auto simp: to_dispatch_iff)
qed

lemma dispatched_once:
  assumes "i \<in> set (to_dispatch (quarantine once [] is))" and "j \<in> set (to_dispatch (quarantine once [] is))"
    and "is ! i = is ! j" and "once (is ! i)"
  shows "i = j"
proof -
  have "\<not> i < j" if "i \<in> set (to_dispatch (quarantine once [] is))" "j \<in> set (to_dispatch (quarantine once [] is))"
    "is ! i = is ! j" "once (is ! i)" for i j
  proof
    assume "i < j"
    moreover have "j < length is" using that(2) by (simp add: to_dispatch_iff)
    ultimately have "is ! j \<in> set (take j is)" using that(3) by (metis in_set_conv_nth length_take min_less_iff_conj nth_take order.strict_trans)
    with that quarantine_nth [of j "is" once "[]"] show False by (simp add: to_dispatch_iff)
  qed
  from this [of i j] this [of j i] assms show ?thesis by simp
qed

end
