(* ===== verification/WorkflowSafety.thy ===== *)
theory WorkflowSafety
  imports WorkflowRounds
begin

text \<open>
  Safety of the supervisor of \<^verbatim>\<open>src/rt/workflow_supervisor.cpp\<close>, over every sequence of calls to its entry points
  and every host.
\<close>

section \<open>Sequences of calls\<close>

text \<open>Between two calls the world may do anything.\<close>

inductive moves :: "('c, 'w) host \<Rightarrow> 'c supervisor \<times> 'w \<Rightarrow> 'c supervisor \<times> 'w \<Rightarrow> bool" for h where
  run: "run_workflow h m caller sv w = Some ((r, sv'), w') \<Longrightarrow> moves h (sv, w) (sv', w')"
| resume: "resume_workflow h rq sv w = Some ((r, sv'), w') \<Longrightarrow> moves h (sv, w) (sv', w')"
| continue: "continue_workflow h caller sv w = Some ((r, sv'), w') \<Longrightarrow> moves h (sv, w) (sv', w')"
| cancel: "cancel_idle h sv w = (sv', w') \<Longrightarrow> moves h (sv, w) (sv', w')"
| world: "moves h (sv, w) (sv, w')"

definition idle :: "'c supervisor \<Rightarrow> bool" where
  "idle sv \<longleftrightarrow> sv_ports sv = [] \<and> sv_subs sv = [] \<and> rn_pending (sv_state sv) = [] \<and> \<not> sv_cancelled sv"

inductive reached :: "('c, 'w) host \<Rightarrow> 'c supervisor \<Rightarrow> 'w \<Rightarrow> bool" for h where
  start: "idle sv \<Longrightarrow> reached h sv w"
| move: "reached h sv w \<Longrightarrow> moves h (sv, w) (sv', w') \<Longrightarrow> reached h sv' w'"

lemma reached_well_identified: "reached h sv w \<Longrightarrow> well_identified sv"
proof (induction rule: reached.induct)
  case (start sv w)
  then show ?case by (simp add: idle_def well_identified_def held_ids_def)
next
  case (move sv w sv' w')
  from move.hyps(2) show ?case
  proof cases
    case (run m caller r)
    then show ?thesis using ids.run_workflow_kept move.IH by fastforce
  next
    case (resume rq r)
    then show ?thesis using ids.resume_workflow_kept move.IH by fastforce
  next
    case (continue caller r)
    then show ?thesis using ids.continue_workflow_kept move.IH by fastforce
  next
    case cancel
    then show ?thesis using ids.cancel_idle_kept [OF move.IH] by (metis fst_conv)
  next
    case world
    then show ?thesis using move.IH by simp
  qed
qed

lemma reached_quiet: "reached h sv w \<Longrightarrow> quiet sv"
proof (induction rule: reached.induct)
  case (start sv w)
  then show ?case by (simp add: idle_def)
next
  case (move sv w sv' w')
  from move.hyps(2) show ?case
  proof cases
    case (run m caller r)
    then show ?thesis using run_workflow_reports [OF run move.IH] by (simp add: reports_open_def)
  next
    case (resume rq r)
    then show ?thesis using resume_workflow_reports [OF resume move.IH] by (simp add: reports_open_def)
  next
    case (continue caller r)
    then show ?thesis using continue_workflow_reports [OF continue move.IH] by (simp add: reports_open_def)
  next
    case cancel
    then show ?thesis using cancel_idle_quiet [OF move.IH, of h w] by simp
  next
    case world
    then show ?thesis using move.IH by simp
  qed
qed

section \<open>Open interactions can be answered\<close>

lemma find_port:
  "distinct (map (ia_id \<circ> op_interaction) ps) \<Longrightarrow> p \<in> set ps \<Longrightarrow> List.find (port_at (ia_id (op_interaction p))) ps = Some p"
  by (induction ps) (auto simp: port_at_def rev_image_eqI)

lemma open_ids_sub: "set (map ia_id (open_interactions sv)) \<subseteq> set (map (ia_id \<circ> op_interaction) (sv_ports sv)) \<union>
    set (map (ia_id \<circ> ps_interaction \<circ> snd) (sv_subs sv))"
  by (auto simp: open_interactions_def)

lemma well_identified_subs: "well_identified sv \<Longrightarrow> map (ia_id \<circ> ps_interaction \<circ> snd) (sv_subs sv) = map fst (sv_subs sv)"
  by (simp add: well_identified_def)

lemma well_identified_open: "well_identified sv \<Longrightarrow> distinct (map ia_id (open_interactions sv))"
proof -
  assume a: "well_identified sv"
  have "map ia_id (open_interactions sv) =
      map (ia_id \<circ> op_interaction) (filter (\<lambda>p. \<not> op_resolved p) (sv_ports sv)) @ map fst (sv_subs sv)"
    using well_identified_subs [OF a] by (simp add: open_interactions_def comp_assoc)
  then show ?thesis using a by (auto simp: well_identified_def held_ids_def distinct_map_filter)
qed

lemma well_identified_lookup:
  assumes "well_identified sv" and "ia \<in> set (open_interactions sv)"
  shows "case map_of (sv_subs sv) (ia_id ia) of
      Some p \<Rightarrow> ps_interaction p = ia
    | None \<Rightarrow> \<exists>p. List.find (port_at (ia_id ia)) (sv_ports sv) = Some p \<and> \<not> op_resolved p \<and> op_interaction p = ia"
proof -
  have d: "distinct (map (ia_id \<circ> op_interaction) (sv_ports sv))" "distinct (map fst (sv_subs sv))"
    "set (map (ia_id \<circ> op_interaction) (sv_ports sv)) \<inter> set (map fst (sv_subs sv)) = {}"
    using assms(1) by (simp_all add: well_identified_def held_ids_def)
  from assms(2) consider (port) p where "p \<in> set (sv_ports sv)" "\<not> op_resolved p" "op_interaction p = ia"
    | (sub) k q where "(k, q) \<in> set (sv_subs sv)" "ps_interaction q = ia"
    by (auto simp: open_interactions_def)
  then show ?thesis
  proof cases
    case port
    then have "ia_id ia \<notin> fst ` set (sv_subs sv)" using d(3) by auto
    then have "map_of (sv_subs sv) (ia_id ia) = None" by (simp add: map_of_eq_None_iff)
    with port find_port [OF d(1), of p] show ?thesis by simp
  next
    case sub
    then have "k = ia_id ia" using assms(1) by (auto simp: well_identified_def)
    with sub d(2) have "map_of (sv_subs sv) (ia_id ia) = Some q" by (simp add: map_of_eq_Some_iff)
    with sub show ?thesis by simp
  qed
qed

section \<open>A small host\<close>

definition demo_host :: "(nat, unit) host" where
  "demo_host = \<lparr>h_body = (\<lambda>i. Some (\<lambda>m w. (Returned \<lparr>oc_payload = m, oc_routes = [], oc_stalled = True,
       oc_usage = no_usage\<lparr>us_input := 1\<rparr>\<rparr> no_usage, w))),
     h_inner = (\<lambda>i. None), h_cancel = (\<lambda>w. (False, w)), h_stop = id, h_epoch = id, h_now = (\<lambda>w. (0, w)), h_merge = None\<rparr>"

definition demo_supervisor :: "workflow \<Rightarrow> nat supervisor" where
  "demo_supervisor g = \<lparr>sv_graph = g, sv_valid = True, sv_principal = make_local_cli_principal ''ann'' ''t'', sv_require_caller = False,
     sv_denied = 0, sv_rounds = 0, sv_run_counter = 0, sv_run_id = [], sv_usage = no_usage, sv_reporter = ''a'', sv_stalls = 0,
     sv_resets = 0, sv_state = fresh_run, sv_ports = [], sv_subs = [], sv_cancelled = False, sv_transcript_cap = None\<rparr>"

definition demo_ask :: workflow where
  "demo_ask = (new_builder ''ask'')\<lparr>wf_executors := [(demo_node ''p'')\<lparr>ex_kind := RequestPort\<rparr>], wf_start := ''p'',
     wf_bound := unbounded_run\<lparr>tb_max_rounds := Some 3\<rparr>\<rparr>"

definition demo_asked :: "(nat, unit) finished" where
  "demo_asked = the (run_workflow demo_host (demo_note 7) None (demo_supervisor demo_ask) ())"

definition demo_port :: interaction where
  "demo_port = \<lparr>ia_id = ''ask:run:1:port:p:0'', ia_run_id = ''ask:run:1''\<rparr>"

lemma demo_asked_returns: "run_workflow demo_host (demo_note 7) None (demo_supervisor demo_ask) () = Some demo_asked"
  by code_simp

lemma demo_asked_reached: "reached demo_host (snd (fst demo_asked)) ()"
proof -
  have "idle (demo_supervisor demo_ask)" by (simp add: idle_def demo_supervisor_def fresh_run_def)
  from reached.start [OF this, of demo_host "()"] show ?thesis
  proof (rule reached.move)
    show "moves demo_host (demo_supervisor demo_ask, ()) (snd (fst demo_asked), ())"
      by (rule moves.run [of _ "demo_note 7" None _ _ "fst (fst demo_asked)"]) (simp add: demo_asked_returns prod_eq_iff)
  qed
qed

lemma demo_asked_open: "open_interactions (snd (fst demo_asked)) = [demo_port]"
  by code_simp

section \<open>Properties\<close>

text \<open>C15. Every interaction a supervisor reports open can be answered. After any sequence of runs, resumes, continuations and cancels
  on an idle supervisor, whatever its executors, its nested supervisors and the world did, the ids of the open interactions are
  distinct, an id minted next is none of those held, and the lookup of a resume by the id of an open interaction finds that
  interaction: the nested one, or the port, not yet answered.\<close>

theorem open_interactions_answerable:
  assumes "reached h sv w"
  shows "distinct (map ia_id (open_interactions sv)) \<and> ia_id (mint_interaction sv i) \<notin> set (held_ids sv) \<and>
    (\<forall>ia\<in>set (open_interactions sv). case map_of (sv_subs sv) (ia_id ia) of
       Some p \<Rightarrow> ps_interaction p = ia
     | None \<Rightarrow> \<exists>p. List.find (port_at (ia_id ia)) (sv_ports sv) = Some p \<and> \<not> op_resolved p \<and> op_interaction p = ia)"
  using reached_well_identified [OF assms] well_identified_open well_identified_lookup mint_interaction_fresh by blast

theorem open_interactions_answerable_witness:
  "\<exists>p. List.find (port_at ''ask:run:1:port:p:0'') (sv_ports (snd (fst demo_asked))) = Some p \<and> \<not> op_resolved p"
proof -
  have "map_of (sv_subs (snd (fst demo_asked))) ''ask:run:1:port:p:0'' = None" by code_simp
  with open_interactions_answerable [OF demo_asked_reached] demo_asked_open show ?thesis by (auto simp: demo_port_def)
qed

text \<open>C16. A workflow that bounds its rounds returns. With \<^verbatim>\<open>max_rounds\<close> set, every run, resume and continuation returns, whatever the graph,
  the executors' answers, the retries they ask for, the deadline and the cancellations, and leaves the round count within the
  bound, without wrap-around.\<close>

theorem bounded_workflow_returns:
  assumes "tb_max_rounds (wf_bound (sv_graph sv)) = Some n" and "sv_rounds sv \<le> n"
  shows "returns_within n (run_workflow h m caller sv w) \<and> returns_within n (resume_workflow h rq sv w) \<and>
    returns_within n (continue_workflow h caller sv w)"
  by (intro conjI run_workflow_returns resume_workflow_returns continue_workflow_returns assms)

theorem bounded_workflow_returns_witness: "returns_within 3 (run_workflow demo_host (demo_note 7) None (demo_supervisor demo_ask) ())"
proof -
  have "tb_max_rounds (wf_bound (sv_graph (demo_supervisor demo_ask))) = Some 3" "sv_rounds (demo_supervisor demo_ask) \<le> 3"
    by (simp_all add: demo_supervisor_def demo_ask_def)
  from bounded_workflow_returns [OF this, of demo_host "demo_note 7" None "()"] show ?thesis by (rule conjunct1)
qed

text \<open>A result's status agrees with what is left open. From any state reached by calls on an idle supervisor, a call that
  answers \<^verbatim>\<open>suspended\<close> leaves an interaction open and reports every open one, so a suspended run can always be answered; one that answers
  \<^verbatim>\<open>completed\<close> leaves none; and a supervisor marked cancelled has nothing left that could move.\<close>

theorem status_reports_open:
  assumes "reached h sv w"
    and "run_workflow h m caller sv w = Some ((r, sv'), w') \<or> resume_workflow h rq sv w = Some ((r, sv'), w') \<or>
      continue_workflow h caller sv w = Some ((r, sv'), w')"
  shows "(wr_status r = Suspended \<longrightarrow> wr_open r \<noteq> [] \<and> wr_open r = open_interactions sv') \<and>
    (wr_status r = Completed \<longrightarrow> open_interactions sv' = []) \<and> (sv_cancelled sv' \<longrightarrow> \<not> run_is_live sv')"
proof -
  have "reports_open ((r, sv'), w')"
    using assms(2) run_workflow_reports [OF _ reached_quiet [OF assms(1)], of h m caller w]
      resume_workflow_reports [OF _ reached_quiet [OF assms(1)], of h rq w]
      continue_workflow_reports [OF _ reached_quiet [OF assms(1)], of h caller w] by auto
  then show ?thesis by (auto simp: reports_open_def quiet_def nothing_open)
qed

theorem status_reports_open_witness: "wr_open (fst (fst demo_asked)) \<noteq> []"
proof -
  have "reached demo_host (demo_supervisor demo_ask) ()"
    by (rule reached.start) (simp add: idle_def demo_supervisor_def fresh_run_def)
  moreover have "run_workflow demo_host (demo_note 7) None (demo_supervisor demo_ask) () =
      Some ((fst (fst demo_asked), snd (fst demo_asked)), ())"
    by (simp add: demo_asked_returns prod_eq_iff)
  moreover have "wr_status (fst (fst demo_asked)) = Suspended" by code_simp
  ultimately show ?thesis
    using status_reports_open [of demo_host "demo_supervisor demo_ask" "()" "demo_note 7" None "fst (fst demo_asked)" "snd (fst demo_asked)" "()"]
    by blast
qed

text \<open>C17. A cancelled run never moves again. In any state reached by calls on an idle supervisor, once the run is marked cancelled no
  interaction is open and nothing is pending, and every later admitted resume or continuation answers \<^verbatim>\<open>cancelled\<close>, charges
  nothing and changes neither the supervisor nor the world.\<close>

theorem cancelled_run_is_final:
  assumes "reached h sv w" and "sv_cancelled sv" and "sv_valid sv" and "admit_caller caller sv" and "admit_caller (rq_caller rq) sv"
  shows "open_interactions sv = [] \<and> rn_pending (sv_state sv) = [] \<and>
    continue_workflow h caller sv w = Some ((cancelled_result sv, sv), w) \<and>
    resume_workflow h rq sv w = Some ((cancelled_result sv, sv), w)"
proof -
  have "usage_added_since u u = no_usage" for u by (simp add: usage_added_since_def monus_def no_usage_def)
  moreover have "(cancelled_result sv)\<lparr>wr_usage := no_usage\<rparr> = cancelled_result sv" "wr_status (cancelled_result sv) = Cancelled"
    by (simp_all add: cancelled_result_def bare_result_def)
  moreover have "open_interactions sv = [] \<and> rn_pending (sv_state sv) = []"
    using reached_quiet [OF assms(1)] assms(2) by (simp add: quiet_def run_is_live_def open_interactions_def)
  ultimately show ?thesis
    using assms by (simp add: continue_workflow_def resume_workflow_def continue_workflow_locked_def resume_workflow_locked_def
        refuse_if_cancelled_def settle_entry_def)
qed

definition demo_cancelled :: "nat supervisor" where
  "demo_cancelled = fst (cancel_idle demo_host (snd (fst demo_asked)) ())"

theorem cancelled_run_is_final_witness:
  "continue_workflow demo_host None demo_cancelled () = Some ((cancelled_result demo_cancelled, demo_cancelled), ())"
proof -
  have "reached demo_host demo_cancelled ()"
    by (rule reached.move [OF demo_asked_reached]) (rule moves.cancel, simp add: demo_cancelled_def prod_eq_iff)
  moreover have "sv_cancelled demo_cancelled" "sv_valid demo_cancelled" "admit_caller None demo_cancelled" by code_simp+
  ultimately show ?thesis
    using cancelled_run_is_final [of demo_host demo_cancelled "()" None
        "\<lparr>rq_interaction = [], rq_response = empty_message, rq_routes = [], rq_caller = None\<rparr>"] by simp
qed

text \<open>C18. A refused answer decides nothing. In any reached state, a resume answered \<^verbatim>\<open>admission_denied\<close> or \<^verbatim>\<open>invalid_routes\<close>, be it
  by this supervisor or by the nested one the answer was meant for, and one that names no interaction held, leaves
  the supervisor as it was: the same ports, nested interactions, pending messages, rounds, usage and results; only the count of
  refusals may move.\<close>

theorem refused_answer_changes_nothing:
  assumes "reached h sv w" and "resume_workflow h rq sv w = Some ((r, sv'), w')"
    and "wr_status r = AdmissionDenied \<or> wr_status r = InvalidRoutes \<or>
      wr_status r = Invalid \<and> rq_interaction rq \<notin> set (held_ids sv)"
  shows "undisturbed sv sv'"
proof -
  obtain r' w0 where l: "resume_workflow_locked h rq sv w = Some ((r', sv'), w0)" and st: "wr_status r' = wr_status r"
    using settle_entry_refused(2) [of h sv "resume_workflow_locked h rq sv w" r sv' w'] assms(2,3)
    by (auto simp: resume_workflow_def)
  consider "\<not> admit_caller (rq_caller rq) sv" | "\<not> sv_valid sv" "admit_caller (rq_caller rq) sv"
    | (passed) w1 where "admit_caller (rq_caller rq) sv" "sv_valid sv" "refuse_if_cancelled h sv w = Inr w1"
    | (refused) y where "admit_caller (rq_caller rq) sv" "sv_valid sv" "refuse_if_cancelled h sv w = Inl y"
    by (cases "refuse_if_cancelled h sv w") auto
  then show ?thesis
  proof cases
    case passed
    note c = refuse_if_cancelled_passes [OF passed(3)]
    show ?thesis
    proof (cases "map_of (sv_subs sv) (rq_interaction rq)")
      case None
      with l passed have "resume_port h rq sv w1 = Some ((r', sv'), w0)" by (simp add: resume_workflow_locked_def)
      from resume_port_refused [OF this c] st assms(3) show ?thesis by (auto simp: undisturbed_simps)
    next
      case (Some p)
      then have "rq_interaction rq \<in> set (held_ids sv)" using map_of_SomeD [OF Some] by (force simp: held_ids_def)
      with Some l passed st assms(3) show ?thesis
        using resume_nested_refused [OF _ reached_well_identified [OF assms(1)] c Some, of h w1 r' sv' w0]
        by (simp add: resume_workflow_locked_def)
    qed
  next
    case refused
    then have "wr_status r' = Cancelled"
      using l by (auto simp: resume_workflow_locked_def refuse_if_cancelled_def settle_cancelled_def finish_run_def run_result_def
          cancelled_result_def bare_result_def Let_def split: if_splits prod.splits)
    with st assms(3) show ?thesis by simp
  qed (use l in \<open>auto simp: resume_workflow_locked_def deny_admission_def undisturbed_simps\<close>)
qed

definition demo_answer_to :: "string \<Rightarrow> nat resume_request" where
  "demo_answer_to k = \<lparr>rq_interaction = k, rq_response = demo_note 8, rq_routes = [''nowhere''], rq_caller = None\<rparr>"

theorem refused_answer_changes_nothing_witness:
  "\<exists>r sv'. resume_workflow demo_host (demo_answer_to (ia_id demo_port)) (snd (fst demo_asked)) () = Some ((r, sv'), ()) \<and>
     wr_status r = InvalidRoutes \<and> undisturbed (snd (fst demo_asked)) sv'"
proof -
  let ?y = "the (resume_workflow demo_host (demo_answer_to (ia_id demo_port)) (snd (fst demo_asked)) ())"
  have "wr_status (fst (fst ?y)) = InvalidRoutes" by code_simp
  moreover have "resume_workflow demo_host (demo_answer_to (ia_id demo_port)) (snd (fst demo_asked)) () \<noteq> None" by code_simp
  then have "resume_workflow demo_host (demo_answer_to (ia_id demo_port)) (snd (fst demo_asked)) () =
      Some ((fst (fst ?y), snd (fst ?y)), ())" by (auto simp: prod_eq_iff)
  ultimately show ?thesis
    using refused_answer_changes_nothing [OF demo_asked_reached, of "demo_answer_to (ia_id demo_port)" "fst (fst ?y)" "snd (fst ?y)" "()"]
    by blast
qed

definition demo_spin :: "termination_bound \<Rightarrow> workflow" where
  "demo_spin b = (new_builder ''spin'')\<lparr>wf_executors := [demo_node ''a''], wf_edges := [demo_edge ''a'' ''a'' Direct []], wf_start := ''a'',
     wf_output_selection := [''a''], wf_bound := b\<rparr>"

definition spinning :: "termination_bound \<Rightarrow> nat supervisor \<Rightarrow> bool" where
  "spinning b sv \<longleftrightarrow> sv_graph sv = demo_spin b \<and> sv_ports sv = [] \<and> sv_subs sv = [] \<and>
     (\<exists>m. rn_pending (sv_state sv) = [\<lparr>dl_executor = 0, dl_payload = m\<rparr>])"

definition demo_reply :: "nat message \<Rightarrow> nat execute_reply" where
  "demo_reply m = \<lparr>er_payload = m, er_routes = [], er_ok = True, er_class = Fatal, er_stalled = True, er_pending = None,
     er_usage = no_usage\<lparr>us_input := 1\<rparr>\<rparr>"

lemma demo_spin_simps [simp]:
  "kind_at (demo_spin b) 0 = FunctionExec" "executor_id (demo_spin b) 0 = ''a''" "index_of (demo_spin b) ''a'' = 0"
  "edges_from (demo_spin b) 0 = [demo_edge ''a'' ''a'' Direct []]" "wf_bound (demo_spin b) = b"
  by (simp_all add: demo_spin_def demo_node_def demo_edge_def kind_at_def executor_id_def index_of_def edges_from_def new_builder_def)

lemma spin_route: "route_from (demo_spin b) 0 (demo_reply m) echo s = (RouteOk, (fst s, snd s @ [\<lparr>dl_executor = 0, dl_payload = m\<rparr>]))"
  by (simp add: route_from_def demo_reply_def deliver_edge_def demo_edge_def switch_cases_def default_edge_def switch_fired_def Let_def)

lemma spin_dispatch:
  "dispatch_executors demo_host (demo_spin b) [\<lparr>dl_executor = 0, dl_payload = m\<rparr>] u w = (([demo_reply m], u), w)"
  by (simp add: dispatch_executors_def to_dispatch_def first_replies_def run_attempts.simps run_executor_job_def collect_reply_def settled_def
      demo_host_def demo_reply_def add_usage_def no_usage_def Let_def)

lemma spin_subs: "dispatch_sub_workflows h g [] u w = (([], u), w)"
  by (simp add: dispatch_sub_workflows_def to_dispatch_def first_replies_def run_attempts.simps)

lemma spin_round:
  assumes "spinning b sv" and "tb_max_stalls b = None"
  shows "\<exists>sv'. execute_round demo_host sv w = ((None, sv'), w) \<and> spinning b sv'"
proof -
  from assms(1) obtain m where p: "rn_pending (sv_state sv) = [\<lparr>dl_executor = 0, dl_payload = m\<rparr>]" and g: "sv_graph sv = demo_spin b"
    and o: "sv_ports sv = []" "sv_subs sv = []"
    by (auto simp: spinning_def)
  have "h_merge demo_host = None" "h_cancel demo_host w = (False, w)" by (simp_all add: demo_host_def)
  moreover have "er_ok (demo_reply m)" by (simp add: demo_reply_def)
  ultimately show ?thesis
    using p g o assms(2)
    by (simp add: execute_round_def dispatch_round_def port_deliveries_def exec_deliveries_def sub_workflow_deliveries_def spin_dispatch
        spin_subs fold_output_def close_round_def spin_route run_routed_def stall_valve_def awaiting_outside_def spinning_def record_visit_def
        Let_def split: option.splits)
qed

lemma spin_turn:
  assumes "spinning b sv" and "tb_max_rounds b = None" and "tb_deadline_ms b = None" and "tb_max_stalls b = None"
  shows "\<exists>sv' w'. loop_turn demo_host entered sv w = Inr (sv', w') \<and> spinning b sv'"
proof -
  obtain sv' where "execute_round demo_host sv w = ((None, sv'), w)" "spinning b sv'" using spin_round [OF assms(1,4)] by blast
  moreover have "over_rounds sv = False" "over_deadline demo_host entered sv w = (False, w)" "rn_pending (sv_state sv) \<noteq> []"
    using assms by (auto simp: spinning_def over_rounds_def over_deadline_def)
  moreover have "h_cancel demo_host w = (False, w)" by (simp add: demo_host_def)
  ultimately show ?thesis by (simp add: loop_turn_def)
qed

definition budget_only :: "u64 \<Rightarrow> workflow" where
  "budget_only n = demo_spin (unbounded_run\<lparr>tb_token_budget := Some n\<rparr>)"

lemma budget_only_valid: "validate_workflow (budget_only n) = Inr ()"
  by code_simp

text \<open>A token budget is not a bound. A workflow of one executor that hands its output back to itself, bounded by a token budget alone,
  passes the validation that refuses unbounded workflows; run with an executor that always succeeds and charges one
  token a round, it does not return, whatever the budget.\<close>

theorem token_budget_never_stops:
  "validate_workflow (budget_only n) = Inr () \<and> run_workflow demo_host m None (demo_supervisor (budget_only n)) () = None"
proof -
  let ?b = "unbounded_run\<lparr>tb_token_budget := Some n\<rparr>" and ?sv = "demo_supervisor (budget_only n)"
  have b: "tb_max_rounds ?b = None" "tb_deadline_ms ?b = None" "tb_max_stalls ?b = None" by (simp_all add: unbounded_run_def)
  have s: "spinning ?b (start_run m (fst (begin_cancel_epoch demo_host ?sv ())))" (is "spinning _ ?s")
    by (simp add: spinning_def start_run_def begin_cancel_epoch_def budget_only_def demo_supervisor_def Let_def)
      (simp add: demo_spin_def index_of_def demo_node_def)
  have "execute_loop demo_host e ?s w = None" for e w
    by (rule execute_loop_diverges [of "\<lambda>sv w. spinning ?b sv", OF s]) (rule spin_turn [OF _ b])
  moreover have "fold_answers ?s = (None, ?s)" by (simp add: fold_answers_def start_run_def Let_def)
  ultimately have "execute demo_host ?s w = None" for w by (simp add: execute_def split: prod.splits)
  then have "run_workflow demo_host m None ?sv () = None"
    by (auto simp: run_workflow_def demo_supervisor_def admit_caller_def split: prod.splits)
  with budget_only_valid show ?thesis by simp
qed

text \<open>What a run used up of its resets is missing in the next. Two runs of one supervisor on the same input, with one
  stalled round allowed before a reset and one reset: the first ends at the reset bound after two rounds, the second, which starts
  with the resets of the first still counted, after one.\<close>

theorem resets_carried_into_next_run:
  "let g = demo_spin (unbounded_run\<lparr>tb_max_stalls := Some 1, tb_max_resets := Some 1\<rparr>);
       first = the (run_workflow demo_host (demo_note 7) None (demo_supervisor g) ());
       second = the (run_workflow demo_host (demo_note 7) None (snd (fst first)) ())
   in wr_status (fst (fst first)) = BoundMaxResets \<and> wr_rounds (fst (fst first)) = 2 \<and>
      wr_status (fst (fst second)) = BoundMaxResets \<and> wr_rounds (fst (fst second)) = 1"
  by code_simp

text \<open>In a round every executor delivered to is dispatched, and an agent only once: of the deliveries to one agent the first is
  dispatched and the rest are quarantined, so no agent session is entered twice at the same time; executors of other
  kinds get each of their deliveries.\<close>

theorem agent_dispatched_once:
  "let sent = set (to_dispatch (quarantine (\<lambda>i. kind_at g i = AgentExec) [] (map dl_executor ds)))
   in (\<lambda>i. dl_executor (ds ! i)) ` sent = dl_executor ` set ds \<and> sent \<subseteq> {..<length ds} \<and>
      (\<forall>i<length ds. i \<in> sent \<longleftrightarrow>
         kind_at g (dl_executor (ds ! i)) \<noteq> AgentExec \<or> (\<forall>j<i. dl_executor (ds ! j) \<noteq> dl_executor (ds ! i)))"
proof -
  let ?s = "set (to_dispatch (quarantine (\<lambda>i. kind_at g i = AgentExec) [] (map dl_executor ds)))"
  have "i \<in> ?s \<longleftrightarrow> i < length ds \<and> (kind_at g (dl_executor (ds ! i)) \<noteq> AgentExec \<or> dl_executor (ds ! i) \<notin> set (take i (map dl_executor ds)))" for i
    using quarantine_nth [of i "map dl_executor ds" "\<lambda>i. kind_at g i = AgentExec" "[]"] by (auto simp: to_dispatch_iff)
  moreover have "dl_executor (ds ! i) \<in> set (take i (map dl_executor ds)) \<longleftrightarrow> (\<exists>j<i. dl_executor (ds ! j) = dl_executor (ds ! i))"
    if "i < length ds" for i
    using that by (auto simp: in_set_conv_nth)
  moreover have "(\<lambda>i. map dl_executor ds ! i) ` ?s = dl_executor ` set ds"
    using dispatched_all [of "map dl_executor ds" "\<lambda>i. kind_at g i = AgentExec"] by simp
  moreover have "(\<lambda>i. map dl_executor ds ! i) ` ?s = (\<lambda>i. dl_executor (ds ! i)) ` ?s"
    by (rule image_cong) (auto simp: to_dispatch_iff)
  ultimately show ?thesis by (auto simp: Let_def)
qed

definition demo_agent :: workflow where
  "demo_agent = (new_builder ''solo'')\<lparr>wf_executors := [(demo_node ''a'')\<lparr>ex_kind := AgentExec\<rparr>]\<rparr>"

theorem agent_dispatched_once_witness:
  "0 \<in> set (to_dispatch (quarantine (\<lambda>i. kind_at demo_agent i = AgentExec) [] (map dl_executor [\<lparr>dl_executor = 0, dl_payload = demo_note 1\<rparr>, \<lparr>dl_executor = 0, dl_payload = demo_note 2\<rparr>]))) \<and>
   1 \<notin> set (to_dispatch (quarantine (\<lambda>i. kind_at demo_agent i = AgentExec) [] (map dl_executor [\<lparr>dl_executor = 0, dl_payload = demo_note 1\<rparr>, \<lparr>dl_executor = 0, dl_payload = demo_note 2\<rparr>])))"
proof -
  have k: "kind_at demo_agent 0 = AgentExec" by (simp add: demo_agent_def kind_at_def)
  let ?ds = "[\<lparr>dl_executor = 0, dl_payload = demo_note 1\<rparr>, \<lparr>dl_executor = 0, dl_payload = demo_note 2\<rparr>]"
  let ?s = "set (to_dispatch (quarantine (\<lambda>i. kind_at demo_agent i = AgentExec) [] (map dl_executor ?ds)))"
  have "\<forall>i<length ?ds. i \<in> ?s \<longleftrightarrow> kind_at demo_agent (dl_executor (?ds ! i)) \<noteq> AgentExec \<or> (\<forall>j<i. dl_executor (?ds ! j) \<noteq> dl_executor (?ds ! i))"
    using agent_dispatched_once [of demo_agent ?ds] unfolding Let_def by (elim conjE)
  from this [rule_format, of 0] this [rule_format, of 1] k show ?thesis by simp
qed

section \<open>Checkpoints\<close>

text \<open>What a record does not hold has to be as a fresh supervisor has it: the nested interactions, the transcript, the
  usage of answered ports; an index has to fit a 64-bit field.\<close>

definition recordable :: "'c supervisor \<Rightarrow> bool" where
  "recordable sv \<longleftrightarrow> sv_subs sv = [] \<and> sv_usage sv = no_usage \<and> rn_transcript (sv_state sv) = [] \<and> \<not> rn_truncated (sv_state sv) \<and>
     (\<forall>p\<in>set (sv_ports sv). op_usage p = no_usage \<and> op_executor p < 2 ^ 64) \<and>
     (\<forall>d\<in>set (rn_pending (sv_state sv)). dl_executor d < 2 ^ 64) \<and>
     (\<forall>f\<in>set (rn_held (sv_state sv)). hf_executor f < 2 ^ 64 \<and> (\<forall>i\<in>set (hf_awaiting f). i < 2 ^ 64))"

lemma unat_index: "i < 2 ^ 64 \<Longrightarrow> unat (of_nat i :: u64) = i"
  by (simp add: unsigned_of_nat take_bit_nat_eq_self)

text \<open>A checkpoint restores the run. The record of a supervisor, restored into a freshly initialized one of the same configuration,
  gives back that supervisor: run id and counter, round, pending messages, outputs, ports with their answers, elapsed time, join barriers,
  stall bookkeeping and the cancelled mark, provided what a record does not hold is as in a fresh supervisor.\<close>

theorem checkpoint_round_trip:
  assumes "recordable sv" and "config_of sv0 = config_of sv" and "sv_subs sv0 = []" and "sv_usage sv0 = no_usage" and "sv_denied sv0 = sv_denied sv"
  shows "restore_from_record h (to_record sv) sv0 w = (sv, h_epoch h w)"
proof -
  let ?s = "sv_state sv"
  have "map ((\<lambda>(i, m). \<lparr>dl_executor = unat i, dl_payload = m\<rparr>) \<circ> (\<lambda>d. (of_nat (dl_executor d) :: u64, dl_payload d))) (rn_pending ?s) = rn_pending ?s"
    using assms(1) by (auto simp: recordable_def unat_index intro!: map_idI)
  moreover have "map ((\<lambda>(i, m, b, is). \<lparr>hf_executor = unat i, hf_payload = m, hf_seeded = b, hf_awaiting = map unat is\<rparr>) \<circ>
      (\<lambda>h. (of_nat (hf_executor h) :: u64, hf_payload h, hf_seeded h, map of_nat (hf_awaiting h) :: u64 list))) (rn_held ?s) = rn_held ?s"
    using assms(1) by (auto simp: recordable_def unat_index comp_def intro!: map_idI held_fan_in.equality)
  moreover have "map ((\<lambda>(ia, i, m, routes, b). \<lparr>op_interaction = ia, op_executor = unat i, op_response = m,
        op_routes = routes, op_resolved = b, op_usage = no_usage\<rparr>) \<circ>
      (\<lambda>p. (op_interaction p, of_nat (op_executor p) :: u64, op_response p, op_routes p, op_resolved p))) (sv_ports sv) = sv_ports sv"
    using assms(1) by (auto simp: recordable_def unat_index intro!: map_idI open_port.equality)
  ultimately show ?thesis
    using assms by (auto simp: restore_from_record_def to_record_def begin_cancel_epoch_def recordable_def fresh_run_def config_of_def Let_def
        intro!: supervisor.equality run_state.equality)
qed

theorem checkpoint_round_trip_witness:
  "restore_from_record demo_host (to_record (snd (fst demo_asked))) (demo_supervisor demo_ask) () = (snd (fst demo_asked), ())"
proof -
  let ?sv = "snd (fst demo_asked)" and ?fresh = "demo_supervisor demo_ask"
  have "map op_executor (sv_ports ?sv) = [0]" "map op_usage (sv_ports ?sv) = [no_usage]" by code_simp+
  then have "\<forall>p\<in>set (sv_ports ?sv). op_usage p = no_usage \<and> op_executor p < 2 ^ 64" by auto
  moreover have "sv_subs ?sv = []" "sv_usage ?sv = no_usage" "rn_transcript (sv_state ?sv) = []" "\<not> rn_truncated (sv_state ?sv)"
    "rn_pending (sv_state ?sv) = []" "rn_held (sv_state ?sv) = []"
    by code_simp+
  ultimately have "recordable ?sv" by (simp add: recordable_def)
  moreover have "config_of ?fresh = config_of ?sv" "sv_denied ?fresh = sv_denied ?sv" "sv_subs ?fresh = []" "sv_usage ?fresh = no_usage"
    by code_simp+
  ultimately have "restore_from_record demo_host (to_record ?sv) ?fresh () = (?sv, h_epoch demo_host ())"
    by (intro checkpoint_round_trip)
  then show ?thesis by simp
qed

text \<open>A restore does not forget the nested interactions of the run it replaces. Restoring a record, of any other run, into a supervisor that still
  tracks a nested interaction leaves it tracked: an answer that names it is not refused as unknown but handed to the nested
  supervisor, and its outcome folded into the restored run.\<close>

theorem restore_keeps_nested_interactions:
  assumes "map_of (sv_subs sv) (rq_interaction rq) = Some p" and "admit_caller (rq_caller rq) sv" and "sv_valid sv"
    and "\<not> rr_cancelled rec" and "restore_from_record h rec sv w = (sv', w')" and "h_cancel h w' = (False, w1)"
  shows "resume_workflow_locked h rq sv' w' = resume_nested h rq p sv' w1"
proof -
  have "sv_subs sv' = sv_subs sv" "sv_valid sv' = sv_valid sv" "\<not> sv_cancelled sv'" "admit_caller c sv' = admit_caller c sv" for c
    using assms(4,5) by (auto simp: restore_from_record_def begin_cancel_epoch_def admit_caller_def Let_def split: option.splits)
  then show ?thesis using assms by (simp add: resume_workflow_locked_def refuse_if_cancelled_def)
qed

definition demo_nested :: "nat supervisor" where
  "demo_nested = (demo_supervisor demo_ask)\<lparr>sv_subs := [(''old'', \<lparr>ps_interaction = \<lparr>ia_id = ''old'', ia_run_id = ''ask:run:9''\<rparr>, ps_executor = 0,
     ps_inner = ''inner''\<rparr>)]\<rparr>"

theorem restore_keeps_nested_interactions_witness:
  "let sv = fst (restore_from_record demo_host (to_record (snd (fst demo_asked))) demo_nested ())
   in resume_workflow_locked demo_host (demo_answer_to ''old'') sv () =
      resume_nested demo_host (demo_answer_to ''old'') (snd (hd (sv_subs demo_nested))) sv ()"
proof -
  let ?y = "restore_from_record demo_host (to_record (snd (fst demo_asked))) demo_nested ()"
  have "map_of (sv_subs demo_nested) (rq_interaction (demo_answer_to ''old'')) = Some (snd (hd (sv_subs demo_nested)))"
    "admit_caller (rq_caller (demo_answer_to ''old'')) demo_nested" "sv_valid demo_nested" "\<not> rr_cancelled (to_record (snd (fst demo_asked)))"
    by code_simp+
  moreover have "?y = (fst ?y, ())" "h_cancel demo_host () = (False, ())" by (simp_all add: prod_eq_iff demo_host_def)
  ultimately show ?thesis unfolding Let_def by (rule restore_keeps_nested_interactions)
qed

end
