(* ===== verification/Spec2Isabelle.thy ===== *)
theory Spec2Isabelle
  imports AgentSpawn Tokens Registry Identity Quota Breaker Base64 Fips180 WorktreeMerge
    WorktreeScoping AgentSession WorkflowSafety
begin

text \<open>
  A verification library for AgentEngine, a C++23 runtime that runs language-model agents under
  explicit authority. The theories model the code under \<^verbatim>\<open>src/\<close> function by function
  and prove what each part promises. The definitions are executable, except
  the statement of the hash standard over the real numbers (\<open>Fips180\<close>).

  \<^bold>\<open>The parts of the program and where they are modelled.\<close>

  \<^item> \<^emph>\<open>Errors and limits\<close> (\<open>Bounds\<close>, \<open>Prelude\<close>): \<^verbatim>\<open>core/error.hpp\<close>, \<^verbatim>\<open>core/bound.hpp\<close>,
    \<^verbatim>\<open>core/bound_value.hpp\<close>, \<^verbatim>\<open>trust/spawn_budget.hpp\<close>. An \<^verbatim>\<open>std::expected<T, error>\<close> is the sum
    \<open>'a result\<close>: \<open>Inl\<close> the failure class and code, \<open>Inr\<close> the value. The human-readable message
    of an error is not modelled. Unsigned integers are words of their width.
  \<^item> \<^emph>\<open>Capabilities\<close> (\<open>Capabilities\<close>, \<open>CapabilitySets\<close>, \<open>AgentSpawn\<close>): \<^verbatim>\<open>trust/capability.hpp\<close> and
    \<^verbatim>\<open>trust/agent_spawn_capability.hpp\<close>. The variant of capability kinds is a datatype, each payload
    a record, every \<^verbatim>\<open>subsumes_payload\<close> and \<^verbatim>\<open>clamp_quantities\<close> overload a definition; capability
    sets, invocation-bound handles and their bus, clamped bindings, the depth check and the minting
    of a child's set. Shown: subsumption is a preorder, attenuation and clamping never widen, a
    handle works exactly until it is revoked, a spawned child gets no authority its caller does
    not hold, and spawn chains are bounded.
  \<^item> \<^emph>\<open>Cryptographic hashes\<close> (\<open>Sha256\<close>, \<open>Fips180\<close>): \<^verbatim>\<open>detail/sha256_posix.hpp\<close>, \<^verbatim>\<open>trust/hmac_posix.cpp\<close>,
    \<^verbatim>\<open>core/worktree_digest_posix.cpp\<close>. \<open>Fips180\<close> states FIPS 180-4 on its own: the constants from the
    roots of the first primes, the schedule by recursion, the rounds on eight variables, the padding of the whole message. It
    shares no table and no function with the model of the code, and the code is shown to compute it; the HMAC equals RFC 2104.
  \<^item> \<^emph>\<open>Tokens, registry, identity\<close> (\<open>Tokens\<close>, \<open>Registry\<close>, \<open>Identity\<close>): bearer tokens with caveats
    chained by HMAC, the registry of opaque references, principals and the identity authority with
    its durable log. Shown: what a token's signature binds, that no reference gives more than some
    grant, that delegation is bounded and admission one hop, that adopted identities are stable
    when their names hold no delimiter of the adoption log.
  \<^item> \<^emph>\<open>Runtime limits\<close> (\<open>Quota\<close>, \<open>Breaker\<close>): \<^verbatim>\<open>rt/async_quota.hpp\<close>, \<^verbatim>\<open>rt/spawn_cost_budget.hpp\<close>,
    \<^verbatim>\<open>rt/circuit_breaker.hpp\<close>. Quota objects live in an explicit store, because moving and consuming
    them is what the code's safety rests on; a mutex-guarded body is one step.
  \<^item> \<^emph>\<open>Encodings\<close> (\<open>Base64\<close>, \<open>Json\<close>): \<^verbatim>\<open>core/base64.hpp\<close> and \<^verbatim>\<open>core/json_value.hpp\<close>. Round trips, and
    that the JSON parser stays within its depth and node budget and accepts no repeated key.
  \<^item> \<^emph>\<open>Append logs\<close> (\<open>AppendLog\<close>, \<open>FileLog\<close>): \<^verbatim>\<open>rt/append_log_store.hpp\<close>,
    \<^verbatim>\<open>rt/append_log_file_store.hpp\<close> and \<^verbatim>\<open>src/rt/append_log_file.cpp\<close>. The concept
    \<^verbatim>\<open>AppendLogStore\<close> is the record \<open>log_ops\<close> and the locale \<open>append_log\<close>; the in-memory store and
    the file store both interpret it. A file is its bytes; what the operating system may do to
    one call (fail to open, stop a write after some bytes, fail to undo it, fail to sync) is a value of
    \<open>io_faults\<close>. Shown: an append either adds the record or leaves the readable log as it was,
    an append cut at any byte is recovered, and a damaged payload is reported.
  \<^item> \<^emph>\<open>Worktrees\<close> (\<open>Worktree\<close>, \<open>WorktreeMerge\<close>): \<^verbatim>\<open>core/worktree_types.hpp\<close>,
    \<^verbatim>\<open>core/worktree_ref_store.hpp\<close>, \<^verbatim>\<open>core/worktree_sub.hpp\<close>, \<^verbatim>\<open>core/worktree_merge.hpp\<close>. The
    content-addressed store is a pair of maps, a ref is the last entry of its log. Shown: committed
    turns stay readable through later operations, rewinding restores a turn, sub-worktrees are
    isolated as their sharing mode says, a merge takes each side's changes and loses none, it
    terminates, and merging a branch never overwrites a parent that moved before the recheck. Other writers act before every ref
    operation of such a merge, the commit included: a move between the recheck and the commit is not noticed, and an example shows it overwritten.

  \<^item> \<^emph>\<open>Using worktrees\<close> (\<open>WorktreeDiff\<close>, \<open>WorktreeMount\<close>, \<open>WorktreeScoping\<close>): \<^verbatim>\<open>core/worktree_diff.hpp\<close>,
    \<^verbatim>\<open>core/worktree_mount.hpp\<close>, \<^verbatim>\<open>workflow/worktree_scoping.hpp\<close>. A diff lists exactly the files whose
    content differs, with the kind of change. A guest write changes exactly one path that its
    capability covers, with the sum of the
    lengths of the files and their number within quota, and reads back; the evidence of merge conflicts is kept. The worktrees of a
    workflow's executors are, over the in-memory store, minted once, disjoint, and found again on resume; on the file
    store minting is always refused.
  \<^item> \<^emph>\<open>Workflow graphs\<close> (\<open>WorkflowGraph\<close>, \<open>ReviewPoints\<close>): \<^verbatim>\<open>workflow/graph.hpp\<close> and
    \<^verbatim>\<open>workflow/review_points.hpp\<close>. The validator accepts exactly the well-formed graphs, with its
    worklist equal to graph reachability; inserted review ports mediate every way out of the reviewed
    step; the sequential builder always yields a valid graph.
  \<^item> \<^emph>\<open>Workflow supervisor\<close> (\<open>WorkflowRouting\<close>, \<open>WorkflowRun\<close>, \<open>WorkflowKept\<close>, \<open>WorkflowRounds\<close>, \<open>WorkflowSafety\<close>):
    \<^verbatim>\<open>rt/workflow_supervisor.hpp\<close> and \<^verbatim>\<open>src/rt/workflow_supervisor.cpp\<close>. Routing with fan-in barriers; the superstep loop
    with its quarantine, retries, merges, routing, stall valve, ports and nested workflows; the entry points
    \<^verbatim>\<open>run_workflow\<close>, \<^verbatim>\<open>resume_workflow\<close>, \<^verbatim>\<open>continue_workflow\<close> and an idle \<^verbatim>\<open>cancel\<close>; the checkpoint record. Executor
    bodies, nested supervisors, clock, canceller and merge hook are the record \<open>host\<close>, functions of a threaded world,
    so a theorem holds for everything they may do. Shown: a join fires once with all contributions; an accepted answer can be
    routed; with \<^verbatim>\<open>max_rounds\<close> every call returns, with a token budget alone it need not; every open interaction can be answered; a status
    agrees with what is open; a cancelled run is final; a refused answer changes nothing; an agent is dispatched once a round; a checkpoint
    restores the run. Also shown: resets used by one run are missing in the next, and a restore keeps nested interactions of the
    run it replaces.
  \<^item> \<^emph>\<open>Effect journal\<close> (\<open>EffectJournal\<close>): \<^verbatim>\<open>rt/effect_journal.hpp\<close> and the idempotency keys of
    \<^verbatim>\<open>core/tool_pipeline.hpp\<close>. The record codec is exact, and after any run of journal writes the
    unconfirmed intents are exactly those without an outcome.
  \<^item> \<^emph>\<open>Tool pipeline\<close> (\<open>ToolPipeline\<close>): \<^verbatim>\<open>core/tool_pipeline.hpp\<close>, \<^verbatim>\<open>src/core/tool_pipeline.cpp\<close>,
    \<^verbatim>\<open>core/tool_descriptor.hpp\<close>, \<^verbatim>\<open>trust/delegated_approval_policy.hpp\<close>. A call is resolved, bound to its capabilities, approved, run
    and normalized. Shown: when exactly a call is admitted; the handles of a call stay within its declaration and the caller's
    grants and are dead once the call returns, while a tool that throws leaves them live; text-derived calls are never less gated than structured ones; a batch is partitioned without
    loss and without running two members of an exclusivity group at once; results are tainted and bounded. Also shown: the gate
    for text-derived calls does not look at a per-call requirement.
  \<^item> \<^emph>\<open>Agent sessions\<close> (\<open>SessionState\<close>, \<open>SessionDispatch\<close>, \<open>SessionRun\<close>, \<open>AgentSession\<close>): \<^verbatim>\<open>rt/agent_session_core.hpp\<close>,
    \<^verbatim>\<open>src/rt/agent_session_core.cpp\<close> and the headers under \<^verbatim>\<open>core/\<close> they use. A session is the record \<open>session\<close>; what it is wired
    to (model, context provider, tools, hooks, deciders, client, clock, cancellation, the events sent through the context's sinks) is the record \<open>session_host\<close> of functions of a
    threaded world. Admission, interactions, redaction, records, restore and fork; the dispatch of a round's calls; the turn loop with its
    stream retries, token budget, hook stage, approval gate and suspensions; \<^verbatim>\<open>start_run\<close> and \<^verbatim>\<open>resolve_interaction\<close> for approvals,
    hook decisions, script questions and client input. A tool may throw: the run then ends with the reason
    \<open>EndException\<close>. What the tools, the hooks and the run-end hook report while they run reaches the event stream through the sinks
    (\<open>drain_sinks\<close>). Shown: with a bound on the turns every call returns; an answer ends the
    history, is within the budget, and the authority in force at its end is the one its call was admitted with; history and events only grow and no call changes
    the choices; a call that needs a decider is never dispatched while the session waits for a human; every call of a round in which no tool throws is
    answered and reported once; call ids are made unique; a restored session gives no id that is still open in its record to a new question
    (ids answered before the record are given out again); a record restores what it holds. Also
    shown: a human's approval of a call with a per-call requirement has no effect, a restore loses the delegation depth of its
    principal, and the end of a run canceled while suspended is not reported.

  \<^bold>\<open>Interfaces.\<close> \<open>append_log\<close> and \<open>reliable_log\<close> state what a log store promises; \<open>ref_log\<close> extends
  them for refs. Clients are proved inside these locales and interpreted on both stores
  (\<open>mem\<close>, \<open>disk\<close>, \<open>mem_refs\<close>, \<open>disk_refs\<close>). \<open>kept_by_rounds\<close> and \<open>kept_by_runs\<close> state what makes a predicate an invariant
  of a supervisor's rounds and entry points; interaction ids, configuration and liveness interpret them (\<open>ids\<close>, \<open>cfg\<close>, \<open>live\<close>). \<open>handle_admission\<close>
  states what both ways into the tool pipeline promise about handles (\<open>foreground\<close>, \<open>detached\<close>). \<open>stage_frame\<close> states what a relation
  between session states must satisfy to hold for a sequence of stages; it is interpreted on what a run keeps (\<open>framed\<close>,
  \<open>steadied\<close>, \<open>quieted\<close>) and on what a call keeps (\<open>sessioned\<close>, \<open>called\<close>).

  \<^bold>\<open>Parameters and hypotheses.\<close> The digest function of a worktree is a parameter; where needed
  it is assumed free of collisions. The conversion of a double to and from decimal text is the record
  \<open>num_ops\<close>, assumed to read back what it printed (\<open>number_ok\<close>), as \<^verbatim>\<open>std::to_chars\<close> documents. The
  random source of references and secrets and the clock are arguments. A version 1 log stores
  lengths in native order; the model reads them little-endian.

  \<^bold>\<open>Fuel and bounds.\<close> The JSON parser takes the length of its input plus one as fuel, and is proved
  never to run out. The tree merge takes fuel and is proved to return when the fuel is at least
  the depth of our tree; a content-addressed tree is finite, so such fuel exists. The tree diff and the
  quota count of a mount take the depth of their trees in the same way. The search for a free interaction id takes one more step
  than there are ids held, and is proved to find one. The supervisor's round loop and a session's turn
  loop are partial functions whose value is \<^const>\<open>None\<close> when they do not return. The search for a free call id takes as many steps as there are
  ids taken, and is proved to find one. Every other loop is a total function.

  \<^bold>\<open>Not modelled.\<close> The network transports, sandbox backends, process and thread plumbing are
  operating-system calls. The Windows hash code calls the system's library only. Interleavings inside one
  mutex-guarded or file-locked body are excluded by that lock; the jobs of one supervisor wave are taken in
  their fixed collection order. Of the supervisor, vendor batches, the event stream, the live view, the checkpoint
  hook and the binding of nested supervisors are not modelled, and cost estimates (doubles) are left out of usage. Of a session, background tasks and
  wakeups, approved lessons, the JSON form of a record, and the budget handed on to delegated agents are not modelled. Of the host's functions only the tools throw, the others return; an exception
  in a job of a parallel class ends the process in the code, and in the model the round; the jobs of a parallel batch are taken in the order
  of admission, and the host's settings do not change during a call. The retry policy, YAML values and bearer tokens over HTTP are candidates for later
  extensions.
\<close>

end
